(* ===== verification/Prelude.thy ===== *)
theory Prelude
  imports Main "HOL-Library.Word"
begin

text \<open>
  The prelude of the PrOS development: the C integer types as machine words, the
  error numbers of \<^verbatim>\<open>kernel/include/errno.h\<close>, the collections of simplification
  rules the component theories extend, and the generic facts on words and lists that
  several components share.
\<close>

unbundle bit_operations_syntax

section \<open>C integer types\<close>

type_synonym u8 = "8 word"
type_synonym u16 = "16 word"
type_synonym u32 = "32 word"
type_synonym u64 = "64 word"

text \<open>\<^verbatim>\<open>cword\<close> collects the rewrites that move word arithmetic to natural numbers.\<close>

named_theorems cword

section \<open>Words as bounded natural numbers\<close>

lemma unat_lt_u64: "unat (x :: u64) < 18446744073709551616"
  using unsigned_less [of x, where ?'a = nat] by simp

lemma unat_inject: "unat x = unat y \<longleftrightarrow> x = (y :: 'a::len word)"
  by (simp add: word_unat_eq_iff)

lemma offset_eq_iff: "x - a = k \<longleftrightarrow> x = a + (k :: 'a::len word)"
  by (auto simp: algebra_simps)

lemma unat_diff_u64:
  "unat (x - y :: u64) =
     (if unat y \<le> unat x then unat x - unat y else unat x + 18446744073709551616 - unat y)"
  by (simp add: unat_sub_if_size word_size)

lemma unat_inc [cword]:
  fixes x y :: "'a::len word"
  assumes "x < y"
  shows "unat (x + 1) = unat x + 1"
proof -
  have "unat x + 1 < 2 ^ LENGTH('a)"
    using assms unsigned_less [of y, where ?'a = nat] by (simp only: word_less_nat_alt)
  then show ?thesis by (simp add: unat_word_ariths)
qed

lemma unat_dec [cword]:
  fixes x :: "'a::len word"
  assumes "x \<noteq> 0"
  shows "unat (x - 1) = unat x - 1"
proof -
  have "1 \<le> x" using assms by (simp add: word_le_nat_alt unat_gt_0 Suc_leI)
  then show ?thesis by (simp add: unat_sub)
qed

lemma unat_pred_less:
  fixes x y :: "'a::len word"
  assumes "y < x"
  shows "unat (x - 1) < unat x"
proof -
  have "x \<noteq> 0" using assms by (auto simp: word_less_nat_alt)
  then show ?thesis using unat_gt_0 [of x] by (simp add: unat_dec)
qed

lemma unat_add_small [cword]:
  fixes x y :: "'a::len word"
  assumes "unat x + unat y < 2 ^ LENGTH('a)"
  shows "unat (x + y) = unat x + unat y"
  using assms by (simp add: unat_word_ariths)

lemma unat_add_u64:
  "unat x + unat y < 18446744073709551616 \<Longrightarrow> unat (x + y :: u64) = unat x + unat y"
  by (simp add: unat_add_small)

lemma unat_of_nat_small [cword]:
  "n < 2 ^ LENGTH('a) \<Longrightarrow> unat (of_nat n :: 'a::len word) = n"
  by (simp add: unat_of_nat)

lemma unat_add_of_nat: "unat (x :: u64) + n < 2 ^ 64 \<Longrightarrow> unat (x + of_nat n) = unat x + n"
  using unat_add_u64 [of x "of_nat n"] by (simp add: unat_of_nat_small)

lemma of_nat_inject_u64:
  assumes "i < 18446744073709551616" "j < 18446744073709551616"
  shows "of_nat i = (of_nat j :: u64) \<longleftrightarrow> i = j"
  using assms unat_of_nat_small [of i, where 'a = 64] unat_of_nat_small [of j, where 'a = 64]
  by (simp add: unat_inject [symmetric])

section \<open>Aligning an address\<close>

lemma and_not_mask: "(x :: 'a::len word) AND NOT (mask n) = x - take_bit n x"
proof -
  have "x AND NOT (mask n) = push_bit n (drop_bit n x)"
    by (rule bit_eqI) (auto simp: bit_simps)
  then show ?thesis using bits_ident [of n x] by (simp add: algebra_simps)
qed

lemma unat_take_bit: "unat (take_bit n x :: 'a::len word) = unat x mod 2 ^ n"
proof -
  have "unat (take_bit n x) = take_bit n (unat x)" by (rule unsigned_take_bit_eq)
  also have "\<dots> = unat x mod 2 ^ n" by (rule take_bit_eq_mod)
  finally show ?thesis .
qed

lemma unat_and_not_mask: "unat ((x :: 'a::len word) AND NOT (mask n)) = unat x - unat x mod 2 ^ n"
proof -
  have "take_bit n x \<le> x" by (simp add: word_le_nat_alt unat_take_bit)
  then show ?thesis by (simp add: and_not_mask unat_sub unat_take_bit)
qed

section \<open>Lists\<close>

lemma map_nth_upt_take:
  "n \<le> length xs \<Longrightarrow> map ((!) xs) [0..<n] = take n xs"
  by (simp add: list_eq_iff_nth_eq)

end
