(* ===== verification/Ring_Buffer.thy ===== *)
theory Ring_Buffer
  imports Prelude
begin

text \<open>
  The byte ring buffer of \<^verbatim>\<open>kernel/src/core/ring_buffer.c\<close>: a caller-owned array with a
  head, a tail and a count, all of type \<^verbatim>\<open>size_t\<close>. The bounded FIFO contract it
  implements is the locale \<open>bounded_fifo\<close>; the interpretation at the end discharges it
  for the three C functions.
\<close>

section \<open>The structure and its operations\<close>

record ring_buffer =
  rb_buf :: "u8 list"
  rb_capacity :: u64
  rb_head :: u64
  rb_tail :: u64
  rb_count :: u64

text \<open>A \<^verbatim>\<open>NULL\<close> argument is \<open>None\<close>. An update of \<open>rb_buf\<close> outside the array is
  undefined behaviour in C; the invariant below excludes it.\<close>

definition ring_buffer_init :: "ring_buffer option \<Rightarrow> u8 list option \<Rightarrow> u64 \<Rightarrow> ring_buffer option" where
  "ring_buffer_init rb buf capacity =
     (case (rb, buf) of
        (Some r, Some b) \<Rightarrow>
          if capacity = 0 then rb
          else Some (r\<lparr>rb_buf := b, rb_capacity := capacity,
                       rb_head := 0, rb_tail := 0, rb_count := 0\<rparr>)
      | _ \<Rightarrow> rb)"

definition ring_buffer_push :: "ring_buffer option \<Rightarrow> u8 \<Rightarrow> bool \<times> ring_buffer option" where
  "ring_buffer_push rb byte =
     (case rb of
        None \<Rightarrow> (False, None)
      | Some r \<Rightarrow>
          if rb_count r = rb_capacity r then (False, Some r)
          else (True, Some (r\<lparr>rb_buf := (rb_buf r)[unat (rb_tail r) := byte],
                              rb_tail := (rb_tail r + 1) mod rb_capacity r,
                              rb_count := rb_count r + 1\<rparr>)))"

text \<open>\<open>out\<close> is \<open>None\<close> for a \<^verbatim>\<open>NULL\<close> pointer and otherwise the current content of the
  cell it points to; the third component is its content afterwards.\<close>

definition ring_buffer_pop ::
  "ring_buffer option \<Rightarrow> u8 option \<Rightarrow> bool \<times> ring_buffer option \<times> u8 option" where
  "ring_buffer_pop rb out =
     (case rb of
        None \<Rightarrow> (False, None, out)
      | Some r \<Rightarrow>
          if rb_count r = 0 then (False, Some r, out)
          else let byte = rb_buf r ! unat (rb_head r) in
            (True, Some (r\<lparr>rb_head := (rb_head r + 1) mod rb_capacity r,
                           rb_count := rb_count r - 1\<rparr>),
             map_option (\<lambda>_. byte) out))"

section \<open>Invariant and abstraction\<close>

definition rb_inv :: "ring_buffer \<Rightarrow> bool" where
  "rb_inv r \<longleftrightarrow>
     0 < rb_capacity r \<and> length (rb_buf r) = unat (rb_capacity r) \<and>
     rb_head r < rb_capacity r \<and> rb_tail r < rb_capacity r \<and> rb_count r \<le> rb_capacity r \<and>
     unat (rb_tail r) = (unat (rb_head r) + unat (rb_count r)) mod unat (rb_capacity r)"

definition rb_list :: "ring_buffer \<Rightarrow> u8 list" where
  "rb_list r = map (\<lambda>i. rb_buf r ! ((unat (rb_head r) + i) mod unat (rb_capacity r)))
                   [0..<unat (rb_count r)]"

lemma length_rb_list [simp]: "length (rb_list r) = unat (rb_count r)"
  by (simp add: rb_list_def)

text \<open>The index step \<open>(i + 1) % capacity\<close> never overflows below the capacity.\<close>

lemma unat_next_index:
  fixes x c :: u64
  assumes "x < c"
  shows "unat ((x + 1) mod c) = (unat x + 1) mod unat c"
  using assms by (simp add: unat_mod unat_inc)

lemma rb_listI:
  "length xs = unat (rb_count r) \<Longrightarrow>
   (\<And>i. i < unat (rb_count r) \<Longrightarrow>
        rb_buf r ! ((unat (rb_head r) + i) mod unat (rb_capacity r)) = xs ! i) \<Longrightarrow>
   rb_list r = xs"
  by (simp add: rb_list_def list_eq_iff_nth_eq)

lemma rb_list_nth:
  "i < unat (rb_count r) \<Longrightarrow>
   rb_list r ! i = rb_buf r ! ((unat (rb_head r) + i) mod unat (rb_capacity r))"
  by (simp add: rb_list_def)

text \<open>Two occupied offsets from the head never share a slot.\<close>

lemma ring_slots_differ:
  fixes h c :: nat
  assumes "i < j" "j < c + i"
  shows "(h + i) mod c \<noteq> (h + j) mod c"
proof
  assume "(h + i) mod c = (h + j) mod c"
  then have "c dvd (h + j) - (h + i)" using assms by (intro mod_eq_dvd_iff_nat [THEN iffD1]) simp_all
  then have "c dvd j - i" by simp
  then show False using assms by (auto dest: dvd_imp_le)
qed

section \<open>The bounded FIFO contract\<close>

fun push_all :: "('q \<Rightarrow> 'a \<Rightarrow> bool \<times> 'q) \<Rightarrow> 'q \<Rightarrow> 'a list \<Rightarrow> 'q" where
  "push_all push q [] = q"
| "push_all push q (x # xs) = push_all push (snd (push q x)) xs"

fun pop_all :: "('q \<Rightarrow> 'a option \<Rightarrow> bool \<times> 'q \<times> 'a option) \<Rightarrow> 'q \<Rightarrow> 'a option \<Rightarrow> nat \<Rightarrow> 'a option list \<times> 'q" where
  "pop_all pop q out 0 = ([], q)"
| "pop_all pop q out (Suc n) =
     (let (_, q', y) = pop q out; (ys, q'') = pop_all pop q' out n in (y # ys, q''))"

locale bounded_fifo =
  fixes push :: "'q \<Rightarrow> 'a \<Rightarrow> bool \<times> 'q"
    and pop :: "'q \<Rightarrow> 'a option \<Rightarrow> bool \<times> 'q \<times> 'a option"
    and invar :: "'q \<Rightarrow> bool"
    and items :: "'q \<Rightarrow> 'a list"
    and capacity :: "'q \<Rightarrow> nat"
  assumes items_bounded: "invar q \<Longrightarrow> length (items q) \<le> capacity q"
    and push_full: "invar q \<Longrightarrow> length (items q) = capacity q \<Longrightarrow> push q x = (False, q)"
    and push_room: "invar q \<Longrightarrow> length (items q) < capacity q \<Longrightarrow>
      \<exists>q'. push q x = (True, q') \<and> invar q' \<and> items q' = items q @ [x] \<and> capacity q' = capacity q"
    and pop_empty: "invar q \<Longrightarrow> items q = [] \<Longrightarrow> pop q out = (False, q, out)"
    and pop_item: "invar q \<Longrightarrow> items q = x # xs \<Longrightarrow>
      \<exists>q'. pop q out = (True, q', map_option (\<lambda>_. x) out) \<and> invar q' \<and> items q' = xs \<and>
           capacity q' = capacity q"
begin

text \<open>Pushing a sequence keeps what fits and drops the newest bytes.\<close>

lemma push_all_items:
  "invar q \<Longrightarrow> invar (push_all push q xs) \<and> capacity (push_all push q xs) = capacity q \<and>
     items (push_all push q xs) = take (capacity q) (items q @ xs)"
proof (induction xs arbitrary: q)
  case Nil
  then show ?case by (simp add: items_bounded)
next
  case (Cons x xs)
  show ?case
  proof (cases "length (items q) = capacity q")
    case True
    with Cons show ?thesis by (simp add: push_full)
  next
    case False
    with Cons.prems items_bounded [of q] have "length (items q) < capacity q" by simp
    with Cons.prems obtain q' where "push q x = (True, q')" "invar q'"
      "items q' = items q @ [x]" "capacity q' = capacity q"
      using push_room by blast
    with Cons.IH [of q'] show ?thesis by simp
  qed
qed

text \<open>Popping returns the oldest items first.\<close>

lemma pop_all_items:
  assumes "invar q" "n \<le> length (items q)"
  shows "\<exists>q'. pop_all pop q (Some z) n = (map Some (take n (items q)), q') \<and> invar q' \<and>
     items q' = drop n (items q)"
  using assms
proof (induction n arbitrary: q)
  case 0
  then show ?case by simp
next
  case (Suc n)
  then obtain x xs where x: "items q = x # xs" by (cases "items q") auto
  with Suc.prems obtain q' where q': "pop q (Some z) = (True, q', Some x)" "invar q'" "items q' = xs"
    using pop_item [of q x xs "Some z"] by auto
  with Suc.prems x Suc.IH [of q'] show ?case by auto
qed

text \<open>What goes in comes out, in order.\<close>

lemma push_pop_roundtrip:
  assumes "invar q" "items q = []" "length xs \<le> capacity q"
  shows "fst (pop_all pop (push_all push q xs) (Some z) (length xs)) = map Some xs"
proof -
  from push_all_items [OF assms(1), of xs] assms
  have "invar (push_all push q xs)" "items (push_all push q xs) = xs" by auto
  with pop_all_items [of "push_all push q xs" "length xs" z] show ?thesis by auto
qed

end

section \<open>The ring buffer implements the contract\<close>

definition rb_invar :: "ring_buffer option \<Rightarrow> bool" where
  "rb_invar q \<longleftrightarrow> (case q of None \<Rightarrow> False | Some r \<Rightarrow> rb_inv r)"

definition rb_items :: "ring_buffer option \<Rightarrow> u8 list" where
  "rb_items q = (case q of None \<Rightarrow> [] | Some r \<Rightarrow> rb_list r)"

definition rb_room :: "ring_buffer option \<Rightarrow> nat" where
  "rb_room q = (case q of None \<Rightarrow> 0 | Some r \<Rightarrow> unat (rb_capacity r))"

lemma rb_invD:
  assumes "rb_inv r"
  shows "0 < unat (rb_capacity r)" "length (rb_buf r) = unat (rb_capacity r)"
    "unat (rb_head r) < unat (rb_capacity r)" "unat (rb_tail r) < unat (rb_capacity r)"
    "unat (rb_count r) \<le> unat (rb_capacity r)"
    "unat (rb_tail r) = (unat (rb_head r) + unat (rb_count r)) mod unat (rb_capacity r)"
    "rb_head r < rb_capacity r" "rb_tail r < rb_capacity r"
  using assms by (auto simp: rb_inv_def word_less_nat_alt word_le_nat_alt)

lemma ring_buffer_init_inv:
  assumes "capacity \<noteq> 0" "length b = unat capacity"
  shows "\<exists>r'. ring_buffer_init (Some r) (Some b) capacity = Some r' \<and> rb_inv r' \<and> rb_list r' = []"
  using assms by (simp add: ring_buffer_init_def rb_inv_def rb_list_def word_less_nat_alt unat_gt_0)

lemma ring_buffer_push_room:
  assumes inv: "rb_inv r" and room: "unat (rb_count r) < unat (rb_capacity r)"
  shows "\<exists>r'. ring_buffer_push (Some r) x = (True, Some r') \<and> rb_inv r' \<and>
     rb_list r' = rb_list r @ [x] \<and> rb_capacity r' = rb_capacity r"
proof -
  note d = rb_invD [OF inv]
  define r' where "r' = r\<lparr>rb_buf := (rb_buf r)[unat (rb_tail r) := x],
     rb_tail := (rb_tail r + 1) mod rb_capacity r, rb_count := rb_count r + 1\<rparr>"
  have c: "unat (rb_count r') = unat (rb_count r) + 1"
    using room by (simp add: r'_def unat_inc [of _ "rb_capacity r"] word_less_nat_alt)
  have t: "unat (rb_tail r') = (unat (rb_tail r) + 1) mod unat (rb_capacity r)"
    using d(8) by (simp add: r'_def unat_next_index)
  have "rb_inv r'"
    using d room c t
    by (simp add: rb_inv_def word_less_nat_alt word_le_nat_alt r'_def mod_Suc_eq)
  moreover have "rb_list r' = rb_list r @ [x]"
  proof (rule rb_listI)
    fix i assume i: "i < unat (rb_count r')"
    show "rb_buf r' ! ((unat (rb_head r') + i) mod unat (rb_capacity r')) = (rb_list r @ [x]) ! i"
    proof (cases "i = unat (rb_count r)")
      case True
      then show ?thesis using d by (simp add: r'_def nth_append)
    next
      case False
      with i c have i': "i < unat (rb_count r)" by simp
      then have "(unat (rb_head r) + i) mod unat (rb_capacity r) \<noteq> unat (rb_tail r)"
        using d(6) ring_slots_differ [of i "unat (rb_count r)" "unat (rb_capacity r)" "unat (rb_head r)"] room
        by simp
      then show ?thesis using i' by (simp add: r'_def nth_append rb_list_nth)
    qed
  qed (use c in simp)
  moreover have "rb_count r \<noteq> rb_capacity r" using room by auto
  ultimately show ?thesis by (simp add: ring_buffer_push_def r'_def)
qed

lemma ring_buffer_pop_item:
  assumes inv: "rb_inv r" and items: "rb_list r = x # xs"
  shows "\<exists>r'. ring_buffer_pop (Some r) out = (True, Some r', map_option (\<lambda>_. x) out) \<and>
     rb_inv r' \<and> rb_list r' = xs \<and> rb_capacity r' = rb_capacity r"
proof -
  note d = rb_invD [OF inv]
  from items have pos: "0 < unat (rb_count r)" using length_rb_list [of r] by simp
  then have nz: "rb_count r \<noteq> 0" by auto
  define r' where "r' = r\<lparr>rb_head := (rb_head r + 1) mod rb_capacity r, rb_count := rb_count r - 1\<rparr>"
  have c: "unat (rb_count r') = unat (rb_count r) - 1" using nz by (simp add: r'_def unat_dec)
  have h: "unat (rb_head r') = (unat (rb_head r) + 1) mod unat (rb_capacity r)"
    using d(7) by (simp add: r'_def unat_next_index)
  from pos obtain k where k: "unat (rb_count r) = Suc k" by (cases "unat (rb_count r)") auto
  have "rb_inv r'"
    using d c h k
    by (simp add: rb_inv_def word_less_nat_alt word_le_nat_alt r'_def mod_add_left_eq)
  moreover have "rb_list r' = xs"
  proof (rule rb_listI)
    show "length xs = unat (rb_count r')" using items c length_rb_list [of r] by simp
    fix i assume "i < unat (rb_count r')"
    then have "Suc i < unat (rb_count r)" using c by simp
    then have "xs ! i = rb_buf r ! ((unat (rb_head r) + Suc i) mod unat (rb_capacity r))"
      using items rb_list_nth [of "Suc i" r] by simp
    then show "rb_buf r' ! ((unat (rb_head r') + i) mod unat (rb_capacity r')) = xs ! i"
      using h by (simp add: r'_def mod_add_left_eq)
  qed
  moreover have "rb_buf r ! unat (rb_head r) = x"
    using rb_list_nth [of 0 r] pos items d(3) by simp
  ultimately show ?thesis using nz by (simp add: ring_buffer_pop_def r'_def Let_def)
qed

interpretation rb: bounded_fifo ring_buffer_push ring_buffer_pop rb_invar rb_items rb_room
proof (unfold_locales, goal_cases)
  case (1 q)
  then show ?case by (auto simp: rb_invar_def rb_items_def rb_room_def dest: rb_invD split: option.splits)
next
  case (2 q x)
  then show ?case
    by (auto simp: rb_invar_def rb_items_def rb_room_def ring_buffer_push_def word_unat_eq_iff
        split: option.splits)
next
  case (3 q x)
  then show ?case
    using ring_buffer_push_room [of "the q" x]
    by (auto simp: rb_invar_def rb_items_def rb_room_def split: option.splits)
next
  case (4 q out)
  then have "q \<noteq> None \<Longrightarrow> rb_count (the q) = 0"
    using length_rb_list [of "the q"] by (auto simp: rb_items_def unat_0_iff simp del: length_rb_list)
  with 4 show ?case by (auto simp: rb_invar_def ring_buffer_pop_def split: option.splits)
next
  case (5 q x xs out)
  then show ?case
    using ring_buffer_pop_item [of "the q" x xs out]
    by (auto simp: rb_invar_def rb_items_def rb_room_def split: option.splits)
qed

section \<open>Properties\<close>

text \<open>the ring buffer drops the newest bytes on overflow and nothing else. Pushing any
  byte sequence on a well-formed buffer keeps it well-formed, and it then holds the old
  content followed by as much of the sequence as the capacity allows, in order.\<close>

theorem ring_buffer_drop_newest:
  assumes "rb_inv r"
  shows "\<exists>r'. push_all ring_buffer_push (Some r) xs = Some r' \<and> rb_inv r' \<and>
     rb_capacity r' = rb_capacity r \<and>
     rb_list r' = take (unat (rb_capacity r)) (rb_list r @ xs)"
proof -
  have "rb_invar (Some r)" using assms by (simp add: rb_invar_def)
  from rb.push_all_items [OF this, of xs] show ?thesis
    by (auto simp: rb_invar_def rb_items_def rb_room_def word_unat_eq_iff split: option.splits)
qed

text \<open>Witness: a two-byte buffer, three pushes.\<close>

theorem ring_buffer_drop_newest_witness:
  "rb_list (the (push_all ring_buffer_push
      (Some \<lparr>rb_buf = [0, 0], rb_capacity = 2, rb_head = 1, rb_tail = 1, rb_count = 0\<rparr>) [7, 8, 9]))
    = [7, 8]"
  using ring_buffer_drop_newest
    [of "\<lparr>rb_buf = [0, 0], rb_capacity = 2, rb_head = 1, rb_tail = 1, rb_count = 0\<rparr>" "[7, 8, 9]"]
  by (auto simp: rb_inv_def rb_list_def)

text \<open>C23. the ring buffer is first in, first out. Whatever fits into an empty buffer comes
  back from as many pops, byte by byte in the order it was pushed, whatever the position of
  the head in the array.\<close>

theorem ring_buffer_fifo:
  assumes "rb_inv r" "rb_count r = 0" "length xs \<le> unat (rb_capacity r)"
  shows "fst (pop_all ring_buffer_pop (push_all ring_buffer_push (Some r) xs) (Some z) (length xs))
     = map Some xs"
  using rb.push_pop_roundtrip [of "Some r" xs z] assms
  by (simp add: rb_invar_def rb_items_def rb_room_def rb_list_def)

text \<open>Witness: a full wrap around the end of a three-byte array.\<close>

theorem ring_buffer_fifo_witness:
  "fst (pop_all ring_buffer_pop (push_all ring_buffer_push
      (Some \<lparr>rb_buf = [1, 1, 1], rb_capacity = 3, rb_head = 2, rb_tail = 2, rb_count = 0\<rparr>) [7, 8, 9])
      (Some 0) (length [7, 8, 9 :: u8])) = [Some 7, Some 8, Some 9]"
  using ring_buffer_fifo
    [of "\<lparr>rb_buf = [1, 1, 1], rb_capacity = 3, rb_head = 2, rb_tail = 2, rb_count = 0\<rparr>" "[7, 8, 9]" 0]
  by (simp add: rb_inv_def del: push_all.simps pop_all.simps)

end
