(* ===== verification/CMem.thy ===== *)
theory CMem
  imports Prelude
begin

text \<open>
  The kernel's view of memory: one flat array of bytes indexed by 64-bit addresses, with
  little-endian loads and stores of 64-bit values. Every structure that the kernel lays out
  in memory itself (free-list nodes inside free pages, heap block headers, page tables,
  stack guards) is read and written through these functions, so aliasing between them is
  visible in the model.
\<close>

type_synonym mem = "u64 \<Rightarrow> u8"

section \<open>Little-endian encoding\<close>

fun le_bytes :: "nat \<Rightarrow> u64 \<Rightarrow> u8 list" where
  "le_bytes 0 v = []"
| "le_bytes (Suc n) v = ucast v # le_bytes n (drop_bit 8 v)"

fun le_word :: "u8 list \<Rightarrow> u64" where
  "le_word [] = 0"
| "le_word (b # bs) = ucast b OR push_bit 8 (le_word bs)"

lemma length_le_bytes [simp]: "length (le_bytes n v) = n"
  by (induction n arbitrary: v) auto

lemma le_bytes_zero [simp]: "le_bytes n 0 = replicate n 0"
  by (induction n) auto

lemma le_word_zeros [simp]: "le_word (replicate n 0) = 0"
  by (induction n) auto

lemma le_word_le_bytes: "le_word (le_bytes n v) = take_bit (8 * n) v"
proof (induction n arbitrary: v)
  case 0
  then show ?case by simp
next
  case (Suc n)
  show ?case
    by (rule bit_eqI)
      (auto simp: Suc bit_or_iff bit_push_bit_iff bit_take_bit_iff bit_ucast_iff bit_drop_bit_eq
        not_le)
qed

lemma le_word_le_bytes_8 [simp]: "le_word (le_bytes 8 v) = v"
  by (simp add: le_word_le_bytes take_bit_word_eq_self)

section \<open>Loads and stores\<close>

definition load_bytes :: "mem \<Rightarrow> u64 \<Rightarrow> nat \<Rightarrow> u8 list" where
  "load_bytes m a n = map (\<lambda>i. m (a + of_nat i)) [0..<n]"

fun store_bytes :: "mem \<Rightarrow> u64 \<Rightarrow> u8 list \<Rightarrow> mem" where
  "store_bytes m a [] = m"
| "store_bytes m a (b # bs) = store_bytes (m(a := b)) (a + 1) bs"

definition load64 :: "mem \<Rightarrow> u64 \<Rightarrow> u64" where
  "load64 m a = le_word (load_bytes m a 8)"

definition store64 :: "mem \<Rightarrow> u64 \<Rightarrow> u64 \<Rightarrow> mem" where
  "store64 m a v = store_bytes m a (le_bytes 8 v)"

lemma length_load_bytes [simp]: "length (load_bytes m a n) = n"
  by (simp add: load_bytes_def)

lemma load_bytes_nth: "i < n \<Longrightarrow> load_bytes m a n ! i = m (a + of_nat i)"
  by (simp add: load_bytes_def)

text \<open>A store of a byte list writes the cells at distance less than its length from the
  start address (the distance is taken modulo \<open>2 ^ 64\<close>) and no other cell.\<close>

lemma unat_diff_zero_iff: "unat (x - a) = 0 \<longleftrightarrow> x = (a :: u64)"
  by (simp add: unat_eq_0)

lemma unat_diff_Suc:
  fixes x a :: u64
  assumes "x \<noteq> a"
  shows "unat (x - a) = Suc (unat (x - (a + 1)))"
proof -
  have "x - a \<noteq> 0" using assms by simp
  moreover have "x - (a + 1) = (x - a) - 1" by simp
  ultimately show ?thesis
    using unat_dec [of "x - a"] by (metis Suc_pred' unat_gt_0 diff_Suc_1' One_nat_def)
qed

lemma store_bytes_apply:
  assumes "length bs \<le> 2 ^ 64"
  shows "store_bytes m a bs x =
    (if unat (x - a) < length bs then bs ! unat (x - a) else m x)"
  using assms
proof (induction bs arbitrary: m a)
  case Nil
  then show ?case by simp
next
  case (Cons b bs)
  show ?case
  proof (cases "x = a")
    case True
    have "unat (a - (a + 1)) = 2 ^ 64 - 1"
      by (simp add: unsigned_minus_1_eq_mask mask_eq_exp_minus_1)
    then have "\<not> unat (a - (a + 1)) < length bs" using Cons.prems by simp
    with True Cons show ?thesis by simp
  next
    case False
    with Cons show ?thesis by (simp add: unat_diff_Suc [OF False])
  qed
qed

text \<open>Two ranges that start at \<open>a\<close> and \<open>b\<close> are apart when each start lies outside the
  other range.\<close>

definition apart :: "u64 \<Rightarrow> nat \<Rightarrow> u64 \<Rightarrow> nat \<Rightarrow> bool" where
  "apart a n b k \<longleftrightarrow> n \<le> unat (b - a) \<and> k \<le> unat (a - b)"

lemma apart_sym: "apart a n b k \<longleftrightarrow> apart b k a n"
  by (auto simp: apart_def)

lemma unat_minus_sum:
  fixes a b :: u64
  assumes "a \<noteq> b"
  shows "unat (a - b) + unat (b - a) = 2 ^ 64"
proof -
  have "unat a \<noteq> unat b" using assms by (simp add: word_unat_eq_iff)
  then show ?thesis
    using unat_lt_u64 [of a] unat_lt_u64 [of b] unat_diff_u64 [of a b] unat_diff_u64 [of b a]
    by (simp split: if_splits)
qed

lemma apart_cell:
  fixes a b :: u64
  assumes "apart a n b k" "i < k" "n \<le> 2 ^ 64" "0 < n"
  shows "n \<le> unat (b + of_nat i - a)"
proof -
  have "a \<noteq> b" using assms by (auto simp: apart_def)
  note sum = unat_minus_sum [OF this]
  have i: "i < 2 ^ 64" using assms sum by (simp add: apart_def)
  then have ui: "unat (of_nat i :: u64) = i" by (simp add: unat_of_nat_small)
  have "unat (b - a) + i < 2 ^ 64" using assms sum by (simp add: apart_def)
  then have "unat ((b - a) + of_nat i) = unat (b - a) + i"
    using unat_add_u64 [of "b - a" "of_nat i"] ui by simp
  moreover have "b + of_nat i - a = (b - a) + of_nat i" by simp
  ultimately show ?thesis using assms(1) by (simp only: apart_def trans_le_add1)
qed

lemma load_bytes_store_bytes_apart:
  assumes "apart a (length bs) b n" "length bs \<le> 2 ^ 64"
  shows "load_bytes (store_bytes m a bs) b n = load_bytes m b n"
proof (cases "bs = []")
  case False
  then have "\<not> unat (b + of_nat i - a) < length bs" if "i < n" for i
    using apart_cell [OF assms(1) that assms(2)] by simp
  then show ?thesis by (simp add: load_bytes_def store_bytes_apply [OF assms(2)])
qed simp

lemma load_bytes_store_bytes_same:
  assumes "length bs < 2 ^ 64" "n = length bs"
  shows "load_bytes (store_bytes m a bs) a n = bs"
  using assms by (simp add: list_eq_iff_nth_eq load_bytes_nth store_bytes_apply unat_of_nat_small)

lemma load64_store64_same [simp]: "load64 (store64 m a v) a = v"
  by (simp add: load64_def store64_def load_bytes_store_bytes_same)

lemma load64_store64_apart: "apart a 8 b 8 \<Longrightarrow> load64 (store64 m a v) b = load64 m b"
  by (simp add: load64_def store64_def load_bytes_store_bytes_apart)

lemma store64_apply_far: "8 \<le> unat (x - a) \<Longrightarrow> store64 m a v x = m x"
  by (simp add: store64_def store_bytes_apply)

lemma load64_cong: "(\<And>i. i < 8 \<Longrightarrow> m (a + of_nat i) = m' (a + of_nat i)) \<Longrightarrow> load64 m a = load64 m' a"
  unfolding load64_def load_bytes_def by (rule arg_cong [of _ _ le_word]) (simp cong: map_cong)

lemma load64_zero: "(\<And>i. i < 8 \<Longrightarrow> m (a + of_nat i) = 0) \<Longrightarrow> load64 m a = 0"
proof -
  assume "\<And>i. i < 8 \<Longrightarrow> m (a + of_nat i) = 0"
  then have "load_bytes m a 8 = replicate 8 0" by (simp add: list_eq_iff_nth_eq load_bytes_nth)
  then show ?thesis by (simp only: load64_def le_word_zeros)
qed

section \<open>Pages\<close>

definition page_aligned :: "u64 \<Rightarrow> bool" where
  "page_aligned a \<longleftrightarrow> 4096 dvd unat a"

lemma apart_mono: "apart a n b k \<Longrightarrow> n' \<le> n \<Longrightarrow> k' \<le> k \<Longrightarrow> apart a n' b k'"
  by (auto simp: apart_def)

lemma page_aligned_diff:
  assumes "page_aligned a" "page_aligned b"
  shows "page_aligned (a - b)"
  using assms unfolding page_aligned_def unat_diff_u64
  by (auto intro!: dvd_diff_nat dvd_add split: if_splits)

lemma page_aligned_0 [simp]: "page_aligned 0"
  by (simp add: page_aligned_def)

lemma page_aligned_uminus: "page_aligned a \<Longrightarrow> page_aligned (- a)"
  using page_aligned_diff [of 0 a] by simp

lemma page_aligned_add: "page_aligned a \<Longrightarrow> page_aligned b \<Longrightarrow> page_aligned (a + b)"
  using page_aligned_diff [of a "- b"] page_aligned_uminus [of b] by simp

lemma page_aligned_4096 [simp]: "page_aligned 4096"
  by (simp add: page_aligned_def)

lemma page_aligned_mult: "page_aligned (of_nat i * 4096)"
  by (induction i) (simp_all add: algebra_simps page_aligned_add)

lemma page_aligned_apart:
  assumes "page_aligned a" "page_aligned b" "a \<noteq> b"
  shows "apart a 4096 b 4096"
proof -
  have "4096 \<le> unat (x - y)" if "page_aligned x" "page_aligned y" "x \<noteq> y" for x y :: u64
  proof -
    have "4096 dvd unat (x - y)" using page_aligned_diff [OF that(1,2)] by (simp add: page_aligned_def)
    moreover have "unat (x - y) \<noteq> 0" using that(3) by (simp add: unat_eq_0)
    ultimately show ?thesis by (auto dest: dvd_imp_le)
  qed
  then show ?thesis using assms by (simp add: apart_def)
qed

lemma load64_store64_pages:
  "page_aligned a \<Longrightarrow> page_aligned b \<Longrightarrow> a \<noteq> b \<Longrightarrow> load64 (store64 m a v) b = load64 m b"
  by (rule load64_store64_apart) (auto intro: apart_mono page_aligned_apart)

text \<open>The byte address \<open>x\<close> lies in the page at \<open>p\<close>.\<close>

definition in_page :: "u64 \<Rightarrow> u64 \<Rightarrow> bool" where
  "in_page p x \<longleftrightarrow> unat (x - p) < 4096"

lemma in_page_unique:
  assumes "page_aligned a" "page_aligned b" "in_page a x" "in_page b x"
  shows "a = b"
proof (rule ccontr)
  assume "a \<noteq> b"
  then have "apart a 4096 b 4096" using assms by (intro page_aligned_apart)
  then have "4096 \<le> unat (b + of_nat (unat (x - b)) - a)"
    using assms by (intro apart_cell) (auto simp: in_page_def)
  then show False using assms by (simp add: in_page_def)
qed

lemma in_page_offset: "i < 4096 \<Longrightarrow> in_page p (p + of_nat i)"
  by (simp add: in_page_def unat_of_nat_small)

lemma in_page_shift: "in_page (p + c) (x + c) \<longleftrightarrow> in_page p x"
  by (simp add: in_page_def)

section \<open>Extents\<close>

text \<open>The \<open>n\<close> bytes from \<open>a\<close> on, modulo the size of the address space.\<close>

definition extent :: "u64 \<Rightarrow> nat \<Rightarrow> u64 set" where
  "extent a n = {x. unat (x - a) < n}"

lemma extent_0 [simp]: "extent a 0 = {}"
  by (simp add: extent_def)

lemma extent_self [simp]: "a \<in> extent a n \<longleftrightarrow> 0 < n"
  by (simp add: extent_def)

lemma extent_mono: "m \<le> n \<Longrightarrow> extent a m \<subseteq> extent a n"
  by (auto simp: extent_def)

lemma in_page_extent: "in_page p x \<longleftrightarrow> x \<in> extent p 4096"
  by (simp add: in_page_def extent_def)

lemma unat_shift:
  assumes "m < 2 ^ 64"
  shows "unat (x - (a + of_nat m) :: u64) =
    (if m \<le> unat (x - a) then unat (x - a) - m else unat (x - a) + 2 ^ 64 - m)"
proof -
  have "x - (a + of_nat m) = (x - a) - of_nat m" by simp
  then show ?thesis using assms by (simp only: unat_diff_u64) (simp add: unat_of_nat_small)
qed

lemma extent_split:
  assumes "m < 2 ^ 64" "m + n \<le> 2 ^ 64"
  shows "extent a (m + n) = extent a m \<union> extent (a + of_nat m) n"
  using assms by (auto simp: extent_def unat_shift split: if_splits)

lemma extent_disj:
  assumes "m < 2 ^ 64" "m + n \<le> 2 ^ 64"
  shows "extent a m \<inter> extent (a + of_nat m) n = {}"
  using assms by (auto simp: extent_def unat_shift split: if_splits)

lemma extent_sub:
  assumes "k + n' \<le> n" "n \<le> 2 ^ 64" "k < 2 ^ 64"
  shows "extent (a + of_nat k) n' \<subseteq> extent a n"
proof -
  have "extent (a + of_nat k) n' \<subseteq> extent a (k + n')" using extent_split [of k n' a] assms by simp
  then show ?thesis using extent_mono [OF assms(1)] by blast
qed

lemma extent_cell: "i < n \<Longrightarrow> n \<le> 2 ^ 64 \<Longrightarrow> a + of_nat i \<in> extent a n"
  by (simp add: extent_def unat_of_nat_small)

lemma store64_out: "x \<notin> extent a 8 \<Longrightarrow> store64 m a v x = m x"
  by (rule store64_apply_far) (simp add: extent_def)

lemma load64_agree: "(\<And>x. x \<in> extent a 8 \<Longrightarrow> m x = m' x) \<Longrightarrow> load64 m a = load64 m' a"
  by (rule load64_cong) (simp add: extent_def unat_of_nat_small)

lemma load64_store64_disj: "extent a 8 \<inter> extent b 8 = {} \<Longrightarrow> load64 (store64 m a v) b = load64 m b"
  by (rule load64_agree) (auto intro: store64_out)

lemma extent_disjoint_apart:
  assumes "extent a n \<inter> extent b k = {}" "0 < n" "0 < k"
  shows "apart a n b k" "n + k \<le> 2 ^ 64"
proof -
  have "a \<notin> extent b k" "b \<notin> extent a n" using assms extent_self [of a n] extent_self [of b k] by blast+
  then show ap: "apart a n b k" by (simp add: apart_def extent_def)
  have "a \<noteq> b" using ap assms by (auto simp: apart_def)
  from unat_minus_sum [OF this] ap show "n + k \<le> 2 ^ 64" by (simp add: apart_def)
qed

end
