(* ===== verification/Kmemory.thy ===== *)
theory Kmemory
  imports CMem
begin

text \<open>
  The freestanding memory and string routines of \<^verbatim>\<open>kernel/src/core/memory.c\<close> on the byte
  memory. Counted loops are total functions with a measure; loops that run until a NUL byte
  are \<^theory_text>\<open>partial_function (option)\<close>, with \<open>None\<close> for a loop that never ends. The
  copying routines return the memory after the call; their C result is the destination
  pointer itself.
\<close>

section \<open>Block operations\<close>

function memcpy_loop :: "mem \<Rightarrow> u64 \<Rightarrow> u64 \<Rightarrow> u64 \<Rightarrow> u64 \<Rightarrow> mem" where
  [code]: "memcpy_loop m dest src n i =
     (if i < n then memcpy_loop (m(dest + i := m (src + i))) dest src n (i + 1) else m)"
  by pat_completeness auto
termination
  by (relation "measure (\<lambda>(m, dest, src, n, i). unat n - unat i)")
    (auto simp: unat_inc word_less_nat_alt)

definition memcpy :: "mem \<Rightarrow> u64 \<Rightarrow> u64 \<Rightarrow> u64 \<Rightarrow> mem" where
  "memcpy m dest src n = memcpy_loop m dest src n 0"

function memset_loop :: "mem \<Rightarrow> u64 \<Rightarrow> u32 \<Rightarrow> u64 \<Rightarrow> u64 \<Rightarrow> mem" where
  "memset_loop m s c n i =
     (if i < n then memset_loop (m(s + i := ucast c)) s c n (i + 1) else m)"
  by pat_completeness auto
termination
  by (relation "measure (\<lambda>(m, s, c, n, i). unat n - unat i)")
    (auto simp: unat_inc word_less_nat_alt)

definition memset :: "mem \<Rightarrow> u64 \<Rightarrow> u32 \<Rightarrow> u64 \<Rightarrow> mem" where
  "memset m s c n = memset_loop m s c n 0"

function memmove_down :: "mem \<Rightarrow> u64 \<Rightarrow> u64 \<Rightarrow> u64 \<Rightarrow> mem" where
  "memmove_down m dest src i =
     (if i > 0 then memmove_down (m(dest + (i - 1) := m (src + (i - 1)))) dest src (i - 1) else m)"
  by pat_completeness auto
termination
  by (relation "measure (\<lambda>(m, dest, src, i). unat i)") (auto simp: unat_dec word_gt_0 unat_gt_0)

definition memmove :: "mem \<Rightarrow> u64 \<Rightarrow> u64 \<Rightarrow> u64 \<Rightarrow> mem" where
  "memmove m dest src n =
     (if src > dest then memcpy_loop m dest src n 0
      else if src < dest then memmove_down m dest src n
      else m)"

function memcmp_loop :: "mem \<Rightarrow> u64 \<Rightarrow> u64 \<Rightarrow> u64 \<Rightarrow> u64 \<Rightarrow> int" where
  "memcmp_loop m s1 s2 n i =
     (if i < n then
        if m (s1 + i) \<noteq> m (s2 + i) then (if m (s1 + i) < m (s2 + i) then -1 else 1)
        else memcmp_loop m s1 s2 n (i + 1)
      else 0)"
  by pat_completeness auto
termination
  by (relation "measure (\<lambda>(m, s1, s2, n, i). unat n - unat i)")
    (auto simp: unat_inc word_less_nat_alt)

definition memcmp :: "mem \<Rightarrow> u64 \<Rightarrow> u64 \<Rightarrow> u64 \<Rightarrow> int" where
  "memcmp m s1 s2 n = memcmp_loop m s1 s2 n 0"

section \<open>String operations\<close>

partial_function (option) strlen_loop :: "mem \<Rightarrow> u64 \<Rightarrow> u64 \<Rightarrow> u64 option" where
  [code]: "strlen_loop m s len = (if m (s + len) \<noteq> 0 then strlen_loop m s (len + 1) else Some len)"

definition strlen :: "mem \<Rightarrow> u64 \<Rightarrow> u64 option" where
  "strlen m s = strlen_loop m s 0"

definition byte_diff :: "u8 \<Rightarrow> u8 \<Rightarrow> int" where
  "byte_diff a b = uint a - uint b"

partial_function (option) strcmp :: "mem \<Rightarrow> u64 \<Rightarrow> u64 \<Rightarrow> int option" where
  [code]: "strcmp m s1 s2 =
     (if m s1 \<noteq> 0 \<and> m s1 = m s2 then strcmp m (s1 + 1) (s2 + 1)
      else Some (byte_diff (m s1) (m s2)))"

function strncmp :: "mem \<Rightarrow> u64 \<Rightarrow> u64 \<Rightarrow> u64 \<Rightarrow> int" where
  "strncmp m s1 s2 n =
     (if n \<noteq> 0 \<and> m s1 \<noteq> 0 \<and> m s1 = m s2 then strncmp m (s1 + 1) (s2 + 1) (n - 1)
      else if n = 0 then 0
      else byte_diff (m s1) (m s2))"
  by pat_completeness auto
termination
  by (relation "measure (\<lambda>(m, s1, s2, n). unat n)") (auto simp: unat_dec unat_gt_0)

partial_function (option) strstr_match :: "mem \<Rightarrow> u64 \<Rightarrow> u64 \<Rightarrow> u64 option" where
  [code]: "strstr_match m h n =
     (if m h \<noteq> 0 \<and> m n \<noteq> 0 \<and> m h = m n then strstr_match m (h + 1) (n + 1) else Some n)"

partial_function (option) strstr_loop :: "mem \<Rightarrow> u64 \<Rightarrow> u64 \<Rightarrow> u64 option" where
  [code]: "strstr_loop m haystack needle =
     (if m haystack = 0 then Some 0
      else Option.bind (strstr_match m haystack needle)
        (\<lambda>n. if m n = 0 then Some haystack else strstr_loop m (haystack + 1) needle))"

definition strstr :: "mem \<Rightarrow> u64 \<Rightarrow> u64 \<Rightarrow> u64 option" where
  "strstr m haystack needle =
     (if m needle = 0 then Some haystack else strstr_loop m haystack needle)"

function strnlen_loop :: "mem \<Rightarrow> u64 \<Rightarrow> u64 \<Rightarrow> u64 \<Rightarrow> u64" where
  "strnlen_loop m s n len =
     (if len < n \<and> m (s + len) \<noteq> 0 then strnlen_loop m s n (len + 1) else len)"
  by pat_completeness auto
termination
  by (relation "measure (\<lambda>(m, s, n, len). unat n - unat len)")
    (auto simp: unat_inc word_less_nat_alt)

function trim_start :: "mem \<Rightarrow> u64 \<Rightarrow> u8 \<Rightarrow> u64 \<Rightarrow> u64 \<Rightarrow> u64" where
  "trim_start m s t len start =
     (if start < len \<and> m (s + start) = t then trim_start m s t len (start + 1) else start)"
  by pat_completeness auto
termination
  by (relation "measure (\<lambda>(m, s, t, len, start). unat len - unat start)")
    (auto simp: unat_inc word_less_nat_alt)

function trim_end :: "mem \<Rightarrow> u64 \<Rightarrow> u8 \<Rightarrow> u64 \<Rightarrow> u64 \<Rightarrow> u64" where
  "trim_end m s t start end =
     (if end > start \<and> m (s + (end - 1)) = t then trim_end m s t start (end - 1) else end)"
  by pat_completeness auto
termination
  by (relation "measure (\<lambda>(m, s, t, start, end). unat end)")
    (auto intro: unat_pred_less)

text \<open>The trim's copy loop \<^verbatim>\<open>s[i] = s[start + i]\<close> is the forward loop of \<open>memcpy\<close> on the
  overlapping ranges at \<open>s\<close> and \<open>s + start\<close>.\<close>

definition strntrim :: "mem \<Rightarrow> u64 \<Rightarrow> u8 \<Rightarrow> u64 \<Rightarrow> mem" where
  "strntrim m s t n =
     (if s = 0 \<or> n = 0 then m
      else let len = strnlen_loop m s n 0 in
        if len = 0 then m
        else let start = trim_start m s t len 0;
                 end = trim_end m s t start len;
                 new_len = end - start;
                 m' = memcpy_loop m s (s + start) new_len 0
             in if new_len < n then m'(s + new_len := 0) else m')"

partial_function (option) is_delim :: "mem \<Rightarrow> u8 \<Rightarrow> u64 \<Rightarrow> bool option" where
  [code]: "is_delim m c delim =
     (if m delim \<noteq> 0 then if c = m delim then Some True else is_delim m c (delim + 1)
      else Some False)"

partial_function (option) skip_delims :: "mem \<Rightarrow> u64 \<Rightarrow> u64 \<Rightarrow> u64 option" where
  [code]: "skip_delims m delim next =
     (if m next = 0 then Some next
      else Option.bind (is_delim m (m next) delim)
        (\<lambda>d. if d then skip_delims m delim (next + 1) else Some next))"

partial_function (option) token_end :: "mem \<Rightarrow> u64 \<Rightarrow> u64 \<Rightarrow> u64 option" where
  [code]: "token_end m delim next =
     (if m next = 0 then Some next
      else Option.bind (is_delim m (m next) delim)
        (\<lambda>d. if d then Some next else token_end m delim (next + 1)))"

text \<open>The result is the returned token pointer (0 for \<^verbatim>\<open>NULL\<close>), the content of
  \<^verbatim>\<open>*saveptr\<close> afterwards and the memory, in which the delimiter that ended the token is a
  NUL byte.\<close>

definition strtokr :: "mem \<Rightarrow> u64 \<Rightarrow> u64 \<Rightarrow> u64 \<Rightarrow> (u64 \<times> u64 \<times> mem) option" where
  "strtokr m str delim saveptr =
     (let next = (if str \<noteq> 0 then str else saveptr) in
      if next = 0 \<or> m next = 0 then Some (0, 0, m)
      else Option.bind (skip_delims m delim next)
        (\<lambda>token_start.
           if m token_start = 0 then Some (0, token_start, m)
           else Option.bind (token_end m delim token_start)
             (\<lambda>e. if m e = 0 then Some (token_start, e, m)
                  else Some (token_start, e + 1, m(e := 0)))))"

declare memcpy_loop.simps [simp del] memset_loop.simps [simp del] memmove_down.simps [simp del]
  memcmp_loop.simps [simp del] strncmp.simps [simp del] strnlen_loop.simps [simp del]
  trim_start.simps [simp del] trim_end.simps [simp del]

section \<open>Block operations: closed forms\<close>

text \<open>Forward copying is a simultaneous copy when no write hits a cell that is read later.\<close>

lemma memcpy_loop_apply:
  assumes "\<And>i j. j < i \<Longrightarrow> i < unat n \<Longrightarrow> src + of_nat i \<noteq> dest + of_nat j"
  shows "memcpy_loop m dest src n k x =
    (if unat k \<le> unat (x - dest) \<and> unat (x - dest) < unat n then m (src + (x - dest)) else m x)"
  using assms
proof (induction m dest src n k rule: memcpy_loop.induct)
  case (1 m dest src n k)
  let ?d = "x - dest"
  show ?case
  proof (cases "k < n")
    case True
    let ?m' = "m(dest + k := m (src + k))"
    have IH: "memcpy_loop ?m' dest src n (k + 1) x =
      (if unat k + 1 \<le> unat ?d \<and> unat ?d < unat n then ?m' (src + ?d) else ?m' x)"
      using "1.IH" [OF True "1.prems"] by (simp only: unat_inc [OF True])
    have step: "memcpy_loop m dest src n k x = memcpy_loop ?m' dest src n (k + 1) x"
      using True by (simp add: memcpy_loop.simps [of m])
    show ?thesis
    proof (cases "?d = k")
      case True
      then have "x = dest + k" by (simp add: algebra_simps)
      with step IH \<open>k < n\<close> show ?thesis by (simp add: word_less_nat_alt)
    next
      case False
      then have nk: "unat ?d \<noteq> unat k" and x: "x \<noteq> dest + k"
        by (simp_all add: unat_inject offset_eq_iff)
      have "src + ?d \<noteq> dest + k" if "unat k < unat ?d" "unat ?d < unat n"
        using "1.prems" [OF that] by simp
      with step IH nk x show ?thesis by (auto simp: le_less)
    qed
  next
    case False
    then show ?thesis by (auto simp: memcpy_loop.simps [of m] word_less_nat_alt)
  qed
qed

lemma memmove_down_apply:
  assumes "\<And>i j. j < i \<Longrightarrow> i < unat n \<Longrightarrow> src + of_nat j \<noteq> dest + of_nat i"
  shows "memmove_down m dest src n x =
    (if unat (x - dest) < unat n then m (src + (x - dest)) else m x)"
  using assms
proof (induction m dest src n rule: memmove_down.induct)
  case (1 m dest src n)
  let ?d = "x - dest"
  show ?case
  proof (cases "n > 0")
    case True
    let ?m' = "m(dest + (n - 1) := m (src + (n - 1)))"
    have n: "unat (n - 1) = unat n - 1" "0 < unat n" using True by (auto simp: unat_dec unat_gt_0 word_gt_0)
    have IH: "memmove_down ?m' dest src (n - 1) x =
      (if unat ?d < unat n - 1 then ?m' (src + ?d) else ?m' x)"
      using "1.IH" [OF True "1.prems"] n by (simp only: n)
    have step: "memmove_down m dest src n x = memmove_down ?m' dest src (n - 1) x"
      using True by (simp add: memmove_down.simps [of m])
    show ?thesis
    proof (cases "?d = n - 1")
      case True
      then have "x = dest + (n - 1)" by (simp add: algebra_simps)
      with step IH n True show ?thesis by simp
    next
      case False
      then have nk: "unat ?d \<noteq> unat n - 1" and x: "x \<noteq> dest + (n - 1)"
        by (simp_all only: n(1) [symmetric] unat_inject offset_eq_iff) simp_all
      have "src + ?d \<noteq> dest + (n - 1)" if "unat ?d < unat n - 1"
        using "1.prems" [of "unat ?d" "unat (n - 1)"] that n by simp
      with step IH nk x n show ?thesis by auto
    qed
  next
    case False
    then have "n = 0" by (simp add: word_gt_0)
    then show ?thesis by (simp add: memmove_down.simps [of m])
  qed
qed

lemma memset_loop_apply:
  "memset_loop m s c n k x =
    (if unat k \<le> unat (x - s) \<and> unat (x - s) < unat n then ucast c else m x)"
proof (induction m s c n k rule: memset_loop.induct)
  case (1 m s c n k)
  show ?case
  proof (cases "k < n")
    case True
    have "memset_loop m s c n k x = memset_loop (m(s + k := ucast c)) s c n (k + 1) x"
      using True by (simp add: memset_loop.simps [of m])
    also have "\<dots> = (if unat k + 1 \<le> unat (x - s) \<and> unat (x - s) < unat n then ucast c
        else (m(s + k := ucast c)) x)"
      using "1.IH" [OF True] by (simp only: unat_inc [OF True])
    finally show ?thesis using True
      by (cases "x - s = k") (auto simp: word_less_nat_alt offset_eq_iff le_less unat_inject)
  next
    case False
    then show ?thesis by (auto simp: memset_loop.simps [of m] word_less_nat_alt)
  qed
qed

lemma memset_apply: "memset m s c n x = (if unat (x - s) < unat n then ucast c else m x)"
  by (simp add: memset_def memset_loop_apply)

lemma memset_eq: "memset m s c n = (\<lambda>x. if unat (x - s) < unat n then ucast c else m x)"
  by (rule ext) (simp add: memset_apply)

text \<open>\<open>memcpy\<close> on ranges that do not overlap.\<close>

lemma memcpy_apply:
  assumes "apart dest (unat n) src (unat n)"
  shows "memcpy m dest src n x = (if unat (x - dest) < unat n then m (src + (x - dest)) else m x)"
proof -
  have "src + of_nat i \<noteq> dest + of_nat j" if "j < i" "i < unat n" for i j
  proof
    assume eq: "src + of_nat i = dest + of_nat j"
    have "unat n \<le> unat (src + of_nat i - dest)"
      using apart_cell [OF assms that(2)] that unat_lt_u64 [of n] by simp
    moreover have "src + of_nat i - dest = of_nat j" using eq by simp
    moreover have "unat (of_nat j :: u64) = j" using that unat_lt_u64 [of n] by (simp add: unat_of_nat_small)
    ultimately show False using that by simp
  qed
  from memcpy_loop_apply [of n, OF this] show ?thesis by (simp add: memcpy_def)
qed

lemma memcpy_eq_store:
  assumes "apart dest (unat n) src (unat n)"
  shows "memcpy m dest src n = store_bytes m dest (load_bytes m src (unat n))"
proof
  fix x
  show "memcpy m dest src n x = store_bytes m dest (load_bytes m src (unat n)) x"
    using unat_lt_u64 [of n]
    by (simp add: memcpy_apply [OF assms] store_bytes_apply load_bytes_nth)
qed

text \<open>\<open>memmove\<close> on any two ranges that stay inside the address space, overlapping or not.\<close>

lemma no_wrap_offsets:
  fixes a b :: u64
  assumes "unat a < unat b" "unat b + N \<le> 2 ^ 64" "j < i" "i < N"
  shows "b + of_nat i \<noteq> a + of_nat j"
proof
  assume "b + of_nat i = a + of_nat j"
  then have "unat (b + of_nat i) = unat (a + of_nat j)" by simp
  moreover have "unat (b + of_nat i) = unat b + i"
    using assms unat_add_u64 [of b "of_nat i"] by (simp add: unat_of_nat_small)
  moreover have "unat (a + of_nat j) = unat a + j"
    using assms unat_add_u64 [of a "of_nat j"] by (simp add: unat_of_nat_small)
  ultimately show False using assms by simp
qed

lemma memmove_apply:
  assumes "unat dest + unat n \<le> 2 ^ 64" "unat src + unat n \<le> 2 ^ 64"
  shows "memmove m dest src n x = (if unat (x - dest) < unat n then m (src + (x - dest)) else m x)"
proof (cases src dest rule: linorder_cases)
  case less
  have "src + of_nat j \<noteq> dest + of_nat i" if "j < i" "i < unat n" for i j
    using no_wrap_offsets [OF _ assms(1) that, of src] less by (auto simp: word_less_nat_alt)
  moreover from less have "\<not> dest < src" by (simp add: word_less_nat_alt)
  ultimately show ?thesis using memmove_down_apply [of n src dest m x] less by (simp add: memmove_def)
next
  case equal
  then show ?thesis by (simp add: memmove_def)
next
  case greater
  have "src + of_nat i \<noteq> dest + of_nat j" if "j < i" "i < unat n" for i j
    using no_wrap_offsets [OF _ assms(2) that, of dest] greater by (auto simp: word_less_nat_alt)
  from memcpy_loop_apply [of n, OF this] greater show ?thesis by (simp add: memmove_def)
qed

lemma load_bytes_eqI:
  "(\<And>i. i < n \<Longrightarrow> m (a + of_nat i) = m' (b + of_nat i)) \<Longrightarrow> load_bytes m a n = load_bytes m' b n"
  by (simp add: load_bytes_def)

text \<open>\<open>memcmp\<close> compares the two byte sequences lexicographically.\<close>

lemma memcmp_loop_zero:
  "memcmp_loop m s1 s2 n k = 0 \<longleftrightarrow>
     (\<forall>i. unat k \<le> i \<and> i < unat n \<longrightarrow> m (s1 + of_nat i) = m (s2 + of_nat i))"
proof (induction m s1 s2 n k rule: memcmp_loop.induct)
  case (1 m s1 s2 n k)
  show ?case
  proof (cases "k < n \<and> m (s1 + k) = m (s2 + k)")
    case True
    then have "memcmp_loop m s1 s2 n k = memcmp_loop m s1 s2 n (k + 1)"
      by (simp add: memcmp_loop.simps [of m s1 s2 n k])
    moreover have "(\<forall>i. unat (k + 1) \<le> i \<and> i < unat n \<longrightarrow> m (s1 + of_nat i) = m (s2 + of_nat i))
      \<longleftrightarrow> (\<forall>i. unat k \<le> i \<and> i < unat n \<longrightarrow> m (s1 + of_nat i) = m (s2 + of_nat i))"
      using True by (auto simp: unat_inc [of k n] Suc_le_eq order.order_iff_strict [of "unat k"])
    ultimately show ?thesis using "1.IH" True by simp
  next
    case False
    have "\<exists>i. unat k \<le> i \<and> i < unat n \<and> m (s1 + of_nat i) \<noteq> m (s2 + of_nat i)" if "k < n"
      using that False by (intro exI [of _ "unat k"]) (simp add: word_less_nat_alt)
    with False show ?thesis
      by (auto simp: memcmp_loop.simps [of m s1 s2 n k] word_less_nat_alt)
  qed
qed

lemma memcmp_eq_0_iff: "memcmp m s1 s2 n = 0 \<longleftrightarrow> load_bytes m s1 (unat n) = load_bytes m s2 (unat n)"
  by (simp add: memcmp_def memcmp_loop_zero list_eq_iff_nth_eq load_bytes_nth)

section \<open>NUL-terminated strings\<close>

text \<open>\<open>cstr m p s\<close>: the bytes \<open>s\<close>, none of them NUL, start at \<open>p\<close> and a NUL byte follows.\<close>

fun cstr :: "mem \<Rightarrow> u64 \<Rightarrow> u8 list \<Rightarrow> bool" where
  "cstr m p [] \<longleftrightarrow> m p = 0"
| "cstr m p (c # cs) \<longleftrightarrow> m p = c \<and> c \<noteq> 0 \<and> cstr m (p + 1) cs"

lemma cstr_nonzero: "cstr m p s \<Longrightarrow> 0 \<notin> set s"
  by (induction s arbitrary: p) auto

lemma cstr_nth: "cstr m p s \<Longrightarrow> i < length s \<Longrightarrow> m (p + of_nat i) = s ! i"
proof (induction s arbitrary: p i)
  case (Cons c s)
  then show ?case by (cases i) (auto simp: add.assoc [symmetric])
qed simp

lemma cstr_end: "cstr m p s \<Longrightarrow> m (p + of_nat (length s)) = 0"
  by (induction s arbitrary: p) (auto simp: add.assoc [symmetric])

lemma cstr_append:
  "cstr m p (s @ t) \<longleftrightarrow> (\<forall>i < length s. m (p + of_nat i) = s ! i) \<and> 0 \<notin> set s \<and>
     cstr m (p + of_nat (length s)) t"
proof (induction s arbitrary: p)
  case (Cons c s)
  have "(\<forall>i < length (c # s). m (p + of_nat i) = (c # s) ! i) \<longleftrightarrow>
     m p = c \<and> (\<forall>i < length s. m (p + 1 + of_nat i) = s ! i)"
    by (auto simp: less_Suc_eq_0_disj algebra_simps)
  then show ?case using Cons by (auto simp: algebra_simps)
qed simp

lemma cstr_iff:
  "cstr m p s \<longleftrightarrow> (\<forall>i < length s. m (p + of_nat i) = s ! i) \<and> 0 \<notin> set s \<and>
     m (p + of_nat (length s)) = 0"
  using cstr_append [of m p s "[]"] by simp

lemma cstr_upd:
  "cstr m p s \<Longrightarrow> (\<And>i. i \<le> length s \<Longrightarrow> p + of_nat i \<noteq> q) \<Longrightarrow> cstr (m(q := v)) p s"
  by (auto simp: cstr_iff)

text \<open>A terminated string is shorter than the address space.\<close>

lemma cstr_length: "cstr m p s \<Longrightarrow> length s < 2 ^ 64"
proof (rule ccontr)
  assume c: "cstr m p s" and "\<not> length s < 2 ^ 64"
  then have le: "2 ^ 64 \<le> length s" by simp
  let ?i = "length s - 2 ^ 64"
  have i: "?i < length s" using le by simp
  have "of_nat (length s) = (of_nat (?i + 2 ^ 64) :: u64)" using le by simp
  also have "\<dots> = of_nat ?i" by simp
  finally have "m (p + of_nat (length s)) = s ! ?i" using cstr_nth [OF c i] by simp
  moreover have "s ! ?i \<noteq> 0" using cstr_nonzero [OF c] nth_mem [OF i] by metis
  ultimately show False using cstr_end [OF c] by simp
qed

subsection \<open>Length and comparison\<close>

lemma strlen_loop_cstr: "cstr m (p + len) s \<Longrightarrow> strlen_loop m p len = Some (len + of_nat (length s))"
proof (induction s arbitrary: len)
  case Nil
  then show ?case by (subst strlen_loop.simps) simp
next
  case (Cons c s)
  then have "strlen_loop m p (len + 1) = Some (len + 1 + of_nat (length s))"
    by (simp add: add.assoc)
  with Cons.prems show ?case by (subst strlen_loop.simps) (simp add: algebra_simps)
qed

lemma strlen_cstr: "cstr m p s \<Longrightarrow> strlen m p = Some (of_nat (length s))"
  using strlen_loop_cstr [of m p 0 s] by (simp add: strlen_def)

text \<open>The comparison on byte lists; the end of a list reads as NUL.\<close>

definition chd :: "u8 list \<Rightarrow> u8" where
  "chd s = (case s of [] \<Rightarrow> 0 | c # _ \<Rightarrow> c)"

fun strncmp_l :: "nat \<Rightarrow> u8 list \<Rightarrow> u8 list \<Rightarrow> int" where
  "strncmp_l 0 s t = 0"
| "strncmp_l (Suc n) (a # s) (b # t) = (if a = b then strncmp_l n s t else byte_diff a b)"
| "strncmp_l (Suc n) [] t = byte_diff 0 (chd t)"
| "strncmp_l (Suc n) (a # s) [] = byte_diff a 0"

lemma byte_diff_zero [simp]: "byte_diff a b = 0 \<longleftrightarrow> a = b"
  by (simp add: byte_diff_def word_uint_eq_iff)

lemma cstr_hd: "cstr m p s \<Longrightarrow> m p = chd s"
  by (cases s) (auto simp: chd_def)

lemma strncmp_cstr:
  "cstr m p s \<Longrightarrow> cstr m q t \<Longrightarrow> strncmp m p q n = strncmp_l (unat n) s t"
proof (induction "unat n" s t arbitrary: p q n rule: strncmp_l.induct)
  case (1 s t)
  then have "n = 0" by (simp add: unat_eq_0)
  then show ?case by (simp add: strncmp.simps [of m p q])
next
  case (2 k a s b t)
  then have nz: "n \<noteq> 0" by auto
  then have k: "unat (n - 1) = k" using "2.hyps"(2) by (simp add: unat_dec)
  show ?case
  proof (cases "a = b")
    case True
    have "strncmp m (p + 1) (q + 1) (n - 1) = strncmp_l k s t"
      using "2.hyps"(1) [OF True, of "n - 1"] "2.prems" k by simp
    with True nz 2 show ?thesis
      by (simp add: strncmp.simps [of m p q] "2.hyps"(2) [symmetric])
  next
    case False
    with nz 2 show ?thesis by (simp add: strncmp.simps [of m p q] "2.hyps"(2) [symmetric])
  qed
next
  case (3 k t)
  then have nz: "n \<noteq> 0" by auto
  with 3 show ?case
    by (simp add: strncmp.simps [of m p q] "3.hyps" [symmetric] cstr_hd [of m q t])
next
  case (4 k a s)
  then have nz: "n \<noteq> 0" by auto
  with 4 show ?case
    by (auto simp: strncmp.simps [of m p q] "4.hyps" [symmetric])
qed

lemma strncmp_l_eq_0:
  "0 \<notin> set s \<Longrightarrow> 0 \<notin> set t \<Longrightarrow> strncmp_l n s t = 0 \<longleftrightarrow> take n s = take n t"
proof (induction n s t rule: strncmp_l.induct)
  case (3 n t)
  then show ?case by (cases t) (auto simp: chd_def)
qed auto

subsection \<open>Substring search\<close>

fun find_sub :: "u8 list \<Rightarrow> u8 list \<Rightarrow> nat option" where
  "find_sub [] ns = None"
| "find_sub (h # hs) ns =
     (if take (length ns) (h # hs) = ns then Some 0 else map_option Suc (find_sub hs ns))"

lemma strstr_match_cstr:
  "cstr m h hs \<Longrightarrow> cstr m n ns \<Longrightarrow>
   \<exists>e. strstr_match m h n = Some e \<and> (m e = 0 \<longleftrightarrow> take (length ns) hs = ns)"
proof (induction ns arbitrary: hs h n)
  case Nil
  then show ?case by (subst strstr_match.simps) auto
next
  case (Cons b ns)
  show ?case
  proof (cases hs)
    case Nil
    with Cons.prems show ?thesis by (subst strstr_match.simps) auto
  next
    case hs: (Cons a as)
    show ?thesis
    proof (cases "a = b")
      case True
      from Cons.prems hs obtain e where
        e: "strstr_match m (h + 1) (n + 1) = Some e" "m e = 0 \<longleftrightarrow> take (length ns) as = ns"
        using Cons.IH [of "h + 1" as "n + 1"] by auto
      with True Cons.prems hs show ?thesis by (subst strstr_match.simps) auto
    next
      case False
      with Cons.prems hs show ?thesis by (subst strstr_match.simps) auto
    qed
  qed
qed

lemma strstr_loop_cstr:
  "cstr m h hs \<Longrightarrow> cstr m n ns \<Longrightarrow>
   strstr_loop m h n = Some (case find_sub hs ns of None \<Rightarrow> 0 | Some i \<Rightarrow> h + of_nat i)"
proof (induction hs arbitrary: h)
  case Nil
  then show ?case by (subst strstr_loop.simps) simp
next
  case (Cons c hs)
  obtain e where e: "strstr_match m h n = Some e" "m e = 0 \<longleftrightarrow> take (length ns) (c # hs) = ns"
    using strstr_match_cstr [OF Cons.prems] by blast
  have IH: "strstr_loop m (h + 1) n =
      Some (case find_sub hs ns of None \<Rightarrow> 0 | Some i \<Rightarrow> h + 1 + of_nat i)"
    using Cons by simp
  have "m h \<noteq> 0" using Cons.prems by auto
  with e IH show ?case
    by (subst strstr_loop.simps) (auto simp: add.assoc split: option.splits)
qed

lemma strstr_cstr:
  assumes "cstr m h hs" "cstr m n ns" "ns \<noteq> []"
  shows "strstr m h n = Some (case find_sub hs ns of None \<Rightarrow> 0 | Some i \<Rightarrow> h + of_nat i)"
proof -
  have "m n \<noteq> 0" using assms by (cases ns) auto
  then show ?thesis using strstr_loop_cstr [OF assms(1,2)] by (simp add: strstr_def)
qed

text \<open>\<open>find_sub\<close> is the first occurrence.\<close>

lemma find_sub_Some:
  "find_sub hs ns = Some i \<Longrightarrow>
     i < length hs \<and> take (length ns) (drop i hs) = ns \<and>
     (\<forall>j < i. take (length ns) (drop j hs) \<noteq> ns)"
proof (induction hs arbitrary: i)
  case (Cons h hs)
  then show ?case
    by (auto split: if_splits simp: less_Suc_eq_0_disj)
qed simp

lemma find_sub_None:
  "find_sub hs ns = None \<Longrightarrow> i < length hs \<Longrightarrow> take (length ns) (drop i hs) \<noteq> ns"
proof (induction hs arbitrary: i)
  case (Cons h hs)
  then show ?case by (cases i) (auto split: if_splits)
qed simp

subsection \<open>Tokens\<close>

text \<open>One call of \<open>strtokr\<close> on the string that starts at its current position: the token and
  the string left for the next call (\<open>None\<close> for a \<^verbatim>\<open>NULL\<close> pointer).\<close>

definition strtokr_l :: "u8 list \<Rightarrow> u8 list \<Rightarrow> u8 list option \<times> u8 list option" where
  "strtokr_l ds s =
     (if s = [] then (None, None)
      else let t = dropWhile (\<lambda>c. c \<in> set ds) s in
        if t = [] then (None, Some [])
        else (Some (takeWhile (\<lambda>c. c \<notin> set ds) t), Some (tl (dropWhile (\<lambda>c. c \<notin> set ds) t))))"

lemma is_delim_cstr: "cstr m d ds \<Longrightarrow> is_delim m c d = Some (c \<in> set ds)"
proof (induction ds arbitrary: d)
  case Nil
  then show ?case by (subst is_delim.simps) simp
next
  case (Cons b ds)
  then show ?case by (subst is_delim.simps) auto
qed

lemma skip_delims_cstr:
  assumes "cstr m d ds"
  shows "cstr m p s \<Longrightarrow>
    skip_delims m d p = Some (p + of_nat (length (takeWhile (\<lambda>c. c \<in> set ds) s)))"
proof (induction s arbitrary: p)
  case Nil
  then show ?case by (subst skip_delims.simps) simp
next
  case (Cons c s)
  then show ?case
    by (subst skip_delims.simps) (auto simp: is_delim_cstr [OF assms] add.assoc)
qed

lemma token_end_cstr:
  assumes "cstr m d ds"
  shows "cstr m p s \<Longrightarrow>
    token_end m d p = Some (p + of_nat (length (takeWhile (\<lambda>c. c \<notin> set ds) s)))"
proof (induction s arbitrary: p)
  case Nil
  then show ?case by (subst token_end.simps) simp
next
  case (Cons c s)
  then show ?case
    by (subst token_end.simps) (auto simp: is_delim_cstr [OF assms] add.assoc)
qed

text \<open>Writing a NUL over one byte of a string cuts it in two.\<close>

lemma cstr_cut:
  assumes "cstr m p (a @ c # b)"
  shows "cstr (m(p + of_nat (length a) := 0)) p a"
    "cstr (m(p + of_nat (length a) := 0)) (p + of_nat (length a) + 1) b"
proof -
  have len: "length a < 18446744073709551616" "length a + 1 + length b < 18446744073709551616"
    using cstr_length [OF assms] by auto
  show "cstr (m(p + of_nat (length a) := 0)) p a"
    using assms len by (auto simp: cstr_iff cstr_append of_nat_inject_u64 nth_append)
  have "cstr m (p + of_nat (length a) + 1) b"
    using assms cstr_append [of m p "a @ [c]" b] by (simp add: add.assoc add.commute [of 1])
  moreover have "p + of_nat (length a) + 1 + of_nat i \<noteq> p + of_nat (length a)" if "i \<le> length b" for i
  proof -
    have "of_nat (length a + 1 + i) \<noteq> (of_nat (length a) :: u64)"
      using that len by (subst of_nat_inject_u64) auto
    then show ?thesis by (simp add: algebra_simps)
  qed
  ultimately show "cstr (m(p + of_nat (length a) := 0)) (p + of_nat (length a) + 1) b"
    by (rule cstr_upd)
qed

lemma cstr_dropWhile:
  "cstr m p s \<Longrightarrow> cstr m (p + of_nat (length (takeWhile P s))) (dropWhile P s)"
  using cstr_append [of m p "takeWhile P s" "dropWhile P s"] by simp

text \<open>\<open>strtokr\<close> in memory is \<open>strtokr_l\<close> on the string at its position: the token and the
  remainder are terminated strings of the new memory, and only bytes of that string change.\<close>

lemma strtokr_cstr:
  assumes n: "n = (if str \<noteq> 0 then str else saveptr)" "n \<noteq> 0"
    and s: "cstr m n s" and d: "cstr m d ds"
  shows "\<exists>tp sp m'. strtokr m str d saveptr = Some (tp, sp, m') \<and>
    (\<forall>x. m' x \<noteq> m x \<longrightarrow> (\<exists>i < length s. x = n + of_nat i)) \<and>
    (case strtokr_l ds s of
       (None, None) \<Rightarrow> tp = 0 \<and> sp = 0
     | (None, Some r) \<Rightarrow> tp = 0 \<and> cstr m' sp r
     | (Some t, None) \<Rightarrow> False
     | (Some t, Some r) \<Rightarrow> cstr m' tp t \<and> cstr m' sp r)"
proof (cases "s = []")
  case True
  then show ?thesis using n s by (auto simp: strtokr_def strtokr_l_def Let_def)
next
  case ne: False
  then have nz: "m n \<noteq> 0" using s by (cases s) auto
  define k where "k = length (takeWhile (\<lambda>c. c \<in> set ds) s)"
  define t where "t = dropWhile (\<lambda>c. c \<in> set ds) s"
  have t: "cstr m (n + of_nat k) t" unfolding k_def t_def by (rule cstr_dropWhile [OF s])
  have skip: "skip_delims m d n = Some (n + of_nat k)" unfolding k_def by (rule skip_delims_cstr [OF d s])
  show ?thesis
  proof (cases "t = []")
    case True
    have z: "m (n + of_nat k) = 0" using t True by simp
    have "strtokr_l ds s = (None, Some [])"
      using ne True by (simp add: strtokr_l_def t_def [symmetric])
    then show ?thesis using n nz skip z by (auto simp: strtokr_def Let_def)
  next
    case tne: False
    then have tz: "m (n + of_nat k) \<noteq> 0" using t by (cases t) auto
    define tok where "tok = takeWhile (\<lambda>c. c \<notin> set ds) t"
    define rest where "rest = dropWhile (\<lambda>c. c \<notin> set ds) t"
    let ?e = "n + of_nat k + of_nat (length tok)"
    have e: "token_end m d (n + of_nat k) = Some ?e" unfolding tok_def by (rule token_end_cstr [OF d t])
    have split: "t = tok @ rest" by (simp add: tok_def rest_def)
    have res: "strtokr_l ds s = (Some tok, Some (tl rest))"
      using ne tne by (simp add: strtokr_l_def Let_def t_def [symmetric] tok_def rest_def)
    show ?thesis
    proof (cases rest)
      case Nil
      with t split have "m ?e = 0" using cstr_end by auto
      then show ?thesis using n nz skip tz e res t split Nil
        by (auto simp: strtokr_def Let_def)
    next
      case (Cons c r)
      have cut: "cstr (m(?e := 0)) (n + of_nat k) tok" "cstr (m(?e := 0)) (?e + 1) r"
        using cstr_cut [of m "n + of_nat k" tok c r] t split Cons by auto
      have "m ?e \<noteq> 0" using t split Cons by (auto simp: cstr_append)
      moreover have "k + length tok < length s"
        using split Cons arg_cong [OF takeWhile_dropWhile_id [of "\<lambda>c. c \<in> set ds" s], of length]
        by (simp add: k_def t_def)
      then have "\<exists>i < length s. ?e = n + of_nat i"
        by (intro exI [of _ "k + length tok"]) (simp add: add.assoc)
      ultimately show ?thesis using n nz skip tz e res cut Cons
        by (auto simp: strtokr_def Let_def)
    qed
  qed
qed

text \<open>All tokens of a string, as a caller's loop over \<open>strtokr\<close> sees them.\<close>

lemma strtokr_l_shorter:
  "strtokr_l ds s = (Some t, Some r) \<Longrightarrow> length r < length s"
proof -
  assume a: "strtokr_l ds s = (Some t, Some r)"
  let ?t = "dropWhile (\<lambda>c. c \<in> set ds) s"
  have "s \<noteq> []" "?t \<noteq> []" "r = tl (dropWhile (\<lambda>c. c \<notin> set ds) ?t)"
    using a by (auto simp: strtokr_l_def Let_def split: if_splits)
  moreover have "length (dropWhile (\<lambda>c. c \<notin> set ds) ?t) \<le> length ?t"
    and "length ?t \<le> length s" by (rule length_dropWhile_le)+
  moreover have "0 < length s" using \<open>s \<noteq> []\<close> by simp
  ultimately show ?thesis by (simp only: length_tl)
qed

function tokens_l :: "u8 list \<Rightarrow> u8 list \<Rightarrow> u8 list list" where
  "tokens_l ds s = (case strtokr_l ds s of (Some t, Some r) \<Rightarrow> t # tokens_l ds r | _ \<Rightarrow> [])"
  by pat_completeness auto
termination
  by (relation "measure (\<lambda>(ds, s). length s)") (auto dest: sym strtokr_l_shorter)

declare tokens_l.simps [simp del]

lemma strtokr_l_Nil [simp]: "strtokr_l ds [] = (None, None)"
  by (simp add: strtokr_l_def)

lemma tokens_l_Nil [simp]: "tokens_l ds [] = []"
  by (simp add: tokens_l.simps)

lemma strtokr_l_delim: "d \<in> set ds \<Longrightarrow> s \<noteq> [] \<Longrightarrow> strtokr_l ds (d # s) = strtokr_l ds s"
  by (simp add: strtokr_l_def)

lemma strtokr_l_tok:
  assumes "t \<noteq> []" "set t \<inter> set ds = {}" "s = [] \<or> hd s \<in> set ds"
  shows "strtokr_l ds (t @ s) = (Some t, Some (tl s))"
proof -
  have "dropWhile (\<lambda>c. c \<in> set ds) (t @ s) = t @ s" using assms(1,2) by (cases t) auto
  moreover have "takeWhile (\<lambda>c. c \<notin> set ds) (t @ s) = t" "dropWhile (\<lambda>c. c \<notin> set ds) (t @ s) = s"
  proof -
    have "\<forall>c \<in> set t. c \<notin> set ds" using assms(2) by auto
    then have "takeWhile (\<lambda>c. c \<notin> set ds) (t @ s) = t @ takeWhile (\<lambda>c. c \<notin> set ds) s"
      "dropWhile (\<lambda>c. c \<notin> set ds) (t @ s) = dropWhile (\<lambda>c. c \<notin> set ds) s" by auto
    moreover have "takeWhile (\<lambda>c. c \<notin> set ds) s = []" "dropWhile (\<lambda>c. c \<notin> set ds) s = s"
      using assms(3) by (cases s; auto)+
    ultimately show "takeWhile (\<lambda>c. c \<notin> set ds) (t @ s) = t" "dropWhile (\<lambda>c. c \<notin> set ds) (t @ s) = s"
      by simp_all
  qed
  ultimately show ?thesis using assms(1) by (simp add: strtokr_l_def Let_def)
qed

lemma tokens_l_delim: "d \<in> set ds \<Longrightarrow> tokens_l ds (d # s) = tokens_l ds s"
  by (cases "s = []") (simp_all add: tokens_l.simps [of ds "[d]"] tokens_l.simps [of ds "d # s"]
    tokens_l.simps [of ds s] strtokr_l_delim strtokr_l_def [of ds "[d]"])

lemma tokens_l_sound: "t \<in> set (tokens_l ds s) \<Longrightarrow> t \<noteq> [] \<and> set t \<inter> set ds = {} \<and> set t \<subseteq> set s"
proof (induction ds s rule: tokens_l.induct)
  case (1 ds s)
  show ?case
  proof (cases "strtokr_l ds s")
    case (Pair a b)
    then consider "tokens_l ds s = []" | u r where "a = Some u" "b = Some r"
      by (cases a; cases b) (auto simp: tokens_l.simps [of ds s])
    then show ?thesis
    proof cases
      case 2
      let ?t = "dropWhile (\<lambda>c. c \<in> set ds) s"
      have ne: "?t \<noteq> []" and u: "u = takeWhile (\<lambda>c. c \<notin> set ds) ?t"
        and r: "r = tl (dropWhile (\<lambda>c. c \<notin> set ds) ?t)"
        using Pair 2 by (auto simp: strtokr_l_def Let_def split: if_splits)
      have "u \<noteq> []" using ne hd_dropWhile [OF ne] by (cases ?t) (auto simp: u)
      moreover have "set u \<inter> set ds = {}" "set u \<subseteq> set s"
        by (auto simp: u dest!: set_takeWhileD set_dropWhileD)
      moreover have "set (tl xs) \<subseteq> set xs" for xs :: "u8 list" by (cases xs) auto
      then have "set r \<subseteq> set s" unfolding r by (meson set_dropWhileD subsetD subsetI)
      moreover have "t \<in> set (tokens_l ds r) \<Longrightarrow> t \<noteq> [] \<and> set t \<inter> set ds = {} \<and> set t \<subseteq> set r"
        using "1.IH" [OF Pair [symmetric] 2] by blast
      moreover have "t = u \<or> t \<in> set (tokens_l ds r)"
        using "1.prems" Pair 2 by (simp add: tokens_l.simps [of ds s])
      ultimately show ?thesis by blast
    qed (use "1.prems" in simp)
  qed
qed

text \<open>Joining components with a separator and tokenising gives the components back.\<close>

lemma tokens_l_join:
  assumes "\<And>c. c \<in> set cs \<Longrightarrow> c \<noteq> [] \<and> d \<notin> set c"
  shows "tokens_l [d] (concat (map (\<lambda>c. d # c) cs)) = cs"
  using assms
proof (induction cs)
  case Nil
  then show ?case by simp
next
  case (Cons c cs)
  let ?s = "concat (map (\<lambda>c. d # c) cs)"
  have "strtokr_l [d] (c @ ?s) = (Some c, Some (tl ?s))"
    using Cons.prems by (intro strtokr_l_tok) (auto intro: list.exhaust [of cs])
  moreover have "tokens_l [d] (tl ?s) = cs"
  proof (cases "cs = []")
    case False
    then have "?s = d # tl ?s" by (cases cs) auto
    then have "tokens_l [d] ?s = tokens_l [d] (tl ?s)"
      using tokens_l_delim [of d "[d]" "tl ?s"] by simp
    with Cons show ?thesis by simp
  qed simp
  ultimately show ?case by (simp add: tokens_l_delim tokens_l.simps [of "[d]" "c @ ?s"])
qed

end
