(* ===== verification/Kmemory_Correct.thy ===== *)
theory Kmemory_Correct
  imports Kmemory
begin

text \<open>
  What the routines of \<^verbatim>\<open>kernel/src/core/memory.c\<close> promise their callers: overlapping moves,
  substring search and tokenising. The rest of the development uses the closed forms of
  theory \<open>Kmemory\<close> directly.
\<close>

text \<open>C26. \<open>memmove\<close> copies correctly whether or not the two ranges overlap: as long as neither range
  runs past the end of the address space, afterwards the destination holds the bytes the source
  held before, and no byte outside the destination has changed.\<close>

theorem memmove_correct:
  assumes "unat dest + unat n \<le> 2 ^ 64" "unat src + unat n \<le> 2 ^ 64"
  shows "load_bytes (memmove m dest src n) dest (unat n) = load_bytes m src (unat n) \<and>
    (\<forall>x. x \<notin> extent dest (unat n) \<longrightarrow> memmove m dest src n x = m x)"
proof
  have "unat (of_nat i :: u64) < unat n" if "i < unat n" for i
    using that unat_lt_u64 [of n] by (simp add: unat_of_nat_small)
  then show "load_bytes (memmove m dest src n) dest (unat n) = load_bytes m src (unat n)"
    by (intro load_bytes_eqI) (simp add: memmove_apply [OF assms])
  show "\<forall>x. x \<notin> extent dest (unat n) \<longrightarrow> memmove m dest src n x = m x"
    by (simp add: memmove_apply [OF assms] extent_def)
qed

theorem memmove_correct_witness:
  "load_bytes (memmove (\<lambda>x. ucast x) 2 0 4) 2 4 = [0, 1, 2, 3] \<and>
   memmove (\<lambda>x. ucast x) 2 0 4 6 = 6"
proof -
  have "load_bytes (\<lambda>x. ucast x) 0 4 = [0, 1, 2, 3 :: u8]"
    by (simp add: load_bytes_def upt_rec)
  then show ?thesis
    using memmove_correct [of 2 4 0 "\<lambda>x. ucast x"] by (simp add: extent_def)
qed

text \<open>\<open>strstr\<close> on two terminated strings always returns. It returns the address of the first
  occurrence of a non-empty needle in the haystack, and \<^verbatim>\<open>NULL\<close> exactly when there is none.\<close>

theorem strstr_first:
  assumes "cstr m h hs" "cstr m n ns" "ns \<noteq> []"
  shows "(\<exists>i < length hs. strstr m h n = Some (h + of_nat i) \<and> take (length ns) (drop i hs) = ns \<and>
            (\<forall>j < i. take (length ns) (drop j hs) \<noteq> ns)) \<or>
         strstr m h n = Some 0 \<and> (\<forall>i < length hs. take (length ns) (drop i hs) \<noteq> ns)"
proof (cases "find_sub hs ns")
  case None
  then show ?thesis using strstr_cstr [OF assms] find_sub_None by auto
next
  case (Some i)
  then show ?thesis using strstr_cstr [OF assms] find_sub_Some [OF Some] by auto
qed

definition strstr_mem :: mem where
  "strstr_mem = store_bytes (store_bytes (\<lambda>_. 0) 16 [97, 98, 97, 99]) 32 [97, 99]"

theorem strstr_first_witness:
  "cstr strstr_mem 16 [97, 98, 97, 99] \<and> cstr strstr_mem 32 [97, 99] \<and> strstr strstr_mem 16 32 = Some 18"
proof -
  have "cstr strstr_mem 16 [97, 98, 97, 99]" "cstr strstr_mem 32 [97, 99]"
    by (simp_all add: strstr_mem_def)
  moreover have "take (length [97, 99 :: u8]) (drop j [97, 98, 97, 99 :: u8]) = [97, 99] \<longleftrightarrow> j = 2"
    if "j < length [97, 98, 97, 99 :: u8]" for j
    using that by (auto simp: less_Suc_eq)
  ultimately show ?thesis
    using strstr_first [of strstr_mem 16 "[97, 98, 97, 99]" 32 "[97, 99]"] by force
qed

text \<open>C27. \<open>strtokr\<close> in memory implements tokenising of the string at its position: the call returns,
  the token it returns is the first maximal delimiter-free run \<open>t\<close> of that string, the saved
  position holds what follows the delimiter, both are terminated strings of the new memory, and no
  byte outside the string has changed.\<close>

theorem strtokr_refines:
  assumes "n = (if str \<noteq> 0 then str else saveptr)" "n \<noteq> 0" "cstr m n s" "cstr m d ds"
  shows "\<exists>tp sp m'. strtokr m str d saveptr = Some (tp, sp, m') \<and>
    (\<forall>x. m' x \<noteq> m x \<longrightarrow> (\<exists>i < length s. x = n + of_nat i)) \<and>
    (case strtokr_l ds s of
       (None, None) \<Rightarrow> tp = 0 \<and> sp = 0
     | (None, Some r) \<Rightarrow> tp = 0 \<and> cstr m' sp r
     | (Some t, None) \<Rightarrow> False
     | (Some t, Some r) \<Rightarrow> cstr m' tp t \<and> cstr m' sp r)"
  by (rule strtokr_cstr [OF assms])

definition strtokr_mem :: mem where
  "strtokr_mem = store_bytes (store_bytes (\<lambda>_. 0) 16 [47, 97, 47, 98]) 32 [47]"

theorem strtokr_refines_witness:
  "\<exists>tp sp m'. strtokr strtokr_mem 16 32 0 = Some (tp, sp, m') \<and> cstr m' tp [97] \<and> cstr m' sp [98]"
proof -
  have "cstr strtokr_mem 16 [47, 97, 47, 98]" "cstr strtokr_mem 32 [47]"
    by (simp_all add: strtokr_mem_def)
  moreover have "strtokr_l [47] [47, 97, 47, 98] = (Some [97], Some [98])"
    by (simp add: strtokr_l_def)
  ultimately show ?thesis
    using strtokr_refines [of 16 16 0 strtokr_mem "[47, 97, 47, 98]" 32 "[47]"] by auto
qed

end
