(* ===== verification/Ldisc.thy ===== *)
theory Ldisc
  imports Prelude
begin

text \<open>
  The canonical-mode line discipline of \<^verbatim>\<open>kernel/src/core/ldisc.c\<close>: bytes typed by the
  user are edited into a line, and a finished line is handed to readers in pieces. The
  editing contract is the locale \<open>line_discipline\<close>, stated over the abstract lines of
  \<open>line_state\<close>; the C functions interpret it. The echo callback's output is the list of
  bytes it was called with.
\<close>

section \<open>The structure and its operations\<close>

definition LDISC_BUF_SIZE :: nat where "LDISC_BUF_SIZE = 256"
definition LDISC_BS :: u8 where "LDISC_BS = 0x08"
definition LDISC_DEL :: u8 where "LDISC_DEL = 0x7f"

record ldisc =
  ld_buf :: "u8 list"
  ld_len :: u64
  ld_consumed :: u64
  ld_complete :: bool
  ld_echo_set :: bool

definition ld_echo :: "ldisc \<Rightarrow> u8 \<Rightarrow> u8 list" where
  "ld_echo ld c = (if ld_echo_set ld then [c] else [])"

primrec ld_echo_str :: "ldisc \<Rightarrow> u8 list \<Rightarrow> u8 list" where
  "ld_echo_str ld [] = []"
| "ld_echo_str ld (c # s) = ld_echo ld c @ ld_echo_str ld s"

definition ldisc_init :: "ldisc option \<Rightarrow> bool \<Rightarrow> ldisc option" where
  "ldisc_init ld echo =
     map_option (\<lambda>l. l\<lparr>ld_len := 0, ld_consumed := 0, ld_complete := False, ld_echo_set := echo\<rparr>) ld"

text \<open>The result is the return value, the new structure and what was echoed.\<close>

definition ldisc_feed :: "ldisc option \<Rightarrow> u8 \<Rightarrow> bool \<times> ldisc option \<times> u8 list" where
  "ldisc_feed ld byte =
     (case ld of
        None \<Rightarrow> (False, None, [])
      | Some l \<Rightarrow>
          if ld_complete l then (True, Some l, [])
          else if byte = LDISC_BS \<or> byte = LDISC_DEL then
            (if ld_len l > 0 then (False, Some (l\<lparr>ld_len := ld_len l - 1\<rparr>), ld_echo_str l [8, 32, 8])
             else (False, Some l, []))
          else if byte = 13 \<or> byte = 10 then
            (let l1 = (if ld_len l < of_nat LDISC_BUF_SIZE
                       then l\<lparr>ld_buf := (ld_buf l)[unat (ld_len l) := 10], ld_len := ld_len l + 1\<rparr>
                       else l)
             in (True, Some (l1\<lparr>ld_complete := True\<rparr>), ld_echo l 10))
          else if byte < 0x20 then (False, Some l, [])
          else if ld_len l \<ge> of_nat LDISC_BUF_SIZE - 1 then (False, Some l, [])
          else (False, Some (l\<lparr>ld_buf := (ld_buf l)[unat (ld_len l) := byte], ld_len := ld_len l + 1\<rparr>),
                ld_echo l byte))"

definition ldisc_ready :: "ldisc option \<Rightarrow> bool" where
  "ldisc_ready ld = (case ld of None \<Rightarrow> False | Some l \<Rightarrow> ld_complete l)"

text \<open>\<open>out\<close> is the destination array; the result is the return value, the new structure
  and the destination afterwards.\<close>

definition ldisc_drain ::
  "ldisc option \<Rightarrow> u8 list option \<Rightarrow> u64 \<Rightarrow> u64 \<times> ldisc option \<times> u8 list option" where
  "ldisc_drain ld out sz =
     (case (ld, out) of
        (Some l, Some dst) \<Rightarrow>
          if \<not> ld_complete l then (0, ld, out)
          else
            let avail = ld_len l - ld_consumed l;
                n = (if sz < avail then sz else avail);
                bytes = take (unat n) (drop (unat (ld_consumed l)) (ld_buf l));
                l1 = l\<lparr>ld_consumed := ld_consumed l + n\<rparr>;
                l2 = (if ld_consumed l1 = ld_len l1
                      then l1\<lparr>ld_len := 0, ld_consumed := 0, ld_complete := False\<rparr> else l1)
            in (n, Some l2, Some (bytes @ drop (unat n) dst))
      | _ \<Rightarrow> (0, ld, out))"

section \<open>Abstract lines\<close>

datatype line_state = Editing "u8 list" | Ready "u8 list"

definition spec_edit :: "u8 list \<Rightarrow> u8 \<Rightarrow> u8 list" where
  "spec_edit l b =
     (if b = 0x08 \<or> b = 0x7f then butlast l
      else if b < 0x20 \<or> length l \<ge> 255 then l else l @ [b])"

fun spec_feed :: "line_state \<Rightarrow> u8 \<Rightarrow> line_state" where
  "spec_feed (Editing l) b = (if b = 13 \<or> b = 10 then Ready (l @ [10]) else Editing (spec_edit l b))"
| "spec_feed (Ready l) b = Ready l"

fun spec_drain :: "line_state \<Rightarrow> nat \<Rightarrow> u8 list \<times> line_state" where
  "spec_drain (Editing l) n = ([], Editing l)"
| "spec_drain (Ready l) n = (take n l, if n \<ge> length l then Editing [] else Ready (drop n l))"

section \<open>The contract\<close>

text \<open>\<open>line\<close> abstracts a state that satisfies \<open>inv\<close>; \<open>feed\<close> consumes a byte, \<open>drain\<close> hands out at
  most the given number of bytes.\<close>

primrec drain_all :: "('s \<Rightarrow> u64 \<Rightarrow> u8 list \<times> 's) \<Rightarrow> 's \<Rightarrow> u64 list \<Rightarrow> u8 list \<times> 's" where
  "drain_all drain s [] = ([], s)"
| "drain_all drain s (n # ns) = (let (bs, s') = drain s n; (cs, s'') = drain_all drain s' ns in (bs @ cs, s''))"

locale line_discipline =
  fixes inv :: "'s \<Rightarrow> bool"
    and line :: "'s \<Rightarrow> line_state"
    and feed :: "'s \<Rightarrow> u8 \<Rightarrow> 's"
    and drain :: "'s \<Rightarrow> u64 \<Rightarrow> u8 list \<times> 's"
  assumes feed_inv: "inv s \<Longrightarrow> inv (feed s b)"
    and feed_line: "inv s \<Longrightarrow> line (feed s b) = spec_feed (line s) b"
    and drain_inv: "inv s \<Longrightarrow> inv (snd (drain s n))"
    and drain_line: "inv s \<Longrightarrow> (fst (drain s n), line (snd (drain s n))) = spec_drain (line s) (unat n)"
    and ready_nonempty: "inv s \<Longrightarrow> line s \<noteq> Ready []"
begin

lemma feed_all: "inv s \<Longrightarrow> inv (foldl feed s bs) \<and> line (foldl feed s bs) = foldl spec_feed (line s) bs"
  by (induction bs arbitrary: s) (simp_all add: feed_inv feed_line)

lemma spec_feed_ready: "foldl spec_feed (Ready l) bs = Ready l"
  by (induction bs) auto

lemma spec_feed_edits:
  "(\<forall>b \<in> set bs. b \<noteq> 13 \<and> b \<noteq> 10) \<Longrightarrow> foldl spec_feed (Editing l) bs = Editing (foldl spec_edit l bs)"
  by (induction bs arbitrary: l) auto

text \<open>A line typed and ended by return is read back whole, in whatever pieces it is read, and
  the line that was being read is not disturbed by what is typed meanwhile.\<close>

lemma drain_all_ready:
  assumes "inv s" "line s = Ready l" "sum_list (map unat ns) < length l"
  shows "fst (drain_all drain s ns) = take (sum_list (map unat ns)) l \<and> inv (snd (drain_all drain s ns)) \<and>
    line (snd (drain_all drain s ns)) = Ready (drop (sum_list (map unat ns)) l)"
  using assms
proof (induction ns arbitrary: s l)
  case (Cons n ns)
  have d: "fst (drain s n) = take (unat n) l" "line (snd (drain s n)) = Ready (drop (unat n) l)"
    using drain_line [OF Cons.prems(1), of n] Cons.prems(2,3) by auto
  have "sum_list (map unat ns) < length (drop (unat n) l)" using Cons.prems(3) by simp
  from Cons.IH [OF drain_inv [OF Cons.prems(1)] d(2) this] show ?case
    by (simp add: d split_beta take_add add.commute)
qed simp

lemma read_line:
  assumes "inv s" "line s = Editing []" "\<forall>b \<in> set bs. b \<noteq> 13 \<and> b \<noteq> 10"
    and "r = 13 \<or> r = 10" "sum_list (map unat ns) < length (foldl spec_edit [] bs @ [10])"
    and "length (foldl spec_edit [] bs @ [10]) \<le> sum_list (map unat ns) + unat n"
  shows "fst (drain_all drain (foldl feed s (bs @ r # junk)) (ns @ [n])) = foldl spec_edit [] bs @ [10] \<and>
    line (snd (drain_all drain (foldl feed s (bs @ r # junk)) (ns @ [n]))) = Editing []"
proof -
  define l where "l = foldl spec_edit [] bs @ [10]"
  define s1 where "s1 = foldl feed s (bs @ r # junk)"
  have "foldl spec_feed (Editing []) (bs @ r # junk) = Ready l"
    using assms(3,4) by (auto simp: spec_feed_edits spec_feed_ready l_def)
  then have s1: "inv s1" "line s1 = Ready l"
    unfolding s1_def using feed_all [OF assms(1), of "bs @ r # junk"] assms(2) by metis+
  have app: "drain_all drain t (ms @ [n]) = (let (bs, t') = drain_all drain t ms; (cs, t'') = drain t' n in (bs @ cs, t''))"
    for t ms by (induction ms arbitrary: t) (auto simp: split_beta Let_def)
  from drain_all_ready [OF s1, of ns] assms(5)
  have d: "fst (drain_all drain s1 ns) = take (sum_list (map unat ns)) l" "inv (snd (drain_all drain s1 ns))"
    "line (snd (drain_all drain s1 ns)) = Ready (drop (sum_list (map unat ns)) l)" by (auto simp: l_def)
  have "length (drop (sum_list (map unat ns)) l) \<le> unat n" using assms(6) by (simp add: l_def)
  then show ?thesis
    unfolding s1_def [symmetric] l_def [symmetric]
    using drain_line [OF d(2), of n] d by (simp add: app split_beta)
qed

end

section \<open>The C functions meet the contract\<close>

definition ldisc_inv :: "ldisc \<Rightarrow> bool" where
  "ldisc_inv l \<longleftrightarrow> length (ld_buf l) = 256 \<and> unat (ld_len l) \<le> 256 \<and>
     (if ld_complete l then unat (ld_consumed l) < unat (ld_len l)
      else ld_consumed l = 0 \<and> unat (ld_len l) \<le> 255)"

definition ldisc_line :: "ldisc \<Rightarrow> line_state" where
  "ldisc_line l =
     (if ld_complete l then Ready (drop (unat (ld_consumed l)) (take (unat (ld_len l)) (ld_buf l)))
      else Editing (take (unat (ld_len l)) (ld_buf l)))"

definition ldisc_type :: "ldisc \<Rightarrow> u8 \<Rightarrow> ldisc" where
  "ldisc_type l b = the (fst (snd (ldisc_feed (Some l) b)))"

definition ldisc_read :: "ldisc \<Rightarrow> u64 \<Rightarrow> u8 list \<times> ldisc" where
  "ldisc_read l n =
     (case ldisc_drain (Some l) (Some (replicate (unat n) 0)) n of
        (k, l', dst) \<Rightarrow> (take (unat k) (the dst), the l'))"

lemma unat_less_buf: "(x :: u64) < of_nat LDISC_BUF_SIZE \<longleftrightarrow> unat x < 256"
  "of_nat LDISC_BUF_SIZE - 1 \<le> (x :: u64) \<longleftrightarrow> 255 \<le> unat x"
  by (simp_all add: LDISC_BUF_SIZE_def word_less_nat_alt word_le_nat_alt)

lemma unat_len_inc: "unat (x :: u64) \<le> 255 \<Longrightarrow> unat (x + 1) = Suc (unat x)"
  using unat_add_u64 [of x 1] by simp

lemma take_snoc_update: "n < length xs \<Longrightarrow> take (Suc n) (xs[n := b]) = take n xs @ [b]"
  by (simp add: take_Suc_conv_app_nth)

lemma ldisc_type_cases:
  "ld_complete l \<Longrightarrow> ldisc_type l b = l"
  "\<not> ld_complete l \<Longrightarrow> b = 8 \<or> b = 0x7f \<Longrightarrow>
     ldisc_type l b = (if ld_len l > 0 then l\<lparr>ld_len := ld_len l - 1\<rparr> else l)"
  "\<not> ld_complete l \<Longrightarrow> b = 13 \<or> b = 10 \<Longrightarrow> unat (ld_len l) < 256 \<Longrightarrow>
     ldisc_type l b = l\<lparr>ld_buf := (ld_buf l)[unat (ld_len l) := 10], ld_len := ld_len l + 1, ld_complete := True\<rparr>"
  "\<not> ld_complete l \<Longrightarrow> b \<noteq> 8 \<Longrightarrow> b \<noteq> 0x7f \<Longrightarrow> b \<noteq> 13 \<Longrightarrow> b \<noteq> 10 \<Longrightarrow>
     ldisc_type l b = (if b < 0x20 \<or> 255 \<le> unat (ld_len l) then l
       else l\<lparr>ld_buf := (ld_buf l)[unat (ld_len l) := b], ld_len := ld_len l + 1\<rparr>)"
  by (auto simp: ldisc_type_def ldisc_feed_def LDISC_BS_def LDISC_DEL_def Let_def unat_less_buf)

lemma ldisc_type_refines:
  assumes inv: "ldisc_inv l"
  shows "ldisc_inv (ldisc_type l b) \<and> ldisc_line (ldisc_type l b) = spec_feed (ldisc_line l) b"
proof (cases "ld_complete l")
  case True
  then show ?thesis using inv by (simp add: ldisc_type_cases ldisc_line_def)
next
  case ed: False
  have len: "length (ld_buf l) = 256" "unat (ld_len l) \<le> 255" "ld_consumed l = 0"
    using inv ed by (auto simp: ldisc_inv_def)
  consider "b = 13 \<or> b = 10" | "b = 8 \<or> b = 0x7f" | "b \<noteq> 8" "b \<noteq> 0x7f" "b \<noteq> 13" "b \<noteq> 10" by blast
  then show ?thesis
  proof cases
    case 1
    have "ldisc_type l b = l\<lparr>ld_buf := (ld_buf l)[unat (ld_len l) := 10], ld_len := ld_len l + 1, ld_complete := True\<rparr>"
      using ed 1 len by (intro ldisc_type_cases) auto
    then show ?thesis using ed 1 len
      by (simp add: ldisc_inv_def ldisc_line_def unat_len_inc take_snoc_update)
  next
    case 2
    have "unat (ld_len l - 1) = unat (ld_len l) - 1" if "ld_len l > 0"
      using that by (intro unat_dec) auto
    moreover have "ld_len l > 0 \<longleftrightarrow> unat (ld_len l) > 0" by (simp add: word_less_nat_alt)
    moreover have "b \<noteq> 13" "b \<noteq> 10" using 2 by auto
    ultimately show ?thesis using ed len
      by (simp add: ldisc_type_cases(2) [OF ed 2] ldisc_inv_def ldisc_line_def spec_edit_def 2 butlast_take) arith
  next
    case 3
    then show ?thesis using ed len
      by (simp add: ldisc_type_cases(4) [OF ed 3] ldisc_inv_def ldisc_line_def spec_edit_def
          unat_len_inc take_snoc_update)
  qed
qed

lemma ldisc_read_eq:
  assumes "ld_complete l" "ldisc_inv l"
  shows "ldisc_read l n =
    (let k = (if n < ld_len l - ld_consumed l then n else ld_len l - ld_consumed l) in
     (take (unat k) (drop (unat (ld_consumed l)) (ld_buf l)),
      if ld_consumed l + k = ld_len l then l\<lparr>ld_consumed := 0, ld_len := 0, ld_complete := False\<rparr>
      else l\<lparr>ld_consumed := ld_consumed l + k\<rparr>))"
proof -
  have "unat (ld_len l - ld_consumed l) = unat (ld_len l) - unat (ld_consumed l)"
    using assms by (simp add: unat_diff_u64 ldisc_inv_def)
  then have "unat k \<le> length (ld_buf l) - unat (ld_consumed l)"
    if "k = (if n < ld_len l - ld_consumed l then n else ld_len l - ld_consumed l)" for k
    using that assms by (auto simp: ldisc_inv_def word_less_nat_alt)
  then show ?thesis using assms by (simp add: ldisc_read_def ldisc_drain_def Let_def min_def)
qed

lemma ldisc_read_refines:
  assumes inv: "ldisc_inv l"
  shows "ldisc_inv (snd (ldisc_read l n)) \<and>
    (fst (ldisc_read l n), ldisc_line (snd (ldisc_read l n))) = spec_drain (ldisc_line l) (unat n)"
proof (cases "ld_complete l")
  case False
  then show ?thesis using inv by (simp add: ldisc_read_def ldisc_drain_def ldisc_line_def)
next
  case True
  note eq = ldisc_read_eq [OF True inv]
  let ?c = "ld_consumed l" and ?e = "ld_len l"
  have lt: "unat ?c < unat ?e" "unat ?e \<le> 256" "length (ld_buf l) = 256"
    using inv True by (auto simp: ldisc_inv_def)
  have av: "unat (?e - ?c) = unat ?e - unat ?c" using lt by (simp add: unat_diff_u64)
  show ?thesis
  proof (cases "n < ?e - ?c")
    case lt': True
    then have n: "unat n < unat ?e - unat ?c" by (simp add: word_less_nat_alt av)
    then have sum: "unat (?c + n) = unat ?c + unat n" using lt by (intro unat_add_u64) simp
    then have ne: "?c + n \<noteq> ?e" using n by auto
    show ?thesis using True lt lt' n sum ne
      by (simp add: eq ldisc_line_def ldisc_inv_def drop_take min_def add.commute) arith
  next
    case False
    then have n: "unat ?e - unat ?c \<le> unat n" by (simp add: word_less_nat_alt av)
    show ?thesis using True lt False n
      by (simp add: eq ldisc_line_def ldisc_inv_def av drop_take)
  qed
qed

interpretation ld: line_discipline ldisc_inv ldisc_line ldisc_type ldisc_read
proof unfold_locales
  fix s :: ldisc assume "ldisc_inv s"
  then show "ldisc_line s \<noteq> Ready []" by (auto simp: ldisc_line_def ldisc_inv_def)
qed (simp_all add: ldisc_type_refines ldisc_read_refines)

section \<open>Properties\<close>

definition ldisc_new :: "bool \<Rightarrow> ldisc" where
  "ldisc_new echo = the (ldisc_init (Some \<lparr>ld_buf = replicate 256 0, ld_len = 0, ld_consumed = 0,
     ld_complete = False, ld_echo_set = False\<rparr>) echo)"

lemma ldisc_new_inv [simp]: "ldisc_inv (ldisc_new e)" "ldisc_line (ldisc_new e) = Editing []"
  by (simp_all add: ldisc_new_def ldisc_init_def ldisc_inv_def ldisc_line_def)

text \<open>C24. What the user types up to return, with backspaces applied, control characters dropped
  and the line cut at 255 bytes, is what the readers get, followed by a newline: once, in order, for every
  way of cutting the reads into pieces, and whatever is typed between return and the last read. After the
  last piece the discipline is ready for the next line.\<close>

theorem ldisc_line_roundtrip:
  assumes "\<forall>b \<in> set bs. b \<noteq> 13 \<and> b \<noteq> 10" "r = 13 \<or> r = 10"
    and "sum_list (map unat ns) \<le> length (foldl spec_edit [] bs)"
    and "length (foldl spec_edit [] bs) < sum_list (map unat ns) + unat n"
  shows "fst (drain_all ldisc_read (foldl ldisc_type (ldisc_new e) (bs @ r # junk)) (ns @ [n])) =
      foldl spec_edit [] bs @ [10] \<and>
    ldisc_line (snd (drain_all ldisc_read (foldl ldisc_type (ldisc_new e) (bs @ r # junk)) (ns @ [n]))) = Editing []"
  using assms by (intro ld.read_line) simp_all

theorem ldisc_line_roundtrip_witness:
  "fst (drain_all ldisc_read (foldl ldisc_type (ldisc_new True) ([104, 120, 127, 105] @ 13 # [122])) ([2] @ [9])) =
     [104, 105, 10]"
  using ldisc_line_roundtrip [of "[104, 120, 127, 105]" 13 "[2]" 9 True "[122]"]
  by (simp add: spec_edit_def)

text \<open>A terminal line: the cells and the cursor. A backspace moves the cursor, any other byte
  overwrites the cell under it.\<close>

fun tty_put :: "u8 list \<times> nat \<Rightarrow> u8 \<Rightarrow> u8 list \<times> nat" where
  "tty_put (cells, cur) c =
     (if c = 8 then (cells, cur - 1) else (take cur cells @ [c] @ drop (Suc cur) cells, Suc cur))"

primrec ldisc_session :: "ldisc \<Rightarrow> u8 list \<Rightarrow> ldisc \<times> u8 list" where
  "ldisc_session l [] = (l, [])"
| "ldisc_session l (b # bs) =
     (case ldisc_feed (Some l) b of (_, l', out) \<Rightarrow>
        let (l'', out') = ldisc_session (the l') bs in (l'', out @ out'))"

definition tty_shows :: "u8 list \<times> nat \<Rightarrow> u8 list \<Rightarrow> bool" where
  "tty_shows t line \<longleftrightarrow> snd t = length line \<and> (\<exists>k. fst t = line @ replicate k 32)"

lemma tty_shows_char:
  assumes "tty_shows t line" "c \<noteq> 8"
  shows "tty_shows (tty_put t c) (line @ [c])"
proof -
  obtain k where t: "t = (line @ replicate k 32, length line)"
    using assms(1) by (cases t) (auto simp: tty_shows_def)
  show ?thesis using assms(2) by (auto simp: t tty_shows_def intro!: exI [of _ "k - 1"])
qed

lemma tty_shows_erase:
  assumes "tty_shows t line" "line \<noteq> []"
  shows "tty_shows (foldl tty_put t [8, 32, 8]) (butlast line)"
proof -
  obtain k where t: "t = (line @ replicate k 32, length line)"
    using assms(1) by (cases t) (auto simp: tty_shows_def)
  obtain l c where l: "line = l @ [c]" using assms(2) by (cases line rule: rev_cases) auto
  show ?thesis by (auto simp: t l tty_shows_def intro!: exI [of _ "Suc k"])
qed

lemma ldisc_echo_step:
  assumes inv: "ldisc_inv l" and line: "ldisc_line l = Editing line" and e: "ld_echo_set l"
    and b: "b \<noteq> 13" "b \<noteq> 10" and t: "tty_shows t line"
  shows "tty_shows (foldl tty_put t (snd (snd (ldisc_feed (Some l) b)))) (spec_edit line b) \<and>
    ld_echo_set (ldisc_type l b)"
proof -
  have ed: "\<not> ld_complete l" and len: "unat (ld_len l) = length line" "length line \<le> 255"
    using inv line by (auto simp: ldisc_inv_def ldisc_line_def split: if_splits)
  have pos: "ld_len l > 0 \<longleftrightarrow> line \<noteq> []"
    using len by (simp add: word_less_nat_alt)
  have full: "of_nat LDISC_BUF_SIZE - 1 \<le> ld_len l \<longleftrightarrow> 255 \<le> length line"
    by (simp only: unat_less_buf len)
  show ?thesis
  proof (cases "b = 8 \<or> b = 0x7f")
    case True
    then have "snd (snd (ldisc_feed (Some l) b)) = (if line \<noteq> [] then [8, 32, 8] else [])"
      using ed e pos by (auto simp: ldisc_feed_def LDISC_BS_def LDISC_DEL_def ld_echo_def)
    then show ?thesis using True t tty_shows_erase [OF t] e
      by (cases "line = []") (simp_all add: spec_edit_def ldisc_type_cases(2) [OF ed True])
  next
    case False
    then have "snd (snd (ldisc_feed (Some l) b)) = (if b < 0x20 \<or> 255 \<le> length line then [] else [b])"
      using ed e b full by (auto simp: ldisc_feed_def LDISC_BS_def LDISC_DEL_def ld_echo_def)
    then show ?thesis using False b t tty_shows_char [OF t, of b] e
      by (simp add: spec_edit_def ldisc_type_cases(4) [OF ed])
  qed
qed

lemma ldisc_session_shows:
  assumes "ldisc_inv l" "ldisc_line l = Editing line" "ld_echo_set l"
    "\<forall>b \<in> set bs. b \<noteq> 13 \<and> b \<noteq> 10" "tty_shows t line"
  shows "ldisc_line (fst (ldisc_session l bs)) = Editing (foldl spec_edit line bs) \<and>
    tty_shows (foldl tty_put t (snd (ldisc_session l bs))) (foldl spec_edit line bs)"
  using assms
proof (induction bs arbitrary: l line t)
  case (Cons b bs)
  have st: "tty_shows (foldl tty_put t (snd (snd (ldisc_feed (Some l) b)))) (spec_edit line b)"
    "ld_echo_set (ldisc_type l b)"
    using ldisc_echo_step [OF Cons.prems(1-3) _ _ Cons.prems(5)] Cons.prems(4) by auto
  have "ldisc_inv (ldisc_type l b)" "ldisc_line (ldisc_type l b) = Editing (spec_edit line b)"
    using ldisc_type_refines [OF Cons.prems(1), of b] Cons.prems(2,4) by auto
  from Cons.IH [OF this st(2) _ st(1)] Cons.prems(4) show ?case
    by (simp add: split_beta Let_def ldisc_type_def)
qed simp

text \<open>C35. While a line is being typed, the echo keeps the terminal in step with the buffer: replayed on
  a terminal line, everything echoed so far shows exactly the buffered bytes, with the cursor behind the last one and
  nothing left of what was erased.\<close>

theorem ldisc_echo_faithful:
  assumes "\<forall>b \<in> set bs. b \<noteq> 13 \<and> b \<noteq> 10"
  shows "\<exists>line. ldisc_line (fst (ldisc_session (ldisc_new True) bs)) = Editing line \<and>
    tty_shows (foldl tty_put ([], 0) (snd (ldisc_session (ldisc_new True) bs))) line"
proof -
  have "tty_shows ([], 0) []" by (simp add: tty_shows_def)
  moreover have "ld_echo_set (ldisc_new True)" by (simp add: ldisc_new_def ldisc_init_def)
  ultimately show ?thesis using ldisc_session_shows [OF ldisc_new_inv _ assms, of True] by blast
qed

theorem ldisc_echo_faithful_witness:
  "\<exists>line. ldisc_line (fst (ldisc_session (ldisc_new True) [104, 120, 127, 105])) = Editing line \<and>
    tty_shows (foldl tty_put ([], 0) (snd (ldisc_session (ldisc_new True) [104, 120, 127, 105]))) line"
  by (rule ldisc_echo_faithful) simp

end
