(* ===== verification/Pmm.thy ===== *)
theory Pmm
  imports Kmemory
begin

text \<open>
  The physical page allocator of \<^verbatim>\<open>kernel/src/mm/pmm.c\<close> and the direct map offset of
  \<^verbatim>\<open>kernel/src/core/hhdm.c\<close>. The free list lives inside the free pages: the first eight
  bytes of a free page hold the address of the next one. A call that panics or never
  returns is \<open>None\<close>.
\<close>

section \<open>State and operations\<close>

record limine_memmap_entry =
  me_base :: u64
  me_length :: u64
  me_type :: u64

record pmm_state =
  kmem :: mem
  hhdm_offset :: u64
  free_list_head :: u64
  max_phys_addr :: u64

definition PAGE_SIZE :: u64 where
  "PAGE_SIZE = 4096"

definition PMM_ALIGN_UP :: "u64 \<Rightarrow> u64 \<Rightarrow> u64" where
  "PMM_ALIGN_UP x align = (x + align - 1) AND NOT (align - 1)"

definition PMM_ALIGN_DOWN :: "u64 \<Rightarrow> u64 \<Rightarrow> u64" where
  "PMM_ALIGN_DOWN x align = x AND NOT (align - 1)"

definition hhdm_init :: "u64 option \<Rightarrow> 'a pmm_state_scheme \<Rightarrow> 'a pmm_state_scheme" where
  "hhdm_init response s = (case response of None \<Rightarrow> s | Some off \<Rightarrow> s\<lparr>hhdm_offset := off\<rparr>)"

definition hhdm_get_offset :: "'a pmm_state_scheme \<Rightarrow> u64" where
  "hhdm_get_offset s = hhdm_offset s"

fun pmm_max_loop :: "limine_memmap_entry list \<Rightarrow> u64 \<Rightarrow> u64" where
  "pmm_max_loop [] mx = mx"
| "pmm_max_loop (e # es) mx =
     (let entry_top = me_base e + me_length e in pmm_max_loop es (if entry_top > mx then entry_top else mx))"

definition pmm_init :: "limine_memmap_entry list option \<Rightarrow> 'a pmm_state_scheme \<Rightarrow> 'a pmm_state_scheme option" where
  "pmm_init memmap s =
     (case memmap of
        None \<Rightarrow> None
      | Some entries \<Rightarrow>
          if length entries < 1 then None
          else Some (s\<lparr>free_list_head := 0, max_phys_addr := pmm_max_loop entries (max_phys_addr s)\<rparr>))"

definition pmm_phys_to_virt :: "'a pmm_state_scheme \<Rightarrow> u64 \<Rightarrow> u64" where
  "pmm_phys_to_virt s phys_addr = phys_addr + hhdm_get_offset s"

definition pmm_virt_to_phys :: "'a pmm_state_scheme \<Rightarrow> u64 \<Rightarrow> u64" where
  "pmm_virt_to_phys s virt_addr = virt_addr - hhdm_get_offset s"

definition pmm_get_max_phys_addr :: "'a pmm_state_scheme \<Rightarrow> u64" where
  "pmm_get_max_phys_addr s = max_phys_addr s"

text \<open>\<open>node->next = free_list_head; free_list_head = node\<close> for \<open>count\<close> consecutive pages.\<close>

fun pmm_free_loop :: "nat \<Rightarrow> u64 \<Rightarrow> 'a pmm_state_scheme \<Rightarrow> 'a pmm_state_scheme" where
  "pmm_free_loop 0 next_addr s = s"
| "pmm_free_loop (Suc n) next_addr s =
     (let node = pmm_phys_to_virt s next_addr in
      pmm_free_loop n (next_addr + PAGE_SIZE)
        (s\<lparr>kmem := store64 (kmem s) node (free_list_head s), free_list_head := node\<rparr>))"

definition pmm_free :: "u64 \<Rightarrow> u64 \<Rightarrow> 'a pmm_state_scheme \<Rightarrow> 'a pmm_state_scheme" where
  "pmm_free phys_addr count s =
     (if phys_addr = 0 then s else pmm_free_loop (unat count) phys_addr s)"

lemma pmm_free_loop_hhdm [simp]: "hhdm_offset (pmm_free_loop n r s) = hhdm_offset s"
  by (induction n arbitrary: r s) (simp_all add: Let_def)

lemma pmm_free_hhdm [simp]: "hhdm_offset (pmm_free r c s) = hhdm_offset s"
  by (simp add: pmm_free_def)

text \<open>The inner loop of \<open>pmm_alloc\<close>: \<open>k\<close> more pages must follow \<open>curr_node\<close> in the list, each
  one page below its predecessor.\<close>

fun pmm_contiguous :: "mem \<Rightarrow> u64 \<Rightarrow> nat \<Rightarrow> bool" where
  "pmm_contiguous m curr_node 0 = True"
| "pmm_contiguous m curr_node (Suc k) =
     (if curr_node - PAGE_SIZE = load64 m curr_node then pmm_contiguous m (load64 m curr_node) k else False)"

text \<open>The outer loop; the result is \<open>(prev_node, start_node)\<close>, with start 0 when nothing fits.\<close>

partial_function (option) pmm_search :: "mem \<Rightarrow> nat \<Rightarrow> u64 \<Rightarrow> u64 \<Rightarrow> (u64 \<times> u64) option" where
  [code]: "pmm_search m k prev_node start_node =
     (if start_node = 0 then Some (prev_node, 0)
      else if pmm_contiguous m start_node k then Some (prev_node, start_node)
      else pmm_search m k start_node (load64 m start_node))"

fun pmm_skip :: "mem \<Rightarrow> u64 \<Rightarrow> nat \<Rightarrow> u64" where
  "pmm_skip m node 0 = node"
| "pmm_skip m node (Suc k) = pmm_skip m (load64 m node) k"

definition pmm_alloc :: "u64 \<Rightarrow> 'a pmm_state_scheme \<Rightarrow> (u64 \<times> 'a pmm_state_scheme) option" where
  "pmm_alloc count s =
     Option.bind (pmm_search (kmem s) (unat (count - 1)) 0 (free_list_head s))
       (\<lambda>(prev_node, start_node).
          if start_node = 0 then Some (0, s)
          else let end_node = pmm_skip (kmem s) (load64 (kmem s) start_node) (unat (count - 1));
                   s' = (if prev_node = 0 then s\<lparr>free_list_head := end_node\<rparr>
                         else s\<lparr>kmem := store64 (kmem s) prev_node end_node\<rparr>)
               in Some (pmm_virt_to_phys s' start_node - (count - 1) * PAGE_SIZE, s'))"

partial_function (option) pmm_count_loop :: "mem \<Rightarrow> u64 \<Rightarrow> u64 \<Rightarrow> u64 option" where
  [code]: "pmm_count_loop m node count =
     (if node \<noteq> 0 then pmm_count_loop m (load64 m node) (count + 1) else Some count)"

definition pmm_get_free_page_count :: "'a pmm_state_scheme \<Rightarrow> u64 option" where
  "pmm_get_free_page_count s = pmm_count_loop (kmem s) (free_list_head s) 0"

partial_function (option) pmm_claim_range ::
  "u64 \<Rightarrow> u64 \<Rightarrow> 'a pmm_state_scheme \<Rightarrow> u64 \<Rightarrow> ('a pmm_state_scheme \<times> u64) option" where
  [code]: "pmm_claim_range phys_addr aligned_top s count =
     (if phys_addr < aligned_top
      then pmm_claim_range (phys_addr + PAGE_SIZE) aligned_top (pmm_free phys_addr 1 s) (count + 1)
      else Some (s, count))"

fun pmm_claim_loop ::
  "u64 \<Rightarrow> limine_memmap_entry list \<Rightarrow> 'a pmm_state_scheme \<Rightarrow> u64 \<Rightarrow> ('a pmm_state_scheme \<times> u64) option" where
  "pmm_claim_loop memmap_type [] s count = Some (s, count)"
| "pmm_claim_loop memmap_type (e # es) s count =
     (if me_type e \<noteq> memmap_type then pmm_claim_loop memmap_type es s count
      else let aligned_base = PMM_ALIGN_UP (me_base e) PAGE_SIZE;
               aligned_top = PMM_ALIGN_DOWN (me_base e + me_length e) PAGE_SIZE
           in if aligned_base \<ge> aligned_top then pmm_claim_loop memmap_type es s count
              else Option.bind (pmm_claim_range aligned_base aligned_top s count)
                (\<lambda>(s', count'). pmm_claim_loop memmap_type es s' count'))"

definition pmm_claim ::
  "limine_memmap_entry list \<Rightarrow> u64 \<Rightarrow> 'a pmm_state_scheme \<Rightarrow> ('a pmm_state_scheme \<times> u64) option" where
  "pmm_claim entries memmap_type s = pmm_claim_loop memmap_type entries s 0"

section \<open>The free list as an abstract list\<close>

fun flist :: "mem \<Rightarrow> u64 \<Rightarrow> u64 list \<Rightarrow> bool" where
  "flist m p [] \<longleftrightarrow> p = 0"
| "flist m p (x # xs) \<longleftrightarrow> p = x \<and> x \<noteq> 0 \<and> flist m (load64 m x) xs"

text \<open>Node addresses are page aligned, outside the first two pages of the virtual address
  space and different from the image of physical page 0.\<close>

definition pmm_node_ok :: "u64 \<Rightarrow> u64 \<Rightarrow> bool" where
  "pmm_node_ok off x \<longleftrightarrow> page_aligned x \<and> 4096 < unat x \<and> x \<noteq> off"

definition pmm_inv :: "'a pmm_state_scheme \<Rightarrow> u64 list \<Rightarrow> bool" where
  "pmm_inv s xs \<longleftrightarrow>
     flist (kmem s) (free_list_head s) xs \<and> distinct xs \<and>
     (\<forall>x \<in> set xs. pmm_node_ok (hhdm_offset s) x) \<and> page_aligned (hhdm_offset s)"

fun run_l :: "nat \<Rightarrow> u64 list \<Rightarrow> bool" where
  "run_l 0 xs \<longleftrightarrow> True"
| "run_l (Suc k) (x # y # ys) \<longleftrightarrow> y = x - PAGE_SIZE \<and> run_l k (y # ys)"
| "run_l (Suc k) _ \<longleftrightarrow> False"

text \<open>First fit on the abstract list: the nodes before the run, and the rest from the run on.\<close>

fun pmm_fit :: "nat \<Rightarrow> u64 list \<Rightarrow> (u64 list \<times> u64 list) option" where
  "pmm_fit k [] = None"
| "pmm_fit k (x # xs) =
     (if run_l k (x # xs) then Some ([], x # xs) else map_option (apfst ((#) x)) (pmm_fit k xs))"

lemma flist_frame:
  "flist m p xs \<Longrightarrow> (\<And>x. x \<in> set xs \<Longrightarrow> load64 m' x = load64 m x) \<Longrightarrow> flist m' p xs"
  by (induction xs arbitrary: p) auto

lemma pmm_fit_Some:
  "pmm_fit k xs = Some (as, bs) \<Longrightarrow> xs = as @ bs \<and> bs \<noteq> [] \<and> run_l k bs"
proof (induction xs arbitrary: as)
  case (Cons x xs)
  then show ?case by (auto split: if_splits)
qed simp

lemma run_l_length: "run_l k (x # xs) \<Longrightarrow> k \<le> length xs"
  by (induction k "x # xs" arbitrary: x xs rule: run_l.induct) auto

lemma run_l_nth: "run_l k xs \<Longrightarrow> i \<le> k \<Longrightarrow> xs \<noteq> [] \<Longrightarrow> xs ! i = hd xs - of_nat i * PAGE_SIZE"
proof (induction k xs arbitrary: i rule: run_l.induct)
  case (2 k x y ys)
  then show ?case by (cases i) (auto simp: algebra_simps)
qed (auto simp: hd_conv_nth)

lemma pmm_contiguous_iff:
  "flist m x (x # xs) \<Longrightarrow> (\<And>z. z \<in> set (x # xs) \<Longrightarrow> 4096 < unat z) \<Longrightarrow>
   pmm_contiguous m x k \<longleftrightarrow> run_l k (x # xs)"
proof (induction k arbitrary: x xs)
  case 0
  then show ?case by simp
next
  case (Suc k)
  show ?case
  proof (cases xs)
    case Nil
    have "unat x \<noteq> unat (4096 :: u64)" using Suc.prems(2) [of x] by simp
    then have "x - 4096 \<noteq> 0" by auto
    with Nil Suc.prems show ?thesis by (simp add: PAGE_SIZE_def)
  next
    case (Cons y ys)
    with Suc.prems have "pmm_contiguous m y k \<longleftrightarrow> run_l k (y # ys)"
      by (intro Suc.IH) auto
    with Cons Suc.prems show ?thesis by (auto simp: PAGE_SIZE_def)
  qed
qed

lemma pmm_search_eq:
  "flist m p xs \<Longrightarrow> (\<And>z. z \<in> set xs \<Longrightarrow> 4096 < unat z) \<Longrightarrow>
   pmm_search m k prev p = Some (case pmm_fit k xs of
     None \<Rightarrow> (last (prev # xs), 0) | Some (as, bs) \<Rightarrow> (last (prev # as), hd bs))"
proof (induction xs arbitrary: p prev)
  case Nil
  then show ?case by (subst pmm_search.simps) simp
next
  case (Cons x xs)
  have contig: "pmm_contiguous m x k \<longleftrightarrow> run_l k (x # xs)"
    using Cons.prems by (intro pmm_contiguous_iff) auto
  have IH: "pmm_search m k x (load64 m x) = Some (case pmm_fit k xs of
     None \<Rightarrow> (last (x # xs), 0) | Some (as, bs) \<Rightarrow> (last (x # as), hd bs))"
    using Cons.prems by (intro Cons.IH) auto
  show ?case
    using Cons.prems contig IH
    by (subst pmm_search.simps) (auto split: option.splits)
qed

lemma pmm_skip_flist:
  "flist m p xs \<Longrightarrow> k \<le> length xs \<Longrightarrow> flist m (pmm_skip m p k) (drop k xs)"
proof (induction k arbitrary: p xs)
  case (Suc k)
  then show ?case by (cases xs) auto
qed simp

lemma flist_suffix: "flist m p (as @ x # ys) \<Longrightarrow> flist m x (x # ys)"
  by (induction as arbitrary: p) auto

text \<open>Unlinking the middle of a list by rewriting one next pointer.\<close>

lemma flist_relink:
  "flist m p (as @ a # zs) \<Longrightarrow> flist m e ys \<Longrightarrow>
   (\<And>z. z \<in> set (as @ ys) \<Longrightarrow> load64 (store64 m a e) z = load64 m z) \<Longrightarrow>
   flist (store64 m a e) p (as @ a # ys)"
proof (induction as arbitrary: p)
  case Nil
  then show ?case by (auto intro: flist_frame)
next
  case (Cons x as)
  then show ?case by auto
qed

section \<open>Allocation and release on the abstract list\<close>

lemma pmm_node_far:
  "pmm_node_ok off x \<Longrightarrow> pmm_node_ok off y \<Longrightarrow> x \<noteq> y \<Longrightarrow> load64 (store64 m x v) y = load64 m y"
  by (auto simp: pmm_node_ok_def intro: load64_store64_pages)

lemma pmm_alloc_none:
  assumes "pmm_inv s xs" "pmm_fit (unat (c - 1)) xs = None"
  shows "pmm_alloc c s = Some (0, s)"
proof -
  have "\<And>z. z \<in> set xs \<Longrightarrow> 4096 < unat z" using assms(1) by (auto simp: pmm_inv_def pmm_node_ok_def)
  with assms pmm_search_eq [of "kmem s" "free_list_head s" xs "unat (c - 1)" 0]
  show ?thesis by (simp add: pmm_alloc_def pmm_inv_def)
qed

lemma pmm_alloc_some:
  assumes inv: "pmm_inv s xs" and fit: "pmm_fit (unat (c - 1)) xs = Some (as, bs)"
  shows "\<exists>m h. pmm_alloc c s = Some (hd bs - hhdm_offset s - (c - 1) * PAGE_SIZE,
                  s\<lparr>kmem := m, free_list_head := h\<rparr>) \<and>
     pmm_inv (s\<lparr>kmem := m, free_list_head := h\<rparr>) (as @ drop (Suc (unat (c - 1))) bs) \<and>
     (\<forall>x. (\<forall>p \<in> set as. 8 \<le> unat (x - p)) \<longrightarrow> m x = kmem s x)"
proof -
  let ?m = "kmem s" and ?k = "unat (c - 1)"
  obtain x ys where bs: "bs = x # ys" and xs: "xs = as @ x # ys" and run: "run_l ?k (x # ys)"
    using pmm_fit_Some [OF fit] by (cases bs) auto
  have nodes: "\<And>z. z \<in> set xs \<Longrightarrow> pmm_node_ok (hhdm_offset s) z"
    and fl: "flist ?m (free_list_head s) xs" and dist: "distinct xs"
    using inv by (auto simp: pmm_inv_def)
  have flx: "flist ?m x (x # ys)"
    using fl unfolding xs by (rule flist_suffix)
  define e where "e = pmm_skip ?m (load64 ?m x) ?k"
  have fle: "flist ?m e (drop ?k ys)"
    unfolding e_def using flx run_l_length [OF run] by (intro pmm_skip_flist) auto
  have search: "pmm_search ?m ?k 0 (free_list_head s) = Some (last (0 # as), x)"
    using pmm_search_eq [OF fl, of ?k 0] nodes fit bs by (simp add: pmm_node_ok_def)
  have nz: "x \<noteq> 0" and asnz: "0 \<notin> set as"
    using nodes [of x] nodes [of 0] xs by (auto simp: pmm_node_ok_def)
  have keep: "\<And>z. z \<in> set (as @ drop ?k ys) \<Longrightarrow> z \<in> set xs"
    using xs by (auto dest: in_set_dropD)
  have dist': "distinct (as @ drop ?k ys)" using dist xs by (auto dest: in_set_dropD)
  show ?thesis
  proof (cases as rule: rev_cases)
    case Nil
    let ?s' = "s\<lparr>kmem := ?m, free_list_head := e\<rparr>"
    have "pmm_alloc c s = Some (x - hhdm_offset s - (c - 1) * PAGE_SIZE, ?s')"
      using search Nil nz
      by (simp add: pmm_alloc_def e_def pmm_virt_to_phys_def hhdm_get_offset_def Let_def)
    moreover have "pmm_inv ?s' (drop ?k ys)"
      using inv fle dist' nodes keep Nil by (auto simp: pmm_inv_def)
    ultimately show ?thesis using Nil bs by (intro exI [of _ ?m] exI [of _ e]) simp
  next
    case (snoc as' a)
    let ?m' = "store64 ?m a e" and ?h = "free_list_head s"
    let ?s' = "s\<lparr>kmem := ?m', free_list_head := ?h\<rparr>"
    have "pmm_alloc c s = Some (x - hhdm_offset s - (c - 1) * PAGE_SIZE, ?s')"
      using search snoc nz asnz
      by (simp add: pmm_alloc_def e_def pmm_virt_to_phys_def hhdm_get_offset_def Let_def)
    moreover have "flist ?m' ?h (as' @ a # drop ?k ys)"
    proof (rule flist_relink)
      show "flist ?m ?h (as' @ a # x # ys)" using fl xs snoc by simp
      show "flist ?m e (drop ?k ys)" by (rule fle)
      fix z assume z: "z \<in> set (as' @ drop ?k ys)"
      then have "z \<noteq> a" using dist' snoc by auto
      then show "load64 ?m' z = load64 ?m z"
        using nodes [of z] nodes [of a] z keep snoc xs by (intro pmm_node_far) auto
    qed
    then have "pmm_inv ?s' (as @ drop ?k ys)"
      using inv dist' nodes keep snoc by (auto simp: pmm_inv_def)
    moreover have "\<forall>y. (\<forall>p \<in> set as. 8 \<le> unat (y - p)) \<longrightarrow> ?m' y = ?m y"
      using snoc by (auto simp: store64_apply_far)
    ultimately show ?thesis using snoc bs by (intro exI [of _ ?m'] exI [of _ ?h]) simp
  qed
qed

text \<open>The pages of a block of \<open>n\<close> pages at physical address \<open>r\<close>.\<close>

definition page_block :: "u64 \<Rightarrow> nat \<Rightarrow> u64 set" where
  "page_block r n = (\<lambda>i. r + of_nat i * PAGE_SIZE) ` {..<n}"

lemma page_offset_inject:
  assumes "i < 2 ^ 52" "j < 2 ^ 52"
  shows "of_nat i * (4096 :: u64) = of_nat j * 4096 \<longleftrightarrow> i = j"
proof -
  have u: "unat (of_nat k * (4096 :: u64)) = k * 4096" if "k < 2 ^ 52" for k
  proof -
    have "of_nat k * (4096 :: u64) = of_nat (k * 4096)" by simp
    then show ?thesis using that by (simp only: unat_of_nat) simp
  qed
  show ?thesis
  proof
    assume "of_nat i * (4096 :: u64) = of_nat j * 4096"
    then have "i * 4096 = j * 4096" using u assms by metis
    then show "i = j" by simp
  qed simp
qed

lemma page_block_Suc:
  "page_block r (Suc n) = insert r (page_block (r + PAGE_SIZE) n)"
proof -
  have "{..<Suc n} = insert 0 (Suc ` {..<n})" by (auto simp: image_iff less_Suc_eq_0_disj)
  then show ?thesis by (simp add: page_block_def image_image algebra_simps)
qed

lemma page_block_notin: "n < 2 ^ 52 \<Longrightarrow> r \<notin> page_block (r + PAGE_SIZE) n"
proof
  assume n: "n < 2 ^ 52" and "r \<in> page_block (r + PAGE_SIZE) n"
  then obtain i where i: "i < n" "r = r + PAGE_SIZE + of_nat i * PAGE_SIZE"
    by (auto simp: page_block_def)
  then have "of_nat (Suc i) * (4096 :: u64) = of_nat 0 * 4096"
    by (simp add: PAGE_SIZE_def algebra_simps)
  then show False using n i page_offset_inject [of "Suc i" 0] by simp
qed

lemma pmm_free_loop_inv:
  assumes "pmm_inv s xs" "n \<le> 2 ^ 52"
    "\<And>q. q \<in> page_block r n \<Longrightarrow> pmm_node_ok (hhdm_offset s) (q + hhdm_offset s) \<and> q + hhdm_offset s \<notin> set xs"
  shows "\<exists>m h ys. pmm_free_loop n r s = s\<lparr>kmem := m, free_list_head := h\<rparr> \<and>
     pmm_inv (s\<lparr>kmem := m, free_list_head := h\<rparr>) (ys @ xs) \<and>
     set ys = (\<lambda>q. q + hhdm_offset s) ` page_block r n \<and>
     (\<forall>x. (\<forall>q \<in> page_block r n. 8 \<le> unat (x - (q + hhdm_offset s))) \<longrightarrow> m x = kmem s x)"
  using assms
proof (induction n arbitrary: r s xs)
  case 0
  show ?case
    using 0 by (intro exI [of _ "kmem s"] exI [of _ "free_list_head s"] exI [of _ "[]"])
      (simp add: page_block_def)
next
  case (Suc n)
  let ?off = "hhdm_offset s" and ?v = "r + hhdm_offset s"
  let ?m1 = "store64 (kmem s) ?v (free_list_head s)"
  let ?s1 = "s\<lparr>kmem := ?m1, free_list_head := ?v\<rparr>"
  have r: "pmm_node_ok ?off ?v" "?v \<notin> set xs" using Suc.prems(3) [of r] by (auto simp: page_block_Suc)
  have "flist ?m1 (free_list_head s) xs"
  proof (rule flist_frame)
    show "flist (kmem s) (free_list_head s) xs" using Suc.prems(1) by (simp add: pmm_inv_def)
    fix z assume "z \<in> set xs"
    then have "pmm_node_ok ?off z" "z \<noteq> ?v" using Suc.prems(1) r by (auto simp: pmm_inv_def)
    then show "load64 ?m1 z = load64 (kmem s) z" using r by (intro pmm_node_far) auto
  qed
  then have inv1: "pmm_inv ?s1 (?v # xs)"
    using Suc.prems(1) r by (auto simp: pmm_inv_def pmm_node_ok_def)
  have "\<exists>m h ys. pmm_free_loop n (r + PAGE_SIZE) ?s1 = ?s1\<lparr>kmem := m, free_list_head := h\<rparr> \<and>
     pmm_inv (?s1\<lparr>kmem := m, free_list_head := h\<rparr>) (ys @ ?v # xs) \<and>
     set ys = (\<lambda>q. q + hhdm_offset ?s1) ` page_block (r + PAGE_SIZE) n \<and>
     (\<forall>x. (\<forall>q \<in> page_block (r + PAGE_SIZE) n. 8 \<le> unat (x - (q + hhdm_offset ?s1))) \<longrightarrow> m x = kmem ?s1 x)"
    using Suc.prems page_block_notin [of n r]
    by (intro Suc.IH [OF inv1]) (auto simp: page_block_Suc)
  then obtain m h ys where *:
    "pmm_free_loop n (r + PAGE_SIZE) ?s1 = s\<lparr>kmem := m, free_list_head := h\<rparr>"
    "pmm_inv (s\<lparr>kmem := m, free_list_head := h\<rparr>) (ys @ ?v # xs)"
    "set ys = (\<lambda>q. q + ?off) ` page_block (r + PAGE_SIZE) n"
    "\<forall>x. (\<forall>q \<in> page_block (r + PAGE_SIZE) n. 8 \<le> unat (x - (q + ?off))) \<longrightarrow> m x = ?m1 x"
    by auto
  show ?case
    using * by (intro exI [of _ m] exI [of _ h] exI [of _ "ys @ [?v]"])
      (auto simp: page_block_Suc pmm_phys_to_virt_def hhdm_get_offset_def Let_def store64_apply_far)
qed

section \<open>The set of free pages\<close>

text \<open>\<open>pmm_rel s F\<close>: the free list of \<open>s\<close> is well formed and holds the physical pages \<open>F\<close>.
  \<open>pmm_page_ok\<close> is what a physical page must satisfy to be put on the list.\<close>

definition pmm_page_ok :: "'a pmm_state_scheme \<Rightarrow> u64 \<Rightarrow> bool" where
  "pmm_page_ok s q \<longleftrightarrow> pmm_node_ok (hhdm_offset s) (q + hhdm_offset s)"

definition pmm_rel :: "'a pmm_state_scheme \<Rightarrow> u64 set \<Rightarrow> bool" where
  "pmm_rel s F \<longleftrightarrow> (\<exists>xs. pmm_inv s xs \<and> F = (\<lambda>v. v - hhdm_offset s) ` set xs)"

definition phys_byte :: "'a pmm_state_scheme \<Rightarrow> u64 \<Rightarrow> u8" where
  "phys_byte s x = kmem s (x + hhdm_offset s)"

definition phys_poke :: "'a pmm_state_scheme \<Rightarrow> u64 \<Rightarrow> u8 \<Rightarrow> 'a pmm_state_scheme" where
  "phys_poke s x b = s\<lparr>kmem := (kmem s)(x + hhdm_offset s := b)\<rparr>"

lemma pmm_rel_ok: "pmm_rel s F \<Longrightarrow> q \<in> F \<Longrightarrow> pmm_page_ok s q"
  by (auto simp: pmm_rel_def pmm_inv_def pmm_page_ok_def)

lemma pmm_page_ok_aligned: "pmm_rel s F \<Longrightarrow> pmm_page_ok s q \<Longrightarrow> page_aligned q"
  using page_aligned_diff [of "q + hhdm_offset s" "hhdm_offset s"]
  by (auto simp: pmm_rel_def pmm_inv_def pmm_page_ok_def pmm_node_ok_def)

lemma pmm_page_ok_nz: "pmm_page_ok s q \<Longrightarrow> q \<noteq> 0"
  by (auto simp: pmm_page_ok_def pmm_node_ok_def)

lemma pmm_rel_mem:
  assumes rel: "pmm_rel s F" and same: "\<And>q x. q \<in> F \<Longrightarrow> in_page q x \<Longrightarrow> m (x + hhdm_offset s) = phys_byte s x"
  shows "pmm_rel (s\<lparr>kmem := m\<rparr>) F"
proof -
  obtain xs where inv: "pmm_inv s xs" and F: "F = (\<lambda>v. v - hhdm_offset s) ` set xs"
    using rel by (auto simp: pmm_rel_def)
  have "load64 m z = load64 (kmem s) z" if z: "z \<in> set xs" for z
  proof (rule load64_cong)
    fix i :: nat assume "i < 8"
    then have "in_page (z - hhdm_offset s) (z - hhdm_offset s + of_nat i)" by (intro in_page_offset) simp
    then show "m (z + of_nat i) = kmem s (z + of_nat i)"
      using same [of "z - hhdm_offset s" "z - hhdm_offset s + of_nat i"] z F
      by (simp add: phys_byte_def algebra_simps)
  qed
  then have "flist m (free_list_head s) xs" using inv by (auto simp: pmm_inv_def intro: flist_frame)
  then have "pmm_inv (s\<lparr>kmem := m\<rparr>) xs" using inv by (auto simp: pmm_inv_def)
  then show ?thesis using F by (auto simp: pmm_rel_def)
qed

lemma run_l_bound:
  assumes "distinct xs" "xs \<noteq> []" "run_l k xs"
  shows "k < 2 ^ 52"
proof (rule ccontr)
  assume k: "\<not> k < 2 ^ 52"
  then have "xs ! (2 ^ 52) = xs ! 0"
    using run_l_nth [OF assms(3) _ assms(2), of "2 ^ 52"] assms(2) by (simp add: PAGE_SIZE_def hd_conv_nth)
  moreover have "2 ^ 52 < length xs" using run_l_length [of k "hd xs" "tl xs"] assms k by (cases xs) auto
  ultimately show False using assms(1,2) nth_eq_iff_index_eq [of xs "2 ^ 52" 0] by simp
qed

text \<open>The nodes of a run are the pages of the block that ends at its head.\<close>

lemma run_block:
  assumes "run_l k bs" "bs \<noteq> []"
  shows "(\<lambda>v. v - off) ` set (take (Suc k) bs) = page_block (hd bs - off - of_nat k * PAGE_SIZE) (Suc k)"
proof -
  have len: "Suc k \<le> length bs" using assms run_l_length [of k "hd bs" "tl bs"] by (cases bs) auto
  have "set (take (Suc k) bs) = (!) bs ` {..<Suc k}"
    using len by (simp add: nth_image lessThan_atLeast0)
  also have "\<dots> = (\<lambda>i. hd bs - of_nat i * PAGE_SIZE) ` {..<Suc k}"
    using run_l_nth [OF assms(1) _ assms(2)] by (intro image_cong) auto
  also have "\<dots> = (\<lambda>i. hd bs - of_nat (k - i) * PAGE_SIZE) ` {..<Suc k}"
  proof -
    have "{..<Suc k} = (\<lambda>i. k - i) ` {..<Suc k}"
      by (force simp: image_iff less_Suc_eq_le Bex_def intro: diff_diff_cancel [symmetric])
    then show ?thesis by (metis (no_types, lifting) image_cong image_image)
  qed
  finally show ?thesis
    by (auto simp: page_block_def image_image of_nat_diff less_Suc_eq_le algebra_simps intro!: image_cong)
qed

lemma pmm_alloc_rel:
  assumes "pmm_rel s F"
  shows "\<exists>r s'. pmm_alloc c s = Some (r, s') \<and>
     (r = 0 \<and> s' = s \<or>
      r \<noteq> 0 \<and> c \<noteq> 0 \<and> unat c \<le> 2 ^ 52 \<and> page_block r (unat c) \<subseteq> F \<and> pmm_rel s' (F - page_block r (unat c)) \<and>
      (\<exists>m h. s' = s\<lparr>kmem := m, free_list_head := h\<rparr>) \<and>
      (\<forall>x. (\<forall>q \<in> F - page_block r (unat c). \<not> in_page q x) \<longrightarrow> phys_byte s' x = phys_byte s x))"
proof -
  let ?k = "unat (c - 1)" and ?off = "hhdm_offset s"
  obtain xs where inv: "pmm_inv s xs" and F: "F = (\<lambda>v. v - ?off) ` set xs"
    using assms by (auto simp: pmm_rel_def)
  show ?thesis
  proof (cases "pmm_fit ?k xs")
    case None
    then show ?thesis using pmm_alloc_none [OF inv] by simp
  next
    case (Some ab)
    then obtain as bs where fit: "pmm_fit ?k xs = Some (as, bs)" by (cases ab) auto
    have xs: "xs = as @ bs" and bs: "bs \<noteq> []" and run: "run_l ?k bs" using pmm_fit_Some [OF fit] by auto
    have dist: "distinct xs" using inv by (simp add: pmm_inv_def)
    have kb: "?k < 2 ^ 52" using run_l_bound [OF _ bs run] dist xs by simp
    have c: "c \<noteq> 0" using kb by (auto simp: unsigned_minus_1_eq_mask mask_eq_exp_minus_1)
    then have k: "Suc ?k = unat c" using unat_dec [of c] unat_gt_0 [of c] by simp
    define r where "r = hd bs - ?off - (c - 1) * PAGE_SIZE"
    have blk: "(\<lambda>v. v - ?off) ` set (take (unat c) bs) = page_block r (unat c)"
      using run_block [OF run bs, of ?off] k by (simp add: r_def)
    obtain m h where alloc: "pmm_alloc c s = Some (r, s\<lparr>kmem := m, free_list_head := h\<rparr>)"
      and inv': "pmm_inv (s\<lparr>kmem := m, free_list_head := h\<rparr>) (as @ drop (unat c) bs)"
      and frame: "\<forall>x. (\<forall>p \<in> set as. 8 \<le> unat (x - p)) \<longrightarrow> m x = kmem s x"
      using pmm_alloc_some [OF inv fit] by (auto simp: r_def k)
    have parts: "set xs = set (take (unat c) bs) \<union> set (as @ drop (unat c) bs)"
      using xs by (metis append_take_drop_id set_append sup_left_commute)
    have "distinct (as @ take (unat c) bs @ drop (unat c) bs)" using dist xs by simp
    then have "set (take (unat c) bs) \<inter> set (as @ drop (unat c) bs) = {}"
      unfolding distinct_append set_append by blast
    then have rest: "F - page_block r (unat c) = (\<lambda>v. v - ?off) ` set (as @ drop (unat c) bs)"
      unfolding F parts blk [symmetric] by auto
    have sub: "page_block r (unat c) \<subseteq> F" unfolding blk [symmetric] F parts by auto
    moreover have "r \<in> page_block r (unat c)" using k by (metis insertI1 page_block_Suc)
    ultimately have "r \<noteq> 0" using pmm_rel_ok [OF assms, of r] pmm_page_ok_nz by auto
    moreover have "phys_byte (s\<lparr>kmem := m, free_list_head := h\<rparr>) x = phys_byte s x"
      if far: "\<forall>q \<in> F - page_block r (unat c). \<not> in_page q x" for x
    proof -
      have "8 \<le> unat (x + ?off - p)" if "p \<in> set as" for p
        using far that rest by (force simp: in_page_def algebra_simps)
      then show ?thesis using frame by (auto simp: phys_byte_def)
    qed
    moreover have "pmm_rel (s\<lparr>kmem := m, free_list_head := h\<rparr>) (F - page_block r (unat c))"
      using inv' rest by (auto simp: pmm_rel_def)
    moreover have "unat c \<le> 2 ^ 52" using kb k by simp
    ultimately show ?thesis using alloc c sub by auto
  qed
qed

text \<open>A request for one page fails exactly when no page is free.\<close>

lemma pmm_alloc_one:
  assumes "pmm_rel s F"
  shows "\<exists>r s'. pmm_alloc 1 s = Some (r, s') \<and> (r = 0 \<longleftrightarrow> F = {})"
proof -
  obtain xs where inv: "pmm_inv s xs" and F: "F = (\<lambda>v. v - hhdm_offset s) ` set xs"
    using assms by (auto simp: pmm_rel_def)
  obtain r s' where r: "pmm_alloc 1 s = Some (r, s')" "r \<noteq> 0 \<longrightarrow> page_block r 1 \<subseteq> F"
    using pmm_alloc_rel [OF assms, of 1] by auto
  show ?thesis
  proof (cases xs)
    case Nil
    then show ?thesis using pmm_alloc_none [OF inv, of 1] F by simp
  next
    case (Cons y ys)
    then have "pmm_fit (unat (1 - 1 :: u64)) xs = Some ([], y # ys)" by simp
    from pmm_alloc_some [OF inv this] obtain s'' where
      "pmm_alloc 1 s = Some (y - hhdm_offset s, s'')" by auto
    moreover have "y - hhdm_offset s \<noteq> 0"
      using pmm_rel_ok [OF assms, of "y - hhdm_offset s"] pmm_page_ok_nz [of s 0] F Cons by auto
    ultimately show ?thesis using F Cons by auto
  qed
qed

lemma pmm_state_same: "\<exists>m h. s = s\<lparr>kmem := m, free_list_head := h\<rparr>"
  by (intro exI [of _ "kmem s"] exI [of _ "free_list_head s"]) simp

lemma pmm_free_rel:
  assumes rel: "pmm_rel s F" and n: "unat c \<le> 2 ^ 52"
    and ok: "\<forall>q \<in> page_block r (unat c). pmm_page_ok s q" and new: "page_block r (unat c) \<inter> F = {}"
  shows "pmm_rel (pmm_free r c s) (F \<union> page_block r (unat c)) \<and>
     (\<exists>m h. pmm_free r c s = s\<lparr>kmem := m, free_list_head := h\<rparr>) \<and>
     (\<forall>x. (\<forall>q \<in> page_block r (unat c). \<not> in_page q x) \<longrightarrow> phys_byte (pmm_free r c s) x = phys_byte s x)"
proof (cases "c = 0")
  case True
  then show ?thesis using rel pmm_state_same [of s] by (auto simp: pmm_free_def page_block_def)
next
  case False
  let ?B = "page_block r (unat c)" and ?off = "hhdm_offset s"
  obtain xs where inv: "pmm_inv s xs" and F: "F = (\<lambda>v. v - ?off) ` set xs"
    using rel by (auto simp: pmm_rel_def)
  have "r \<in> ?B" using False unat_gt_0 [of c] by (cases "unat c") (auto simp: page_block_Suc)
  then have r: "r \<noteq> 0" using ok pmm_page_ok_nz by auto
  have "pmm_node_ok ?off (q + ?off) \<and> q + ?off \<notin> set xs" if "q \<in> ?B" for q
    using that ok new F by (force simp: pmm_page_ok_def image_iff)
  then obtain m h ys where free: "pmm_free_loop (unat c) r s = s\<lparr>kmem := m, free_list_head := h\<rparr>"
    and inv': "pmm_inv (s\<lparr>kmem := m, free_list_head := h\<rparr>) (ys @ xs)"
    and ys: "set ys = (\<lambda>q. q + ?off) ` ?B"
    and frame: "\<forall>x. (\<forall>q \<in> ?B. 8 \<le> unat (x - (q + ?off))) \<longrightarrow> m x = kmem s x"
    using pmm_free_loop_inv [OF inv n, of r] by metis
  have eq: "pmm_free r c s = s\<lparr>kmem := m, free_list_head := h\<rparr>" using free r by (simp add: pmm_free_def)
  have "F \<union> ?B = (\<lambda>v. v - ?off) ` set (ys @ xs)" by (simp add: F ys image_Un image_image Un_commute)
  then have "pmm_rel (pmm_free r c s) (F \<union> ?B)" using inv' unfolding eq by (auto simp: pmm_rel_def)
  moreover have "phys_byte (pmm_free r c s) x = phys_byte s x" if far: "\<forall>q \<in> ?B. \<not> in_page q x" for x
    using frame far unfolding eq by (force simp: phys_byte_def in_page_def)
  ultimately show ?thesis using eq by auto
qed

section \<open>The contract of a page allocator\<close>

text \<open>A block is its first page and its page count; \<open>live\<close> are the pages of a list of blocks.\<close>

definition blk :: "u64 \<times> u64 \<Rightarrow> u64 set" where
  "blk b = page_block (fst b) (unat (snd b))"

definition live :: "(u64 \<times> u64) list \<Rightarrow> u64 set" where
  "live L = \<Union> (blk ` set L)"

definition blocks_disjoint :: "(u64 \<times> u64) list \<Rightarrow> bool" where
  "blocks_disjoint L = sorted_wrt (\<lambda>a b. blk a \<inter> blk b = {}) L"

lemma live_simps [simp]:
  "live [] = {}" "live (b # L) = blk b \<union> live L" "live (L1 @ L2) = live L1 \<union> live L2"
  by (auto simp: live_def)

lemma blocks_disjoint_Nil [simp]: "blocks_disjoint []"
  by (simp add: blocks_disjoint_def)

lemma blocks_disjoint_Cons [simp]:
  "blocks_disjoint (b # L) \<longleftrightarrow> blk b \<inter> live L = {} \<and> blocks_disjoint L"
  by (auto simp: blocks_disjoint_def live_def)

lemma blocks_disjoint_mid:
  "blocks_disjoint (L1 @ b # L2) \<longleftrightarrow> blk b \<inter> live (L1 @ L2) = {} \<and> blocks_disjoint (L1 @ L2)"
  unfolding blocks_disjoint_def live_def sorted_wrt_append sorted_wrt.simps set_append by auto (blast+)

text \<open>What the users of the allocator (the kernel heap, the page tables, the kernel stacks)
  rely on. \<open>free_pages s F\<close> says that exactly the pages \<open>F\<close> are free in \<open>s\<close>, \<open>page_ok\<close> which pages
  may be handed in, \<open>byte_at\<close> and \<open>poke\<close> read and write physical memory.\<close>

locale page_allocator =
  fixes alloc :: "u64 \<Rightarrow> 's \<Rightarrow> (u64 \<times> 's) option"
    and free :: "u64 \<Rightarrow> u64 \<Rightarrow> 's \<Rightarrow> 's"
    and free_pages :: "'s \<Rightarrow> u64 set \<Rightarrow> bool"
    and page_ok :: "'s \<Rightarrow> u64 \<Rightarrow> bool"
    and byte_at :: "'s \<Rightarrow> u64 \<Rightarrow> u8"
    and poke :: "'s \<Rightarrow> u64 \<Rightarrow> u8 \<Rightarrow> 's"
  assumes free_pages_ok: "free_pages s F \<Longrightarrow> q \<in> F \<Longrightarrow> page_ok s q"
    and page_ok_aligned: "free_pages s F \<Longrightarrow> page_ok s q \<Longrightarrow> page_aligned q"
    and alloc_spec: "free_pages s F \<Longrightarrow> \<exists>r s'. alloc c s = Some (r, s') \<and>
       (r = 0 \<and> s' = s \<or>
        r \<noteq> 0 \<and> unat c \<le> 2 ^ 52 \<and> blk (r, c) \<subseteq> F \<and> free_pages s' (F - blk (r, c)) \<and>
        page_ok s' = page_ok s \<and>
        (\<forall>x. (\<forall>q \<in> F - blk (r, c). \<not> in_page q x) \<longrightarrow> byte_at s' x = byte_at s x))"
    and free_spec: "free_pages s F \<Longrightarrow> unat c \<le> 2 ^ 52 \<Longrightarrow> \<forall>q \<in> blk (r, c). page_ok s q \<Longrightarrow>
       blk (r, c) \<inter> F = {} \<Longrightarrow>
       free_pages (free r c s) (F \<union> blk (r, c)) \<and> page_ok (free r c s) = page_ok s \<and>
       (\<forall>x. (\<forall>q \<in> blk (r, c). \<not> in_page q x) \<longrightarrow> byte_at (free r c s) x = byte_at s x)"
    and poke_spec: "free_pages s F \<Longrightarrow> (\<forall>q \<in> F. \<not> in_page q x) \<Longrightarrow>
       free_pages (poke s x b) F \<and> page_ok (poke s x b) = page_ok s"
begin

text \<open>The bookkeeping of the clients that hold the blocks \<open>L\<close> out of the pages \<open>P\<close>.\<close>

definition owns :: "u64 set \<Rightarrow> 's \<Rightarrow> (u64 \<times> u64) list \<Rightarrow> bool" where
  "owns P s L \<longleftrightarrow> free_pages s (P - live L) \<and> live L \<subseteq> P \<and> blocks_disjoint L \<and>
     (\<forall>q \<in> P. page_ok s q) \<and> (\<forall>b \<in> set L. unat (snd b) \<le> 2 ^ 52)"

lemma owns_init: "free_pages s P \<Longrightarrow> owns P s []"
  using free_pages_ok by (auto simp: owns_def)

lemma owns_page_unique:
  assumes "owns P s L" "q \<in> P" "q' \<in> P" "in_page q x" "in_page q' x"
  shows "q = q'"
  using assms in_page_unique page_ok_aligned unfolding owns_def by meson

lemma owns_alloc:
  assumes "owns P s L" "alloc c s = Some (r, s')" "r \<noteq> 0"
  shows "owns P s' ((r, c) # L)"
proof -
  have F: "free_pages s (P - live L)" using assms by (simp add: owns_def)
  have a: "unat c \<le> 2 ^ 52" "blk (r, c) \<subseteq> P - live L" "free_pages s' (P - live L - blk (r, c))" "page_ok s' = page_ok s"
    using alloc_spec [OF F, of c] assms by auto
  moreover have "P - live L - blk (r, c) = P - live ((r, c) # L)" by auto
  ultimately show ?thesis using assms(1) by (auto simp: owns_def)
qed

lemma alloc_fail: "owns P s L \<Longrightarrow> alloc c s = Some (0, s') \<Longrightarrow> s' = s"
  using alloc_spec [of s "P - live L" c] by (auto simp: owns_def)

lemma alloc_keeps_live:
  assumes "owns P s L" "alloc c s = Some (r, s')" "q \<in> live L" "in_page q x"
  shows "byte_at s' x = byte_at s x"
proof -
  have F: "free_pages s (P - live L)" "q \<in> P" using assms by (auto simp: owns_def)
  have "\<not> in_page q' x" if "q' \<in> P - live L" for q'
    using owns_page_unique [OF assms(1), of q q' x] assms(3,4) that F by auto
  then show ?thesis using alloc_spec [OF F(1), of c] assms(2) by auto
qed

lemma owns_free:
  assumes own: "owns P s (L1 @ (r, c) # L2)"
  shows "owns P (free r c s) (L1 @ L2)"
    and "q \<in> live (L1 @ L2) \<Longrightarrow> in_page q x \<Longrightarrow> byte_at (free r c s) x = byte_at s x"
proof -
  let ?F = "P - live (L1 @ (r, c) # L2)"
  have disj: "blk (r, c) \<inter> live (L1 @ L2) = {}" "blocks_disjoint (L1 @ L2)" "blk (r, c) \<subseteq> P"
    using own blocks_disjoint_mid [of L1 "(r, c)" L2] by (auto simp: owns_def)
  have "free_pages (free r c s) (?F \<union> blk (r, c)) \<and> page_ok (free r c s) = page_ok s \<and>
       (\<forall>x. (\<forall>q \<in> blk (r, c). \<not> in_page q x) \<longrightarrow> byte_at (free r c s) x = byte_at s x)"
    using own disj by (intro free_spec) (auto simp: owns_def)
  moreover have "?F \<union> blk (r, c) = P - live (L1 @ L2)" using disj by auto
  ultimately show "owns P (free r c s) (L1 @ L2)" using own disj by (auto simp: owns_def)
  assume q: "q \<in> live (L1 @ L2)" "in_page q x"
  have "\<not> in_page q' x" if "q' \<in> blk (r, c)" for q'
    using owns_page_unique [OF own, of q q' x] q that disj own by (auto simp: owns_def)
  then show "byte_at (free r c s) x = byte_at s x"
    using \<open>free_pages (free r c s) (?F \<union> blk (r, c)) \<and> _\<close> by auto
qed

lemma owns_poke:
  assumes own: "owns P s L" and "q \<in> live L" "in_page q x"
  shows "owns P (poke s x b) L"
proof -
  have "\<not> in_page q' x" if "q' \<in> P - live L" for q'
    using owns_page_unique [OF own, of q q' x] assms that by (auto simp: owns_def)
  then show ?thesis using own poke_spec [of s "P - live L" x b] by (auto simp: owns_def)
qed

end

interpretation pmm: page_allocator
  "pmm_alloc :: u64 \<Rightarrow> 'a pmm_state_scheme \<Rightarrow> (u64 \<times> 'a pmm_state_scheme) option"
  pmm_free pmm_rel pmm_page_ok phys_byte phys_poke
proof unfold_locales
  fix s :: "'a pmm_state_scheme" and F c r x b q
  show "pmm_rel s F \<Longrightarrow> q \<in> F \<Longrightarrow> pmm_page_ok s q" by (rule pmm_rel_ok)
  show "pmm_rel s F \<Longrightarrow> pmm_page_ok s q \<Longrightarrow> page_aligned q" by (rule pmm_page_ok_aligned)
  assume rel: "pmm_rel s F"
  show "\<exists>r s'. pmm_alloc c s = Some (r, s') \<and> (r = 0 \<and> s' = s \<or>
        r \<noteq> 0 \<and> unat c \<le> 2 ^ 52 \<and> blk (r, c) \<subseteq> F \<and> pmm_rel s' (F - blk (r, c)) \<and>
        pmm_page_ok s' = pmm_page_ok s \<and>
        (\<forall>x. (\<forall>q \<in> F - blk (r, c). \<not> in_page q x) \<longrightarrow> phys_byte s' x = phys_byte s x))"
    using pmm_alloc_rel [OF rel, of c] by (fastforce simp: blk_def pmm_page_ok_def fun_eq_iff)
  show "unat c \<le> 2 ^ 52 \<Longrightarrow> \<forall>q \<in> blk (r, c). pmm_page_ok s q \<Longrightarrow> blk (r, c) \<inter> F = {} \<Longrightarrow>
       pmm_rel (pmm_free r c s) (F \<union> blk (r, c)) \<and> pmm_page_ok (pmm_free r c s) = pmm_page_ok s \<and>
       (\<forall>x. (\<forall>q \<in> blk (r, c). \<not> in_page q x) \<longrightarrow> phys_byte (pmm_free r c s) x = phys_byte s x)"
    using pmm_free_rel [OF rel, of c r] by (auto simp: blk_def pmm_page_ok_def fun_eq_iff)
  assume far: "\<forall>q \<in> F. \<not> in_page q x"
  have "pmm_rel (phys_poke s x b) F"
    unfolding phys_poke_def using far by (intro pmm_rel_mem [OF rel]) (auto simp: phys_byte_def)
  then show "pmm_rel (phys_poke s x b) F \<and> pmm_page_ok (phys_poke s x b) = pmm_page_ok s"
    by (simp add: phys_poke_def pmm_page_ok_def fun_eq_iff)
qed

section \<open>Clients of the page allocator\<close>

text \<open>One step of the rest of the kernel as the allocator sees it: a call of \<open>pmm_alloc\<close>, the
  release of a block that is held, or a write to a byte of a held page.\<close>

datatype pmm_op = Op_alloc u64 | Op_free u64 u64 | Op_write u64 u8

inductive pmm_step ::
  "pmm_op \<Rightarrow> pmm_state \<times> (u64 \<times> u64) list \<Rightarrow> pmm_state \<times> (u64 \<times> u64) list \<Rightarrow> bool" where
  step_alloc: "pmm_alloc c s = Some (r, s') \<Longrightarrow> r \<noteq> 0 \<Longrightarrow> pmm_step (Op_alloc c) (s, L) (s', (r, c) # L)"
| step_fail: "pmm_alloc c s = Some (0, s') \<Longrightarrow> pmm_step (Op_alloc c) (s, L) (s', L)"
| step_free: "pmm_step (Op_free r c) (s, L1 @ (r, c) # L2) (pmm_free r c s, L1 @ L2)"
| step_write: "q \<in> live L \<Longrightarrow> in_page q x \<Longrightarrow> pmm_step (Op_write x b) (s, L) (phys_poke s x b, L)"

inductive pmm_run :: "pmm_state \<times> (u64 \<times> u64) list \<Rightarrow> pmm_state \<times> (u64 \<times> u64) list \<Rightarrow> bool" where
  run_refl: "pmm_run c c"
| run_step: "pmm_run a b \<Longrightarrow> pmm_step op b c \<Longrightarrow> pmm_run a c"

inductive_cases pmm_step_allocE: "pmm_step (Op_alloc c) (s, L) (s', L')"
inductive_cases pmm_step_freeE: "pmm_step (Op_free r c) (s, L) (s', L')"

lemma pmm_run_alloc: "pmm_alloc c s = Some (r, s') \<Longrightarrow> r \<noteq> 0 \<Longrightarrow> pmm_run (s, []) (s', [(r, c)])"
  by (rule run_step [OF run_refl step_alloc])

lemma pmm_step_owns: "pmm_step op a b \<Longrightarrow> pmm.owns P (fst a) (snd a) \<Longrightarrow> pmm.owns P (fst b) (snd b)"
proof (induction rule: pmm_step.induct)
  case (step_alloc c s r s' L)
  then show ?case by (auto intro: pmm.owns_alloc)
next
  case (step_fail c s s' L)
  then show ?case using pmm.alloc_fail [of P s L c s'] by simp
next
  case (step_free r c s L1 L2)
  then show ?case by (auto intro: pmm.owns_free)
next
  case (step_write q L x b s)
  then show ?case by (auto intro: pmm.owns_poke)
qed

lemma pmm_run_owns: "pmm_run a b \<Longrightarrow> pmm.owns P (fst a) (snd a) \<Longrightarrow> pmm.owns P (fst b) (snd b)"
  by (induction rule: pmm_run.induct) (auto intro: pmm_step_owns)

text \<open>C2. However the kernel interleaves calls of \<open>pmm_alloc\<close>, \<open>pmm_free\<close> of blocks it holds and
  writes to pages it holds, the blocks handed out are pairwise disjoint, all come from the pages the
  allocator started with, and the free list is well formed and holds exactly the remaining pages: no page
  is handed out twice, lost or invented.\<close>

theorem pmm_no_overlap:
  assumes "pmm_rel s0 P" "pmm_run (s0, []) (s, L)"
  shows "blocks_disjoint L \<and> live L \<subseteq> P \<and> pmm_rel s (P - live L)"
  using pmm_run_owns [OF assms(2), of P] pmm.owns_init [OF assms(1)]
  by (simp add: pmm.owns_def)

text \<open>A concrete machine: three pages are free from address 8192 on.\<close>

definition pmm_example :: pmm_state where
  "pmm_example = pmm_free 8192 3
     \<lparr>kmem = (\<lambda>_. 0), hhdm_offset = 0xFFFF800000000000, free_list_head = 0, max_phys_addr = 0\<rparr>"

lemma pmm_rel_empty:
  "page_aligned off \<Longrightarrow>
   pmm_rel \<lparr>kmem = m, hhdm_offset = off, free_list_head = 0, max_phys_addr = t\<rparr> {}"
  by (simp add: pmm_rel_def pmm_inv_def exI [of _ "[]"])

lemma pmm_example_rel: "pmm_rel pmm_example {8192, 12288, 16384}"
proof -
  let ?s = "\<lparr>kmem = (\<lambda>_. 0), hhdm_offset = 0xFFFF800000000000, free_list_head = 0, max_phys_addr = 0\<rparr> :: pmm_state"
  have b: "page_block 8192 (unat (3 :: u64)) = {8192, 12288, 16384}"
    by (auto simp add: page_block_def PAGE_SIZE_def lessThan_nat_numeral lessThan_Suc pred_numeral_simps)
  have "pmm_rel ?s {}" by (rule pmm_rel_empty) (simp add: page_aligned_def)
  then show ?thesis using pmm_free_rel [of ?s "{}" 3 8192]
    unfolding pmm_example_def b by (simp add: pmm_page_ok_def pmm_node_ok_def page_aligned_def)
qed

lemma pmm_example_alloc: "\<exists>s'. pmm_alloc 2 pmm_example = Some (12288, s')"
proof -
  have "map_option fst (pmm_alloc 2 pmm_example) = Some 12288" by code_simp
  then show ?thesis by auto
qed

theorem pmm_no_overlap_witness:
  "\<exists>s L. pmm_run (pmm_example, []) (s, L) \<and> L = [(12288, 2)] \<and>
     blocks_disjoint L \<and> live L \<subseteq> {8192, 12288, 16384} \<and> pmm_rel s ({8192, 12288, 16384} - live L)"
proof -
  obtain s' where "pmm_alloc 2 pmm_example = Some (12288, s')" using pmm_example_alloc by auto
  then have "pmm_run (pmm_example, []) (s', [(12288, 2)])"
    by (intro pmm_run_alloc) simp_all
  then show ?thesis using pmm_no_overlap [OF pmm_example_rel] by blast
qed

text \<open>The allocator never writes to a page that is in use: an allocation or a release leaves every
  byte of every page that stays held as it was.\<close>

theorem pmm_keeps_live_data:
  assumes "pmm_rel s0 P" "pmm_run (s0, []) (s, L)"
    and "pmm_step op (s, L) (s', L')" "op = Op_alloc c \<or> op = Op_free r c"
    and "q \<in> live L \<inter> live L'" "in_page q x"
  shows "phys_byte s' x = phys_byte s x"
proof -
  have own: "pmm.owns P s L"
    using pmm_run_owns [OF assms(2), of P] pmm.owns_init [OF assms(1)] by simp
  from assms(4) show ?thesis
  proof
    assume "op = Op_alloc c"
    then show ?thesis using assms(3,5,6) pmm.alloc_keeps_live [OF own]
      by (auto elim!: pmm_step_allocE)
  next
    assume "op = Op_free r c"
    with assms(3) obtain L1 L2 where L: "L = L1 @ (r, c) # L2" "L' = L1 @ L2" "s' = pmm_free r c s"
      by (auto elim: pmm_step_freeE)
    then show ?thesis using pmm.owns_free(2) [of P s L1 r c L2 q x] own assms(5,6) by simp
  qed
qed

theorem pmm_keeps_live_data_witness:
  "\<exists>s. pmm_run (pmm_example, []) (s, [(12288, 2)]) \<and>
     (\<exists>r s'. pmm_alloc 1 s = Some (r, s') \<and> r \<noteq> 0 \<and> phys_byte s' 12290 = phys_byte s 12290)"
proof -
  obtain s where "pmm_alloc 2 pmm_example = Some (12288, s)" using pmm_example_alloc by auto
  then have run: "pmm_run (pmm_example, []) (s, [(12288, 2)])"
    by (intro pmm_run_alloc) simp_all
  have blk: "blk (12288, 2) = {12288, 16384}"
    by (auto simp add: blk_def page_block_def PAGE_SIZE_def lessThan_nat_numeral lessThan_Suc pred_numeral_simps)
  have "pmm_rel s ({8192, 12288, 16384} - blk (12288, 2))"
    using pmm_run_owns [OF run, of "{8192, 12288, 16384}"] pmm.owns_init [OF pmm_example_rel]
    by (simp add: pmm.owns_def)
  then obtain r s' where a: "pmm_alloc 1 s = Some (r, s')" "r \<noteq> 0"
    using pmm_alloc_one [of s "{8192, 12288, 16384} - blk (12288, 2)"] by (auto simp: blk)
  then have "pmm_step (Op_alloc 1) (s, [(12288, 2)]) (s', (r, 1) # [(12288, 2)])" by (rule step_alloc)
  then have "phys_byte s' 12290 = phys_byte s 12290"
    by (rule pmm_keeps_live_data [OF pmm_example_rel run, where c = 1 and q = 12288])
      (simp_all add: blk in_page_def)
  then show ?thesis using run a by auto
qed

text \<open>C31. A request for a single page always returns, fails exactly when nothing is free, and a failing
  request for any number of pages changes nothing.\<close>

theorem pmm_alloc_progress:
  assumes "pmm_rel s F"
  shows "(\<exists>r s'. pmm_alloc 1 s = Some (r, s') \<and> (r = 0 \<longleftrightarrow> F = {})) \<and>
     (\<exists>r s'. pmm_alloc c s = Some (r, s') \<and> (r = 0 \<longrightarrow> s' = s))"
  using pmm_alloc_one [OF assms] pmm_alloc_rel [OF assms, of c] by auto

theorem pmm_alloc_progress_witness:
  "\<exists>r s'. pmm_alloc 1 pmm_example = Some (r, s') \<and> r \<noteq> 0"
  using pmm_alloc_progress [OF pmm_example_rel] by auto

section \<open>Claiming the usable memory\<close>

lemma unat_align_down: "unat (PMM_ALIGN_DOWN x PAGE_SIZE) = unat x - unat x mod 4096"
  using unat_and_not_mask [of x 12] by (simp add: PMM_ALIGN_DOWN_def PAGE_SIZE_def mask_eq_exp_minus_1)

lemma unat_align_up:
  assumes "unat x + 4095 < 2 ^ 64"
  shows "unat (PMM_ALIGN_UP x PAGE_SIZE) = unat x + 4095 - (unat x + 4095) mod 4096"
proof -
  have "unat (x + 4095) = unat x + 4095" using assms unat_add_u64 [of x 4095] by simp
  then show ?thesis
    using unat_and_not_mask [of "x + 4095" 12]
    by (simp add: PMM_ALIGN_UP_def PAGE_SIZE_def mask_eq_exp_minus_1 algebra_simps)
qed

text \<open>The whole pages that lie inside a memory map entry.\<close>

definition entry_pages :: "limine_memmap_entry \<Rightarrow> u64 set" where
  "entry_pages e = {q. page_aligned q \<and> unat (me_base e) \<le> unat q \<and>
     unat q + 4096 \<le> unat (me_base e) + unat (me_length e)}"

definition entry_ok :: "limine_memmap_entry \<Rightarrow> bool" where
  "entry_ok e \<longleftrightarrow> unat (me_base e) + unat (me_length e) + 4096 < 2 ^ 64"

definition page_range :: "u64 \<Rightarrow> u64 \<Rightarrow> u64 set" where
  "page_range p lim = {q. page_aligned q \<and> unat p \<le> unat q \<and> unat q < unat lim}"

lemma page_range_empty [simp]: "page_range p p = {}"
  by (auto simp: page_range_def)

lemma page_range_step:
  assumes "page_aligned p" "page_aligned lim" "unat p < unat lim"
  shows "unat (p + PAGE_SIZE) = unat p + 4096" "unat p + 4096 \<le> unat lim"
    "page_aligned (p + PAGE_SIZE)" "p \<notin> page_range (p + PAGE_SIZE) lim"
    "page_range p lim = insert p (page_range (p + PAGE_SIZE) lim)"
proof -
  have dv: "4096 dvd unat lim" "4096 dvd unat p" using assms by (simp_all add: page_aligned_def)
  show lt: "unat p + 4096 \<le> unat lim" using assms(3) dv by (auto elim!: dvdE)
  show up: "unat (p + PAGE_SIZE) = unat p + 4096"
    using lt unat_lt_u64 [of lim] unat_add_u64 [of p 4096] by (simp add: PAGE_SIZE_def)
  show "page_aligned (p + PAGE_SIZE)" using assms by (simp add: PAGE_SIZE_def page_aligned_add)
  show "p \<notin> page_range (p + PAGE_SIZE) lim" by (simp add: page_range_def up)
  have "q = p \<or> unat p + 4096 \<le> unat q" if "page_aligned q" "unat p \<le> unat q" for q
  proof -
    have "4096 dvd unat q - unat p" using that dv by (simp add: page_aligned_def dvd_diff_nat)
    then show ?thesis using that(2) unat_inject [of p q] by (auto dest: dvd_imp_le)
  qed
  then show "page_range p lim = insert p (page_range (p + PAGE_SIZE) lim)"
    using assms lt by (auto simp: up page_range_def)
qed

lemma page_block_one [simp]: "page_block p (Suc 0) = {p}"
  by (simp add: page_block_Suc) (simp add: page_block_def)

lemma pmm_claim_range_rel:
  assumes "pmm_rel s F" "page_aligned lim" "page_aligned p"
    "\<And>q. q \<in> page_range p lim \<Longrightarrow> pmm_page_ok s q \<and> q \<notin> F" "unat p \<le> unat lim"
  shows "\<exists>m h. pmm_claim_range p lim s n =
      Some (s\<lparr>kmem := m, free_list_head := h\<rparr>, n + of_nat (card (page_range p lim))) \<and>
     pmm_rel (s\<lparr>kmem := m, free_list_head := h\<rparr>) (F \<union> page_range p lim)"
  using assms
proof (induction "unat lim - unat p" arbitrary: p s F n rule: less_induct)
  case less
  show ?case
  proof (cases "unat p < unat lim")
    case False
    then have "p = lim" using less.prems(5) by (simp add: unat_inject [symmetric])
    then show ?thesis using less.prems(1)
      by (subst pmm_claim_range.simps) (simp add: exI [of _ "kmem s"] exI [of _ "free_list_head s"])
  next
    case True
    note st = page_range_step [OF less.prems(3,2) True]
    let ?R = "page_range (p + PAGE_SIZE) lim"
    have "pmm_page_ok s p \<and> p \<notin> F" using less.prems(4) [of p] st by simp
    then have fr: "pmm_rel (pmm_free p 1 s) (F \<union> {p})" "\<exists>m h. pmm_free p 1 s = s\<lparr>kmem := m, free_list_head := h\<rparr>"
      using pmm_free_rel [OF less.prems(1), of 1 p] by auto
    then obtain m h where eq: "pmm_free p 1 s = s\<lparr>kmem := m, free_list_head := h\<rparr>" by auto
    have "\<exists>m' h'. pmm_claim_range (p + PAGE_SIZE) lim (pmm_free p 1 s) (n + 1) =
      Some ((pmm_free p 1 s)\<lparr>kmem := m', free_list_head := h'\<rparr>, n + 1 + of_nat (card ?R)) \<and>
      pmm_rel ((pmm_free p 1 s)\<lparr>kmem := m', free_list_head := h'\<rparr>) (F \<union> {p} \<union> ?R)"
    proof (rule less.hyps [OF _ fr(1) less.prems(2)])
      show "unat lim - unat (p + PAGE_SIZE) < unat lim - unat p" using st True by simp
      show "page_aligned (p + PAGE_SIZE)" "unat (p + PAGE_SIZE) \<le> unat lim" using st by simp_all
      fix q assume "q \<in> ?R"
      then show "pmm_page_ok (pmm_free p 1 s) q \<and> q \<notin> F \<union> {p}"
        using less.prems(4) [of q] st by (auto simp: eq pmm_page_ok_def)
    qed
    then obtain m' h' where "pmm_claim_range (p + PAGE_SIZE) lim (pmm_free p 1 s) (n + 1) =
      Some (s\<lparr>kmem := m', free_list_head := h'\<rparr>, n + 1 + of_nat (card ?R))"
      "pmm_rel (s\<lparr>kmem := m', free_list_head := h'\<rparr>) (F \<union> {p} \<union> ?R)" unfolding eq by auto
    moreover have "card (page_range p lim) = Suc (card ?R)" using st(4,5) by simp
    ultimately show ?thesis using True st(5)
      by (subst pmm_claim_range.simps, intro exI [of _ m'] exI [of _ h'])
        (simp add: word_less_nat_alt add.assoc)
  qed
qed

lemma round_down_le:
  fixes z k :: nat assumes "4096 dvd k"
  shows "k + 4096 \<le> z \<longleftrightarrow> k < z - z mod 4096"
proof -
  obtain c where k: "k = c * 4096" using assms by (metis dvdE mult.commute)
  have "k + 4096 \<le> z \<longleftrightarrow> Suc c \<le> z div 4096" unfolding k by (subst less_eq_div_iff_mult_less_eq) auto
  also have "\<dots> \<longleftrightarrow> k < z - z mod 4096" unfolding k minus_mod_eq_div_mult by auto
  finally show ?thesis .
qed

lemma round_up_le:
  fixes z k :: nat assumes "4096 dvd k"
  shows "z \<le> k \<longleftrightarrow> z + 4095 - (z + 4095) mod 4096 \<le> k"
  using round_down_le [OF assms, of "z + 4095"] by linarith

lemma entry_pages_range:
  assumes "entry_ok e"
  defines "b \<equiv> PMM_ALIGN_UP (me_base e) PAGE_SIZE"
    and "t \<equiv> PMM_ALIGN_DOWN (me_base e + me_length e) PAGE_SIZE"
  shows "page_aligned b" "page_aligned t" "entry_pages e = page_range b t"
proof -
  have ub: "unat b = unat (me_base e) + 4095 - (unat (me_base e) + 4095) mod 4096"
    unfolding b_def using assms(1) by (intro unat_align_up) (simp add: entry_ok_def)
  have sum: "unat (me_base e + me_length e) = unat (me_base e) + unat (me_length e)"
    using assms(1) by (intro unat_add_u64) (simp add: entry_ok_def)
  have ut: "unat t = unat (me_base e) + unat (me_length e) - (unat (me_base e) + unat (me_length e)) mod 4096"
    unfolding t_def unat_align_down sum by simp
  show "page_aligned b" "page_aligned t" unfolding page_aligned_def ub ut by (simp_all add: dvd_minus_mod)
  have lower: "unat (me_base e) \<le> k \<longleftrightarrow> unat b \<le> k"
    and upper: "k + 4096 \<le> unat (me_base e) + unat (me_length e) \<longleftrightarrow> k < unat t" if "4096 dvd k" for k
    using round_up_le [OF that] round_down_le [OF that] unfolding ub ut by simp_all
  show "entry_pages e = page_range b t"
    unfolding entry_pages_def page_range_def page_aligned_def using lower upper by auto
qed

definition claimable :: "'a pmm_state_scheme \<Rightarrow> u64 set \<Rightarrow> limine_memmap_entry list \<Rightarrow> bool" where
  "claimable s F es \<longleftrightarrow> (\<forall>e \<in> set es. entry_ok e \<and> (\<forall>q \<in> entry_pages e. pmm_page_ok s q \<and> q \<notin> F)) \<and>
     sorted_wrt (\<lambda>a b. entry_pages a \<inter> entry_pages b = {}) es"

definition of_type :: "u64 \<Rightarrow> limine_memmap_entry list \<Rightarrow> limine_memmap_entry list" where
  "of_type t es = filter (\<lambda>e. me_type e = t) es"

lemma pmm_claim_loop_rel:
  assumes "pmm_rel s F" "claimable s F (of_type t es)"
  shows "\<exists>m h. pmm_claim_loop t es s n = Some (s\<lparr>kmem := m, free_list_head := h\<rparr>,
      n + of_nat (card (\<Union> (entry_pages ` set (of_type t es))))) \<and>
     pmm_rel (s\<lparr>kmem := m, free_list_head := h\<rparr>) (F \<union> \<Union> (entry_pages ` set (of_type t es)))"
  using assms
proof (induction es arbitrary: s F n)
  case Nil
  then show ?case by (simp add: of_type_def exI [of _ "kmem s"] exI [of _ "free_list_head s"])
next
  case (Cons e es)
  let ?U = "\<Union> (entry_pages ` set (of_type t es))"
  show ?case
  proof (cases "me_type e = t")
    case False
    then show ?thesis using Cons by (simp add: of_type_def)
  next
    case True
    define b where "b = PMM_ALIGN_UP (me_base e) PAGE_SIZE"
    define l where "l = PMM_ALIGN_DOWN (me_base e + me_length e) PAGE_SIZE"
    have "entry_ok e" and okq: "\<And>q. q \<in> entry_pages e \<Longrightarrow> pmm_page_ok s q \<and> q \<notin> F"
      and tl: "claimable s F (of_type t es)" and disj: "entry_pages e \<inter> ?U = {}"
      using Cons.prems True by (auto simp: claimable_def of_type_def)
    note rg = entry_pages_range [OF \<open>entry_ok e\<close>, folded b_def l_def]
    have "\<exists>m h. (if b \<ge> l then Some (s, n) else pmm_claim_range b l s n) =
        Some (s\<lparr>kmem := m, free_list_head := h\<rparr>, n + of_nat (card (entry_pages e))) \<and>
        pmm_rel (s\<lparr>kmem := m, free_list_head := h\<rparr>) (F \<union> entry_pages e)"
    proof (cases "b \<ge> l")
      case True
      then have "entry_pages e = {}" unfolding rg by (auto simp: page_range_def word_le_nat_alt)
      then show ?thesis using True Cons.prems(1) by (simp add: exI [of _ "kmem s"] exI [of _ "free_list_head s"])
    next
      case False
      then show ?thesis unfolding rg using okq [unfolded rg] Cons.prems(1) rg(1,2)
        by (simp add: pmm_claim_range_rel word_le_nat_alt)
    qed
    then obtain m h where s1: "(if b \<ge> l then Some (s, n) else pmm_claim_range b l s n) =
        Some (s\<lparr>kmem := m, free_list_head := h\<rparr>, n + of_nat (card (entry_pages e)))"
      and rel1: "pmm_rel (s\<lparr>kmem := m, free_list_head := h\<rparr>) (F \<union> entry_pages e)" by blast
    let ?s1 = "s\<lparr>kmem := m, free_list_head := h\<rparr>" and ?n1 = "n + of_nat (card (entry_pages e))"
    have step: "pmm_claim_loop t (e # es) s n = pmm_claim_loop t es ?s1 ?n1"
      using s1 True by (auto simp: Let_def b_def [symmetric] l_def [symmetric] split: if_splits)
    have "claimable ?s1 (F \<union> entry_pages e) (of_type t es)"
      using tl disj by (auto simp: claimable_def pmm_page_ok_def)
    from Cons.IH [OF rel1 this, of ?n1] show ?thesis
      using disj True unfolding step by (simp add: of_type_def card_Un_disjoint Un_assoc add.assoc)
  qed
qed

lemma pmm_count_flist: "flist m p xs \<Longrightarrow> pmm_count_loop m p n = Some (n + of_nat (length xs))"
proof (induction xs arbitrary: p n)
  case Nil
  then show ?case by (subst pmm_count_loop.simps) simp
next
  case (Cons x xs)
  then show ?case by (subst pmm_count_loop.simps) (simp add: add.assoc)
qed

lemma pmm_count_rel:
  assumes "pmm_rel s F"
  shows "pmm_get_free_page_count s = Some (of_nat (card F))"
proof -
  obtain xs where inv: "pmm_inv s xs" and F: "F = (\<lambda>v. v - hhdm_offset s) ` set xs"
    using assms by (auto simp: pmm_rel_def)
  have "card F = length xs" using inv unfolding F
    by (subst card_image) (auto simp: inj_on_def pmm_inv_def distinct_card)
  then show ?thesis using inv pmm_count_flist [of "kmem s" "free_list_head s" xs 0]
    by (simp add: pmm_get_free_page_count_def pmm_inv_def)
qed

text \<open>C32. Claiming the entries of one type puts exactly the whole pages that lie inside them on
  the free list, whatever the alignment of the entries, and returns their number, which is also what
  \<open>pmm_get_free_page_count\<close> then reports on top of the pages that were free before. The entries may not
  overlap, wrap around the address space or contain page 0.\<close>

theorem pmm_claim_exact:
  assumes "pmm_rel s F" "claimable s F (of_type t es)"
  defines "U \<equiv> \<Union> (entry_pages ` set (of_type t es))"
  shows "\<exists>s'. pmm_claim es t s = Some (s', of_nat (card U)) \<and> pmm_rel s' (F \<union> U) \<and>
     pmm_get_free_page_count s' = Some (of_nat (card F) + of_nat (card U))"
proof -
  obtain s' where s': "pmm_claim es t s = Some (s', of_nat (card U))" "pmm_rel s' (F \<union> U)"
    using pmm_claim_loop_rel [OF assms(1,2), of 0] by (auto simp: pmm_claim_def U_def)
  have "F \<inter> U = {}" using assms(2) by (auto simp: claimable_def U_def)
  then have "card (F \<union> U) = card F + card U" by (intro card_Un_disjoint) auto
  then show ?thesis using s' pmm_count_rel [OF s'(2)] by simp
qed

theorem pmm_claim_exact_witness:
  "\<exists>s'. pmm_claim [\<lparr>me_base = 0x20001, me_length = 0x3000, me_type = 0\<rparr>, \<lparr>me_base = 0x90000, me_length = 0x1000, me_type = 1\<rparr>]
     0 pmm_example = Some (s', of_nat (card {0x21000, 0x22000 :: u64})) \<and>
     pmm_rel s' ({8192, 12288, 16384} \<union> {0x21000, 0x22000})"
proof -
  let ?e = "\<lparr>me_base = 0x20001, me_length = 0x3000, me_type = 0\<rparr> :: limine_memmap_entry"
  let ?es = "[?e, \<lparr>me_base = 0x90000, me_length = 0x1000, me_type = 1\<rparr>]"
  have t: "of_type 0 ?es = [?e]" by (simp add: of_type_def)
  have ok: "entry_ok ?e" by (simp add: entry_ok_def)
  have "entry_pages ?e = page_range 0x21000 0x23000"
    using entry_pages_range(3) [OF ok] by (simp add: PMM_ALIGN_UP_def PMM_ALIGN_DOWN_def PAGE_SIZE_def)
  also have "\<dots> = {0x21000, 0x22000}"
    using page_range_step(5) [of "0x21000" "0x23000"]
      page_range_step(5) [of "0x22000" "0x23000"]
    by (simp add: page_aligned_def PAGE_SIZE_def)
  finally have pages: "entry_pages ?e = {0x21000, 0x22000}" .
  have "claimable pmm_example {8192, 12288, 16384} [?e]"
    using ok by (simp add: claimable_def pages pmm_page_ok_def pmm_node_ok_def page_aligned_def pmm_example_def)
  then show ?thesis
    using pmm_claim_exact [OF pmm_example_rel, where es = ?es and t = 0] unfolding t by (auto simp: pages)
qed

end
