(* ===== verification/Kheap.thy ===== *)
theory Kheap
  imports Pmm
begin

text \<open>
  The kernel heap of \<^verbatim>\<open>kernel/src/mm/heap.c\<close>: a linked list of blocks in memory, each with a
  header (size, free flag, next pointer) in front of its payload, grown by pages from the
  physical allocator. The proofs relate the bytes in memory to a list of blocks and show that the
  payloads handed out are disjoint, aligned and keep their contents.
\<close>

section \<open>State and operations\<close>

record heap_state = pmm_state +
  heap_block_list :: u64

definition HEAP_ALIGNMENT :: u64 where "HEAP_ALIGNMENT = 16"

definition HEAP_ALIGN_UP :: "u64 \<Rightarrow> u64 \<Rightarrow> u64" where
  "HEAP_ALIGN_UP sz align = (sz + align - 1) AND NOT (align - 1)"

text \<open>\<^verbatim>\<open>sizeof(struct heap_block)\<close> is 24 on both targets.\<close>

definition HEAP_HEADER_SIZE :: u64 where
  "HEAP_HEADER_SIZE = HEAP_ALIGN_UP 24 HEAP_ALIGNMENT"

text \<open>The fields of \<^verbatim>\<open>struct heap_block\<close> at address \<open>b\<close>.\<close>

definition hb_size :: "mem \<Rightarrow> u64 \<Rightarrow> u64" where "hb_size m b = load64 m b"
definition hb_is_free :: "mem \<Rightarrow> u64 \<Rightarrow> bool" where "hb_is_free m b \<longleftrightarrow> m (b + 8) \<noteq> 0"
definition hb_next :: "mem \<Rightarrow> u64 \<Rightarrow> u64" where "hb_next m b = load64 m (b + 16)"
definition set_hb_size :: "u64 \<Rightarrow> u64 \<Rightarrow> mem \<Rightarrow> mem" where "set_hb_size b v m = store64 m b v"
definition set_hb_is_free :: "u64 \<Rightarrow> bool \<Rightarrow> mem \<Rightarrow> mem" where
  "set_hb_is_free b v m = m(b + 8 := (if v then 1 else 0))"
definition set_hb_next :: "u64 \<Rightarrow> u64 \<Rightarrow> mem \<Rightarrow> mem" where "set_hb_next b v m = store64 m (b + 16) v"

partial_function (option) heap_coalesce_loop :: "mem \<Rightarrow> u64 \<Rightarrow> u64 \<Rightarrow> mem option" where
  [code]: "heap_coalesce_loop m block block_end =
     (if hb_next m block \<noteq> 0 \<and> hb_is_free m (hb_next m block) \<and> block_end = hb_next m block
      then let m1 = set_hb_size block (hb_size m block + (HEAP_HEADER_SIZE + hb_size m (hb_next m block))) m;
               m2 = set_hb_next block (hb_next m1 (hb_next m1 block)) m1
           in heap_coalesce_loop m2 block (block + HEAP_HEADER_SIZE + hb_size m2 block)
      else Some m)"

definition heap_block_coalesce :: "u64 \<Rightarrow> mem \<Rightarrow> mem option" where
  "heap_block_coalesce block m = heap_coalesce_loop m block (block + HEAP_HEADER_SIZE + hb_size m block)"

definition heap_block_split :: "u64 \<Rightarrow> u64 \<Rightarrow> mem \<Rightarrow> mem option" where
  "heap_block_split block sz m =
     (if hb_size m block < sz + HEAP_HEADER_SIZE + HEAP_ALIGNMENT then Some m
      else let remainder = block + HEAP_HEADER_SIZE + sz;
               m1 = set_hb_size remainder (hb_size m block - HEAP_HEADER_SIZE - sz) m;
               m2 = set_hb_is_free remainder True m1;
               m3 = set_hb_next remainder (hb_next m2 block) m2;
               m4 = set_hb_next block remainder m3;
               m5 = set_hb_size block sz m4
           in heap_block_coalesce remainder m5)"

definition heap_init :: "'a heap_state_scheme \<Rightarrow> 'a heap_state_scheme option" where
  "heap_init s =
     Option.bind (pmm_alloc 1 s) (\<lambda>(phys_addr, s1).
       if phys_addr = 0 then None
       else let block = pmm_phys_to_virt s1 phys_addr in
         Some (s1\<lparr>heap_block_list := block,
                  kmem := set_hb_next block 0 (set_hb_is_free block True
                            (set_hb_size block (PAGE_SIZE - HEAP_HEADER_SIZE) (kmem s1)))\<rparr>))"

partial_function (option) heap_search :: "mem \<Rightarrow> u64 \<Rightarrow> u64 \<Rightarrow> u64 option" where
  [code]: "heap_search m search sz =
     (if search = 0 then Some 0
      else if hb_is_free m search \<and> hb_size m search \<ge> sz then Some search
      else heap_search m (hb_next m search) sz)"

definition SIZE_MAX :: u64 where "SIZE_MAX = - 1"

text \<open>The end of \<open>kmalloc\<close>: split the chosen block and mark it used.\<close>

definition kmalloc_take :: "u64 \<Rightarrow> u64 \<Rightarrow> 'a heap_state_scheme \<Rightarrow> (u64 \<times> 'a heap_state_scheme) option" where
  "kmalloc_take block sz s =
     Option.bind (heap_block_split block sz (kmem s)) (\<lambda>m.
       Some (block + HEAP_HEADER_SIZE, s\<lparr>kmem := set_hb_is_free block False m\<rparr>))"

definition kmalloc :: "u64 \<Rightarrow> 'a heap_state_scheme \<Rightarrow> (u64 \<times> 'a heap_state_scheme) option" where
  "kmalloc req s =
     (if req > SIZE_MAX - HEAP_HEADER_SIZE - PAGE_SIZE - HEAP_ALIGNMENT then Some (0, s)
      else
        let sz0 = HEAP_ALIGN_UP req HEAP_ALIGNMENT;
            sz = (if sz0 = 0 then HEAP_ALIGNMENT else sz0)
        in Option.bind (heap_search (kmem s) (heap_block_list s) sz) (\<lambda>found.
             if found \<noteq> 0 then kmalloc_take found sz s
             else
               let pages = (HEAP_HEADER_SIZE + sz + PAGE_SIZE - 1) div PAGE_SIZE
               in Option.bind (pmm_alloc pages s) (\<lambda>(phys_addr, s1).
                    if phys_addr = 0 then Some (0, s1)
                    else
                      let block = pmm_phys_to_virt s1 phys_addr;
                          m1 = set_hb_size block (pages * PAGE_SIZE - HEAP_HEADER_SIZE) (kmem s1);
                          m2 = set_hb_is_free block True m1;
                          m3 = set_hb_next block (heap_block_list s1) m2
                      in kmalloc_take block sz (s1\<lparr>kmem := m3, heap_block_list := block\<rparr>))))"

definition kcalloc :: "u64 \<Rightarrow> u64 \<Rightarrow> 'a heap_state_scheme \<Rightarrow> (u64 \<times> 'a heap_state_scheme) option" where
  "kcalloc num sz s =
     (if sz \<noteq> 0 \<and> num > SIZE_MAX div sz then Some (0, s)
      else
        let total_size = num * sz
        in Option.bind (kmalloc total_size s) (\<lambda>(ptr, s1).
             if ptr = 0 then Some (0, s1)
             else Some (ptr, s1\<lparr>kmem := memset (kmem s1) ptr 0 total_size\<rparr>)))"

definition kfree :: "u64 \<Rightarrow> 'a heap_state_scheme \<Rightarrow> 'a heap_state_scheme option" where
  "kfree virt_addr s =
     (if virt_addr = 0 then Some s
      else let block = virt_addr - HEAP_HEADER_SIZE
           in map_option (\<lambda>m. s\<lparr>kmem := m\<rparr>) (heap_block_coalesce block (set_hb_is_free block True (kmem s))))"

definition krealloc :: "u64 \<Rightarrow> u64 \<Rightarrow> 'a heap_state_scheme \<Rightarrow> (u64 \<times> 'a heap_state_scheme) option" where
  "krealloc virt_addr req s =
     (if req > SIZE_MAX - (HEAP_ALIGNMENT - 1) then Some (0, s)
      else if virt_addr = 0 then kmalloc req s
      else if req = 0 then map_option (\<lambda>s'. (0, s')) (kfree virt_addr s)
      else
        let sz = HEAP_ALIGN_UP req HEAP_ALIGNMENT;
            block = virt_addr - HEAP_HEADER_SIZE
        in if sz \<le> hb_size (kmem s) block
           then map_option (\<lambda>m. (virt_addr, s\<lparr>kmem := m\<rparr>)) (heap_block_split block sz (kmem s))
           else
             Option.bind (heap_block_coalesce block (kmem s)) (\<lambda>m1.
               if sz \<le> hb_size m1 block
               then map_option (\<lambda>m. (virt_addr, s\<lparr>kmem := m\<rparr>)) (heap_block_split block sz m1)
               else
                 Option.bind (kmalloc sz (s\<lparr>kmem := m1\<rparr>)) (\<lambda>(new_addr, s2).
                   if new_addr = 0 then Some (0, s2)
                   else
                     let s3 = s2\<lparr>kmem := memcpy (kmem s2) new_addr virt_addr (hb_size (kmem s2) block)\<rparr>
                     in map_option (\<lambda>s4. (new_addr, s4)) (kfree virt_addr s3))))"

section \<open>Blocks as an abstract list\<close>

text \<open>A block is its address, its payload size and its free flag; \<open>bx\<close> is its extent, header
  included.\<close>

type_synonym hblock = "u64 \<times> u64 \<times> bool"

fun bx :: "hblock \<Rightarrow> u64 set" where
  "bx (a, s, f) = extent a (32 + unat s)"

fun hseg :: "mem \<Rightarrow> u64 \<Rightarrow> hblock list \<Rightarrow> bool" where
  "hseg m p [] \<longleftrightarrow> p = 0"
| "hseg m p ((a, s, f) # bs) \<longleftrightarrow>
     p = a \<and> a \<noteq> 0 \<and> hb_size m a = s \<and> hb_is_free m a = f \<and> hseg m (hb_next m a) bs"

fun blk_ok :: "hblock \<Rightarrow> bool" where
  "blk_ok (a, s, f) \<longleftrightarrow> 16 dvd unat a \<and> 16 dvd unat s \<and> 16 \<le> unat s \<and> unat s + 32 + 4096 \<le> 2 ^ 64 \<and>
     extent a (32 + unat s) \<inter> extent 0 4096 = {}"

lemma blk_ok_nz: "blk_ok (a, s, f) \<Longrightarrow> a \<noteq> 0"
  using extent_self [of 0 4096] extent_self [of 0 "32 + unat s"] by (auto simp del: extent_self)

lemma payload_nz: "blk_ok (a, s, f) \<Longrightarrow> a + 32 \<noteq> 0"
proof
  assume ok: "blk_ok (a, s, f)" and z: "a + 32 = 0"
  have "a + of_nat 32 \<in> extent a (32 + unat s)" using ok by (intro extent_cell) auto
  then have "0 \<in> extent a (32 + unat s)" using z by simp
  moreover have "extent a (32 + unat s) \<inter> extent 0 4096 = {}" using ok by simp
  moreover have "0 \<in> extent 0 4096" by simp
  ultimately show False by blast
qed

definition heap_ok :: "hblock list \<Rightarrow> bool" where
  "heap_ok bs \<longleftrightarrow> (\<forall>b \<in> set bs. blk_ok b) \<and> sorted_wrt (\<lambda>a b. bx a \<inter> bx b = {}) bs"

fun absorb :: "hblock \<Rightarrow> hblock list \<Rightarrow> hblock list" where
  "absorb b [] = [b]"
| "absorb (a, s, f) ((a', s', f') # bs) =
     (if f' \<and> a + 32 + s = a' then absorb (a, s + (32 + s'), f) bs else (a, s, f) # (a', s', f') # bs)"

lemma HEAP_HEADER_SIZE_eq: "HEAP_HEADER_SIZE = 32"
  by (simp add: HEAP_HEADER_SIZE_def HEAP_ALIGN_UP_def HEAP_ALIGNMENT_def)

lemma extent_header:
  "extent b 8 \<subseteq> extent b 24" "b + 8 \<in> extent b 24" "extent (b + 16) 8 \<subseteq> extent b 24"
  using extent_mono [of 8 24 b] extent_cell [of 8 24 b] extent_sub [of 16 8 24 b] by auto

lemma header_disj:
  "extent b 8 \<inter> extent (b + 16) 8 = {}" "b + 8 \<notin> extent b 8" "b + 8 \<notin> extent (b + 16) 8"
  using extent_disj [of 16 8 b] extent_mono [of 8 16 b] by (auto simp: extent_def)

lemmas hb_defs = hb_size_def hb_is_free_def hb_next_def set_hb_size_def set_hb_is_free_def set_hb_next_def

text \<open>Reading a field just written, and the frame of a write.\<close>

lemma hb_same [simp]:
  "hb_size (set_hb_size b v m) b = v" "hb_is_free (set_hb_size b v m) b = hb_is_free m b"
  "hb_next (set_hb_size b v m) b = hb_next m b"
  "hb_size (set_hb_is_free b f m) b = hb_size m b" "hb_is_free (set_hb_is_free b f m) b = f"
  "hb_next (set_hb_is_free b f m) b = hb_next m b"
  "hb_size (set_hb_next b v m) b = hb_size m b" "hb_is_free (set_hb_next b v m) b = hb_is_free m b"
  "hb_next (set_hb_next b v m) b = v"
  using header_disj [of b]
  by (simp_all add: hb_defs store64_out load64_store64_disj Int_commute)
    (auto intro!: load64_agree)

lemma set_hb_out [simp]:
  "x \<notin> extent b 24 \<Longrightarrow> set_hb_size b v m x = m x" "x \<notin> extent b 24 \<Longrightarrow> set_hb_is_free b f m x = m x"
  "x \<notin> extent b 24 \<Longrightarrow> set_hb_next b v m x = m x"
  using extent_header [of b] by (auto simp: hb_defs intro!: store64_out)

lemma hb_agree:
  assumes "\<And>x. x \<in> extent b 24 \<Longrightarrow> m' x = m x"
  shows "hb_size m' b = hb_size m b" "hb_is_free m' b = hb_is_free m b" "hb_next m' b = hb_next m b"
  using assms extent_header [of b] by (auto simp: hb_defs intro!: load64_agree)

lemma bx_header: "extent a 24 \<subseteq> bx (a, s, f)"
  by (simp add: extent_mono)

lemma bx_out: "x \<notin> bx (a, s, f) \<Longrightarrow> x \<notin> extent a 24"
  using bx_header by blast

lemma hseg_frame:
  "hseg m p bs \<Longrightarrow> (\<And>b x. b \<in> set bs \<Longrightarrow> x \<in> bx b \<Longrightarrow> m' x = m x) \<Longrightarrow> hseg m' p bs"
proof (induction m p bs rule: hseg.induct)
  case (2 m p a s f bs)
  have "\<And>x. x \<in> extent a 24 \<Longrightarrow> m' x = m x"
    using 2(3) [of "(a, s, f)"] bx_header [of a s f] by auto
  note eq = hb_agree [of a m' m, OF this]
  have "hseg m' (hb_next m a) bs" using 2(2,3) by (intro 2(1)) auto
  then show ?case using 2(2) by (simp add: eq)
qed simp

lemma heap_ok_Cons:
  "heap_ok (b # bs) \<longleftrightarrow> blk_ok b \<and> (\<forall>c \<in> set bs. bx b \<inter> bx c = {}) \<and> heap_ok bs"
  by (auto simp: heap_ok_def)

lemma heap_ok_append:
  "heap_ok (as @ bs) \<longleftrightarrow> heap_ok as \<and> heap_ok bs \<and> (\<forall>a \<in> set as. \<forall>b \<in> set bs. bx a \<inter> bx b = {})"
  by (auto simp: heap_ok_def sorted_wrt_append)

text \<open>Replacing the tail of the list from one block on, when only bytes of that tail changed.\<close>

lemma hseg_replace:
  assumes "hseg m p (as @ bs)" "heap_ok (as @ bs)"
    and "\<And>x. x \<notin> \<Union> (bx ` set bs) \<Longrightarrow> m' x = m x"
    and "\<And>q. hseg m q bs \<Longrightarrow> hseg m' q cs"
  shows "hseg m' p (as @ cs)"
  using assms
proof (induction as arbitrary: p)
  case (Cons b as)
  obtain a s f where b: "b = (a, s, f)" by (cases b)
  have "\<And>x. x \<in> extent a 24 \<Longrightarrow> m' x = m x"
    using Cons.prems(2,3) bx_header [of a s f] unfolding b heap_ok_append by fastforce
  from hb_agree [of a m' m, OF this] show ?case
    using Cons.prems Cons.IH [of "hb_next m a"] by (simp add: b heap_ok_Cons)
qed simp

lemma absorb_size:
  assumes "blk_ok (a, s, f)" "blk_ok (a + 32 + s, s', f')" "bx (a, s, f) \<inter> bx (a + 32 + s, s', f') = {}"
  shows "unat (s + (32 + s')) = unat s + 32 + unat s'"
    "bx (a, s + (32 + s'), g) = bx (a, s, f) \<union> bx (a + 32 + s, s', f')"
    "blk_ok (a, s + (32 + s'), g)"
proof -
  have off: "a + 32 + s = a + of_nat (32 + unat s)" by simp
  have room: "32 + unat s + (32 + unat s') \<le> 2 ^ 64"
    using assms(3) by (intro extent_disjoint_apart [of a _ "a + 32 + s"]) auto
  have "unat (32 + s') = 32 + unat s'" using room unat_add_u64 [of 32 s'] by simp
  then show sz: "unat (s + (32 + s')) = unat s + 32 + unat s'"
    using room unat_add_u64 [of s "32 + s'"] by simp
  have "extent a (32 + unat s + (32 + unat s')) = extent a (32 + unat s) \<union> extent (a + of_nat (32 + unat s)) (32 + unat s')"
    using room extent_split [of "32 + unat s" "32 + unat s'" a] by auto
  then show bx: "bx (a, s + (32 + s'), g) = bx (a, s, f) \<union> bx (a + 32 + s, s', f')"
    using sz by (simp add: add_ac)
  have out: "extent a (32 + unat (s + (32 + s'))) \<inter> extent 0 4096 = {}"
    using bx assms(1,2) by auto
  then have "32 + unat (s + (32 + s')) + 4096 \<le> 2 ^ 64" by (intro extent_disjoint_apart) auto
  then show "blk_ok (a, s + (32 + s'), g)" using out assms(1,2) by (simp add: sz)
qed

lemma absorb_bx: "heap_ok ((a, s, f) # bs) \<Longrightarrow>
  heap_ok (absorb (a, s, f) bs) \<and> \<Union> (bx ` set (absorb (a, s, f) bs)) = \<Union> (bx ` set ((a, s, f) # bs))"
proof (induction "(a, s, f)" bs arbitrary: s rule: absorb.induct)
  case (2 s a' s' f' bs)
  show ?case
  proof (cases "f' \<and> a + 32 + s = a'")
    case True
    have *: "blk_ok (a, s, f)" "blk_ok (a + 32 + s, s', f')" "bx (a, s, f) \<inter> bx (a + 32 + s, s', f') = {}"
      using 2(2) True by (auto simp: heap_ok_Cons)
    note sz = absorb_size(1) [OF *] absorb_size(2,3) [OF *, of f]
    have "heap_ok ((a, s + (32 + s'), f) # bs)"
      using 2(2) True unfolding heap_ok_Cons by (simp only: sz Int_Un_distrib2) auto
    from 2(1) [OF True this] show ?thesis
      using True by (simp only: absorb.simps if_True simp_thms list.set image_insert sz) auto
  next
    case False
    then have "absorb (a, s, f) ((a', s', f') # bs) = (a, s, f) # (a', s', f') # bs" by auto
    then show ?thesis using 2(2) by simp
  qed
qed simp

lemma coalesce_loop:
  assumes "hseg m a ((a, s, f) # bs)" "heap_ok ((a, s, f) # bs)"
  shows "\<exists>m'. heap_coalesce_loop m a (a + 32 + s) = Some m' \<and> hseg m' a (absorb (a, s, f) bs) \<and>
    (\<forall>x. x \<notin> extent a 24 \<longrightarrow> m' x = m x)"
  using assms
proof (induction bs arbitrary: m s)
  case Nil
  then show ?case by (subst heap_coalesce_loop.simps) simp
next
  case (Cons b bs)
  obtain a' s' f' where b: "b = (a', s', f')" by (cases b)
  show ?case
  proof (cases "f' \<and> a + 32 + s = a'")
    case False
    then show ?thesis using Cons.prems by (subst heap_coalesce_loop.simps) (auto simp: b)
  next
    case True
    define m1 where "m1 = set_hb_size a (s + (32 + s')) m"
    define m2 where "m2 = set_hb_next a (hb_next m1 a') m1"
    have ok: "blk_ok (a, s, f)" "blk_ok (a + 32 + s, s', f')" "bx (a, s, f) \<inter> bx (a + 32 + s, s', f') = {}"
      using Cons.prems(2) True by (auto simp: b heap_ok_Cons)
    note sz = absorb_size(1) [OF ok] absorb_size(2,3) [OF ok, of f]
    have far: "\<And>x. x \<in> extent a' 24 \<Longrightarrow> x \<notin> extent a 24"
      using ok(3) bx_header [of a s f] bx_header [of a' s' f'] True by auto
    have nx: "hb_next m1 a' = hb_next m a'" unfolding m1_def by (rule hb_agree) (simp add: far)
    have out: "x \<notin> extent a 24 \<Longrightarrow> m2 x = m x" for x by (simp add: m2_def m1_def)
    have "hseg m (hb_next m a') bs" using Cons.prems(1) by (simp add: b)
    then have "hseg m2 (hb_next m a') bs"
    proof (rule hseg_frame)
      fix c x assume "c \<in> set bs" "x \<in> bx c"
      then have "x \<notin> bx (a, s, f)" using Cons.prems(2) by (auto simp: heap_ok_Cons)
      then show "m2 x = m x" using bx_header [of a s f] by (intro out) auto
    qed
    then have seg: "hseg m2 a ((a, s + (32 + s'), f) # bs)"
      using Cons.prems(1) by (simp add: m2_def m1_def nx [unfolded m1_def])
    have "heap_ok ((a, s + (32 + s'), f) # bs)"
      using Cons.prems(2) True unfolding b heap_ok_Cons by (simp only: sz Int_Un_distrib2) auto
    from Cons.IH [OF seg this] obtain m' where m':
      "heap_coalesce_loop m2 a (a + 32 + (s + (32 + s'))) = Some m'" "hseg m' a (absorb (a, s + (32 + s'), f) bs)"
      "\<forall>x. x \<notin> extent a 24 \<longrightarrow> m' x = m2 x" by blast
    have "heap_coalesce_loop m a (a + 32 + s) = heap_coalesce_loop m2 a (a + 32 + (s + (32 + s')))"
      using Cons.prems(1) True
      by (subst heap_coalesce_loop.simps)
        (simp add: b HEAP_HEADER_SIZE_eq Let_def m2_def m1_def)
    then show ?thesis using m' True by (auto simp: b out)
  qed
qed

lemma dvd16_add:
  fixes x y :: u64
  assumes "16 dvd unat x" "16 dvd unat y"
  shows "16 dvd unat (x + y)"
proof -
  have "16 dvd (unat x + unat y) mod 2 ^ 64" using assms by (subst dvd_mod_iff) simp_all
  then show ?thesis by (simp add: unat_word_ariths)
qed

definition split_l :: "hblock \<Rightarrow> u64 \<Rightarrow> hblock list \<Rightarrow> hblock list" where
  "split_l b sz bs = (case b of (a, s, f) \<Rightarrow>
     if s < sz + 48 then b # bs else (a, sz, f) # absorb (a + 32 + sz, s - 32 - sz, True) bs)"

lemma split_parts:
  assumes ok: "blk_ok (a, s, f)" and sz: "16 dvd unat sz" "16 \<le> unat sz" "unat sz + 48 \<le> unat s"
  shows "blk_ok (a, sz, g)" "blk_ok (a + 32 + sz, s - 32 - sz, h)"
    "bx (a, s, f) = bx (a, sz, g) \<union> bx (a + 32 + sz, s - 32 - sz, h)"
    "bx (a, sz, g) \<inter> bx (a + 32 + sz, s - 32 - sz, h) = {}"
proof -
  have u: "unat (s - 32 - sz) = unat s - 32 - unat sz"
    using sz by (simp add: unat_diff_u64)
  have off: "a + 32 + sz = a + of_nat (32 + unat sz)" by simp
  have tot: "32 + unat s = 32 + unat sz + (32 + unat (s - 32 - sz))" using u sz by simp
  have bnd: "32 + unat sz < 2 ^ 64" "32 + unat sz + (32 + unat (s - 32 - sz)) \<le> 2 ^ 64"
    using ok tot sz by auto
  show un: "bx (a, s, f) = bx (a, sz, g) \<union> bx (a + 32 + sz, s - 32 - sz, h)"
    unfolding bx.simps tot off by (rule extent_split [OF bnd])
  show "bx (a, sz, g) \<inter> bx (a + 32 + sz, s - 32 - sz, h) = {}"
    unfolding bx.simps off by (rule extent_disj [OF bnd])
  have d: "16 dvd unat (a + 32 + sz)" using ok sz by (intro dvd16_add) auto
  have d2: "16 dvd unat s - 32 - unat sz"
    using ok sz by (intro dvd_diff_nat) simp_all
  show "blk_ok (a, sz, g)" "blk_ok (a + 32 + sz, s - 32 - sz, h)"
    using ok sz un d d2 u by (auto simp: Int_Un_distrib2)
qed

lemma heap_split:
  assumes seg: "hseg m a ((a, s, f) # bs)" and ok: "heap_ok ((a, s, f) # bs)"
    and sz: "16 dvd unat sz" "16 \<le> unat sz" "unat sz + 48 < 2 ^ 64"
  shows "\<exists>m'. heap_block_split a sz m = Some m' \<and> hseg m' a (split_l (a, s, f) sz bs) \<and>
    heap_ok (split_l (a, s, f) sz bs) \<and>
    \<Union> (bx ` set (split_l (a, s, f) sz bs)) = \<Union> (bx ` set ((a, s, f) # bs)) \<and>
    (\<forall>x. x \<notin> bx (a, s, f) \<or> x \<in> extent (a + 32) (unat sz) \<longrightarrow> m' x = m x)"
proof -
  have guard: "sz + HEAP_HEADER_SIZE + HEAP_ALIGNMENT = sz + 48"
    by (simp add: HEAP_HEADER_SIZE_eq HEAP_ALIGNMENT_def)
  have u48: "unat (sz + 48) = unat sz + 48" using sz unat_add_u64 [of sz 48] by simp
  show ?thesis
  proof (cases "s < sz + 48")
    case True
    then show ?thesis using seg ok by (simp add: heap_block_split_def guard split_l_def)
  next
    case False
    then have le: "unat sz + 48 \<le> unat s" by (simp add: word_less_nat_alt u48)
    define r where "r = a + 32 + sz"
    define rs where "rs = s - 32 - sz"
    have okb: "blk_ok (a, s, f)" using ok by (simp add: heap_ok_Cons)
    note parts = split_parts [OF okb sz(1,2) le, folded r_def rs_def]
    define m5 where "m5 = set_hb_size a sz (set_hb_next a r (set_hb_next r (hb_next m a)
      (set_hb_is_free r True (set_hb_size r rs m))))"
    have far: "x \<notin> extent r 24" if "x \<in> extent a 24" for x
      using that parts(4) [of f True] bx_header [of a sz f] bx_header [of r rs True] by blast
    have far': "x \<notin> extent a 24" if "x \<in> extent r 24" for x using far that by blast
    have out: "x \<notin> extent a 24 \<Longrightarrow> x \<notin> extent r 24 \<Longrightarrow> m5 x = m x" for x by (simp add: m5_def)
    have hdr_r: "hb_size m5 r = rs" "hb_is_free m5 r" "hb_next m5 r = hb_next m a"
      using hb_agree [of r m5 "set_hb_next r (hb_next m a) (set_hb_is_free r True (set_hb_size r rs m))"]
      by (simp_all add: m5_def far')
    have hdr_a: "hb_size m5 a = sz" "hb_is_free m5 a = f" "hb_next m5 a = r"
      using hb_agree [of a "set_hb_next r (hb_next m a) (set_hb_is_free r True (set_hb_size r rs m))" m] seg
      by (simp_all add: m5_def far)
    have "hseg m (hb_next m a) bs" using seg by simp
    then have "hseg m5 (hb_next m a) bs"
    proof (rule hseg_frame)
      fix b x assume "b \<in> set bs" "x \<in> bx b"
      then have "x \<notin> bx (a, s, f)" using ok by (auto simp: heap_ok_Cons)
      then have "x \<notin> bx (a, sz, f)" "x \<notin> bx (r, rs, True)" using parts(3) by auto
      then show "m5 x = m x" using bx_header by (intro out) blast+
    qed
    moreover have "r \<noteq> 0" using parts(2) by (rule blk_ok_nz)
    ultimately have seg_r: "hseg m5 r ((r, rs, True) # bs)" by (simp add: hdr_r)
    have ok_r: "heap_ok ((a, sz, f) # (r, rs, True) # bs)"
      using ok parts unfolding heap_ok_Cons by auto
    then have ok_r': "heap_ok ((r, rs, True) # bs)" by (simp add: heap_ok_Cons)
    from coalesce_loop [OF seg_r this] obtain m' where
      m': "heap_coalesce_loop m5 r (r + 32 + rs) = Some m'" "hseg m' r (absorb (r, rs, True) bs)"
      "\<forall>x. x \<notin> extent r 24 \<longrightarrow> m' x = m5 x" by blast
    have res: "heap_block_split a sz m = Some m'"
      using False m'(1) seg hdr_r hb_agree [of a "set_hb_is_free r True (set_hb_size r rs m)" m]
      by (simp add: heap_block_split_def guard [unfolded HEAP_HEADER_SIZE_eq] Let_def
          heap_block_coalesce_def HEAP_HEADER_SIZE_eq far r_def [symmetric] rs_def [symmetric] m5_def)
    note ab = absorb_bx [OF ok_r']
    have spl: "split_l (a, s, f) sz bs = (a, sz, f) # absorb (r, rs, True) bs"
      using False by (simp add: split_l_def r_def rs_def)
    have "hseg m' a (split_l (a, s, f) sz bs)"
      using m'(2,3) hdr_a seg hb_agree [of a m' m5] far by (simp add: spl)
    moreover have "heap_ok (split_l (a, s, f) sz bs)"
      using ab ok_r unfolding spl heap_ok_Cons by fastforce
    moreover have "\<Union> (bx ` set (split_l (a, s, f) sz bs)) = \<Union> (bx ` set ((a, s, f) # bs))"
      using ab parts(3) [of f True] unfolding spl by auto
    moreover have "m' x = m x" if "x \<notin> bx (a, s, f) \<or> x \<in> extent (a + 32) (unat sz)" for x
    proof -
      have "extent (a + 32) (unat sz) \<subseteq> bx (a, sz, f)" "extent (a + 32) (unat sz) \<inter> extent a 24 = {}"
        using extent_sub [of 32 "unat sz" "32 + unat sz" a] extent_disj [of 32 "unat sz" a]
          extent_mono [of 24 32 a] sz(3) by auto
      then have "x \<notin> extent a 24 \<and> x \<notin> extent r 24"
        using that parts(3,4) bx_header [of a sz f] bx_header [of r rs True] by blast
      then show ?thesis using m'(3) out by simp
    qed
    ultimately show ?thesis using res by blast
  qed
qed

section \<open>The heap invariant\<close>

text \<open>\<open>used bs\<close> are the payloads in use, with their sizes.\<close>

definition used :: "hblock list \<Rightarrow> (u64 \<times> u64) set" where
  "used bs = {(a + 32, s) | a s. (a, s, False) \<in> set bs}"

lemma used_simps [simp]:
  "used [] = {}" "used ((a, s, f) # bs) = (if f then used bs else insert (a + 32, s) (used bs))"
  "used (as @ bs) = used as \<union> used bs"
  by (auto simp: used_def)

lemma used_absorb: "used (absorb (a, s, True) bs) = used bs"
  by (induction "(a, s, True)" bs arbitrary: s rule: absorb.induct) auto

lemma used_split: "used (split_l (a, s, True) sz bs) = used bs"
  by (simp add: split_l_def used_absorb)

lemma split_head:
  "sz \<le> n \<Longrightarrow> \<exists>k cs. split_l (a, n, f) sz bs = (a, k, f) # cs \<and> unat sz \<le> unat k"
  by (auto simp: split_l_def word_le_nat_alt)

text \<open>The free physical pages \<open>F\<close> do not meet the blocks.\<close>

definition heap_inv :: "'a heap_state_scheme \<Rightarrow> hblock list \<Rightarrow> u64 set \<Rightarrow> bool" where
  "heap_inv s H F \<longleftrightarrow> pmm_rel s F \<and> hseg (kmem s) (heap_block_list s) H \<and> heap_ok H \<and>
     (\<forall>b \<in> set H. \<forall>x \<in> bx b. \<forall>q \<in> F. \<not> in_page (q + hhdm_offset s) x)"

lemma heap_inv_mem:
  assumes inv: "heap_inv s H F" and seg: "hseg m' (heap_block_list s) H'" and ok: "heap_ok H'"
    and same: "\<Union> (bx ` set H') = \<Union> (bx ` set H)" and frame: "\<And>x. x \<notin> \<Union> (bx ` set H) \<Longrightarrow> m' x = kmem s x"
  shows "heap_inv (s\<lparr>kmem := m'\<rparr>) H' F"
proof -
  have "pmm_rel (s\<lparr>kmem := m'\<rparr>) F"
  proof (rule pmm_rel_mem)
    show "pmm_rel s F" using inv by (simp add: heap_inv_def)
    fix q x assume "q \<in> F" "in_page q x"
    then have "x + hhdm_offset s \<notin> \<Union> (bx ` set H)"
      using inv in_page_shift [of q "hhdm_offset s" x] unfolding heap_inv_def by blast
    then show "m' (x + hhdm_offset s) = phys_byte s x" using frame by (simp add: phys_byte_def)
  qed
  moreover have "\<forall>b \<in> set H'. \<forall>x \<in> bx b. \<forall>q \<in> F. \<not> in_page (q + hhdm_offset s) x"
    using inv same unfolding heap_inv_def by blast
  ultimately show ?thesis using seg ok by (simp add: heap_inv_def)
qed

lemma hseg_suffix: "hseg m p (as @ (a, s, f) # bs) \<Longrightarrow> hseg m a ((a, s, f) # bs)"
proof (induction as arbitrary: p)
  case (Cons b as)
  then show ?case using Cons.IH [of "hb_next m (fst b)"] by (cases b) simp
qed simp

lemma heap_ok_suffix: "heap_ok (as @ bs) \<Longrightarrow> heap_ok bs"
  by (simp add: heap_ok_append)

lemma hseg_replace_at:
  assumes "hseg m p (as @ (a, s, f) # bs)" "heap_ok (as @ (a, s, f) # bs)"
    and "hseg m' a cs" "\<And>x. x \<notin> \<Union> (bx ` set ((a, s, f) # bs)) \<Longrightarrow> m' x = m x"
  shows "hseg m' p (as @ cs)"
  by (rule hseg_replace [OF assms(1,2,4)]) (use assms(3) in auto)

lemma heap_ok_replace:
  assumes "heap_ok (as @ bs)" "heap_ok cs" "\<Union> (bx ` set cs) = \<Union> (bx ` set bs)"
  shows "heap_ok (as @ cs)" "\<Union> (bx ` set (as @ cs)) = \<Union> (bx ` set (as @ bs))"
  using assms by (fastforce simp: heap_ok_append, simp)

text \<open>Changing a flag.\<close>

lemma hseg_set_free:
  assumes "hseg m a ((a, s, f) # bs)" "heap_ok ((a, s, f) # bs)"
  shows "hseg (set_hb_is_free a g m) a ((a, s, g) # bs)"
proof -
  have "hseg (set_hb_is_free a g m) (hb_next m a) bs"
  proof (rule hseg_frame)
    show "hseg m (hb_next m a) bs" using assms by simp
    fix b x assume "b \<in> set bs" "x \<in> bx b"
    then have "x \<notin> extent a 24" using assms(2) bx_header [of a s f] by (auto simp: heap_ok_Cons)
    then show "set_hb_is_free a g m x = m x" by simp
  qed
  then show ?thesis using assms by simp
qed

lemma heap_ok_set_free: "heap_ok ((a, s, f) # bs) \<longleftrightarrow> heap_ok ((a, s, g) # bs)"
  by (simp add: heap_ok_Cons)

text \<open>Taking a free block of the list for a request of \<open>sz\<close> bytes.\<close>

lemma kmalloc_take:
  assumes inv: "heap_inv s (as @ (a, n, True) # bs) F" and sz: "16 dvd unat sz" "16 \<le> unat sz" "unat sz + 48 < 2 ^ 64"
    and fits: "sz \<le> n"
  shows "\<exists>s' H' k. kmalloc_take a sz s = Some (a + 32, s') \<and> heap_inv s' H' F \<and>
    used H' = insert (a + 32, k) (used (as @ (a, n, True) # bs)) \<and> unat sz \<le> unat k \<and>
    (\<forall>x. x \<notin> bx (a, n, True) \<longrightarrow> kmem s' x = kmem s x)"
proof -
  let ?b = "(a, n, True)" and ?m = "kmem s"
  have seg: "hseg ?m (heap_block_list s) (as @ ?b # bs)" and ok: "heap_ok (as @ ?b # bs)"
    using inv by (auto simp: heap_inv_def)
  from heap_split [OF hseg_suffix [OF seg] heap_ok_suffix [OF ok] sz] obtain m' where
    m': "heap_block_split a sz ?m = Some m'" "hseg m' a (split_l ?b sz bs)" "heap_ok (split_l ?b sz bs)"
    "\<Union> (bx ` set (split_l ?b sz bs)) = \<Union> (bx ` set (?b # bs))"
    "\<forall>x. x \<notin> bx ?b \<or> x \<in> extent (a + 32) (unat sz) \<longrightarrow> m' x = ?m x" by blast
  obtain k cs where spl: "split_l ?b sz bs = (a, k, True) # cs" "unat sz \<le> unat k"
    using split_head [OF fits] by blast
  define m2 where "m2 = set_hb_is_free a False m'"
  have out: "m2 x = ?m x" if "x \<notin> bx ?b" for x
  proof -
    have "x \<notin> extent a 24" using that bx_header [of a n True] by blast
    then show ?thesis using that m'(5) by (simp add: m2_def)
  qed
  have cs: "hseg m2 a ((a, k, False) # cs)" "heap_ok ((a, k, False) # cs)"
    "\<Union> (bx ` set ((a, k, False) # cs)) = \<Union> (bx ` set (?b # bs))"
    using m'(2-4) hseg_set_free [of m' a k True cs False] heap_ok_set_free [of a k True cs False]
    by (simp_all add: spl m2_def)
  have "hseg m2 (heap_block_list s) (as @ (a, k, False) # cs)"
    by (rule hseg_replace_at [OF seg ok cs(1)]) (simp add: out)
  then have "heap_inv (s\<lparr>kmem := m2\<rparr>) (as @ (a, k, False) # cs) F"
    using heap_ok_replace [OF ok cs(2,3)] by (intro heap_inv_mem [OF inv]) (auto simp: out)
  moreover have "used cs = used bs" using used_split [of a n sz bs] spl by simp
  ultimately show ?thesis using m'(1) spl(2) out
    by (intro exI [of _ "s\<lparr>kmem := m2\<rparr>"] exI [of _ "as @ (a, k, False) # cs"] exI [of _ k])
      (simp add: kmalloc_take_def HEAP_HEADER_SIZE_eq m2_def)
qed

end
