(* ===== verification/Kheap_Alloc.thy ===== *)
theory Kheap_Alloc
  imports Kheap
begin

text \<open>
  The effect of \<open>kmalloc\<close>, \<open>kfree\<close> and \<open>krealloc\<close> of \<^verbatim>\<open>kernel/src/mm/heap.c\<close> on the block
  list: which payloads are in use afterwards, and which bytes keep their value.
\<close>

section \<open>Allocation\<close>

lemma heap_search_spec:
  "hseg m p H \<Longrightarrow> \<exists>r. heap_search m p sz = Some r \<and>
    (r \<noteq> 0 \<longrightarrow> (\<exists>as n bs. H = as @ (r, n, True) # bs \<and> sz \<le> n))"
proof (induction H arbitrary: p)
  case Nil
  then show ?case by (subst heap_search.simps) simp
next
  case (Cons b H)
  obtain a n f where b: "b = (a, n, f)" by (cases b)
  show ?case
  proof (cases "f \<and> sz \<le> n")
    case True
    then show ?thesis using Cons.prems
      by (subst heap_search.simps) (auto simp: b intro!: exI [of _ "[]"])
  next
    case False
    have "hseg m (hb_next m a) H" using Cons.prems by (simp add: b)
    from Cons.IH [OF this] obtain r where r: "heap_search m (hb_next m a) sz = Some r"
      "r \<noteq> 0 \<longrightarrow> (\<exists>as n bs. H = as @ (r, n, True) # bs \<and> sz \<le> n)" by blast
    moreover have "heap_search m p sz = heap_search m (hb_next m a) sz"
      using Cons.prems False by (subst heap_search.simps) (auto simp: b)
    ultimately show ?thesis by (metis append_Cons)
  qed
qed

lemma page_block_cover:
  assumes "x \<in> extent r (n * 4096)" "n \<le> 2 ^ 52"
  shows "\<exists>q \<in> page_block r n. in_page q x"
proof -
  define d where "d = unat (x - r)"
  have d: "d < n * 4096" using assms(1) by (simp add: d_def extent_def)
  then have i: "d div 4096 < n" by (simp add: less_mult_imp_div_less)
  have lt: "d div 4096 * 4096 < 2 ^ 64" using unat_lt_u64 [of "x - r"] by (simp add: d_def)
  have "unat (x - (r + of_nat (d div 4096 * 4096))) = d - d div 4096 * 4096"
    using unat_shift [OF lt, of x r] by (simp add: d_def)
  also have "\<dots> < 4096" by (simp add: minus_div_mult_eq_mod)
  finally have "in_page (r + of_nat (d div 4096) * PAGE_SIZE) x" by (simp add: in_page_def PAGE_SIZE_def)
  then show ?thesis using i by (auto simp: page_block_def)
qed

text \<open>The rounded request, and the number of pages for it.\<close>

definition heap_request :: "u64 \<Rightarrow> u64" where
  "heap_request req = (let sz0 = HEAP_ALIGN_UP req HEAP_ALIGNMENT in if sz0 = 0 then HEAP_ALIGNMENT else sz0)"

lemma unat_heap_align:
  assumes "unat x + 15 < 2 ^ 64"
  shows "unat (HEAP_ALIGN_UP x HEAP_ALIGNMENT) = unat x + 15 - (unat x + 15) mod 16"
proof -
  have "unat (x + 15) = unat x + 15" using assms unat_add_u64 [of x 15] by simp
  then show ?thesis
    using unat_and_not_mask [of "x + 15" 4]
    by (simp add: HEAP_ALIGN_UP_def HEAP_ALIGNMENT_def mask_eq_exp_minus_1 algebra_simps)
qed

lemma heap_align_bounds:
  assumes "unat x + 15 < 2 ^ 64"
  defines "sz \<equiv> HEAP_ALIGN_UP x HEAP_ALIGNMENT"
  shows "16 dvd unat sz" "unat x \<le> unat sz" "unat sz \<le> unat x + 15"
  unfolding sz_def unat_heap_align [OF assms(1)]
  by (simp add: dvd_minus_mod, simp_all add: minus_mod_eq_div_mult)

lemma heap_request_bounds:
  assumes "\<not> req > SIZE_MAX - HEAP_HEADER_SIZE - PAGE_SIZE - HEAP_ALIGNMENT"
  shows "16 dvd unat (heap_request req)" "16 \<le> unat (heap_request req)" "unat req \<le> unat (heap_request req)"
    "unat (heap_request req) + 32 + 4096 \<le> 2 ^ 64 - 2"
proof -
  have "unat req \<le> 2 ^ 64 - 1 - 32 - 4096 - 16"
    using assms by (simp add: SIZE_MAX_def HEAP_HEADER_SIZE_eq PAGE_SIZE_def HEAP_ALIGNMENT_def word_less_nat_alt)
  then have b: "unat req + 15 < 2 ^ 64" "unat req + 32 + 4096 + 15 \<le> 2 ^ 64 - 2" by simp_all
  note al = heap_align_bounds [OF b(1)]
  have z: "unat (HEAP_ALIGN_UP req HEAP_ALIGNMENT) = 0 \<longleftrightarrow> HEAP_ALIGN_UP req HEAP_ALIGNMENT = 0"
    by (simp add: unat_eq_0)
  have "16 \<le> unat (HEAP_ALIGN_UP req HEAP_ALIGNMENT)" if "HEAP_ALIGN_UP req HEAP_ALIGNMENT \<noteq> 0"
    using al(1) that z by (auto dest: dvd_imp_le)
  then show "16 dvd unat (heap_request req)" "16 \<le> unat (heap_request req)" "unat req \<le> unat (heap_request req)"
    "unat (heap_request req) + 32 + 4096 \<le> 2 ^ 64 - 2"
    using al b by (auto simp: heap_request_def Let_def HEAP_ALIGNMENT_def)
qed

definition heap_pages :: "u64 \<Rightarrow> u64" where
  "heap_pages sz = (HEAP_HEADER_SIZE + sz + PAGE_SIZE - 1) div PAGE_SIZE"

lemma heap_pages_bounds:
  assumes "unat sz + 32 + 4096 \<le> 2 ^ 64 - 2"
  shows "unat (heap_pages sz * PAGE_SIZE) = unat (heap_pages sz) * 4096"
    "32 + unat sz \<le> unat (heap_pages sz) * 4096" "unat (heap_pages sz) * 4096 + 4096 \<le> 2 ^ 64"
    "unat (heap_pages sz * PAGE_SIZE - HEAP_HEADER_SIZE) = unat (heap_pages sz) * 4096 - 32"
proof -
  have "heap_pages sz = (sz + 4127) div 4096" by (simp add: heap_pages_def HEAP_HEADER_SIZE_eq PAGE_SIZE_def add.commute)
  moreover have "unat (sz + 4127) = unat sz + 4127" using assms unat_add_u64 [of sz 4127] by simp
  ultimately have p: "unat (heap_pages sz) = (unat sz + 4127) div 4096"
    by (simp add: unat_div)
  then have eq: "unat (heap_pages sz) * 4096 = unat sz + 4127 - (unat sz + 4127) mod 4096"
    by (simp add: minus_mod_eq_div_mult)
  have "(unat sz + 4127) mod 4096 \<le> 4095" using mod_less_divisor [of 4096 "unat sz + 4127"] by linarith
  then show lo: "32 + unat sz \<le> unat (heap_pages sz) * 4096" using eq by linarith
  have "unat (heap_pages sz) * 4096 \<le> 2 ^ 64 - 3" using eq assms by simp
  then have "\<not> 2 ^ 52 \<le> unat (heap_pages sz)" by auto
  then show "unat (heap_pages sz) * 4096 + 4096 \<le> 2 ^ 64" by simp
  then show m: "unat (heap_pages sz * PAGE_SIZE) = unat (heap_pages sz) * 4096"
    by (simp add: unat_word_ariths PAGE_SIZE_def)
  show "unat (heap_pages sz * PAGE_SIZE - HEAP_HEADER_SIZE) = unat (heap_pages sz) * 4096 - 32"
    using lo m by (simp add: unat_diff_u64 HEAP_HEADER_SIZE_eq)
qed

lemma pmm_state_more:
  fixes s :: "'a heap_state_scheme"
  assumes "s' = s\<lparr>kmem := m, free_list_head := h\<rparr>"
  shows "heap_block_list s' = heap_block_list s" "hhdm_offset s' = hhdm_offset s"
  using assms by simp_all

lemma page_ok_far:
  assumes "pmm_page_ok s q" "in_page (q + hhdm_offset s) x"
  shows "x \<notin> extent 0 4096"
proof
  assume "x \<in> extent 0 4096"
  then have "q + hhdm_offset s = 0"
    using assms by (intro in_page_unique [of _ 0 x]) (auto simp: pmm_page_ok_def pmm_node_ok_def in_page_extent)
  then show False using assms(1) by (simp add: pmm_page_ok_def pmm_node_ok_def)
qed

lemma page_cover_off:
  assumes "x \<in> extent (r + off) (n * 4096)" "n \<le> 2 ^ 52"
  shows "\<exists>q \<in> page_block r n. in_page (q + off) x"
proof -
  have "x - off \<in> extent r (n * 4096)" using assms(1) by (simp add: extent_def algebra_simps)
  then obtain q where "q \<in> page_block r n" "in_page q (x - off)" using page_block_cover assms(2) by blast
  then show ?thesis using in_page_shift [of q off "x - off"] by auto
qed

lemma heap_grow:
  assumes inv: "heap_inv s H F" and n: "unat n * 4096 + 4096 \<le> 2 ^ 64"
    and alloc: "pmm_alloc n s = Some (r, s1)" "r \<noteq> 0"
    and sz: "unat sz = unat n * 4096 - 32" "0 < unat n"
  defines "b \<equiv> pmm_phys_to_virt s1 r"
  defines "m3 \<equiv> set_hb_next b (heap_block_list s1) (set_hb_is_free b True (set_hb_size b sz (kmem s1)))"
  shows "heap_inv (s1\<lparr>kmem := m3, heap_block_list := b\<rparr>) ((b, sz, True) # H) (F - page_block r (unat n))"
    "\<And>x. x \<in> \<Union> (bx ` set H) \<Longrightarrow> m3 x = kmem s x" "b \<noteq> 0" "\<forall>c \<in> set H. bx (b, sz, True) \<inter> bx c = {}"
proof -
  let ?off = "hhdm_offset s" and ?B = "page_block r (unat n)"
  have rel: "pmm_rel s F" using inv by (simp add: heap_inv_def)
  obtain m h where a: "?B \<subseteq> F" "pmm_rel s1 (F - ?B)" "s1 = s\<lparr>kmem := m, free_list_head := h\<rparr>"
    "\<forall>x. (\<forall>q \<in> F - ?B. \<not> in_page q x) \<longrightarrow> phys_byte s1 x = phys_byte s x"
    using pmm_alloc_rel [OF rel, of n] alloc by auto
  have b: "b = r + ?off" by (simp add: b_def pmm_phys_to_virt_def hhdm_get_offset_def a(3))
  have bxb: "bx (b, sz, True) = extent b (unat n * 4096)" using sz by simp
  have cover: "\<exists>q \<in> ?B. in_page (q + ?off) x" if "x \<in> bx (b, sz, True)" for x
    using that n page_cover_off [of x r ?off "unat n"] bxb by (simp add: b)
  have old: "x \<notin> bx (b, sz, True)" "\<forall>q \<in> F. \<not> in_page (q + ?off) x" if "x \<in> \<Union> (bx ` set H)" for x
    using that cover a(1) inv unfolding heap_inv_def by blast+
  show disj: "\<forall>c \<in> set H. bx (b, sz, True) \<inter> bx c = {}" using old(1) by blast
  have out: "m3 x = kmem s1 x" if "x \<notin> bx (b, sz, True)" for x
    using bx_out [OF that] by (simp add: m3_def)
  have m1: "kmem s1 x = kmem s x" if "x \<in> \<Union> (bx ` set H)" for x
    using a(4) [rule_format, of "x - ?off"] old(2) [OF that] in_page_shift [of _ ?off "x - ?off"]
    by (auto simp: phys_byte_def a(3))
  show keep: "\<And>x. x \<in> \<Union> (bx ` set H) \<Longrightarrow> m3 x = kmem s x" using out m1 old(1) by auto
  have okB: "pmm_page_ok s q" if "q \<in> ?B" for q using that a(1) pmm_rel_ok [OF rel] by blast
  have low: "bx (b, sz, True) \<inter> extent 0 4096 = {}" using cover okB page_ok_far [of s] by blast
  have "r \<in> ?B" using sz(2) by (cases "unat n") (auto simp: page_block_Suc)
  then have al: "page_aligned b" using okB by (simp add: b pmm_page_ok_def pmm_node_ok_def)
  then have "16 dvd unat b" unfolding page_aligned_def by (rule dvd_trans [rotated]) simp
  moreover have "16 dvd unat sz" unfolding sz by (rule dvd_diff_nat) simp_all
  ultimately have okb: "blk_ok (b, sz, True)" using low n sz by simp
  show nz: "b \<noteq> 0" using okb by (rule blk_ok_nz)
  have "hseg m3 (heap_block_list s) H"
  proof (rule hseg_frame)
    show "hseg (kmem s) (heap_block_list s) H" using inv by (simp add: heap_inv_def)
    show "m3 x = kmem s x" if "c \<in> set H" "x \<in> bx c" for c x using keep that by blast
  qed
  then have seg: "hseg m3 b ((b, sz, True) # H)" using nz by (simp add: m3_def a(3))
  have ok: "heap_ok ((b, sz, True) # H)" using inv okb disj unfolding heap_inv_def heap_ok_Cons by blast
  have apart: "\<not> in_page (q + ?off) x" if "c \<in> set ((b, sz, True) # H)" "x \<in> bx c" "q \<in> F - ?B" for c x q
  proof (cases "c = (b, sz, True)")
    case True
    then obtain q' where q': "q' \<in> ?B" "in_page (q' + ?off) x" using cover \<open>x \<in> bx c\<close> by blast
    moreover have "pmm_page_ok s q" "pmm_page_ok s q'" using that q' okB pmm_rel_ok [OF rel] by auto
    ultimately show ?thesis using that(3) in_page_unique [of "q + ?off" "q' + ?off" x]
      by (auto simp: pmm_page_ok_def pmm_node_ok_def)
  next
    case False
    then show ?thesis using that inv by (auto simp: heap_inv_def)
  qed
  have "pmm_rel (s1\<lparr>kmem := m3\<rparr>) (F - ?B)"
  proof (rule pmm_rel_mem [OF a(2)])
    fix q x assume q: "q \<in> F - ?B" "in_page q x"
    then have "x + ?off \<notin> bx (b, sz, True)"
      using apart [of "(b, sz, True)" "x + ?off" q] in_page_shift [of q ?off x] by auto
    then show "m3 (x + hhdm_offset s1) = phys_byte s1 x" using out by (simp add: phys_byte_def a(3))
  qed
  then have "pmm_rel (s1\<lparr>kmem := m3, heap_block_list := b\<rparr>) (F - ?B)"
    by (simp add: pmm_rel_def pmm_inv_def)
  then show "heap_inv (s1\<lparr>kmem := m3, heap_block_list := b\<rparr>) ((b, sz, True) # H) (F - ?B)"
    using seg ok apart by (simp only: heap_inv_def) (simp add: a(3))
qed

lemma used_payload:
  assumes "(p, n) \<in> used H" "heap_ok H"
  obtains a where "(a, n, False) \<in> set H" "p = a + 32" "extent p (unat n) \<subseteq> bx (a, n, False)"
proof -
  obtain a where a: "(a, n, False) \<in> set H" "p = a + 32" using assms(1) by (auto simp: used_def)
  then have "blk_ok (a, n, False)" using assms(2) unfolding heap_ok_def by blast
  then have "extent p (unat n) \<subseteq> bx (a, n, False)"
    using extent_sub [of 32 "unat n" "32 + unat n" a] a(2) by simp
  then show ?thesis using a that by blast
qed

lemma heap_ok_distinct:
  assumes "heap_ok H" "b \<in> set H" "c \<in> set H" "b \<noteq> c"
  shows "bx b \<inter> bx c = {}"
proof -
  obtain i j where ij: "i < length H" "H ! i = b" "j < length H" "H ! j = c" "i \<noteq> j"
    using assms(2-4) by (auto simp: in_set_conv_nth)
  have w: "\<And>i j. i < j \<Longrightarrow> j < length H \<Longrightarrow> bx (H ! i) \<inter> bx (H ! j) = {}"
    using assms(1) by (simp add: heap_ok_def sorted_wrt_iff_nth_less)
  show ?thesis using w [of i j] w [of j i] ij by (cases "i < j") auto
qed

text \<open>What one allocation does, seen by the clients.\<close>

definition alloc_effect ::
  "'a heap_state_scheme \<Rightarrow> hblock list \<Rightarrow> u64 set \<Rightarrow> u64 \<Rightarrow> u64 \<Rightarrow> 'a heap_state_scheme \<Rightarrow> bool" where
  "alloc_effect s H F p req s' \<longleftrightarrow> (\<exists>H' F' k. heap_inv s' H' F' \<and> F' \<subseteq> F \<and>
     used H' = insert (p, k) (used H) \<and> (p, k) \<notin> used H \<and> unat req \<le> unat k \<and> 16 dvd unat p \<and>
     (\<forall>(q, n) \<in> used H. extent p (unat k) \<inter> extent q (unat n) = {} \<and>
        (\<forall>x \<in> extent q (unat n). kmem s' x = kmem s x)))"

lemma kmalloc_take_effect:
  assumes inv: "heap_inv s1 (as @ (a, n, True) # bs) F1" and sz: "16 dvd unat sz" "16 \<le> unat sz" "unat sz + 48 < 2 ^ 64"
    and fits: "sz \<le> n" and req: "unat req \<le> unat sz"
    and F: "F1 \<subseteq> F" and us: "used (as @ (a, n, True) # bs) = used H"
    and keep: "\<And>q k x. (q, k) \<in> used H \<Longrightarrow> x \<in> extent q (unat k) \<Longrightarrow> kmem s1 x = kmem s x"
  shows "\<exists>s'. kmalloc_take a sz s1 = Some (a + 32, s') \<and> alloc_effect s H F (a + 32) req s'"
proof -
  let ?G = "as @ (a, n, True) # bs"
  from kmalloc_take [OF inv sz fits] obtain s' H' k where t: "kmalloc_take a sz s1 = Some (a + 32, s')"
    "heap_inv s' H' F1" "used H' = insert (a + 32, k) (used ?G)" "unat sz \<le> unat k"
    "\<forall>x. x \<notin> bx (a, n, True) \<longrightarrow> kmem s' x = kmem s1 x" by blast
  have ok: "heap_ok ?G" "heap_ok H'" using inv t(2) by (auto simp: heap_inv_def)
  have blk: "blk_ok (a, n, True)" using ok(1) by (simp add: heap_ok_append heap_ok_Cons)
  have old: "extent q (unat j) \<inter> bx (a, n, True) = {}" "q \<noteq> a + 32" if used: "(q, j) \<in> used ?G" for q j
  proof -
    obtain c where c: "(c, j, False) \<in> set ?G" "q = c + 32" "extent q (unat j) \<subseteq> bx (c, j, False)"
      using used_payload [OF used ok(1)] .
    have dis: "bx (c, j, False) \<inter> bx (a, n, True) = {}"
      using c(1) by (intro heap_ok_distinct [OF ok(1)]) auto
    then show "extent q (unat j) \<inter> bx (a, n, True) = {}" using c(3) by blast
    have "a \<in> bx (a, n, True)" "c \<in> bx (c, j, False)" by simp_all
    then have "c \<noteq> a" using dis by blast
    then show "q \<noteq> a + 32" using c(2) by simp
  qed
  have "16 dvd unat (a + 32)" using blk by (intro dvd16_add) auto
  moreover have "extent (a + 32) (unat k) \<inter> extent q (unat j) = {}" if u: "(q, j) \<in> used ?G" for q j
  proof -
    obtain c where c: "(c, j, False) \<in> set H'" "q = c + 32" "extent q (unat j) \<subseteq> bx (c, j, False)"
      using used_payload [of q j H'] ok(2) u t(3) by blast
    obtain d where d: "(d, k, False) \<in> set H'" "a + 32 = d + 32" "extent (a + 32) (unat k) \<subseteq> bx (d, k, False)"
      using used_payload [of "a + 32" k H'] ok(2) t(3) by blast
    have "bx (d, k, False) \<inter> bx (c, j, False) = {}"
      using c d old(2) [OF u] by (intro heap_ok_distinct [OF ok(2)]) auto
    then show ?thesis using c d by blast
  qed
  moreover have "kmem s' x = kmem s x" if "(q, j) \<in> used ?G" "x \<in> extent q (unat j)" for q j x
  proof -
    have "kmem s' x = kmem s1 x" using old(1) [OF that(1)] that(2) t(5) by blast
    moreover have "(q, j) \<in> used H" using that us by blast
    ultimately show ?thesis using keep that(2) by metis
  qed
  moreover have "(a + 32, k) \<notin> used ?G" using old(2) by blast
  ultimately have "alloc_effect s H F (a + 32) req s'"
    unfolding alloc_effect_def us [symmetric] using t(2-4) F req
    by (intro exI [of _ H'] exI [of _ F1] exI [of _ k]) (auto simp del: used_simps)
  then show ?thesis using t(1) by blast
qed

lemma kmalloc_eq:
  assumes "\<not> req > SIZE_MAX - HEAP_HEADER_SIZE - PAGE_SIZE - HEAP_ALIGNMENT"
    and "heap_search (kmem s) (heap_block_list s) (heap_request req) = Some found"
  shows "kmalloc req s = (let sz = heap_request req in if found \<noteq> 0 then kmalloc_take found sz s
    else Option.bind (pmm_alloc (heap_pages sz) s) (\<lambda>(phys_addr, s1). if phys_addr = 0 then Some (0, s1)
      else let block = pmm_phys_to_virt s1 phys_addr;
               m3 = set_hb_next block (heap_block_list s1) (set_hb_is_free block True
                 (set_hb_size block (heap_pages sz * PAGE_SIZE - HEAP_HEADER_SIZE) (kmem s1)))
           in kmalloc_take block sz (s1\<lparr>kmem := m3, heap_block_list := block\<rparr>)))"
  using assms unfolding kmalloc_def heap_request_def heap_pages_def Let_def by simp

lemma kmalloc_grow_effect:
  assumes inv: "heap_inv s H F" and alloc: "pmm_alloc (heap_pages sz) s = Some (r, s1)" "r \<noteq> 0"
    and sz: "16 dvd unat sz" "16 \<le> unat sz" "unat sz + 32 + 4096 \<le> 2 ^ 64 - 2" and req: "unat req \<le> unat sz"
  defines "n \<equiv> heap_pages sz * PAGE_SIZE - HEAP_HEADER_SIZE"
  defines "b \<equiv> pmm_phys_to_virt s1 r"
  defines "m3 \<equiv> set_hb_next b (heap_block_list s1) (set_hb_is_free b True (set_hb_size b n (kmem s1)))"
  shows "\<exists>s'. kmalloc_take b sz (s1\<lparr>kmem := m3, heap_block_list := b\<rparr>) = Some (b + 32, s') \<and>
    alloc_effect s H F (b + 32) req s' \<and> b + 32 \<noteq> 0"
proof -
  note pg = heap_pages_bounds [OF sz(3), folded n_def]
  have pos: "0 < unat (heap_pages sz)" using pg(2) by (cases "unat (heap_pages sz)") auto
  note gr = heap_grow [OF inv pg(3) alloc pg(4) pos, folded b_def, folded m3_def]
  have fits: "sz \<le> n" using pg(2,4) by (simp add: word_le_nat_alt)
  have ok: "heap_ok H" using inv by (simp add: heap_inv_def)
  have keep: "m3 x = kmem s x" if used: "(q, k) \<in> used H" and x: "x \<in> extent q (unat k)" for q k x
  proof -
    obtain a where "(a, k, False) \<in> set H" "x \<in> bx (a, k, False)" using used_payload [OF used ok] x by blast
    then show ?thesis by (intro gr(2)) blast
  qed
  have "heap_inv (s1\<lparr>kmem := m3, heap_block_list := b\<rparr>) ([] @ (b, n, True) # H) (F - page_block r (unat (heap_pages sz)))"
    using gr(1) by simp
  from kmalloc_take_effect [OF this sz(1,2) _ fits req, where F = F and H = H and s = s] keep sz(3)
  obtain s' where "kmalloc_take b sz (s1\<lparr>kmem := m3, heap_block_list := b\<rparr>) = Some (b + 32, s')"
    "alloc_effect s H F (b + 32) req s'" by auto
  moreover have "b + 32 \<noteq> 0" using gr(1) payload_nz [of b n True] by (simp add: heap_inv_def heap_ok_Cons)
  ultimately show ?thesis by blast
qed

lemma kmalloc_effect:
  assumes inv: "heap_inv s H F"
  shows "\<exists>p s'. kmalloc req s = Some (p, s') \<and> (p = 0 \<longrightarrow> s' = s) \<and>
    (p \<noteq> 0 \<longrightarrow> alloc_effect s H F p req s')"
proof (cases "req > SIZE_MAX - HEAP_HEADER_SIZE - PAGE_SIZE - HEAP_ALIGNMENT")
  case True
  then show ?thesis by (simp add: kmalloc_def)
next
  case False
  define sz where "sz = heap_request req"
  note bd = heap_request_bounds [OF False, folded sz_def]
  have sz48: "unat sz + 48 < 2 ^ 64" using bd(4) by simp
  obtain found where found: "heap_search (kmem s) (heap_block_list s) sz = Some found"
    "found \<noteq> 0 \<longrightarrow> (\<exists>as n bs. H = as @ (found, n, True) # bs \<and> sz \<le> n)"
    using heap_search_spec inv unfolding heap_inv_def by blast
  note unf = kmalloc_eq [OF False found(1) [unfolded sz_def], folded sz_def]
  show ?thesis
  proof (cases "found = 0")
    case False
    then obtain as n bs where H: "H = as @ (found, n, True) # bs" "sz \<le> n" using found(2) by blast
    obtain s' where "kmalloc_take found sz s = Some (found + 32, s')" "alloc_effect s H F (found + 32) req s'"
      using kmalloc_take_effect [OF inv [unfolded H(1)] bd(1,2) sz48 H(2) bd(3) subset_refl refl, of s] H(1)
      by auto
    moreover have "found + 32 \<noteq> 0"
      using inv H payload_nz [of found n True] by (simp add: heap_inv_def heap_ok_append heap_ok_Cons)
    ultimately show ?thesis using False by (simp add: unf)
  next
    case True
    obtain r s1 where a: "pmm_alloc (heap_pages sz) s = Some (r, s1)" "r = 0 \<longrightarrow> s1 = s"
      using pmm_alloc_rel [of s F "heap_pages sz"] inv by (auto simp: heap_inv_def)
    show ?thesis
    proof (cases "r = 0")
      case False
      from kmalloc_grow_effect [OF inv a(1) False bd(1,2,4,3)] show ?thesis
        using True False a(1) by (auto simp: unf Let_def)
    qed (use True a in \<open>simp add: unf\<close>)
  qed
qed

section \<open>Release\<close>

lemma absorb_head:
  "heap_ok ((a, n, f) # bs) \<Longrightarrow> \<exists>n' cs. absorb (a, n, f) bs = (a, n', f) # cs \<and> unat n \<le> unat n' \<and> used cs = used bs"
proof (induction "(a, n, f)" bs arbitrary: n rule: absorb.induct)
  case (2 s a' s' f' bs)
  show ?case
  proof (cases "f' \<and> a + 32 + s = a'")
    case True
    have *: "blk_ok (a, s, f)" "blk_ok (a + 32 + s, s', f')" "bx (a, s, f) \<inter> bx (a + 32 + s, s', f') = {}"
      using 2(2) True by (auto simp: heap_ok_Cons)
    note sz = absorb_size(1) [OF *] absorb_size(2,3) [OF *, of f]
    have "heap_ok ((a, s + (32 + s'), f) # bs)"
      using 2(2) True unfolding heap_ok_Cons by (simp only: sz Int_Un_distrib2) auto
    from 2(1) [OF True this] show ?thesis using True sz(1) by auto
  next
    case False
    then have "absorb (a, s, f) ((a', s', f') # bs) = (a, s, f) # (a', s', f') # bs" by auto
    then show ?thesis by simp
  qed
qed simp

text \<open>Coalescing a block of the list in place.\<close>

lemma coalesce_at:
  assumes inv: "heap_inv s (as @ (a, n, f) # bs) F"
  shows "\<exists>m' n' cs. heap_block_coalesce a (kmem s) = Some m' \<and>
    heap_inv (s\<lparr>kmem := m'\<rparr>) (as @ (a, n', f) # cs) F \<and> unat n \<le> unat n' \<and> used cs = used bs \<and>
    hb_size m' a = n' \<and> (\<forall>x. x \<notin> extent a 24 \<longrightarrow> m' x = kmem s x)"
proof -
  let ?b = "(a, n, f)" and ?m = "kmem s"
  have seg: "hseg ?m (heap_block_list s) (as @ ?b # bs)" and ok: "heap_ok (as @ ?b # bs)"
    using inv by (auto simp: heap_inv_def)
  note seg' = hseg_suffix [OF seg] and ok' = heap_ok_suffix [OF ok]
  from coalesce_loop [OF seg' ok'] obtain m' where
    m': "heap_coalesce_loop ?m a (a + 32 + n) = Some m'" "hseg m' a (absorb ?b bs)"
    "\<forall>x. x \<notin> extent a 24 \<longrightarrow> m' x = ?m x" by blast
  obtain n' cs where hd: "absorb ?b bs = (a, n', f) # cs" "unat n \<le> unat n'" "used cs = used bs"
    using absorb_head [OF ok'] by blast
  note ab = absorb_bx [OF ok', unfolded hd(1)]
  have out: "m' x = ?m x" if "x \<notin> \<Union> (bx ` set (?b # bs))" for x
  proof -
    have "x \<notin> bx ?b" using that by simp
    then show ?thesis using bx_out m'(3) by blast
  qed
  have "hseg m' (heap_block_list s) (as @ (a, n', f) # cs)"
    using m'(2) hd(1) out by (intro hseg_replace_at [OF seg ok]) auto
  then have "heap_inv (s\<lparr>kmem := m'\<rparr>) (as @ (a, n', f) # cs) F"
    using heap_ok_replace [OF ok, of "(a, n', f) # cs"] ab out
    by (intro heap_inv_mem [OF inv]) auto
  moreover have "heap_block_coalesce a ?m = Some m'"
    using m'(1) seg' by (simp add: heap_block_coalesce_def HEAP_HEADER_SIZE_eq)
  moreover have "hb_size m' a = n'" using m'(2) hd(1) by simp
  ultimately show ?thesis using hd m'(3) by blast
qed

text \<open>Changing only the free flag of one block.\<close>

lemma set_free_at:
  assumes inv: "heap_inv s (as @ (a, n, f) # bs) F"
  shows "heap_inv (s\<lparr>kmem := set_hb_is_free a g (kmem s)\<rparr>) (as @ (a, n, g) # bs) F"
proof -
  let ?b = "(a, n, f)" and ?m = "kmem s" and ?m' = "set_hb_is_free a g (kmem s)"
  have seg: "hseg ?m (heap_block_list s) (as @ ?b # bs)" and ok: "heap_ok (as @ ?b # bs)"
    using inv by (auto simp: heap_inv_def)
  have out: "?m' x = ?m x" if "x \<notin> \<Union> (bx ` set (?b # bs))" for x
  proof -
    have "x \<notin> bx ?b" using that by simp
    then show ?thesis using bx_out [of x a n f] by simp
  qed
  have "hseg ?m' (heap_block_list s) (as @ (a, n, g) # bs)"
    using hseg_set_free [OF hseg_suffix [OF seg] heap_ok_suffix [OF ok]] out
    by (intro hseg_replace_at [OF seg ok]) auto
  moreover have "heap_ok ((a, n, g) # bs)" using heap_ok_suffix [OF ok] heap_ok_set_free by blast
  ultimately show ?thesis
    using heap_ok_replace [OF ok, of "(a, n, g) # bs"] out by (intro heap_inv_mem [OF inv]) auto
qed

lemma used_at:
  assumes "heap_ok (as @ (a, n, False) # bs)"
  shows "(a + 32, k) \<notin> used (as @ bs)"
proof
  assume u: "(a + 32, k) \<in> used (as @ bs)"
  then have "(a, k, False) \<in> set (as @ bs)" by (auto simp: used_def)
  then have "bx (a, k, False) \<inter> bx (a, n, False) = {}"
    using assms unfolding heap_ok_append heap_ok_Cons set_append
    by (metis UnE inf_commute list.set_intros(1))
  moreover have "a \<in> bx (a, k, False) \<inter> bx (a, n, False)" by simp
  ultimately show False by blast
qed

lemma used_splitE:
  assumes "(p, n) \<in> used H"
  obtains as a bs where "H = as @ (a, n, False) # bs" "p = a + 32"
  using assms by (auto simp: used_def in_set_conv_decomp)

lemma kfree_effect:
  assumes inv: "heap_inv s H F" and p: "(p, n) \<in> used H"
  shows "\<exists>s' H'. kfree p s = Some s' \<and> heap_inv s' H' F \<and> used H' = used H - {(p, n)} \<and>
    (\<exists>m. s' = s\<lparr>kmem := m\<rparr>) \<and> (\<forall>x. x \<notin> extent (p - 32) 24 \<longrightarrow> kmem s' x = kmem s x)"
proof -
  obtain as a bs where H: "H = as @ (a, n, False) # bs" "p = a + 32" using used_splitE [OF p] .
  have okH: "heap_ok (as @ (a, n, False) # bs)" using inv H by (simp add: heap_inv_def)
  then have nz: "p \<noteq> 0" using payload_nz [of a n False] H by (simp add: heap_ok_append heap_ok_Cons)
  let ?s1 = "s\<lparr>kmem := set_hb_is_free a True (kmem s)\<rparr>"
  from coalesce_at [OF set_free_at [OF inv [unfolded H(1)], of True]] obtain m' n' cs where
    m': "heap_block_coalesce a (set_hb_is_free a True (kmem s)) = Some m'"
    "heap_inv (s\<lparr>kmem := m'\<rparr>) (as @ (a, n', True) # cs) F" "used cs = used bs"
    "\<forall>x. x \<notin> extent a 24 \<longrightarrow> m' x = set_hb_is_free a True (kmem s) x" by auto
  have "kfree p s = Some (s\<lparr>kmem := m'\<rparr>)" using nz m'(1) H(2) by (simp add: kfree_def HEAP_HEADER_SIZE_eq)
  moreover have "used (as @ (a, n', True) # cs) = used H - {(p, n)}"
    using m'(3) H used_at [OF okH, of n] by auto
  ultimately show ?thesis using m' H(2)
    by (intro exI [of _ "s\<lparr>kmem := m'\<rparr>"] exI [of _ "as @ (a, n', True) # cs"]) auto
qed

section \<open>Clients write to payloads only\<close>

lemma hseg_frame_header:
  "hseg m p bs \<Longrightarrow> (\<And>a s f x. (a, s, f) \<in> set bs \<Longrightarrow> x \<in> extent a 24 \<Longrightarrow> m' x = m x) \<Longrightarrow> hseg m' p bs"
proof (induction m p bs rule: hseg.induct)
  case (2 m p a s f bs)
  have "\<And>x. x \<in> extent a 24 \<Longrightarrow> m' x = m x" using 2(3) [of a s f] by auto
  note eq = hb_agree [of a m' m, OF this]
  have "hseg m' (hb_next m a) bs" using 2(2,3) by (intro 2(1)) auto
  then show ?case using 2(2) by (simp add: eq)
qed simp

lemma header_payload_disj:
  assumes ok: "heap_ok H" and b: "(a, s, f) \<in> set H" and p: "(p, n) \<in> used H"
  shows "extent a 24 \<inter> extent p (unat n) = {}"
proof -
  obtain c where c: "(c, n, False) \<in> set H" "p = c + 32" "extent p (unat n) \<subseteq> bx (c, n, False)"
    using used_payload [OF p ok] .
  show ?thesis
  proof (cases "(a, s, f) = (c, n, False)")
    case True
    have "blk_ok (c, n, False)" using ok c(1) unfolding heap_ok_def by blast
    then show ?thesis
      using extent_disj [of 32 "unat n" c] extent_mono [of 24 32 c] True c(2) by auto
  next
    case False
    then have "bx (a, s, f) \<inter> bx (c, n, False) = {}" by (intro heap_ok_distinct [OF ok b c(1)])
    then show ?thesis using c(3) bx_header [of a s f] by blast
  qed
qed

lemma payloads_disj:
  assumes ok: "heap_ok H" and p: "(p, n) \<in> used H" and q: "(q, k) \<in> used H" and ne: "(p, n) \<noteq> (q, k)"
  shows "extent p (unat n) \<inter> extent q (unat k) = {}" "p \<noteq> q"
proof -
  obtain a where a: "(a, n, False) \<in> set H" "p = a + 32" "extent p (unat n) \<subseteq> bx (a, n, False)"
    using used_payload [OF p ok] .
  obtain c where c: "(c, k, False) \<in> set H" "q = c + 32" "extent q (unat k) \<subseteq> bx (c, k, False)"
    using used_payload [OF q ok] .
  have dis: "bx (a, n, False) \<inter> bx (c, k, False) = {}"
    using a c ne by (intro heap_ok_distinct [OF ok]) auto
  then show "extent p (unat n) \<inter> extent q (unat k) = {}" using a c by blast
  have "a \<in> bx (a, n, False)" "c \<in> bx (c, k, False)" by simp_all
  then have "a \<noteq> c" using dis by blast
  then show "p \<noteq> q" using a c by simp
qed

lemma heap_inv_write:
  assumes inv: "heap_inv s H F" and p: "(p, n) \<in> used H"
    and out: "\<And>x. x \<notin> extent p (unat n) \<Longrightarrow> m' x = kmem s x"
  shows "heap_inv (s\<lparr>kmem := m'\<rparr>) H F"
proof -
  have ok: "heap_ok H" using inv by (simp add: heap_inv_def)
  have "hseg m' (heap_block_list s) H"
  proof (rule hseg_frame_header)
    show "hseg (kmem s) (heap_block_list s) H" using inv by (simp add: heap_inv_def)
    fix a sz f x assume "(a, sz, f) \<in> set H" "x \<in> extent a 24"
    then show "m' x = kmem s x" using header_payload_disj [OF ok _ p] by (intro out) blast
  qed
  moreover have "extent p (unat n) \<subseteq> \<Union> (bx ` set H)" using used_payload [OF p ok] by blast
  ultimately show ?thesis using ok out by (intro heap_inv_mem [OF inv]) auto
qed

section \<open>Resizing\<close>

text \<open>What a successful \<open>krealloc\<close> of the payload \<open>(p, n)\<close> does.\<close>

definition realloc_effect ::
  "'a heap_state_scheme \<Rightarrow> hblock list \<Rightarrow> u64 \<Rightarrow> u64 \<Rightarrow> u64 \<Rightarrow> u64 \<Rightarrow> 'a heap_state_scheme \<Rightarrow> bool" where
  "realloc_effect s H p n r req s' \<longleftrightarrow> (\<exists>H' F' k. heap_inv s' H' F' \<and>
     used H' = insert (r, k) (used H - {(p, n)}) \<and> (r, k) \<notin> used H - {(p, n)} \<and>
     unat req \<le> unat k \<and> 16 dvd unat r \<and>
     (\<forall>i. i < unat n \<and> i < unat req \<longrightarrow> kmem s' (r + of_nat i) = kmem s (p + of_nat i)) \<and>
     (\<forall>(q, j) \<in> used H - {(p, n)}. \<forall>x \<in> extent q (unat j). kmem s' x = kmem s x))"

text \<open>Splitting a used block in place: the cases where the payload stays where it is.\<close>

lemma split_at:
  assumes inv: "heap_inv s (as @ (a, n, False) # bs) F"
    and sz: "16 dvd unat sz" "16 \<le> unat sz" "unat sz + 48 < 2 ^ 64" and fits: "sz \<le> n"
  shows "\<exists>m' H' k. heap_block_split a sz (kmem s) = Some m' \<and> heap_inv (s\<lparr>kmem := m'\<rparr>) H' F \<and>
    used H' = insert (a + 32, k) (used (as @ bs)) \<and> unat sz \<le> unat k \<and>
    (\<forall>x. x \<notin> bx (a, n, False) \<or> x \<in> extent (a + 32) (unat sz) \<longrightarrow> m' x = kmem s x)"
proof -
  let ?b = "(a, n, False)" and ?m = "kmem s"
  have seg: "hseg ?m (heap_block_list s) (as @ ?b # bs)" and ok: "heap_ok (as @ ?b # bs)"
    using inv by (auto simp: heap_inv_def)
  from heap_split [OF hseg_suffix [OF seg] heap_ok_suffix [OF ok] sz] obtain m' where
    m': "heap_block_split a sz ?m = Some m'" "hseg m' a (split_l ?b sz bs)" "heap_ok (split_l ?b sz bs)"
    "\<Union> (bx ` set (split_l ?b sz bs)) = \<Union> (bx ` set (?b # bs))"
    "\<forall>x. x \<notin> bx ?b \<or> x \<in> extent (a + 32) (unat sz) \<longrightarrow> m' x = ?m x" by blast
  have out: "m' x = ?m x" if "x \<notin> \<Union> (bx ` set (?b # bs))" for x using that m'(5) by simp
  have seg': "hseg m' (heap_block_list s) (as @ split_l ?b sz bs)"
    using m'(2) out by (intro hseg_replace_at [OF seg ok]) auto
  have inv': "heap_inv (s\<lparr>kmem := m'\<rparr>) (as @ split_l ?b sz bs) F"
    using seg' heap_ok_replace [OF ok m'(3,4)] out by (intro heap_inv_mem [OF inv]) auto
  have "\<exists>k. used (as @ split_l ?b sz bs) = insert (a + 32, k) (used (as @ bs)) \<and> unat sz \<le> unat k"
    using fits by (auto simp: split_l_def used_absorb word_le_nat_alt)
  then show ?thesis using m'(1,5) inv' by blast
qed

lemma hseg_size: "hseg m p H \<Longrightarrow> (a, n, f) \<in> set H \<Longrightarrow> hb_size m a = n"
  by (induction m p H rule: hseg.induct) auto

lemma payload_bytes:
  assumes "blk_ok (a, n, f)" "i < unat n"
  shows "a + 32 + of_nat i \<in> extent (a + 32) (unat n)" "a + 32 + of_nat i \<notin> extent a 24"
    "a + 32 + of_nat i \<in> bx (a, n, f)"
proof -
  show in1: "a + 32 + of_nat i \<in> extent (a + 32) (unat n)" using assms by (intro extent_cell) auto
  show "a + 32 + of_nat i \<notin> extent a 24"
    using in1 extent_disj [of 32 "unat n" a] extent_mono [of 24 32 a] assms by auto
  show "a + 32 + of_nat i \<in> bx (a, n, f)"
    using in1 extent_sub [of 32 "unat n" "32 + unat n" a] assms by auto
qed

text \<open>The resized block stays in place.\<close>

lemma realloc_in_place:
  assumes inv: "heap_inv s H F" and H: "H = as @ (a, n, False) # bs"
    and inv1: "heap_inv (s\<lparr>kmem := m1\<rparr>) (as @ (a, n1, False) # cs) F" and us: "used cs = used bs"
    and same: "\<And>x. x \<notin> extent a 24 \<Longrightarrow> m1 x = kmem s x"
    and sz: "16 dvd unat sz" "16 \<le> unat sz" "sz \<le> n1" and req: "unat req \<le> unat sz"
  shows "\<exists>m'. heap_block_split a sz m1 = Some m' \<and> realloc_effect s H (a + 32) n (a + 32) req (s\<lparr>kmem := m'\<rparr>)"
proof -
  have ok: "heap_ok H" and ok1: "heap_ok (as @ (a, n1, False) # cs)" using inv inv1 by (auto simp: heap_inv_def)
  have blk: "blk_ok (a, n, False)" "blk_ok (a, n1, False)"
    using ok ok1 unfolding H heap_ok_append heap_ok_Cons by auto
  have "unat sz + 48 < 2 ^ 64" using sz(3) blk(2) by (simp add: word_le_nat_alt)
  from split_at [OF inv1 sz(1,2) this sz(3)] obtain m' H' k where m': "heap_block_split a sz m1 = Some m'"
    "heap_inv (s\<lparr>kmem := m'\<rparr>) H' F" "used H' = insert (a + 32, k) (used (as @ bs))" "unat sz \<le> unat k"
    "\<forall>x. x \<notin> bx (a, n1, False) \<or> x \<in> extent (a + 32) (unat sz) \<longrightarrow> m' x = m1 x"
    using us by auto
  have rest: "used H - {(a + 32, n)} = used (as @ bs)" using used_at [of as a n bs n] ok H by auto
  have own: "m' (a + 32 + of_nat i) = kmem s (a + 32 + of_nat i)" if "i < unat n" "i < unat req" for i
  proof -
    have "a + 32 + of_nat i \<in> extent (a + 32) (unat sz)" using that req unat_lt_u64 [of sz] by (intro extent_cell) auto
    then show ?thesis using m'(5) same payload_bytes(2) [OF blk(1) that(1)] by simp
  qed
  have others: "m' x = kmem s x" if u: "(q, j) \<in> used (as @ bs)" and x: "x \<in> extent q (unat j)" for q j x
  proof -
    have u1: "(q, j) \<in> used (as @ (a, n1, False) # cs)" using u us by auto
    obtain c where c: "(c, j, False) \<in> set (as @ (a, n1, False) # cs)" "q = c + 32" "extent q (unat j) \<subseteq> bx (c, j, False)"
      using used_payload [OF u1 ok1] .
    have "(q, j) \<noteq> (a + 32, n1)" using used_at [OF ok1, of n1] u us by auto
    then have "bx (c, j, False) \<inter> bx (a, n1, False) = {}"
      using c by (intro heap_ok_distinct [OF ok1]) auto
    then have "x \<notin> bx (a, n1, False)" using c(3) x by blast
    then show ?thesis using m'(5) same bx_out by metis
  qed
  have "16 dvd unat (a + 32)" using blk by (intro dvd16_add) auto
  moreover have "(a + 32, k) \<notin> used (as @ bs)" using used_at [of as a n bs k] ok H by simp
  ultimately have "realloc_effect s H (a + 32) n (a + 32) req (s\<lparr>kmem := m'\<rparr>)"
    unfolding realloc_effect_def rest using m'(2-4) own others req
    by (intro exI [of _ H'] exI [of _ F] exI [of _ k]) (auto simp del: used_simps)
  then show ?thesis using m'(1) by blast
qed

text \<open>The block moves: allocate, copy, release.\<close>

lemma realloc_move:
  assumes inv1: "heap_inv s1 H1 F" and p: "(p, n1) \<in> used H1" and n1: "n1 < sz"
    and al: "kmalloc sz s1 = Some (r, s2)" "r \<noteq> 0"
  defines "s3 \<equiv> s2\<lparr>kmem := memcpy (kmem s2) r p (hb_size (kmem s2) (p - 32))\<rparr>"
  shows "\<exists>s4. kfree p s3 = Some s4 \<and> realloc_effect s1 H1 p n1 r sz s4"
proof -
  have ae: "alloc_effect s1 H1 F r sz s2" using kmalloc_effect [OF inv1, of sz] al by auto
  then obtain H2 F2 k where e: "heap_inv s2 H2 F2" "used H2 = insert (r, k) (used H1)" "(r, k) \<notin> used H1"
    "unat sz \<le> unat k" "16 dvd unat r"
    and keep: "\<And>q j x. (q, j) \<in> used H1 \<Longrightarrow> x \<in> extent q (unat j) \<Longrightarrow> kmem s2 x = kmem s1 x"
    unfolding alloc_effect_def by blast
  have ok: "heap_ok H2" using e(1) by (simp add: heap_inv_def)
  have p2: "(p, n1) \<in> used H2" and r2: "(r, k) \<in> used H2" using p e by auto
  have ne: "(r, k) \<noteq> (p, n1)" using p e(3) by auto
  obtain a where a: "(a, n1, False) \<in> set H2" "p = a + 32" using used_payload [OF p2 ok] by blast
  then have blk: "blk_ok (a, n1, False)" using ok unfolding heap_ok_def by blast
  have sz1: "hb_size (kmem s2) (p - 32) = n1" using e(1) a hseg_size by (fastforce simp: heap_inv_def)
  have lt: "unat n1 < unat k" using n1 e(4) by (simp add: word_less_nat_alt)
  have dis: "extent r (unat k) \<inter> extent p (unat n1) = {}" using payloads_disj [OF ok r2 p2 ne] by simp
  then have "extent r (unat n1) \<inter> extent p (unat n1) = {}" using extent_mono [of "unat n1" "unat k" r] lt by auto
  then have ap: "apart r (unat n1) p (unat n1)" using blk by (intro extent_disjoint_apart) auto
  have m3: "kmem s3 x = (if unat (x - r) < unat n1 then kmem s2 (p + (x - r)) else kmem s2 x)" for x
    by (simp add: s3_def sz1 memcpy_apply [OF ap])
  have "heap_inv (s2\<lparr>kmem := kmem s3\<rparr>) H2 F2"
    using lt by (intro heap_inv_write [OF e(1) r2]) (auto simp: m3 extent_def)
  then have inv3: "heap_inv s3 H2 F2" by (simp add: s3_def)
  from kfree_effect [OF inv3 p2] obtain s4 H4 where f: "kfree p s3 = Some s4" "heap_inv s4 H4 F2"
    "used H4 = used H2 - {(p, n1)}" "\<forall>x. x \<notin> extent (p - 32) 24 \<longrightarrow> kmem s4 x = kmem s3 x" by blast
  have hdr: "extent (p - 32) 24 \<inter> extent q (unat j) = {}" if "(q, j) \<in> used H2" for q j
    using header_payload_disj [OF ok a(1) that] a(2) by simp
  have copy: "kmem s4 (r + of_nat i) = kmem s1 (p + of_nat i)" if i: "i < unat n1" for i
  proof -
    have "r + of_nat i \<in> extent r (unat k)" using i lt unat_lt_u64 [of k] by (intro extent_cell) auto
    then have "kmem s4 (r + of_nat i) = kmem s3 (r + of_nat i)" using hdr [OF r2] f(4) by blast
    also have "\<dots> = kmem s2 (p + of_nat i)" using i unat_lt_u64 [of n1] by (simp add: m3 unat_of_nat_small)
    also have "\<dots> = kmem s1 (p + of_nat i)" using i blk by (intro keep [OF p] extent_cell) auto
    finally show ?thesis .
  qed
  have others: "kmem s4 x = kmem s1 x" if u: "(q, j) \<in> used H1" and x: "x \<in> extent q (unat j)" for q j x
  proof -
    have u2: "(q, j) \<in> used H2" using u e(2) by auto
    have "(q, j) \<noteq> (r, k)" using u e(3) by auto
    then have "x \<notin> extent r (unat n1)"
      using payloads_disj(1) [OF ok u2 r2] x extent_mono [of "unat n1" "unat k" r] lt by auto
    then have "kmem s3 x = kmem s2 x" by (simp add: m3 extent_def)
    moreover have "kmem s4 x = kmem s3 x" using f(4) hdr [OF u2] x by blast
    ultimately show ?thesis using keep [OF u x] by simp
  qed
  have "used H4 = insert (r, k) (used H1 - {(p, n1)})" using f(3) e(2) ne by auto
  then have "realloc_effect s1 H1 p n1 r sz s4"
    unfolding realloc_effect_def using f(2) e(3-5) copy others
    by (intro exI [of _ H4] exI [of _ F2] exI [of _ k]) auto
  then show ?thesis using f(1) by blast
qed

text \<open>A failing \<open>krealloc\<close> loses nothing.\<close>

definition realloc_failed ::
  "'a heap_state_scheme \<Rightarrow> hblock list \<Rightarrow> u64 set \<Rightarrow> u64 \<Rightarrow> u64 \<Rightarrow> 'a heap_state_scheme \<Rightarrow> bool" where
  "realloc_failed s H F p n s' \<longleftrightarrow> (\<exists>H' n'. heap_inv s' H' F \<and>
     used H' = insert (p, n') (used H - {(p, n)}) \<and> unat n \<le> unat n' \<and>
     (\<forall>(q, j) \<in> used H. \<forall>x \<in> extent q (unat j). kmem s' x = kmem s x))"

lemma realloc_effect_trans:
  assumes "realloc_effect s1 H1 p n1 r sz s'"
    and rest: "used H1 - {(p, n1)} = used H - {(p, n)}"
    and n1: "unat n \<le> unat n1" and req: "unat req \<le> unat sz"
    and same: "\<And>q j x. (q, j) \<in> used H \<Longrightarrow> x \<in> extent q (unat j) \<Longrightarrow> kmem s1 x = kmem s x"
    and p: "(p, n) \<in> used H"
  shows "realloc_effect s H p n r req s'"
proof -
  obtain H' F' k where e: "heap_inv s' H' F'" "used H' = insert (r, k) (used H - {(p, n)})" "unat sz \<le> unat k" "16 dvd unat r"
    "(r, k) \<notin> used H - {(p, n)}"
    "\<And>i. i < unat n1 \<Longrightarrow> i < unat sz \<Longrightarrow> kmem s' (r + of_nat i) = kmem s1 (p + of_nat i)"
    "\<And>q j x. (q, j) \<in> used H - {(p, n)} \<Longrightarrow> x \<in> extent q (unat j) \<Longrightarrow> kmem s' x = kmem s1 x"
    using assms(1) unfolding realloc_effect_def rest by blast
  have "kmem s' (r + of_nat i) = kmem s (p + of_nat i)" if "i < unat n" "i < unat req" for i
  proof -
    have "p + of_nat i \<in> extent p (unat n)" using that unat_lt_u64 [of n] by (intro extent_cell) auto
    then show ?thesis using e(6) [of i] same [OF p] that n1 req by simp
  qed
  moreover have "kmem s' x = kmem s x" if "(q, j) \<in> used H - {(p, n)}" "x \<in> extent q (unat j)" for q j x
    using e(7) [OF that] same [of q j x] that by simp
  ultimately show ?thesis unfolding realloc_effect_def using e(1-5) req
    by (intro exI [of _ H'] exI [of _ F'] exI [of _ k]) auto
qed

lemma krealloc_effect:
  assumes inv: "heap_inv s H F" and p: "(p, n) \<in> used H" and req: "req \<noteq> 0"
  shows "\<exists>r s'. krealloc p req s = Some (r, s') \<and>
    (if r = 0 then realloc_failed s H F p n s' else realloc_effect s H p n r req s')"
proof (cases "req > SIZE_MAX - (HEAP_ALIGNMENT - 1)")
  case True
  have "used H = insert (p, n) (used H - {(p, n)})" using p by auto
  then have "realloc_failed s H F p n s" unfolding realloc_failed_def using inv by blast
  then show ?thesis using True by (simp add: krealloc_def)
next
  case False
  obtain as a bs where H: "H = as @ (a, n, False) # bs" "p = a + 32" using used_splitE [OF p] .
  have ok: "heap_ok H" and seg: "hseg (kmem s) (heap_block_list s) H" using inv by (auto simp: heap_inv_def)
  have blk: "blk_ok (a, n, False)" using ok unfolding H heap_ok_append heap_ok_Cons by simp
  have nz: "p \<noteq> 0" using payload_nz [OF blk] H by simp
  define sz where "sz = HEAP_ALIGN_UP req HEAP_ALIGNMENT"
  have "unat req + 15 < 2 ^ 64"
    using False by (simp add: SIZE_MAX_def HEAP_ALIGNMENT_def word_less_nat_alt)
  note al = heap_align_bounds [OF this, folded sz_def]
  have sz16: "16 \<le> unat sz" using dvd_imp_le [OF al(1)] al(2) req unat_gt_0 [of req] by simp
  have szn: "hb_size (kmem s) a = n" using hseg_size [OF seg, of a n False] H by simp
  from coalesce_at [OF inv [unfolded H(1)]] obtain m1 n1 cs where c: "heap_block_coalesce a (kmem s) = Some m1"
    "heap_inv (s\<lparr>kmem := m1\<rparr>) (as @ (a, n1, False) # cs) F" "unat n \<le> unat n1" "used cs = used bs" "hb_size m1 a = n1"
    "\<forall>x. x \<notin> extent a 24 \<longrightarrow> m1 x = kmem s x" by blast
  have unf: "krealloc p req s = (if sz \<le> n then map_option (\<lambda>m. (p, s\<lparr>kmem := m\<rparr>)) (heap_block_split a sz (kmem s))
     else if sz \<le> n1 then map_option (\<lambda>m. (p, s\<lparr>kmem := m\<rparr>)) (heap_block_split a sz m1)
     else Option.bind (kmalloc sz (s\<lparr>kmem := m1\<rparr>)) (\<lambda>(new_addr, s2). if new_addr = 0 then Some (0, s2)
       else map_option (\<lambda>s4. (new_addr, s4))
         (kfree p (s2\<lparr>kmem := memcpy (kmem s2) new_addr p (hb_size (kmem s2) (p - 32))\<rparr>))))"
    using False nz req c(1,5) szn H(2)
    by (simp add: krealloc_def Let_def HEAP_HEADER_SIZE_eq sz_def [symmetric] cong: if_cong)
  show ?thesis
  proof (cases "sz \<le> n1")
    case True
    have "heap_inv (s\<lparr>kmem := kmem s\<rparr>) (as @ (a, n, False) # bs) F" using inv H by simp
    from realloc_in_place [OF inv H(1) this _ _ al(1) sz16 _ al(2)]
      realloc_in_place [OF inv H(1) c(2,4) _ al(1) sz16 True al(2)] c(6)
    show ?thesis using True nz unfolding unf by (fastforce simp: H(2))
  next
    case F1: False
    then have n: "\<not> sz \<le> n" using c(3) by (simp add: word_le_nat_alt)
    let ?s1 = "s\<lparr>kmem := m1\<rparr>" and ?H1 = "as @ (a, n1, False) # cs"
    have p1: "(p, n1) \<in> used ?H1" using H by simp
    have rest: "used ?H1 - {(p, n1)} = used H - {(p, n)}"
      using used_at [of as a n bs n] used_at [of as a n1 cs n1] ok c(2,4) H by (auto simp: heap_inv_def)
    have same: "kmem ?s1 x = kmem s x" if "(q, j) \<in> used H" "x \<in> extent q (unat j)" for q j x
      using header_payload_disj [OF ok _ that(1), of a n False] that(2) c(6) H by auto
    obtain r s2 where k: "kmalloc sz ?s1 = Some (r, s2)" "r = 0 \<longrightarrow> s2 = ?s1" using kmalloc_effect [OF c(2), of sz] by auto
    show ?thesis
    proof (cases "r = 0")
      case True
      have "used ?H1 = insert (p, n1) (used H - {(p, n)})" using rest p1 by auto
      then have "realloc_failed s H F p n ?s1" unfolding realloc_failed_def using c(2,3) same by blast
      then show ?thesis using True k F1 n by (simp add: unf)
    next
      case rn: False
      have "n1 < sz" using F1 by simp
      from realloc_move [OF c(2) p1 this k(1) rn] obtain s4 where
        s4: "kfree p (s2\<lparr>kmem := memcpy (kmem s2) r p (hb_size (kmem s2) (p - 32))\<rparr>) = Some s4"
        "realloc_effect ?s1 ?H1 p n1 r sz s4" by auto
      from realloc_effect_trans [OF s4(2) rest c(3) al(2) same p] show ?thesis
        using s4(1) k(1) rn F1 n by (simp add: unf)
    qed
  qed
qed

end
