(* ===== verification/Kheap_Client.thy ===== *)
theory Kheap_Client
  imports Kheap_Alloc
begin

text \<open>
  The contract of the kernel heap as the locale \<open>kernel_heap\<close>, its interpretation on the
  functions of \<^verbatim>\<open>kernel/src/mm/heap.c\<close>, and what it gives to every client.
\<close>

section \<open>What a client remembers\<close>

text \<open>The bytes a client wrote, as a partial map; releasing a payload forgets them, resizing one
  moves them.\<close>

definition forget :: "(u64 \<rightharpoonup> u8) \<Rightarrow> u64 set \<Rightarrow> (u64 \<rightharpoonup> u8)" where
  "forget g A = (\<lambda>x. if x \<in> A then None else g x)"

definition moved :: "(u64 \<rightharpoonup> u8) \<Rightarrow> u64 \<Rightarrow> u64 \<Rightarrow> u64 \<Rightarrow> u64 \<Rightarrow> (u64 \<rightharpoonup> u8)" where
  "moved g p n r k = (\<lambda>x. if x \<in> extent r (unat k) then (if unat (x - r) < unat n then g (p + (x - r)) else None)
     else if x \<in> extent p (unat n) then None else g x)"

section \<open>The contract of the heap\<close>

text \<open>What the rest of the kernel relies on. \<open>payloads s U\<close> says that \<open>U\<close> are the payloads handed
  out in \<open>s\<close>, with their real sizes.\<close>

locale kernel_heap =
  fixes payloads :: "'s \<Rightarrow> (u64 \<times> u64) set \<Rightarrow> bool"
    and byte :: "'s \<Rightarrow> u64 \<Rightarrow> u8"
    and malloc :: "u64 \<Rightarrow> 's \<Rightarrow> (u64 \<times> 's) option"
    and release :: "u64 \<Rightarrow> 's \<Rightarrow> 's option"
    and resize :: "u64 \<Rightarrow> u64 \<Rightarrow> 's \<Rightarrow> (u64 \<times> 's) option"
    and poke :: "'s \<Rightarrow> u64 \<Rightarrow> u8 \<Rightarrow> 's"
  assumes payloads_apart: "payloads s U \<Longrightarrow> (p, n) \<in> U \<Longrightarrow> (q, k) \<in> U \<Longrightarrow> (p, n) \<noteq> (q, k) \<Longrightarrow>
       extent p (unat n) \<inter> extent q (unat k) = {} \<and> p \<noteq> q"
    and payloads_aligned: "payloads s U \<Longrightarrow> (p, n) \<in> U \<Longrightarrow> 16 dvd unat p"
    and malloc_spec: "payloads s U \<Longrightarrow> \<exists>p s'. malloc req s = Some (p, s') \<and>
       (if p = 0 then s' = s else \<exists>k. payloads s' (insert (p, k) U) \<and> (p, k) \<notin> U \<and> unat req \<le> unat k \<and>
         (\<forall>(q, n) \<in> U. \<forall>x \<in> extent q (unat n). byte s' x = byte s x))"
    and release_spec: "payloads s U \<Longrightarrow> (p, n) \<in> U \<Longrightarrow> \<exists>s'. release p s = Some s' \<and> payloads s' (U - {(p, n)}) \<and>
       (\<forall>(q, j) \<in> U - {(p, n)}. \<forall>x \<in> extent q (unat j). byte s' x = byte s x)"
    and resize_spec: "payloads s U \<Longrightarrow> (p, n) \<in> U \<Longrightarrow> req \<noteq> 0 \<Longrightarrow> \<exists>r s'. resize p req s = Some (r, s') \<and>
       (if r = 0 then \<exists>n'. payloads s' (insert (p, n') (U - {(p, n)})) \<and> unat n \<le> unat n' \<and>
          (\<forall>(q, j) \<in> U. \<forall>x \<in> extent q (unat j). byte s' x = byte s x)
        else \<exists>k. payloads s' (insert (r, k) (U - {(p, n)})) \<and> (r, k) \<notin> U - {(p, n)} \<and> unat req \<le> unat k \<and>
          (\<forall>i. i < unat n \<and> i < unat req \<longrightarrow> byte s' (r + of_nat i) = byte s (p + of_nat i)) \<and>
          (\<forall>(q, j) \<in> U - {(p, n)}. \<forall>x \<in> extent q (unat j). byte s' x = byte s x))"
    and poke_spec: "payloads s U \<Longrightarrow> (p, n) \<in> U \<Longrightarrow> x \<in> extent p (unat n) \<Longrightarrow>
       payloads (poke s x b) U \<and> byte (poke s x b) = (byte s)(x := b)"
begin

text \<open>A client holds the pointers \<open>L\<close> with the sizes it asked for, and remembers in \<open>g\<close> the bytes it
  wrote; the heap serves it when those bytes are in memory.\<close>

definition backed :: "(u64 \<times> u64) set \<Rightarrow> (u64 \<times> u64) list \<Rightarrow> bool" where
  "backed U L \<longleftrightarrow> distinct (map fst L) \<and> (\<forall>p req. (p, req) \<in> set L \<longrightarrow> (\<exists>k. (p, k) \<in> U \<and> unat req \<le> unat k))"

definition remembers :: "'s \<Rightarrow> (u64 \<times> u64) list \<Rightarrow> (u64 \<rightharpoonup> u8) \<Rightarrow> bool" where
  "remembers s L g \<longleftrightarrow>
     (\<forall>x b. g x = Some b \<longrightarrow> byte s x = b \<and> (\<exists>p req. (p, req) \<in> set L \<and> x \<in> extent p (unat req)))"

definition serves :: "'s \<Rightarrow> (u64 \<times> u64) list \<Rightarrow> (u64 \<rightharpoonup> u8) \<Rightarrow> bool" where
  "serves s L g \<longleftrightarrow> (\<exists>U. payloads s U \<and> backed U L) \<and> remembers s L g"

lemma backedE:
  assumes "backed U L" "(p, req) \<in> set L"
  obtains k where "(p, k) \<in> U" "extent p (unat req) \<subseteq> extent p (unat k)" "unat req \<le> unat k"
proof -
  obtain k where "(p, k) \<in> U" "unat req \<le> unat k" using assms unfolding backed_def by blast
  then show ?thesis using that extent_mono by blast
qed

lemma backed_Cons:
  assumes "backed U L" "p \<notin> fst ` set L" "(p, k) \<in> U'" "unat req \<le> unat k" "U \<subseteq> U'"
  shows "backed U' ((p, req) # L)"
  unfolding backed_def
proof (intro conjI allI impI)
  show "distinct (map fst ((p, req) # L))" using assms(1,2) by (simp add: backed_def)
  fix q n assume "(q, n) \<in> set ((p, req) # L)"
  then show "\<exists>k. (q, k) \<in> U' \<and> unat n \<le> unat k"
  proof (cases "(q, n) \<in> set L")
    case True
    then show ?thesis using backedE [OF assms(1) True] assms(5) by blast
  qed (use assms(3,4) in auto)
qed

lemma serves_disjoint:
  assumes "serves s L g" "(p, n) \<in> set L" "(q, k) \<in> set L" "p \<noteq> q"
  shows "extent p (unat n) \<inter> extent q (unat k) = {}"
proof -
  obtain U where U: "payloads s U" "backed U L" using assms(1) unfolding serves_def by blast
  obtain n' where n': "(p, n') \<in> U" "extent p (unat n) \<subseteq> extent p (unat n')" using backedE [OF U(2) assms(2)] .
  obtain k' where k': "(q, k') \<in> U" "extent q (unat k) \<subseteq> extent q (unat k')" using backedE [OF U(2) assms(3)] .
  show ?thesis using payloads_apart [OF U(1) n'(1) k'(1)] assms(4) n'(2) k'(2) by blast
qed

lemma serves_aligned:
  assumes "serves s L g" "(p, n) \<in> set L"
  shows "16 dvd unat p"
proof -
  obtain U where U: "payloads s U" "backed U L" using assms(1) unfolding serves_def by blast
  show ?thesis using backedE [OF U(2) assms(2)] payloads_aligned [OF U(1)] by metis
qed

lemma serves_reads: "serves s L g \<Longrightarrow> g x = Some b \<Longrightarrow> byte s x = b"
  by (simp add: serves_def remembers_def)

text \<open>Memory that the client wrote keeps its bytes over a step that keeps them on the payloads.\<close>

lemma remembers_keep:
  assumes "remembers s L g" "\<And>q n x. (q, n) \<in> set L' \<Longrightarrow> x \<in> extent q (unat n) \<Longrightarrow> byte s' x = byte s x"
    "\<And>x b. g' x = Some b \<Longrightarrow> g x = Some b \<and> (\<exists>p req. (p, req) \<in> set L' \<and> x \<in> extent p (unat req))"
    "set L' \<subseteq> set L''"
  shows "remembers s' L'' g'"
  unfolding remembers_def
proof (intro allI impI)
  fix x b assume "g' x = Some b"
  from assms(3) [OF this] obtain p req where p: "g x = Some b" "(p, req) \<in> set L'" "x \<in> extent p (unat req)" by blast
  have "byte s x = b" using assms(1) p(1) by (simp add: remembers_def)
  then show "byte s' x = b \<and> (\<exists>p req. (p, req) \<in> set L'' \<and> x \<in> extent p (unat req))"
    using assms(2) [OF p(2,3)] p(2,3) assms(4) by auto
qed

lemma backed_bytes:
  assumes "backed U L" "\<forall>(q, n) \<in> U. \<forall>x \<in> extent q (unat n). byte s' x = byte s x"
    "(q, n) \<in> set L" "x \<in> extent q (unat n)"
  shows "byte s' x = byte s x"
proof -
  obtain k where k: "(q, k) \<in> U" "extent q (unat n) \<subseteq> extent q (unat k)" using backedE [OF assms(1,3)] .
  then have "x \<in> extent q (unat k)" using assms(4) by blast
  then show ?thesis using assms(2) k(1) by fastforce
qed

lemma serves_malloc:
  assumes sv: "serves s L g" and m: "malloc req s = Some (p, s')" and p: "p \<noteq> 0"
  shows "serves s' ((p, req) # L) g"
proof -
  obtain U where U: "payloads s U" "backed U L" "remembers s L g" using sv unfolding serves_def by blast
  obtain k where k: "payloads s' (insert (p, k) U)" "(p, k) \<notin> U" "unat req \<le> unat k"
    "\<forall>(q, n) \<in> U. \<forall>x \<in> extent q (unat n). byte s' x = byte s x"
    using malloc_spec [OF U(1), of req] m p by auto
  have "p \<notin> fst ` set L"
  proof
    assume "p \<in> fst ` set L"
    then obtain r where "(p, r) \<in> set L" by auto
    then obtain n where "(p, n) \<in> U" using backedE [OF U(2)] by blast
    then show False using payloads_apart [OF k(1), of p k p n] k(2) by auto
  qed
  then have "backed (insert (p, k) U) ((p, req) # L)" using k(3) by (intro backed_Cons [OF U(2)]) auto
  moreover have "remembers s' ((p, req) # L) g"
  proof (rule remembers_keep [OF U(3)])
    show "byte s' x = byte s x" if "(q, n) \<in> set L" "x \<in> extent q (unat n)" for q n x
      using backed_bytes [OF U(2) k(4) that] .
    show "g x = Some b \<and> (\<exists>p req. (p, req) \<in> set L \<and> x \<in> extent p (unat req))" if "g x = Some b" for x b
      using that U(3) by (simp add: remembers_def)
  qed auto
  ultimately show ?thesis unfolding serves_def using k(1) by blast
qed

lemma serves_malloc_fail:
  assumes sv: "serves s L g" and m: "malloc req s = Some (0, s')"
  shows "serves s' L g"
proof -
  obtain U where U: "payloads s U" using sv unfolding serves_def by blast
  have "s' = s" using malloc_spec [OF U, of req] m by auto
  then show ?thesis using sv by simp
qed

lemma serves_poke:
  assumes sv: "serves s L g" and x: "(p, req) \<in> set L" "x \<in> extent p (unat req)"
  shows "serves (poke s x b) L (g(x \<mapsto> b))"
proof -
  obtain U where U: "payloads s U" "backed U L" "remembers s L g" using sv unfolding serves_def by blast
  obtain k where k: "(p, k) \<in> U" "x \<in> extent p (unat k)" using backedE [OF U(2) x(1)] x(2) by blast
  from poke_spec [OF U(1) k] show ?thesis
    using U x unfolding serves_def remembers_def by (auto split: if_splits)
qed

lemma backed_remove:
  assumes "backed U (L1 @ (p, req) # L2)" "(q, n) \<in> set (L1 @ L2)" "(p, k) \<in> U"
  obtains j where "(q, j) \<in> U - {(p, k)}" "unat n \<le> unat j"
proof -
  have "q \<in> fst ` set (L1 @ L2)" using assms(2) by force
  then have "q \<noteq> p" using assms(1) by (auto simp: backed_def)
  moreover obtain j where "(q, j) \<in> U" "unat n \<le> unat j" using backedE [OF assms(1), of q n] assms(2) by auto
  ultimately show ?thesis using that by blast
qed

lemma serves_release:
  assumes sv: "serves s (L1 @ (p, req) # L2) g" and f: "release p s = Some s'"
  shows "serves s' (L1 @ L2) (forget g (extent p (unat req)))"
proof -
  let ?L = "L1 @ (p, req) # L2"
  obtain U where U: "payloads s U" "backed U ?L" "remembers s ?L g" using sv unfolding serves_def by blast
  obtain k where k: "(p, k) \<in> U" using backedE [OF U(2), of p req] by auto
  obtain s'' where s'': "release p s = Some s''" "payloads s'' (U - {(p, k)})"
    "\<forall>(q, j) \<in> U - {(p, k)}. \<forall>x \<in> extent q (unat j). byte s'' x = byte s x"
    using release_spec [OF U(1) k] by blast
  have bk: "backed (U - {(p, k)}) (L1 @ L2)"
    unfolding backed_def
  proof (intro conjI allI impI)
    show "distinct (map fst (L1 @ L2))" using U(2) by (simp add: backed_def)
    fix q n assume "(q, n) \<in> set (L1 @ L2)"
    then show "\<exists>j. (q, j) \<in> U - {(p, k)} \<and> unat n \<le> unat j" using backed_remove [OF U(2) _ k] by blast
  qed
  have "remembers s' (L1 @ L2) (forget g (extent p (unat req)))"
  proof (rule remembers_keep [OF U(3)])
    show "byte s' x = byte s x" if "(q, n) \<in> set (L1 @ L2)" "x \<in> extent q (unat n)" for q n x
      using backed_bytes [OF bk s''(3) that] s''(1) f by simp
    show "g x = Some b \<and> (\<exists>q n. (q, n) \<in> set (L1 @ L2) \<and> x \<in> extent q (unat n))"
      if "forget g (extent p (unat req)) x = Some b" for x b
    proof -
      have x: "x \<notin> extent p (unat req)" "g x = Some b" using that by (auto simp: forget_def split: if_splits)
      then obtain q n where "(q, n) \<in> set ?L" "x \<in> extent q (unat n)" using U(3) unfolding remembers_def by blast
      then have "(q, n) \<in> set (L1 @ L2)" using x(1) by auto
      then show ?thesis using x(2) \<open>x \<in> extent q (unat n)\<close> by blast
    qed
  qed simp
  moreover have "s'' = s'" using s''(1) f by simp
  ultimately show ?thesis unfolding serves_def using bk s''(2) by blast
qed

lemma backed_minus:
  assumes "backed U (L1 @ (p, req) # L2)" "(p, k) \<in> U"
  shows "backed (U - {(p, k)}) (L1 @ L2)"
  unfolding backed_def
proof (intro conjI allI impI)
  show "distinct (map fst (L1 @ L2))" using assms(1) by (simp add: backed_def)
  fix q n assume "(q, n) \<in> set (L1 @ L2)"
  then show "\<exists>j. (q, j) \<in> U - {(p, k)} \<and> unat n \<le> unat j" using backed_remove [OF assms(1) _ assms(2)] by blast
qed

lemma backed_insert_mid:
  assumes "backed U (L1 @ L2)" "r \<notin> fst ` set (L1 @ L2)" "unat req \<le> unat k"
  shows "backed (insert (r, k) U) (L1 @ (r, req) # L2)"
  unfolding backed_def
proof (intro conjI allI impI)
  show "distinct (map fst (L1 @ (r, req) # L2))" using assms(1,2) by (auto simp: backed_def)
  fix q n assume "(q, n) \<in> set (L1 @ (r, req) # L2)"
  then consider "(q, n) = (r, req)" | "(q, n) \<in> set (L1 @ L2)" by auto
  then show "\<exists>j. (q, j) \<in> insert (r, k) U \<and> unat n \<le> unat j"
  proof cases
    case 2
    then show ?thesis using backedE [OF assms(1) 2] by blast
  qed (use assms(3) in auto)
qed

lemma serves_resize_fail:
  assumes sv: "serves s (L1 @ (p, req) # L2) g" and r: "resize p req' s = Some (0, s')" "req' \<noteq> 0"
  shows "serves s' (L1 @ (p, req) # L2) g"
proof -
  let ?L = "L1 @ (p, req) # L2"
  obtain U where U: "payloads s U" "backed U ?L" "remembers s ?L g" using sv unfolding serves_def by blast
  obtain n where n: "(p, n) \<in> U" "unat req \<le> unat n" using backedE [OF U(2), of p req] by auto
  obtain n' where n': "payloads s' (insert (p, n') (U - {(p, n)}))" "unat n \<le> unat n'"
    "\<forall>(q, j) \<in> U. \<forall>x \<in> extent q (unat j). byte s' x = byte s x"
    using resize_spec [OF U(1) n(1) r(2)] r(1) by auto
  have "p \<notin> fst ` set (L1 @ L2)" using U(2) by (auto simp: backed_def)
  then have "backed (insert (p, n') (U - {(p, n)})) ?L"
    using backed_insert_mid [OF backed_minus [OF U(2) n(1)]] n(2) n'(2) by simp
  moreover have "remembers s' ?L g"
  proof (rule remembers_keep [OF U(3)])
    show "byte s' x = byte s x" if "(q, j) \<in> set ?L" "x \<in> extent q (unat j)" for q j x
      using backed_bytes [OF U(2) n'(3) that] .
    show "g x = Some b \<and> (\<exists>p req. (p, req) \<in> set ?L \<and> x \<in> extent p (unat req))" if "g x = Some b" for x b
      using that U(3) unfolding remembers_def by blast
  qed simp
  ultimately show ?thesis unfolding serves_def using n'(1) by blast
qed

lemma serves_resize:
  assumes sv: "serves s (L1 @ (p, req) # L2) g" and r: "resize p req' s = Some (r, s')" "r \<noteq> 0" "req' \<noteq> 0"
  shows "serves s' (L1 @ (r, req') # L2) (moved g p req r req')"
proof -
  let ?L = "L1 @ (p, req) # L2"
  obtain U where U: "payloads s U" "backed U ?L" "remembers s ?L g" using sv unfolding serves_def by blast
  obtain n where n: "(p, n) \<in> U" "unat req \<le> unat n" using backedE [OF U(2), of p req] by auto
  obtain k where k: "payloads s' (insert (r, k) (U - {(p, n)}))" "(r, k) \<notin> U - {(p, n)}" "unat req' \<le> unat k"
    "\<And>i. i < unat n \<Longrightarrow> i < unat req' \<Longrightarrow> byte s' (r + of_nat i) = byte s (p + of_nat i)"
    "\<forall>(q, j) \<in> U - {(p, n)}. \<forall>x \<in> extent q (unat j). byte s' x = byte s x"
    using resize_spec [OF U(1) n(1) r(3)] r(1,2) by auto
  note bk = backed_minus [OF U(2) n(1)]
  have "r \<notin> fst ` set (L1 @ L2)"
  proof
    assume "r \<in> fst ` set (L1 @ L2)"
    then obtain j where "(r, j) \<in> set (L1 @ L2)" by force
    then obtain j' where "(r, j') \<in> U - {(p, n)}" using backedE [OF bk] by blast
    then show False using payloads_apart [OF k(1), of r k r j'] k(2) by auto
  qed
  then have "backed (insert (r, k) (U - {(p, n)})) (L1 @ (r, req') # L2)"
    using backed_insert_mid [OF bk] k(3) by simp
  moreover have "remembers s' (L1 @ (r, req') # L2) (moved g p req r req')"
    unfolding remembers_def
  proof (intro allI impI)
    fix x b assume mv: "moved g p req r req' x = Some b"
    show "byte s' x = b \<and> (\<exists>q j. (q, j) \<in> set (L1 @ (r, req') # L2) \<and> x \<in> extent q (unat j))"
    proof (cases "x \<in> extent r (unat req')")
      case True
      have i: "unat (x - r) < unat req" "g (p + (x - r)) = Some b"
        using mv True by (auto simp: moved_def split: if_splits)
      have "byte s' (r + of_nat (unat (x - r))) = byte s (p + of_nat (unat (x - r)))"
        using i(1) n(2) True by (intro k(4)) (auto simp: extent_def)
      moreover have "byte s (p + (x - r)) = b" using U(3) i(2) by (simp add: remembers_def)
      ultimately show ?thesis using True by auto
    next
      case False
      have g: "x \<notin> extent p (unat req)" "g x = Some b" using mv False by (auto simp: moved_def split: if_splits)
      then obtain q j where q: "(q, j) \<in> set ?L" "x \<in> extent q (unat j)" "byte s x = b"
        using U(3) unfolding remembers_def by blast
      then have q': "(q, j) \<in> set (L1 @ L2)" using g(1) by auto
      then show ?thesis using backed_bytes [OF bk k(5) q' q(2)] q by auto
    qed
  qed
  ultimately show ?thesis unfolding serves_def using k(1) by blast
qed

end

section \<open>The C functions meet the contract\<close>

definition heap_payloads :: "'a heap_state_scheme \<Rightarrow> (u64 \<times> u64) set \<Rightarrow> bool" where
  "heap_payloads s U \<longleftrightarrow> (\<exists>H F. heap_inv s H F \<and> used H = U)"

definition heap_poke :: "'a heap_state_scheme \<Rightarrow> u64 \<Rightarrow> u8 \<Rightarrow> 'a heap_state_scheme" where
  "heap_poke s x b = s\<lparr>kmem := (kmem s)(x := b)\<rparr>"

lemma heap_payloads_malloc:
  assumes "heap_payloads s U"
  shows "\<exists>p s'. kmalloc req s = Some (p, s') \<and>
       (if p = 0 then s' = s else \<exists>k. heap_payloads s' (insert (p, k) U) \<and> (p, k) \<notin> U \<and> unat req \<le> unat k \<and>
         (\<forall>(q, n) \<in> U. \<forall>x \<in> extent q (unat n). kmem s' x = kmem s x))"
proof -
  obtain H F where inv: "heap_inv s H F" and U: "U = used H" using assms by (auto simp: heap_payloads_def)
  from kmalloc_effect [OF inv, of req] obtain p s' where p: "kmalloc req s = Some (p, s')" "p = 0 \<longrightarrow> s' = s"
    "p \<noteq> 0 \<longrightarrow> alloc_effect s H F p req s'" by blast
  show ?thesis
  proof (cases "p = 0")
    case False
    then obtain H' F' k where e: "heap_inv s' H' F'" "used H' = insert (p, k) U" "(p, k) \<notin> U" "unat req \<le> unat k"
      and b: "\<forall>(q, n) \<in> U. extent p (unat k) \<inter> extent q (unat n) = {} \<and> (\<forall>x \<in> extent q (unat n). kmem s' x = kmem s x)"
      using p(3) unfolding alloc_effect_def U by blast
    have "heap_payloads s' (insert (p, k) U)" unfolding heap_payloads_def using e(1,2) by blast
    moreover have "\<forall>(q, n) \<in> U. \<forall>x \<in> extent q (unat n). kmem s' x = kmem s x" using b by blast
    ultimately show ?thesis using p(1) False e by auto
  qed (use p in auto)
qed

lemma heap_payloads_free:
  assumes "heap_payloads s U" "(p, n) \<in> U"
  shows "\<exists>s'. kfree p s = Some s' \<and> heap_payloads s' (U - {(p, n)}) \<and>
       (\<forall>(q, j) \<in> U - {(p, n)}. \<forall>x \<in> extent q (unat j). kmem s' x = kmem s x)"
proof -
  obtain H F where inv: "heap_inv s H F" and U: "U = used H" using assms by (auto simp: heap_payloads_def)
  have ok: "heap_ok H" using inv by (simp add: heap_inv_def)
  have p: "(p, n) \<in> used H" using assms U by simp
  obtain a where a: "(a, n, False) \<in> set H" "p = a + 32" using used_payload [OF p ok] by blast
  obtain s' H' where f: "kfree p s = Some s'" "heap_inv s' H' F" "used H' = used H - {(p, n)}"
    "\<forall>x. x \<notin> extent (p - 32) 24 \<longrightarrow> kmem s' x = kmem s x" using kfree_effect [OF inv p] by blast
  have "kmem s' x = kmem s x" if "(q, j) \<in> U" "x \<in> extent q (unat j)" for q j x
  proof -
    have "x \<notin> extent (p - 32) 24" using header_payload_disj [OF ok a(1), of q j] that a(2) by (auto simp: U)
    then show ?thesis using f(4) by blast
  qed
  moreover have "heap_payloads s' (U - {(p, n)})" unfolding heap_payloads_def U using f(2,3) by blast
  ultimately show ?thesis using f(1) by auto
qed

lemma heap_payloads_realloc:
  assumes "heap_payloads s U" "(p, n) \<in> U" "req \<noteq> 0"
  shows "\<exists>r s'. krealloc p req s = Some (r, s') \<and>
       (if r = 0 then \<exists>n'. heap_payloads s' (insert (p, n') (U - {(p, n)})) \<and> unat n \<le> unat n' \<and>
          (\<forall>(q, j) \<in> U. \<forall>x \<in> extent q (unat j). kmem s' x = kmem s x)
        else \<exists>k. heap_payloads s' (insert (r, k) (U - {(p, n)})) \<and> (r, k) \<notin> U - {(p, n)} \<and> unat req \<le> unat k \<and>
          (\<forall>i. i < unat n \<and> i < unat req \<longrightarrow> kmem s' (r + of_nat i) = kmem s (p + of_nat i)) \<and>
          (\<forall>(q, j) \<in> U - {(p, n)}. \<forall>x \<in> extent q (unat j). kmem s' x = kmem s x))"
proof -
  obtain H F where inv: "heap_inv s H F" and U: "U = used H" using assms by (auto simp: heap_payloads_def)
  have p: "(p, n) \<in> used H" using assms U by simp
  from krealloc_effect [OF inv p assms(3)] obtain r s' where r: "krealloc p req s = Some (r, s')"
    "if r = 0 then realloc_failed s H F p n s' else realloc_effect s H p n r req s'" by blast
  show ?thesis
  proof (cases "r = 0")
    case True
    then have "realloc_failed s H F p n s'" using r(2) by simp
    then obtain H' n' where f: "heap_inv s' H' F" "used H' = insert (p, n') (U - {(p, n)})" "unat n \<le> unat n'"
      "\<forall>(q, j) \<in> U. \<forall>x \<in> extent q (unat j). kmem s' x = kmem s x"
      unfolding realloc_failed_def U by blast
    have "heap_payloads s' (insert (p, n') (U - {(p, n)}))" unfolding heap_payloads_def using f(1,2) by blast
    then show ?thesis using True r(1) f(3,4) by auto
  next
    case False
    then have "realloc_effect s H p n r req s'" using r(2) by simp
    then obtain H' F' k where f: "heap_inv s' H' F'" "used H' = insert (r, k) (U - {(p, n)})"
      "(r, k) \<notin> U - {(p, n)}" "unat req \<le> unat k"
      "\<forall>i. i < unat n \<and> i < unat req \<longrightarrow> kmem s' (r + of_nat i) = kmem s (p + of_nat i)"
      "\<forall>(q, j) \<in> U - {(p, n)}. \<forall>x \<in> extent q (unat j). kmem s' x = kmem s x"
      unfolding realloc_effect_def U by blast
    have "heap_payloads s' (insert (r, k) (U - {(p, n)}))" unfolding heap_payloads_def using f(1,2) by blast
    then show ?thesis using False r(1) f(3-6) by (intro exI [of _ r] exI [of _ s']) auto
  qed
qed

lemma heap_payloadsE:
  assumes "heap_payloads s U" "(p, n) \<in> U"
  obtains H F where "heap_inv s H F" "heap_ok H" "U = used H" "(p, n) \<in> used H"
  using assms by (auto simp: heap_payloads_def heap_inv_def)

lemma heap_payloads_apart:
  assumes "heap_payloads s U" "(p, n) \<in> U" "(q, k) \<in> U" "(p, n) \<noteq> (q, k)"
  shows "extent p (unat n) \<inter> extent q (unat k) = {} \<and> p \<noteq> q"
proof -
  obtain H F where "heap_ok H" "U = used H" using heap_payloadsE [OF assms(1,2)] by metis
  then show ?thesis using payloads_disj [of H p n q k] assms(2-4) by metis
qed

lemma heap_payloads_aligned:
  assumes "heap_payloads s U" "(p, n) \<in> U"
  shows "16 dvd unat p"
proof -
  obtain H F where ok: "heap_ok H" and p: "(p, n) \<in> used H" using heap_payloadsE [OF assms] by metis
  obtain a where a: "(a, n, False) \<in> set H" "p = a + 32" using used_payload [OF p ok] by metis
  then have "blk_ok (a, n, False)" using ok unfolding heap_ok_def by blast
  then show "16 dvd unat p" unfolding a(2) by (intro dvd16_add) auto
qed

lemma heap_payloads_poke:
  assumes "heap_payloads s U" "(p, n) \<in> U" "x \<in> extent p (unat n)"
  shows "heap_payloads (heap_poke s x b) U \<and> kmem (heap_poke s x b) = (kmem s)(x := b)"
proof -
  obtain H F where inv: "heap_inv s H F" and U: "U = used H" and p: "(p, n) \<in> used H"
    using heap_payloadsE [OF assms(1,2)] by metis
  have "heap_inv (heap_poke s x b) H F"
    unfolding heap_poke_def using assms(3) by (intro heap_inv_write [OF inv p]) auto
  then show ?thesis unfolding heap_payloads_def U by (auto simp: heap_poke_def)
qed

interpretation kh: kernel_heap
  "heap_payloads :: 'a heap_state_scheme \<Rightarrow> (u64 \<times> u64) set \<Rightarrow> bool" kmem kmalloc kfree krealloc heap_poke
  by (rule kernel_heap.intro; rule heap_payloads_apart heap_payloads_aligned heap_payloads_malloc
      heap_payloads_free heap_payloads_realloc heap_payloads_poke; assumption)

section \<open>Properties\<close>

text \<open>One step of the kernel as the heap sees it. The state holds the memory, the pointers in use
  with the sizes asked for, and what was written to them.\<close>

type_synonym client = "heap_state \<times> (u64 \<times> u64) list \<times> (u64 \<rightharpoonup> u8)"

inductive kheap_step :: "client \<Rightarrow> client \<Rightarrow> bool" where
  h_malloc: "kmalloc req s = Some (p, s') \<Longrightarrow> p \<noteq> 0 \<Longrightarrow> kheap_step (s, L, g) (s', (p, req) # L, g)"
| h_malloc_fail: "kmalloc req s = Some (0, s') \<Longrightarrow> kheap_step (s, L, g) (s', L, g)"
| h_write: "(p, req) \<in> set L \<Longrightarrow> x \<in> extent p (unat req) \<Longrightarrow>
    kheap_step (s, L, g) (heap_poke s x b, L, g(x \<mapsto> b))"
| h_free: "kfree p s = Some s' \<Longrightarrow>
    kheap_step (s, L1 @ (p, req) # L2, g) (s', L1 @ L2, forget g (extent p (unat req)))"
| h_realloc: "krealloc p req' s = Some (r, s') \<Longrightarrow> r \<noteq> 0 \<Longrightarrow> req' \<noteq> 0 \<Longrightarrow>
    kheap_step (s, L1 @ (p, req) # L2, g) (s', L1 @ (r, req') # L2, moved g p req r req')"
| h_realloc_fail: "krealloc p req' s = Some (0, s') \<Longrightarrow> req' \<noteq> 0 \<Longrightarrow>
    kheap_step (s, L1 @ (p, req) # L2, g) (s', L1 @ (p, req) # L2, g)"

inductive kheap_run :: "client \<Rightarrow> client \<Rightarrow> bool" where
  h_refl: "kheap_run c c"
| h_step: "kheap_run a b \<Longrightarrow> kheap_step b c \<Longrightarrow> kheap_run a c"

lemma kheap_step_serves:
  "kheap_step a b \<Longrightarrow> kh.serves (fst a) (fst (snd a)) (snd (snd a)) \<Longrightarrow>
   kh.serves (fst b) (fst (snd b)) (snd (snd b))"
proof (induction rule: kheap_step.induct)
  case (h_malloc req s p s' L g)
  then show ?case by (auto intro: kh.serves_malloc)
next
  case (h_malloc_fail req s s' L g)
  then show ?case by (auto intro: kh.serves_malloc_fail)
next
  case (h_write p req L x s g b)
  then show ?case using kh.serves_poke [of s L g p req x b] unfolding fst_conv snd_conv by blast
next
  case (h_free p s s' L1 req L2 g)
  then show ?case by (auto intro: kh.serves_release)
next
  case (h_realloc p req' s r s' L1 req L2 g)
  then show ?case by (auto intro: kh.serves_resize)
next
  case (h_realloc_fail p req' s s' L1 req L2 g)
  then show ?case by (auto intro: kh.serves_resize_fail)
qed

lemma kheap_run_serves:
  "kheap_run a b \<Longrightarrow> kh.serves (fst a) (fst (snd a)) (snd (snd a)) \<Longrightarrow>
   kh.serves (fst b) (fst (snd b)) (snd (snd b))"
  by (induction rule: kheap_run.induct) (auto intro: kheap_step_serves)

lemma heap_update_commute:
  fixes s :: "'a heap_state_scheme"
  shows "s\<lparr>heap_block_list := b, kmem := m\<rparr> = s\<lparr>kmem := m, heap_block_list := b\<rparr>"
  by (cases s) simp

text \<open>\<open>heap_init\<close> at boot: the static list head is still 0.\<close>

lemma heap_init_inv:
  fixes s :: "'a heap_state_scheme"
  assumes rel: "pmm_rel s F" "F \<noteq> {}" and boot: "heap_block_list s = 0"
  shows "\<exists>s'. heap_init s = Some s' \<and> heap_payloads s' {}"
proof -
  obtain r s1 where a: "pmm_alloc 1 s = Some (r, s1)" "r \<noteq> 0" using pmm_alloc_one [OF rel(1)] rel(2) by auto
  have inv: "heap_inv s [] F" using rel boot by (simp add: heap_inv_def heap_ok_def)
  have s1: "heap_block_list s1 = 0" using pmm_alloc_rel [OF rel(1), of 1] a boot by auto
  have "heap_inv (s1\<lparr>kmem := set_hb_next (pmm_phys_to_virt s1 r) (heap_block_list s1)
      (set_hb_is_free (pmm_phys_to_virt s1 r) True (set_hb_size (pmm_phys_to_virt s1 r) 4064 (kmem s1))),
      heap_block_list := pmm_phys_to_virt s1 r\<rparr>) [(pmm_phys_to_virt s1 r, 4064, True)] (F - page_block r (unat (1 :: u64)))"
    by (rule heap_grow [OF inv _ a]) simp_all
  then show ?thesis using a s1
    by (auto simp: heap_init_def Let_def heap_payloads_def PAGE_SIZE_def HEAP_HEADER_SIZE_eq heap_update_commute
        intro!: exI [of _ "[(pmm_phys_to_virt s1 r, 4064, True)]"])
qed

lemma boot_serves:
  assumes "pmm_rel s F" "heap_block_list s = 0" "heap_init s = Some s0"
  shows "kh.serves s0 [] Map.empty"
proof -
  have "F \<noteq> {}"
  proof
    assume "F = {}"
    then obtain s' where "pmm_alloc 1 s = Some (0, s')" using pmm_alloc_one [OF assms(1)] by auto
    then show False using assms(3) by (simp add: heap_init_def)
  qed
  then have "heap_payloads s0 {}" using heap_init_inv [OF assms(1) _ assms(2)] assms(3) by auto
  then show ?thesis by (auto simp: kh.serves_def kh.backed_def kh.remembers_def)
qed

text \<open>A concrete boot: three free pages, an empty heap, and a first allocation of 100 bytes.\<close>

definition heap_example :: heap_state where
  "heap_example = pmm_free 8192 3 \<lparr>kmem = (\<lambda>_. 0), hhdm_offset = 0xFFFF800000000000, free_list_head = 0,
     max_phys_addr = 0, heap_block_list = 0\<rparr>"

lemma heap_example_rel: "pmm_rel heap_example {8192, 12288, 16384}" "heap_block_list heap_example = 0"
proof -
  let ?s = "\<lparr>kmem = (\<lambda>_. 0), hhdm_offset = 0xFFFF800000000000, free_list_head = 0,
     max_phys_addr = 0, heap_block_list = 0\<rparr> :: heap_state"
  have b: "page_block 8192 (unat (3 :: u64)) = {8192, 12288, 16384}"
    by (auto simp add: page_block_def PAGE_SIZE_def lessThan_nat_numeral lessThan_Suc pred_numeral_simps)
  have "pmm_rel ?s {}" by (simp add: pmm_rel_def pmm_inv_def page_aligned_def exI [of _ "[]"])
  then have *: "pmm_rel heap_example {8192, 12288, 16384} \<and> (\<exists>m h. heap_example = ?s\<lparr>kmem := m, free_list_head := h\<rparr>)"
    using pmm_free_rel [of ?s "{}" 3 8192]
    unfolding heap_example_def b by (simp add: pmm_page_ok_def pmm_node_ok_def page_aligned_def)
  then show "pmm_rel heap_example {8192, 12288, 16384}" by simp
  from * obtain m h where "heap_example = ?s\<lparr>kmem := m, free_list_head := h\<rparr>" by blast
  then have "heap_block_list heap_example = heap_block_list (?s\<lparr>kmem := m, free_list_head := h\<rparr>)"
    by (rule arg_cong)
  then show "heap_block_list heap_example = 0" by simp
qed

lemma heap_example_run:
  "\<exists>s0 s' g. heap_init heap_example = Some s0 \<and> kheap_run (s0, [], Map.empty) (s', [(0xffff800000004020, 100)], g) \<and>
     g 0xffff800000004021 = Some 7"
proof -
  have "map_option fst (Option.bind (heap_init heap_example) (kmalloc 100)) = Some 0xffff800000004020" by code_simp
  then obtain s0 s1 where s: "heap_init heap_example = Some s0" "kmalloc 100 s0 = Some (0xffff800000004020, s1)"
    by (auto simp: bind_eq_Some_conv)
  have st1: "kheap_step (s0, [], Map.empty) (s1, [(0xffff800000004020, 100)], Map.empty)"
    using h_malloc [OF s(2), of "[]" Map.empty] by simp
  have st2: "kheap_step (s1, [(0xffff800000004020, 100)], Map.empty)
     (heap_poke s1 0xffff800000004021 7, [(0xffff800000004020, 100)], Map.empty(0xffff800000004021 \<mapsto> 7))"
    by (rule h_write [of "0xffff800000004020" 100]) (simp_all add: extent_def unat_diff_u64)
  have "kheap_run (s0, [], Map.empty)
     (heap_poke s1 0xffff800000004021 7, [(0xffff800000004020, 100)], Map.empty(0xffff800000004021 \<mapsto> 7))"
    by (rule h_step [OF h_step [OF h_refl st1] st2])
  moreover have "(Map.empty(0xffff800000004021 :: u64 \<mapsto> 7 :: u8)) 0xffff800000004021 = Some 7" by simp
  ultimately show ?thesis using s(1) by blast
qed

text \<open>C3. Heap integrity: after \<open>heap_init\<close>, whatever sequence of \<open>kmalloc\<close>, \<open>kfree\<close>, \<open>krealloc\<close> and writes
  to its own payloads the kernel performs, different pointers in use have disjoint payloads of at
  least the size asked for, all 16-byte aligned, and every byte written to a payload still has its value,
  at its new address when \<open>krealloc\<close> moved the payload.\<close>

theorem kheap_integrity:
  assumes "pmm_rel s F" "heap_block_list s = 0" "heap_init s = Some s0"
    and "kheap_run (s0, [], Map.empty) (s', L, g)"
  shows "(\<forall>p n q k. (p, n) \<in> set L \<and> (q, k) \<in> set L \<and> p \<noteq> q \<longrightarrow> extent p (unat n) \<inter> extent q (unat k) = {}) \<and>
    (\<forall>p n. (p, n) \<in> set L \<longrightarrow> 16 dvd unat p) \<and> (\<forall>x b. g x = Some b \<longrightarrow> kmem s' x = b)"
proof -
  have "kh.serves s' L g" using kheap_run_serves [OF assms(4)] boot_serves [OF assms(1-3)] by simp
  then show ?thesis using kh.serves_disjoint kh.serves_aligned kh.serves_reads by blast
qed

theorem kheap_integrity_witness:
  "\<exists>s0 s' g. heap_init heap_example = Some s0 \<and>
     kheap_run (s0, [], Map.empty) (s', [(0xffff800000004020, 100)], g) \<and> kmem s' 0xffff800000004021 = 7"
proof -
  obtain s0 s' g where "heap_init heap_example = Some s0"
    "kheap_run (s0, [], Map.empty) (s', [(0xffff800000004020, 100)], g)" "g 0xffff800000004021 = Some 7"
    using heap_example_run by blast
  then show ?thesis using kheap_integrity [OF heap_example_rel, of s0 s' "[(0xffff800000004020, 100)]" g] by blast
qed

text \<open>C33. A call of the heap by a client always returns.\<close>

theorem kheap_progress:
  assumes "pmm_rel s F" "heap_block_list s = 0" "heap_init s = Some s0"
    and "kheap_run (s0, [], Map.empty) (s', L, g)"
  shows "(\<exists>r. kmalloc req s' = Some r) \<and>
    (\<forall>p n. (p, n) \<in> set L \<longrightarrow> (\<exists>r. kfree p s' = Some r) \<and> (\<exists>r. krealloc p req s' = Some r))"
proof -
  have "kh.serves s' L g" using kheap_run_serves [OF assms(4)] boot_serves [OF assms(1-3)] by simp
  then obtain U where U: "heap_payloads s' U" "kh.backed U L" unfolding kh.serves_def by blast
  have "(\<exists>r. kfree p s' = Some r) \<and> (\<exists>r. krealloc p req s' = Some r)" if pn: "(p, n) \<in> set L" for p n
  proof -
    obtain k where k: "(p, k) \<in> U" using kh.backedE [OF U(2) pn] by metis
    have fr: "\<exists>r. kfree p s' = Some r" using heap_payloads_free [OF U(1) k] by blast
    moreover have "\<exists>r. krealloc p req s' = Some r"
    proof (cases "req = 0")
      case True
      then show ?thesis using fr heap_payloads_malloc [OF U(1), of req] by (auto simp: krealloc_def)
    next
      case False
      then show ?thesis using heap_payloads_realloc [OF U(1) k False] by blast
    qed
    ultimately show ?thesis by simp
  qed
  then show ?thesis using heap_payloads_malloc [OF U(1), of req] by blast
qed

theorem kheap_progress_witness:
  "\<exists>s0 s' g. heap_init heap_example = Some s0 \<and>
     kheap_run (s0, [], Map.empty) (s', [(0xffff800000004020, 100)], g) \<and> (\<exists>r. kfree 0xffff800000004020 s' = Some r)"
proof -
  obtain s0 s' g where "heap_init heap_example = Some s0"
    "kheap_run (s0, [], Map.empty) (s', [(0xffff800000004020, 100)], g)"
    using heap_example_run by blast
  then show ?thesis
    using kheap_progress [OF heap_example_rel, of s0 s' "[(0xffff800000004020, 100)]" g 0] by fastforce
qed



end
