(* ===== verification/Arch_Pte.thy ===== *)
theory Arch_Pte
  imports CMem
begin

text \<open>
  The page-table entry formats of \<^verbatim>\<open>kernel/src/arch/x86_64/arch.c\<close> and
  \<^verbatim>\<open>kernel/src/arch/aarch64/arch.c\<close>, and the decoding of fault codes. The generic code
  sees them only through the \<open>arch_vmm_\<close> functions of \<^verbatim>\<open>include/arch/arch.h\<close>; the locale
  \<open>pte_codec\<close> states what it relies on, and both formats are shown to satisfy it.
\<close>

section \<open>Abstract flags\<close>

definition VMM_PRESENT :: u64 where "VMM_PRESENT = 1"
definition VMM_WRITABLE :: u64 where "VMM_WRITABLE = 2"
definition VMM_USER :: u64 where "VMM_USER = 4"
definition VMM_CACHE_DISABLE :: u64 where "VMM_CACHE_DISABLE = 8"
definition VMM_NO_EXECUTE :: u64 where "VMM_NO_EXECUTE = 16"

lemmas vmm_flags = VMM_PRESENT_def VMM_WRITABLE_def VMM_USER_def VMM_CACHE_DISABLE_def VMM_NO_EXECUTE_def

text \<open>\<^verbatim>\<open>if (flags & mask) pte |= bits\<close>.\<close>

definition or_if :: "bool \<Rightarrow> u64 \<Rightarrow> u64 \<Rightarrow> u64" where
  "or_if c bits pte = (if c then pte OR bits else pte)"

section \<open>x86_64\<close>

definition x86_64_make_pte :: "u64 \<Rightarrow> u64 \<Rightarrow> bool \<Rightarrow> u64" where
  "x86_64_make_pte phys_addr fl is_table =
     or_if (fl AND VMM_NO_EXECUTE \<noteq> 0) 0x8000000000000000
    (or_if (fl AND VMM_CACHE_DISABLE \<noteq> 0) 0x10
    (or_if (fl AND VMM_USER \<noteq> 0) 0x4
    (or_if (fl AND VMM_WRITABLE \<noteq> 0) 0x2
    (or_if (fl AND VMM_PRESENT \<noteq> 0) 0x1
      (phys_addr AND NOT 0xFFF)))))"

definition x86_64_pte_is_present :: "u64 \<Rightarrow> bool" where
  "x86_64_pte_is_present pte \<longleftrightarrow> pte AND 0x1 \<noteq> 0"

definition x86_64_pte_get_phys :: "u64 \<Rightarrow> u64" where
  "x86_64_pte_get_phys pte = pte AND 0x000FFFFFFFFFF000"

definition x86_64_pte_get_flags :: "u64 \<Rightarrow> u64" where
  "x86_64_pte_get_flags pte =
     or_if (pte AND 0x8000000000000000 \<noteq> 0) VMM_NO_EXECUTE
    (or_if (pte AND 0x10 \<noteq> 0) VMM_CACHE_DISABLE
    (or_if (pte AND 0x4 \<noteq> 0) VMM_USER
    (or_if (pte AND 0x2 \<noteq> 0) VMM_WRITABLE
    (or_if (pte AND 0x1 \<noteq> 0) VMM_PRESENT 0))))"

definition x86_64_fault_is_present :: "u64 \<Rightarrow> bool" where
  "x86_64_fault_is_present fault_code \<longleftrightarrow> fault_code AND 1 \<noteq> 0"

definition x86_64_fault_is_write :: "u64 \<Rightarrow> bool" where
  "x86_64_fault_is_write fault_code \<longleftrightarrow> fault_code AND 2 \<noteq> 0"

section \<open>AArch64\<close>

definition aarch64_make_pte :: "u64 \<Rightarrow> u64 \<Rightarrow> bool \<Rightarrow> u64" where
  "aarch64_make_pte phys_addr fl is_table =
     (let pte = phys_addr AND 0x0000FFFFFFFFF000 in
      if is_table then pte OR 0x3
      else
        or_if (fl AND VMM_NO_EXECUTE \<noteq> 0) 0x0020000000000000
       (or_if (fl AND VMM_NO_EXECUTE \<noteq> 0) 0x0040000000000000
       (or_if (fl AND VMM_WRITABLE = 0) 0x80
       (or_if (fl AND VMM_USER \<noteq> 0) 0x40
       (or_if (fl AND VMM_CACHE_DISABLE \<noteq> 0) 0x4
         ((or_if (fl AND VMM_PRESENT \<noteq> 0) 0x1 (pte OR 0x2)) OR 0x400 OR 0x300))))))"

definition aarch64_pte_is_present :: "u64 \<Rightarrow> bool" where
  "aarch64_pte_is_present pte \<longleftrightarrow> pte AND 0x1 \<noteq> 0"

definition aarch64_pte_get_flags :: "u64 \<Rightarrow> u64" where
  "aarch64_pte_get_flags pte =
     or_if (pte AND 0x0040000000000000 \<noteq> 0) VMM_NO_EXECUTE
    (or_if (pte AND 0x4 \<noteq> 0) VMM_CACHE_DISABLE
    (or_if (pte AND 0x40 \<noteq> 0) VMM_USER
    (or_if (pte AND 0x80 = 0) VMM_WRITABLE
    (or_if (pte AND 0x1 \<noteq> 0) VMM_PRESENT 0))))"

definition aarch64_pte_get_phys :: "u64 \<Rightarrow> u64" where
  "aarch64_pte_get_phys pte = pte AND 0x0000FFFFFFFFF000"

definition aarch64_fault_is_present :: "u64 \<Rightarrow> bool" where
  "aarch64_fault_is_present fault_code =
     (let dfsc = ucast (fault_code AND 0x3F) :: u32;
          is_translation_fault = (dfsc AND 0x3C = 0x04)
      in \<not> is_translation_fault)"

definition aarch64_fault_is_write :: "u64 \<Rightarrow> bool" where
  "aarch64_fault_is_write fault_code \<longleftrightarrow> fault_code AND 0x40 \<noteq> 0"

section \<open>The interface of arch.h\<close>

text \<open>The kernel is built for one of the two architectures.\<close>

datatype arch = X86_64 | AArch64

definition arch_vmm_make_pte :: "arch \<Rightarrow> u64 \<Rightarrow> u64 \<Rightarrow> bool \<Rightarrow> u64" where
  "arch_vmm_make_pte a = (case a of X86_64 \<Rightarrow> x86_64_make_pte | AArch64 \<Rightarrow> aarch64_make_pte)"

definition arch_vmm_pte_is_present :: "arch \<Rightarrow> u64 \<Rightarrow> bool" where
  "arch_vmm_pte_is_present a = (case a of X86_64 \<Rightarrow> x86_64_pte_is_present | AArch64 \<Rightarrow> aarch64_pte_is_present)"

definition arch_vmm_pte_get_phys :: "arch \<Rightarrow> u64 \<Rightarrow> u64" where
  "arch_vmm_pte_get_phys a = (case a of X86_64 \<Rightarrow> x86_64_pte_get_phys | AArch64 \<Rightarrow> aarch64_pte_get_phys)"

definition arch_vmm_pte_get_flags :: "arch \<Rightarrow> u64 \<Rightarrow> u64" where
  "arch_vmm_pte_get_flags a = (case a of X86_64 \<Rightarrow> x86_64_pte_get_flags | AArch64 \<Rightarrow> aarch64_pte_get_flags)"

definition arch_vmm_fault_is_present :: "arch \<Rightarrow> u64 \<Rightarrow> bool" where
  "arch_vmm_fault_is_present a = (case a of X86_64 \<Rightarrow> x86_64_fault_is_present | AArch64 \<Rightarrow> aarch64_fault_is_present)"

text \<open>Physical addresses an entry can hold: page aligned, below 48 bits on both architectures.\<close>

definition pte_addr :: "u64 \<Rightarrow> bool" where
  "pte_addr p \<longleftrightarrow> p AND NOT 0x0000FFFFFFFFF000 = 0"

locale pte_codec =
  fixes make :: "u64 \<Rightarrow> u64 \<Rightarrow> bool \<Rightarrow> u64"
    and present :: "u64 \<Rightarrow> bool"
    and phys :: "u64 \<Rightarrow> u64"
    and flags :: "u64 \<Rightarrow> u64"
  assumes absent_0: "\<not> present 0"
    and phys_make: "pte_addr p \<Longrightarrow> phys (make p f t) = p"
    and present_table: "f AND 1 \<noteq> 0 \<Longrightarrow> present (make p f True)"
    and present_leaf: "present (make p f False) \<longleftrightarrow> f AND 1 \<noteq> 0"
    and flags_make: "pte_addr p \<Longrightarrow> flags (make p f False) = f AND 31"
begin

text \<open>Nothing is lost between an entry and the generic view of it.\<close>

lemma make_inject:
  assumes "pte_addr p" "pte_addr q" "make p f False = make q g False"
  shows "p = q \<and> f AND 31 = g AND 31"
proof
  show "p = q" using phys_make [OF assms(1), of f False] phys_make [OF assms(2), of g False] assms(3) by simp
  have "f AND 31 = flags (make q g False)" using flags_make [OF assms(1), of f] assms(3) by simp
  then show "f AND 31 = g AND 31" using flags_make [OF assms(2), of g] by simp
qed

end

section \<open>Both formats satisfy the contract\<close>

lemma or_if_and: "bits AND m = 0 \<Longrightarrow> or_if c bits p AND m = p AND m"
  by (simp add: or_if_def bit.conj_disj_distrib2)

lemma or_if_and_bit: "or_if c bits p AND bits = 0 \<longleftrightarrow> \<not> c \<and> p AND bits = 0" if "bits \<noteq> 0"
  using that by (auto simp: or_if_def bit.conj_disj_distrib2)

lemma pte_addr_and: "pte_addr p \<Longrightarrow> k AND 0x0000FFFFFFFFF000 = 0 \<Longrightarrow> p AND k = 0"
proof -
  assume p: "pte_addr p" and k: "k AND 0x0000FFFFFFFFF000 = 0"
  have "p = p AND 0x0000FFFFFFFFF000"
    using p bit.conj_disj_distrib [of p "0x0000FFFFFFFFF000" "NOT 0x0000FFFFFFFFF000"]
    unfolding pte_addr_def bit.disj_cancel_right by simp
  then have "p AND k = p AND (k AND 0x0000FFFFFFFFF000)" by (metis and.assoc and.commute)
  then show ?thesis using k by simp
qed

lemma pte_addr_mask: "pte_addr p \<Longrightarrow> p AND 0x0000FFFFFFFFF000 = p"
  using bit.conj_disj_distrib [of p "0x0000FFFFFFFFF000" "NOT 0x0000FFFFFFFFF000"]
  unfolding pte_addr_def bit.disj_cancel_right by simp

lemma pte_addr_x86: "pte_addr p \<Longrightarrow> (p AND NOT 0xFFF) AND 0x000FFFFFFFFFF000 = p"
proof -
  assume p: "pte_addr p"
  have "(p AND NOT 0xFFF) AND 0x000FFFFFFFFFF000 = (p AND 0x0000FFFFFFFFF000) AND (NOT 0xFFF AND 0x000FFFFFFFFFF000)"
    by (simp add: pte_addr_mask [OF p] and.assoc)
  also have "\<dots> = p AND (0x0000FFFFFFFFF000 AND (NOT 0xFFF AND 0x000FFFFFFFFFF000))" by (simp only: and.assoc)
  also have "\<dots> = p AND 0x0000FFFFFFFFF000" by simp
  finally show ?thesis using pte_addr_mask [OF p] by simp
qed

lemma pte_addr_not: "pte_addr p \<Longrightarrow> p AND NOT 0xFFF = p"
proof -
  assume p: "pte_addr p"
  have "p AND NOT 0xFFF = (p AND 0x0000FFFFFFFFF000) AND NOT 0xFFF" by (simp add: pte_addr_mask [OF p])
  also have "\<dots> = p AND (0x0000FFFFFFFFF000 AND NOT 0xFFF)" by (simp only: and.assoc)
  also have "\<dots> = p AND 0x0000FFFFFFFFF000" by simp
  finally show ?thesis using pte_addr_mask [OF p] by simp
qed

text \<open>The five abstract flags make up the low five bits.\<close>

lemma flags_sum:
  fixes f :: u64
  shows "or_if (f AND 16 \<noteq> 0) 16 (or_if (f AND 8 \<noteq> 0) 8 (or_if (f AND 4 \<noteq> 0) 4
     (or_if (f AND 2 \<noteq> 0) 2 (or_if (f AND 1 \<noteq> 0) 1 0)))) = f AND 31"
proof -
  have bit1: "or_if (f AND k \<noteq> 0) k p = p OR (f AND k)" if "k = 2 ^ n" for k p n
  proof -
    have "f AND k = (if bit f n then k else 0)" unfolding that
      by (rule bit_eqI) (auto simp: bit_simps)
    then show ?thesis by (simp add: or_if_def)
  qed
  have "f AND 31 = f AND (1 OR 2 OR 4 OR 8 OR 16)" by simp
  also have "\<dots> = (f AND 1) OR (f AND 2) OR (f AND 4) OR (f AND 8) OR (f AND 16)"
    by (simp only: bit.conj_disj_distrib)
  finally show ?thesis
    using bit1 [of 16 4] bit1 [of 8 3] bit1 [of 4 2] bit1 [of 2 1] bit1 [of 1 0]
    by (simp only: power_0 power_one_right) (simp add: or.assoc)
qed

lemma and_or_single: "(p OR k) AND m = p AND m" if "k AND m = 0" for p k m :: u64
  using that by (simp add: bit.conj_disj_distrib2)

lemma x86_64_codec:
  "pte_addr p \<Longrightarrow> x86_64_pte_get_phys (x86_64_make_pte p f t) = p"
  "x86_64_pte_is_present (x86_64_make_pte p f t) \<longleftrightarrow> f AND 1 \<noteq> 0"
  "pte_addr p \<Longrightarrow> x86_64_pte_get_flags (x86_64_make_pte p f t) = f AND 31"
proof -
  show "pte_addr p \<Longrightarrow> x86_64_pte_get_phys (x86_64_make_pte p f t) = p"
    using pte_addr_x86 [of p] by (simp add: x86_64_pte_get_phys_def x86_64_make_pte_def or_if_and)
  have low: "(p AND NOT 0xFFF) AND 1 = 0" by (simp add: and.assoc)
  show "x86_64_pte_is_present (x86_64_make_pte p f t) \<longleftrightarrow> f AND 1 \<noteq> 0"
    using low by (simp add: x86_64_pte_is_present_def x86_64_make_pte_def or_if_and or_if_and_bit vmm_flags)
  show "x86_64_pte_get_flags (x86_64_make_pte p f t) = f AND 31" if p: "pte_addr p"
  proof -
    let ?q = "x86_64_make_pte p f t"
    have "?q AND 0x8000000000000000 \<noteq> 0 \<longleftrightarrow> f AND 16 \<noteq> 0" "?q AND 0x10 \<noteq> 0 \<longleftrightarrow> f AND 8 \<noteq> 0"
      "?q AND 0x4 \<noteq> 0 \<longleftrightarrow> f AND 4 \<noteq> 0" "?q AND 0x2 \<noteq> 0 \<longleftrightarrow> f AND 2 \<noteq> 0" "?q AND 0x1 \<noteq> 0 \<longleftrightarrow> f AND 1 \<noteq> 0"
      unfolding x86_64_make_pte_def pte_addr_not [OF p]
      by (simp_all add: or_if_and or_if_and_bit vmm_flags pte_addr_and [OF p])
    then show ?thesis unfolding x86_64_pte_get_flags_def vmm_flags by (simp only: flags_sum)
  qed
qed

lemma aarch64_codec:
  "pte_addr p \<Longrightarrow> aarch64_pte_get_phys (aarch64_make_pte p f t) = p"
  "aarch64_pte_is_present (aarch64_make_pte p f True)"
  "aarch64_pte_is_present (aarch64_make_pte p f False) \<longleftrightarrow> f AND 1 \<noteq> 0"
  "aarch64_pte_get_flags (aarch64_make_pte p f False) = f AND 31"
proof -
  show "pte_addr p \<Longrightarrow> aarch64_pte_get_phys (aarch64_make_pte p f t) = p"
    by (simp add: aarch64_pte_get_phys_def aarch64_make_pte_def Let_def or_if_and and_or_single pte_addr_mask)
  have low: "(p AND 0x0000FFFFFFFFF000) AND k = 0" if "0x0000FFFFFFFFF000 AND k = 0" for k
    using that by (simp add: and.assoc)
  show "aarch64_pte_is_present (aarch64_make_pte p f True)"
    by (simp add: aarch64_pte_is_present_def aarch64_make_pte_def bit.conj_disj_distrib2 low)
  show "aarch64_pte_is_present (aarch64_make_pte p f False) \<longleftrightarrow> f AND 1 \<noteq> 0"
    by (simp add: aarch64_pte_is_present_def aarch64_make_pte_def Let_def or_if_and or_if_and_bit and_or_single
        vmm_flags low)
  let ?q = "aarch64_make_pte p f False"
  have "?q AND 0x0040000000000000 \<noteq> 0 \<longleftrightarrow> f AND 16 \<noteq> 0" "?q AND 0x4 \<noteq> 0 \<longleftrightarrow> f AND 8 \<noteq> 0"
    "?q AND 0x40 \<noteq> 0 \<longleftrightarrow> f AND 4 \<noteq> 0" "?q AND 0x80 = 0 \<longleftrightarrow> f AND 2 \<noteq> 0" "?q AND 0x1 \<noteq> 0 \<longleftrightarrow> f AND 1 \<noteq> 0"
    by (simp_all add: aarch64_make_pte_def Let_def or_if_and or_if_and_bit and_or_single vmm_flags low)
  then show "aarch64_pte_get_flags (aarch64_make_pte p f False) = f AND 31"
    unfolding aarch64_pte_get_flags_def vmm_flags by (simp only: flags_sum)
qed

lemmas arch_vmm_defs = arch_vmm_make_pte_def arch_vmm_pte_is_present_def arch_vmm_pte_get_phys_def
  arch_vmm_pte_get_flags_def

interpretation pte: pte_codec "arch_vmm_make_pte a" "arch_vmm_pte_is_present a" "arch_vmm_pte_get_phys a"
  "arch_vmm_pte_get_flags a" for a
proof
  show "\<not> arch_vmm_pte_is_present a 0"
    by (cases a) (simp_all add: arch_vmm_defs x86_64_pte_is_present_def aarch64_pte_is_present_def)
next
  fix p f t assume "pte_addr p"
  then show "arch_vmm_pte_get_phys a (arch_vmm_make_pte a p f t) = p"
    by (cases a) (simp_all add: arch_vmm_defs x86_64_codec aarch64_codec)
next
  fix p and f :: u64 assume "f AND 1 \<noteq> 0"
  then show "arch_vmm_pte_is_present a (arch_vmm_make_pte a p f True)"
    by (cases a) (simp_all only: arch_vmm_defs x86_64_codec aarch64_codec arch.case not_False_eq_True)
next
  fix p f
  show "arch_vmm_pte_is_present a (arch_vmm_make_pte a p f False) \<longleftrightarrow> f AND 1 \<noteq> 0"
    by (cases a) (simp_all only: arch_vmm_defs x86_64_codec aarch64_codec arch.case)
next
  fix p f assume "pte_addr p"
  then show "arch_vmm_pte_get_flags a (arch_vmm_make_pte a p f False) = f AND 31"
    by (cases a) (simp_all only: arch_vmm_defs x86_64_codec aarch64_codec arch.case)
qed

text \<open>C25. On both architectures a leaf entry keeps its page frame and its five flags: decoding what
  \<open>arch_vmm_make_pte\<close> built gives back the address and the flags, and the entry is valid exactly when
  \<open>VMM_PRESENT\<close> was asked for; two different mappings never have the same entry.\<close>

theorem pte_roundtrip:
  assumes "pte_addr p"
  shows "arch_vmm_pte_get_phys a (arch_vmm_make_pte a p f False) = p \<and>
    arch_vmm_pte_get_flags a (arch_vmm_make_pte a p f False) = f AND 31 \<and>
    (arch_vmm_pte_is_present a (arch_vmm_make_pte a p f False) \<longleftrightarrow> f AND VMM_PRESENT \<noteq> 0) \<and>
    (\<forall>q g. pte_addr q \<and> arch_vmm_make_pte a p f False = arch_vmm_make_pte a q g False \<longrightarrow> p = q \<and> f AND 31 = g AND 31)"
  unfolding VMM_PRESENT_def
  by (intro conjI pte.phys_make [OF assms] pte.flags_make [OF assms] pte.present_leaf)
    (use pte.make_inject [OF assms] in blast)

theorem pte_roundtrip_witness:
  "arch_vmm_pte_get_phys AArch64 (arch_vmm_make_pte AArch64 0x123000 7 False) = 0x123000"
  using pte_roundtrip [of "0x123000" AArch64 7] by (simp add: pte_addr_def)

end
