(* ===== verification/Vmm.thy ===== *)
theory Vmm
  imports Kheap_Alloc Arch_Pte
begin

text \<open>
  The virtual memory manager of \<^verbatim>\<open>kernel/src/mm/vmm.c\<close> and the page-table primitives it takes from
  \<^verbatim>\<open>kernel/src/arch/*/arch.c\<close>. Page tables live in the byte memory; the kernel reaches them through
  the direct map. The translation cache is not modelled, so \<open>arch_vmm_invlpg\<close> has no effect here.
\<close>

section \<open>State\<close>

text \<open>\<open>user_root_reg\<close> is CR3 or TTBR0_EL1, \<open>kernel_root_reg\<close> is TTBR1_EL1 (not used on x86_64).\<close>

record vmm_state = heap_state +
  vmm_kernel_context :: u64
  vmm_current_context :: u64
  user_root_reg :: u64
  kernel_root_reg :: u64

text \<open>\<^verbatim>\<open>struct vmm_context\<close> has four 64-bit fields.\<close>

definition VMM_CONTEXT_SIZE :: u64 where "VMM_CONTEXT_SIZE = 32"

definition ctx_root_phys :: "mem \<Rightarrow> u64 \<Rightarrow> u64" where "ctx_root_phys m ctx = load64 m ctx"
definition ctx_root_virt :: "mem \<Rightarrow> u64 \<Rightarrow> u64" where "ctx_root_virt m ctx = load64 m (ctx + 8)"
definition ctx_demand_lo :: "mem \<Rightarrow> u64 \<Rightarrow> u64" where "ctx_demand_lo m ctx = load64 m (ctx + 16)"
definition ctx_demand_hi :: "mem \<Rightarrow> u64 \<Rightarrow> u64" where "ctx_demand_hi m ctx = load64 m (ctx + 24)"

definition ctx_fill :: "u64 \<Rightarrow> u64 \<Rightarrow> 'a pmm_state_scheme \<Rightarrow> 'a pmm_state_scheme" where
  "ctx_fill ctx root s =
     (let m1 = store64 (kmem s) ctx root;
          m2 = store64 m1 (ctx + 8) (pmm_phys_to_virt s root);
          m3 = store64 m2 (ctx + 16) 0;
          m4 = store64 m3 (ctx + 24) 0
      in s\<lparr>kmem := m4\<rparr>)"

section \<open>Root tables\<close>

definition arch_vmm_get_kernel_root :: "arch \<Rightarrow> 'a vmm_state_scheme \<Rightarrow> u64" where
  "arch_vmm_get_kernel_root a s =
     (case a of X86_64 \<Rightarrow> user_root_reg s | AArch64 \<Rightarrow> kernel_root_reg s AND 0x0000FFFFFFFFFFFE)"

definition arch_vmm_set_user_root :: "u64 \<Rightarrow> 'a vmm_state_scheme \<Rightarrow> 'a vmm_state_scheme" where
  "arch_vmm_set_user_root phys_addr s = s\<lparr>user_root_reg := phys_addr\<rparr>"

text \<open>A page from the allocator, filled with zeroes; 0 when there is none.\<close>

definition alloc_zeroed_page :: "'a pmm_state_scheme \<Rightarrow> (u64 \<times> 'a pmm_state_scheme) option" where
  "alloc_zeroed_page s =
     Option.bind (pmm_alloc 1 s)
       (\<lambda>(phys, s1). if phys = 0 then Some (0, s1)
          else Some (phys, s1\<lparr>kmem := memset (kmem s1) (pmm_phys_to_virt s1 phys) 0 PAGE_SIZE\<rparr>))"

definition arch_vmm_ensure_user_root :: "arch \<Rightarrow> 'a vmm_state_scheme \<Rightarrow> (u64 \<times> 'a vmm_state_scheme) option" where
  "arch_vmm_ensure_user_root a s =
     (case a of
        X86_64 \<Rightarrow> Some (arch_vmm_get_kernel_root a s, s)
      | AArch64 \<Rightarrow>
          let root_phys = user_root_reg s AND 0x0000FFFFFFFFFFFE in
          if root_phys \<noteq> 0 then Some (root_phys, s)
          else Option.bind (alloc_zeroed_page s)
            (\<lambda>(root_phys, s1). if root_phys = 0 then Some (0, s1)
               else Some (root_phys, arch_vmm_set_user_root root_phys s1)))"

text \<open>The loop \<^verbatim>\<open>root_virt[i] = kernel_root_virt[i]\<close> over the upper half.\<close>

definition clone_upper_half :: "u64 \<Rightarrow> u64 \<Rightarrow> mem \<Rightarrow> mem" where
  "clone_upper_half root_virt kernel_root_virt m =
     fold (\<lambda>i m. store64 m (root_virt + 8 * of_nat i) (load64 m (kernel_root_virt + 8 * of_nat i))) [256..<512] m"

definition arch_vmm_new_context_root ::
  "arch \<Rightarrow> u64 \<Rightarrow> 'a pmm_state_scheme \<Rightarrow> (u64 \<times> 'a pmm_state_scheme) option" where
  "arch_vmm_new_context_root a kernel_root_phys s =
     Option.bind (alloc_zeroed_page s)
       (\<lambda>(root_phys, s1). if root_phys = 0 then Some (0, s1)
          else case a of
              X86_64 \<Rightarrow> Some (root_phys, s1\<lparr>kmem := clone_upper_half (pmm_phys_to_virt s1 root_phys)
                                                (pmm_phys_to_virt s1 kernel_root_phys) (kmem s1)\<rparr>)
            | AArch64 \<Rightarrow> Some (root_phys, s1))"

section \<open>Contexts\<close>

text \<open>The boot loader's paging mode is a parameter, \<open>None\<close> when it gave no response. The
  result \<open>None\<close> is a kernel panic.\<close>

definition vmm_init :: "arch \<Rightarrow> u64 option \<Rightarrow> u64 \<Rightarrow> 'a vmm_state_scheme \<Rightarrow> 'a vmm_state_scheme option" where
  "vmm_init a mode min_mode s =
     (if mode \<noteq> Some min_mode then None
      else Option.bind (kmalloc VMM_CONTEXT_SIZE s)
        (\<lambda>(ctx, s1). if ctx = 0 then None
           else let s1 = s1\<lparr>vmm_kernel_context := ctx\<rparr> in
             Option.bind (arch_vmm_ensure_user_root a s1)
               (\<lambda>(user_root, s2). if user_root = 0 then None
                  else Some ((ctx_fill ctx user_root s2)\<lparr>vmm_current_context := ctx\<rparr>))))"

definition vmm_create_context :: "arch \<Rightarrow> 'a vmm_state_scheme \<Rightarrow> (u64 \<times> 'a vmm_state_scheme) option" where
  "vmm_create_context a s =
     Option.bind (arch_vmm_new_context_root a (arch_vmm_get_kernel_root a s) s)
       (\<lambda>(root_phys, s1). if root_phys = 0 then Some (0, s1)
          else Option.bind (kmalloc VMM_CONTEXT_SIZE s1)
            (\<lambda>(ctx, s2). if ctx = 0 then Some (0, pmm_free root_phys 1 s2)
               else Some (ctx, ctx_fill ctx root_phys s2)))"

text \<open>One iteration of the freeing loops: the pages below a present entry first (\<open>below\<close>), then the
  page the entry names.\<close>

definition vmm_free_slot ::
  "arch \<Rightarrow> (u64 \<Rightarrow> 'a pmm_state_scheme \<Rightarrow> 'a pmm_state_scheme) \<Rightarrow> u64 \<Rightarrow> nat \<Rightarrow>
     'a pmm_state_scheme \<Rightarrow> 'a pmm_state_scheme" where
  "vmm_free_slot a below table i s =
     (let pte = load64 (kmem s) (table + 8 * of_nat i) in
      if \<not> arch_vmm_pte_is_present a pte then s
      else let child_phys = arch_vmm_pte_get_phys a pte
           in pmm_free child_phys 1 (below (pmm_phys_to_virt s child_phys) s))"

primrec vmm_free_table_recursive ::
  "nat \<Rightarrow> arch \<Rightarrow> u64 \<Rightarrow> 'a pmm_state_scheme \<Rightarrow> 'a pmm_state_scheme" where
  "vmm_free_table_recursive 0 a table s = fold (vmm_free_slot a (\<lambda>_ s. s) table) [0..<512] s"
| "vmm_free_table_recursive (Suc level) a table s =
     fold (vmm_free_slot a (vmm_free_table_recursive level a) table) [0..<512] s"

definition vmm_destroy_context :: "arch \<Rightarrow> u64 \<Rightarrow> 'a heap_state_scheme \<Rightarrow> 'a heap_state_scheme option" where
  "vmm_destroy_context a ctx s =
     (if ctx = 0 then Some s
      else let s1 = (if ctx_root_phys (kmem s) ctx \<noteq> 0
                     then let s' = fold (\<lambda>i s. vmm_free_slot a (vmm_free_table_recursive 2 a)
                                             (ctx_root_virt (kmem s) ctx) i s) [0..<256] s
                          in pmm_free (ctx_root_phys (kmem s') ctx) 1 s'
                     else s)
           in kfree ctx s1)"

section \<open>Walking the tables\<close>

definition VMM_LEVEL_BITS :: nat where "VMM_LEVEL_BITS = 9"
definition VMM_LEVELS :: nat where "VMM_LEVELS = 4"
definition VMM_VA_BITS :: nat where "VMM_VA_BITS = 12 + VMM_LEVELS * VMM_LEVEL_BITS"
definition VMM_ADDR_SPLIT :: u64 where "VMM_ADDR_SPLIT = push_bit (VMM_VA_BITS - 1) 1"

definition VMM_INDEX :: "u64 \<Rightarrow> nat \<Rightarrow> u64" where
  "VMM_INDEX virt_addr level =
     drop_bit (12 + level * VMM_LEVEL_BITS) virt_addr AND (push_bit VMM_LEVEL_BITS 1 - 1)"

definition get_root_table :: "arch \<Rightarrow> u64 \<Rightarrow> u64 \<Rightarrow> 'a vmm_state_scheme \<Rightarrow> u64" where
  "get_root_table a ctx virt_addr s =
     (if virt_addr \<ge> VMM_ADDR_SPLIT then pmm_phys_to_virt s (arch_vmm_get_kernel_root a s)
      else ctx_root_virt (kmem s) ctx)"

definition get_or_create_table ::
  "arch \<Rightarrow> u64 \<Rightarrow> u64 \<Rightarrow> 'a pmm_state_scheme \<Rightarrow> (u64 \<times> 'a pmm_state_scheme) option" where
  "get_or_create_table a table index s =
     (let pte = load64 (kmem s) (table + 8 * index) in
      if arch_vmm_pte_is_present a pte
      then Some (pmm_phys_to_virt s (arch_vmm_pte_get_phys a pte), s)
      else Option.bind (alloc_zeroed_page s)
        (\<lambda>(child_phys, s1). if child_phys = 0 then Some (0, s1)
           else Some (pmm_phys_to_virt s1 child_phys,
                  s1\<lparr>kmem := store64 (kmem s1) (table + 8 * index)
                       (arch_vmm_make_pte a child_phys (VMM_PRESENT OR VMM_WRITABLE OR VMM_USER) True)\<rparr>)))"

text \<open>The loop over the levels, from \<open>level\<close> down to 1.\<close>

fun walk_levels ::
  "nat \<Rightarrow> arch \<Rightarrow> u64 \<Rightarrow> u64 \<Rightarrow> bool \<Rightarrow> 'a pmm_state_scheme \<Rightarrow> (u64 \<times> 'a pmm_state_scheme) option" where
  "walk_levels 0 a table virt_addr create s = Some (table, s)"
| "walk_levels (Suc l) a table virt_addr create s =
     (let index = VMM_INDEX virt_addr (Suc l); pte = load64 (kmem s) (table + 8 * index) in
      Option.bind
        (if create then get_or_create_table a table index s
         else if arch_vmm_pte_is_present a pte then Some (pmm_phys_to_virt s (arch_vmm_pte_get_phys a pte), s)
         else Some (0, s))
        (\<lambda>(table', s'). if table' = 0 then Some (0, s') else walk_levels l a table' virt_addr create s'))"

definition walk_to_leaf_slot ::
  "arch \<Rightarrow> u64 \<Rightarrow> u64 \<Rightarrow> bool \<Rightarrow> 'a vmm_state_scheme \<Rightarrow> (u64 \<times> 'a vmm_state_scheme) option" where
  "walk_to_leaf_slot a ctx virt_addr create s =
     (let table = get_root_table a ctx virt_addr s in
      if table = 0 then Some (0, s)
      else Option.bind (walk_levels (VMM_LEVELS - 1) a table virt_addr create s)
        (\<lambda>(table, s'). if table = 0 then Some (0, s')
           else Some (table + 8 * VMM_INDEX virt_addr 0, s')))"

section \<open>Mapping, unmapping, translating, switching\<close>

text \<open>The \<^verbatim>\<open>int\<close> results are integers, -1 for failure.\<close>

definition vmm_map_page ::
  "arch \<Rightarrow> u64 \<Rightarrow> u64 \<Rightarrow> u64 \<Rightarrow> u64 \<Rightarrow> 'a vmm_state_scheme \<Rightarrow> (int \<times> 'a vmm_state_scheme) option" where
  "vmm_map_page a ctx virt_addr phys_addr flags s =
     (if ctx = 0 then Some (-1, s)
      else Option.bind (walk_to_leaf_slot a ctx virt_addr True s)
        (\<lambda>(leaf, s'). if leaf = 0 then Some (-1, s')
           else Some (0, s'\<lparr>kmem := store64 (kmem s') leaf
                              (arch_vmm_make_pte a phys_addr (flags OR VMM_PRESENT) False)\<rparr>)))"

definition vmm_unmap_page :: "arch \<Rightarrow> u64 \<Rightarrow> u64 \<Rightarrow> 'a vmm_state_scheme \<Rightarrow> (int \<times> 'a vmm_state_scheme) option" where
  "vmm_unmap_page a ctx virt_addr s =
     (if ctx = 0 then Some (-1, s)
      else Option.bind (walk_to_leaf_slot a ctx virt_addr False s)
        (\<lambda>(leaf, s'). if leaf = 0 \<or> \<not> arch_vmm_pte_is_present a (load64 (kmem s') leaf) then Some (-1, s')
           else Some (0, s'\<lparr>kmem := store64 (kmem s') leaf 0\<rparr>)))"

definition vmm_virt_to_phys :: "arch \<Rightarrow> u64 \<Rightarrow> u64 \<Rightarrow> 'a vmm_state_scheme \<Rightarrow> u64 option" where
  "vmm_virt_to_phys a ctx virt_addr s =
     (if ctx = 0 then Some 0
      else Option.bind (walk_to_leaf_slot a ctx virt_addr False s)
        (\<lambda>(leaf, s'). if leaf = 0 \<or> \<not> arch_vmm_pte_is_present a (load64 (kmem s') leaf) then Some 0
           else Some (arch_vmm_pte_get_phys a (load64 (kmem s') leaf) OR (virt_addr AND (PAGE_SIZE - 1)))))"

definition vmm_switch_context :: "u64 \<Rightarrow> 'a vmm_state_scheme \<Rightarrow> 'a vmm_state_scheme" where
  "vmm_switch_context ctx s =
     (if ctx \<noteq> 0 \<and> ctx_root_phys (kmem s) ctx \<noteq> 0
      then arch_vmm_set_user_root (ctx_root_phys (kmem s) ctx) (s\<lparr>vmm_current_context := ctx\<rparr>)
      else s)"

section \<open>Page faults\<close>

definition try_handle_hhdm_mmio_fault ::
  "arch \<Rightarrow> u64 \<Rightarrow> u64 \<Rightarrow> 'a vmm_state_scheme \<Rightarrow> (bool \<times> 'a vmm_state_scheme) option" where
  "try_handle_hhdm_mmio_fault a fault_addr error_code s =
     (let hhdm_base = hhdm_get_offset s;
          hhdm_top = hhdm_base + pmm_get_max_phys_addr s
      in if hhdm_base = 0 \<or> fault_addr < hhdm_base \<or> fault_addr \<ge> hhdm_top then Some (False, s)
         else if arch_vmm_fault_is_present a error_code then Some (False, s)
         else let phys_addr = fault_addr - hhdm_base;
                  aligned_virt = fault_addr AND NOT (PAGE_SIZE - 1);
                  aligned_phys = phys_addr AND NOT (PAGE_SIZE - 1)
              in map_option (\<lambda>(r, s'). (r = 0, s'))
                   (vmm_map_page a (vmm_kernel_context s) aligned_virt aligned_phys
                      (VMM_WRITABLE OR VMM_CACHE_DISABLE) s))"

definition try_handle_demand_page_fault ::
  "arch \<Rightarrow> u64 \<Rightarrow> u64 \<Rightarrow> 'a vmm_state_scheme \<Rightarrow> (bool \<times> 'a vmm_state_scheme) option" where
  "try_handle_demand_page_fault a fault_addr error_code s =
     (let ctx = vmm_current_context s in
      if ctx = 0 then Some (False, s)
      else if fault_addr < ctx_demand_lo (kmem s) ctx \<or> fault_addr \<ge> ctx_demand_hi (kmem s) ctx
      then Some (False, s)
      else if arch_vmm_fault_is_present a error_code then Some (False, s)
      else Option.bind (alloc_zeroed_page s)
        (\<lambda>(phys_addr, s1). if phys_addr = 0 then Some (False, s1)
           else Option.bind
             (vmm_map_page a (vmm_current_context s1) (fault_addr AND NOT (PAGE_SIZE - 1)) phys_addr
                (VMM_WRITABLE OR VMM_USER) s1)
             (\<lambda>(r, s2). if r \<noteq> 0 then Some (False, pmm_free phys_addr 1 s2) else Some (True, s2))))"

definition vmm_handle_page_fault ::
  "arch \<Rightarrow> u64 \<Rightarrow> u64 \<Rightarrow> 'a vmm_state_scheme \<Rightarrow> (bool \<times> 'a vmm_state_scheme) option" where
  "vmm_handle_page_fault a fault_addr error_code s =
     Option.bind (try_handle_hhdm_mmio_fault a fault_addr error_code s)
       (\<lambda>(handled, s'). if handled then Some (True, s')
          else try_handle_demand_page_fault a fault_addr error_code s')"

end
