(* ===== verification/Vmm_Space.thy ===== *)
theory Vmm_Space
  imports Vmm
begin

text \<open>
  The page tables of all contexts as a forest of table pages, and what the walking functions of
  \<^verbatim>\<open>vmm.c\<close> do to it. The forest covers the lower half of every context: table entries 0 to 255 of
  a root and all entries below.
\<close>

section \<open>Entries\<close>

definition pt_entry :: "'a pmm_state_scheme \<Rightarrow> u64 \<Rightarrow> nat \<Rightarrow> u64" where
  "pt_entry s x i = load64 (kmem s) (x + hhdm_offset s + 8 * of_nat i)"

lemma of_nat_8: "8 * of_nat i = (of_nat (8 * i) :: u64)"
  by simp

lemma entry_bytes: "i < 512 \<Longrightarrow> y \<in> extent (x + 8 * of_nat i) 8 \<Longrightarrow> in_page x y"
  using extent_sub [of "8 * i" 8 4096 x] unfolding of_nat_8 in_page_extent by auto

lemma entries_disj:
  assumes "i < 512" "j < 512" "i \<noteq> j"
  shows "extent (x + 8 * of_nat i) 8 \<inter> extent (x + 8 * of_nat j) (8 :: nat) = {}"
proof -
  have *: "extent (x + 8 * of_nat i) 8 \<inter> extent (x + 8 * of_nat j) 8 = {}" if "i < j" "j < 512" for i j
  proof -
    have "extent (x + 8 * of_nat i) 8 \<subseteq> extent x (8 * j)"
      unfolding of_nat_8 using that by (intro extent_sub) auto
    moreover have "extent x (8 * j) \<inter> extent (x + 8 * of_nat j) 8 = {}"
      unfolding of_nat_8 using that by (intro extent_disj) auto
    ultimately show ?thesis by blast
  qed
  show ?thesis using *[of i j] *[of j i] assms by (cases "i < j") auto
qed

lemma pt_entry_agree:
  assumes "\<And>y. in_page x y \<Longrightarrow> phys_byte s' y = phys_byte s y" "hhdm_offset s' = hhdm_offset s" "i < 512"
  shows "pt_entry s' x i = pt_entry s x i"
  unfolding pt_entry_def assms(2)
proof (rule load64_agree)
  fix y assume "y \<in> extent (x + hhdm_offset s + 8 * of_nat i) 8"
  then have "in_page (x + hhdm_offset s) y" using assms(3) by (rule entry_bytes [rotated])
  then have "in_page x (y - hhdm_offset s)" using in_page_shift [of x "hhdm_offset s" "y - hhdm_offset s"] by simp
  from assms(1) [OF this] show "kmem s' y = kmem s y" by (simp add: phys_byte_def assms(2))
qed

text \<open>Writing one entry of a table.\<close>

definition pt_set :: "u64 \<Rightarrow> nat \<Rightarrow> u64 \<Rightarrow> 'a pmm_state_scheme \<Rightarrow> 'a pmm_state_scheme" where
  "pt_set x i e s = s\<lparr>kmem := store64 (kmem s) (x + hhdm_offset s + 8 * of_nat i) e\<rparr>"

lemma pt_set_sel [simp]:
  "hhdm_offset (pt_set x i e s) = hhdm_offset s" "free_list_head (pt_set x i e s) = free_list_head s"
  "pmm_state.more (pt_set x i e s) = pmm_state.more s" "max_phys_addr (pt_set x i e s) = max_phys_addr s"
  by (simp_all add: pt_set_def)

lemma pt_set_out: "i < 512 \<Longrightarrow> \<not> in_page x y \<Longrightarrow> phys_byte (pt_set x i e s) y = phys_byte s y"
  unfolding pt_set_def phys_byte_def
  using entry_bytes [of i "y + hhdm_offset s" "x + hhdm_offset s"] in_page_shift [of x "hhdm_offset s" y]
    store64_out [of "y + hhdm_offset s" "x + hhdm_offset s + 8 * of_nat i" "kmem s" e]
  by auto

lemma pt_entry_set:
  assumes "i < 512" "j < 512"
  shows "pt_entry (pt_set x i e s) x j = (if j = i then e else pt_entry s x j)"
  using assms entries_disj [of i j "x + hhdm_offset s"]
  by (auto simp: pt_entry_def pt_set_def load64_store64_same load64_store64_disj)

lemma pt_entry_set_other:
  assumes "i < 512" "j < 512" "page_aligned x" "page_aligned y" "x \<noteq> y"
  shows "pt_entry (pt_set x i e s) y j = pt_entry s y j"
  using assms in_page_unique by (intro pt_entry_agree) (auto intro!: pt_set_out)

section \<open>The walk of the hardware\<close>

text \<open>The hardware's walk from the table at physical address \<open>x\<close>: the leaf entry the indices lead
  to, \<open>None\<close> for a translation fault.\<close>

fun pt_walk :: "arch \<Rightarrow> 'a pmm_state_scheme \<Rightarrow> u64 \<Rightarrow> nat list \<Rightarrow> u64 option" where
  "pt_walk a s x [] = None"
| "pt_walk a s x [i] =
     (if arch_vmm_pte_is_present a (pt_entry s x i) then Some (pt_entry s x i) else None)"
| "pt_walk a s x (i # j # is) =
     (if arch_vmm_pte_is_present a (pt_entry s x i)
      then pt_walk a s (arch_vmm_pte_get_phys a (pt_entry s x i)) (j # is) else None)"

text \<open>The indices of an address, from the root table down.\<close>

definition va_path :: "u64 \<Rightarrow> nat list" where
  "va_path va = map (\<lambda>l. unat (VMM_INDEX va l)) [3, 2, 1, 0]"

text \<open>The address space below a root: page frame and flags of the page that holds an address.\<close>

definition vspace :: "arch \<Rightarrow> 'a pmm_state_scheme \<Rightarrow> u64 \<Rightarrow> u64 \<Rightarrow> (u64 \<times> u64) option" where
  "vspace a s root va =
     map_option (\<lambda>e. (arch_vmm_pte_get_phys a e, arch_vmm_pte_get_flags a e)) (pt_walk a s root (va_path va))"

section \<open>The forest of tables\<close>

text \<open>\<open>T (r, p)\<close> is the table page that the indices \<open>p\<close> lead to from root \<open>r\<close>.\<close>

type_synonym tabs = "(u64 \<times> nat list) \<Rightarrow> u64 option"

definition slot_ok :: "nat list \<Rightarrow> nat \<Rightarrow> bool" where
  "slot_ok p i \<longleftrightarrow> i < 512 \<and> (p = [] \<longrightarrow> i < 256)"

definition path_ok :: "nat list \<Rightarrow> bool" where
  "path_ok p \<longleftrightarrow> set p \<subseteq> {..<512} \<and> (p \<noteq> [] \<longrightarrow> hd p < 256)"

lemma path_ok_snoc [simp]: "path_ok (p @ [i]) \<longleftrightarrow> path_ok p \<and> slot_ok p i"
  by (cases p) (auto simp: path_ok_def slot_ok_def)

lemma path_ok_append: "path_ok (p @ i # q) \<Longrightarrow> slot_ok p i"
  by (cases p) (auto simp: path_ok_def slot_ok_def)

definition pt_child :: "arch \<Rightarrow> 'a pmm_state_scheme \<Rightarrow> u64 \<Rightarrow> nat \<Rightarrow> u64 option" where
  "pt_child a s x i = (if arch_vmm_pte_is_present a (pt_entry s x i)
     then Some (arch_vmm_pte_get_phys a (pt_entry s x i)) else None)"

definition pt_tabs :: "arch \<Rightarrow> 'a pmm_state_scheme \<Rightarrow> tabs \<Rightarrow> bool" where
  "pt_tabs a s T \<longleftrightarrow>
     (\<forall>k x. T k = Some x \<longrightarrow> pmm_page_ok s x \<and> pte_addr x) \<and> inj_on T (dom T) \<and>
     (\<forall>r x. T (r, []) = Some x \<longrightarrow> x = r) \<and>
     (\<forall>r p x i. T (r, p) = Some x \<longrightarrow> length p < 3 \<longrightarrow> slot_ok p i \<longrightarrow> pt_child a s x i = T (r, p @ [i])) \<and>
     (\<forall>r p i. T (r, p @ [i]) \<noteq> None \<longrightarrow> T (r, p) \<noteq> None \<and> length p < 3 \<and> slot_ok p i)"

text \<open>No table page is free, and every free page can be named by an entry.\<close>

definition vm_inv :: "arch \<Rightarrow> 'a pmm_state_scheme \<Rightarrow> u64 set \<Rightarrow> tabs \<Rightarrow> bool" where
  "vm_inv a s F T \<longleftrightarrow> pmm_rel s F \<and> pt_tabs a s T \<and> ran T \<inter> F = {} \<and> (\<forall>q \<in> F. pte_addr q)"

lemma pt_tabs_child:
  "pt_tabs a s T \<Longrightarrow> T (r, p) = Some x \<Longrightarrow> length p < 3 \<Longrightarrow> slot_ok p i \<Longrightarrow> pt_child a s x i = T (r, p @ [i])"
  by (simp add: pt_tabs_def)

lemma pt_tabs_none: "pt_tabs a s T \<Longrightarrow> T (r, p) = None \<Longrightarrow> T (r, p @ q) = None"
proof (induction q rule: rev_induct)
  case (snoc i q)
  then have "T (r, p @ q) = None" by simp
  then show ?case using snoc.prems(1) unfolding pt_tabs_def by (metis append.assoc)
qed simp

lemma pt_tabs_path: "pt_tabs a s T \<Longrightarrow> T (r, p) \<noteq> None \<Longrightarrow> length p \<le> 3 \<and> path_ok p"
proof (induction p rule: rev_induct)
  case Nil
  then show ?case by (simp add: path_ok_def)
next
  case (snoc i p)
  then have "T (r, p) \<noteq> None" "length p < 3" "slot_ok p i" unfolding pt_tabs_def by blast+
  then show ?case using snoc by simp
qed

lemma pt_tabs_inj: "pt_tabs a s T \<Longrightarrow> T k = Some x \<Longrightarrow> T k' = Some x \<Longrightarrow> k = k'"
  unfolding pt_tabs_def inj_on_def by (metis domI)

definition leaf_of :: "arch \<Rightarrow> 'a pmm_state_scheme \<Rightarrow> tabs \<Rightarrow> u64 \<Rightarrow> nat list \<Rightarrow> u64 option" where
  "leaf_of a s T r p =
     (case T (r, butlast p) of None \<Rightarrow> None
      | Some y \<Rightarrow> if arch_vmm_pte_is_present a (pt_entry s y (last p)) then Some (pt_entry s y (last p)) else None)"

lemma pt_walk_leaf:
  assumes tabs: "pt_tabs a s T"
  shows "T (r, p) = Some x \<Longrightarrow> q \<noteq> [] \<Longrightarrow> length p + length q = 4 \<Longrightarrow> path_ok (p @ q) \<Longrightarrow>
    pt_walk a s x q = leaf_of a s T r (p @ q)"
proof (induction q arbitrary: p x)
  case (Cons i q)
  show ?case
  proof (cases q)
    case Nil
    then show ?thesis using Cons.prems by (simp add: leaf_of_def butlast_append)
  next
    case (Cons j js)
    have child: "pt_child a s x i = T (r, p @ [i])"
      using Cons.prems Cons path_ok_append by (intro pt_tabs_child [OF tabs]) auto
    show ?thesis
    proof (cases "T (r, p @ [i])")
      case None
      have "butlast (p @ i # q) = (p @ [i]) @ butlast q" using Cons by (simp add: butlast_append)
      then have "T (r, butlast (p @ i # q)) = None" using pt_tabs_none [OF tabs None] by simp
      then show ?thesis using child None Cons by (simp add: leaf_of_def pt_child_def split: if_splits)
    next
      case (Some y)
      then have "pt_walk a s y q = leaf_of a s T r ((p @ [i]) @ q)"
        using Cons.prems Cons by (intro Cons.IH) auto
      then show ?thesis using child Some Cons by (auto simp: pt_child_def split: if_splits)
    qed
  qed
qed simp

lemma pt_walk_root:
  assumes "pt_tabs a s T" "T (r, []) \<noteq> None" "length q = 4" "path_ok q"
  shows "pt_walk a s r q = leaf_of a s T r q"
proof -
  have "T (r, []) = Some r" using assms(1,2) unfolding pt_tabs_def by auto
  moreover have "q \<noteq> []" using assms(3) by auto
  ultimately show ?thesis using pt_walk_leaf [OF assms(1), of r "[]" r q] assms(3,4) by simp
qed

section \<open>Taking pages for new tables\<close>

lemma alloc_zeroed:
  assumes rel: "pmm_rel s F"
  shows "\<exists>r s'. alloc_zeroed_page s = Some (r, s') \<and>
    (r = 0 \<and> s' = s \<and> F = {} \<or>
     r \<noteq> 0 \<and> r \<in> F \<and> pmm_rel s' (F - {r}) \<and> (\<exists>m h. s' = s\<lparr>kmem := m, free_list_head := h\<rparr>) \<and>
     (\<forall>x. in_page r x \<longrightarrow> phys_byte s' x = 0) \<and>
     (\<forall>x. (\<forall>q \<in> F. \<not> in_page q x) \<longrightarrow> phys_byte s' x = phys_byte s x))"
proof -
  obtain r s1 where al: "pmm_alloc 1 s = Some (r, s1)" "r = 0 \<longleftrightarrow> F = {}" using pmm_alloc_one [OF rel] by blast
  show ?thesis
  proof (cases "r = 0")
    case True
    then have "s1 = s" using pmm_alloc_rel [OF rel, of 1] al by auto
    then show ?thesis using True al by (simp add: alloc_zeroed_page_def)
  next
    case False
    have eff: "page_block r 1 \<subseteq> F" "pmm_rel s1 (F - page_block r 1)"
      "\<exists>m h. s1 = s\<lparr>kmem := m, free_list_head := h\<rparr>"
      "\<forall>x. (\<forall>q \<in> F - page_block r 1. \<not> in_page q x) \<longrightarrow> phys_byte s1 x = phys_byte s x"
      using pmm_alloc_rel [OF rel, of 1] al False by auto
    have b: "page_block r 1 = {r}" by simp
    define s' where "s' = s1\<lparr>kmem := memset (kmem s1) (r + hhdm_offset s1) 0 4096\<rparr>"
    have res: "alloc_zeroed_page s = Some (r, s')"
      using al False by (simp add: alloc_zeroed_page_def s'_def pmm_phys_to_virt_def hhdm_get_offset_def PAGE_SIZE_def)
    have byte: "phys_byte s' x = (if in_page r x then 0 else phys_byte s1 x)" for x
      by (simp add: s'_def phys_byte_def memset_apply in_page_def)
    have rF: "r \<in> F" using eff(1) b by simp
    have al_r: "page_aligned r" by (rule pmm_page_ok_aligned [OF rel pmm_rel_ok [OF rel rF]])
    have "pmm_rel s' (F - {r})" unfolding s'_def
    proof (rule pmm_rel_mem)
      show "pmm_rel s1 (F - {r})" using eff(2) b by simp
      fix q x assume q: "q \<in> F - {r}" "in_page q x"
      then have "page_aligned q" using pmm_page_ok_aligned [OF rel pmm_rel_ok [OF rel]] by blast
      then have "\<not> in_page r x" using in_page_unique [OF _ al_r q(2)] q(1) by blast
      then show "memset (kmem s1) (r + hhdm_offset s1) 0 4096 (x + hhdm_offset s1) = phys_byte s1 x"
        by (simp add: memset_apply in_page_def phys_byte_def)
    qed
    moreover have "\<exists>m h. s' = s\<lparr>kmem := m, free_list_head := h\<rparr>"
    proof -
      obtain m h where "s1 = s\<lparr>kmem := m, free_list_head := h\<rparr>" using eff(3) by blast
      then have "s' = s\<lparr>kmem := kmem s', free_list_head := h\<rparr>" by (simp add: s'_def)
      then show ?thesis by blast
    qed
    moreover have "phys_byte s' x = phys_byte s x" if "\<forall>q \<in> F. \<not> in_page q x" for x
      using that eff(4) rF by (simp add: byte)
    ultimately show ?thesis using res False rF byte by auto
  qed
qed

lemma pmm_page_ok_upd [simp]: "pmm_page_ok (s\<lparr>kmem := m, free_list_head := h\<rparr>) = pmm_page_ok s"
  "pmm_page_ok (pt_set x i e s) = pmm_page_ok s"
  by (simp_all add: pmm_page_ok_def fun_eq_iff)

lemma pmm_page_ok_cong: "hhdm_offset s' = hhdm_offset s \<Longrightarrow> pmm_page_ok s' q = pmm_page_ok s q"
  by (simp add: pmm_page_ok_def)

lemma pt_tabs_page:
  "pt_tabs a s T \<Longrightarrow> pmm_rel s F \<Longrightarrow> T k = Some x \<Longrightarrow> page_aligned x \<and> x \<noteq> 0 \<and> x + hhdm_offset s \<noteq> 0 \<and> pte_addr x"
proof -
  assume "pt_tabs a s T" "pmm_rel s F" "T k = Some x"
  then have ok: "pmm_page_ok s x" "pte_addr x" unfolding pt_tabs_def by blast+
  then have "page_aligned x" "x \<noteq> 0" using \<open>pmm_rel s F\<close> pmm_page_ok_aligned pmm_page_ok_nz by blast+
  moreover have "x + hhdm_offset s \<noteq> 0" using ok(1) by (auto simp: pmm_page_ok_def pmm_node_ok_def)
  ultimately show ?thesis using ok(2) by blast
qed

lemma pt_tabs_frame:
  assumes tabs: "pt_tabs a s T" and off: "hhdm_offset s' = hhdm_offset s"
    and same: "\<And>x y. x \<in> ran T \<Longrightarrow> in_page x y \<Longrightarrow> phys_byte s' y = phys_byte s y"
  shows "pt_tabs a s' T" "x \<in> ran T \<Longrightarrow> i < 512 \<Longrightarrow> pt_entry s' x i = pt_entry s x i"
proof -
  show e: "pt_entry s' x i = pt_entry s x i" if "x \<in> ran T" "i < 512" for x i
    using that same off by (intro pt_entry_agree) auto
  have "pt_child a s' x i = T (r, p @ [i])"
    if "T (r, p) = Some x" "length p < 3" "slot_ok p i" for r p x i
  proof -
    have "pt_entry s' x i = pt_entry s x i" using that by (intro e ranI) (auto simp: slot_ok_def)
    then have "pt_child a s' x i = pt_child a s x i" by (simp add: pt_child_def)
    then show ?thesis using pt_tabs_child [OF tabs that] by simp
  qed
  then show "pt_tabs a s' T" using tabs unfolding pt_tabs_def pmm_page_ok_cong [OF off] by blast
qed

text \<open>What creating tables may do: more tables, made from free pages; nothing else written;
  the same translations.\<close>

definition vm_grow ::
  "arch \<Rightarrow> 'a pmm_state_scheme \<Rightarrow> u64 set \<Rightarrow> tabs \<Rightarrow> 'a pmm_state_scheme \<Rightarrow> u64 set \<Rightarrow> tabs \<Rightarrow> bool" where
  "vm_grow a s F T s' F' T' \<longleftrightarrow>
     vm_inv a s' F' T' \<and> T \<subseteq>\<^sub>m T' \<and> F' \<subseteq> F \<and> ran T' = ran T \<union> (F - F') \<and>
     (\<exists>m h. s' = s\<lparr>kmem := m, free_list_head := h\<rparr>) \<and>
     (\<forall>x. (\<forall>q \<in> F \<union> ran T. \<not> in_page q x) \<longrightarrow> phys_byte s' x = phys_byte s x) \<and>
     (\<forall>r. T' (r, []) = T (r, [])) \<and>
     (\<forall>r p. T (r, []) \<noteq> None \<longrightarrow> length p = 4 \<longrightarrow> path_ok p \<longrightarrow> pt_walk a s' r p = pt_walk a s r p)"

lemma vm_grow_refl: "vm_inv a s F T \<Longrightarrow> vm_grow a s F T s F T"
  using pmm_state_same [of s] unfolding vm_grow_def by auto

lemma vm_grow_off: "vm_grow a s F T s' F' T' \<Longrightarrow> hhdm_offset s' = hhdm_offset s"
  by (auto simp: vm_grow_def)

lemma vm_grow_trans:
  assumes 1: "vm_grow a s F T s1 F1 T1" and 2: "vm_grow a s1 F1 T1 s2 F2 T2"
  shows "vm_grow a s F T s2 F2 T2"
proof -
  note a = 1 [unfolded vm_grow_def] and b = 2 [unfolded vm_grow_def]
  have "vm_inv a s2 F2 T2" "T \<subseteq>\<^sub>m T2" "F2 \<subseteq> F" using a b map_le_trans by blast+
  moreover have "ran T2 = ran T \<union> (F - F2)" using a b by blast
  moreover have "\<exists>m h. s2 = s\<lparr>kmem := m, free_list_head := h\<rparr>"
  proof -
    obtain m h m' h' where "s1 = s\<lparr>kmem := m, free_list_head := h\<rparr>" "s2 = s1\<lparr>kmem := m', free_list_head := h'\<rparr>"
      using a b by blast
    then have "s2 = s\<lparr>kmem := m', free_list_head := h'\<rparr>" by simp
    then show ?thesis by blast
  qed
  moreover have "phys_byte s2 x = phys_byte s x" if x: "\<forall>q \<in> F \<union> ran T. \<not> in_page q x" for x
  proof -
    have "F1 \<union> ran T1 \<subseteq> F \<union> ran T" using a by blast
    then have "phys_byte s2 x = phys_byte s1 x" using x b by blast
    then show ?thesis using x a by simp
  qed
  moreover have "T2 (r, []) = T (r, [])" for r using a b by simp
  moreover have "pt_walk a s2 r p = pt_walk a s r p"
    if "T (r, []) \<noteq> None" "length p = 4" "path_ok p" for r p
  proof -
    have "pt_walk a s1 r p = pt_walk a s r p" using a that by simp
    moreover have "pt_walk a s2 r p = pt_walk a s1 r p" using a b that by simp
    ultimately show ?thesis by simp
  qed
  ultimately show ?thesis unfolding vm_grow_def by blast
qed

text \<open>A zeroed page \<open>y\<close> becomes the table below slot \<open>i\<close> of table \<open>x\<close>: first what the entries
  are afterwards, then that this is again a forest with the same translations.\<close>

lemma vm_new_entries:
  assumes rel: "pmm_rel s F" and tabs: "pt_tabs a s T" and dis: "ran T \<inter> F = {}"
    and x: "x \<in> ran T" "i < 512" and y: "y \<in> F" and off: "hhdm_offset s1 = hhdm_offset s"
    and zero: "\<forall>z. in_page y z \<longrightarrow> phys_byte s1 z = 0"
    and frame: "\<forall>z. (\<forall>q \<in> F. \<not> in_page q z) \<longrightarrow> phys_byte s1 z = phys_byte s z"
  shows "z \<in> ran T \<Longrightarrow> j < 512 \<Longrightarrow>
      pt_entry (pt_set x i e s1) z j = (if z = x \<and> j = i then e else pt_entry s z j)"
    and "j < 512 \<Longrightarrow> pt_entry (pt_set x i e s1) y j = 0"
proof -
  have alF: "page_aligned q" if "q \<in> F" for q using pmm_page_ok_aligned [OF rel pmm_rel_ok [OF rel that]] .
  have alT: "page_aligned z" if "z \<in> ran T" for z
    using that pt_tabs_page [OF tabs rel] by (auto simp: ran_def)
  have table_bytes: "phys_byte s1 w = phys_byte s w" if "z \<in> ran T" "in_page z w" for z w
    using that in_page_unique [OF alT alF that(2)] dis by (intro frame [rule_format]) blast
  show "pt_entry (pt_set x i e s1) z j = (if z = x \<and> j = i then e else pt_entry s z j)"
    if z: "z \<in> ran T" "j < 512"
  proof -
    have "pt_entry s1 z j = pt_entry s z j" using table_bytes [OF z(1)] off z(2) by (intro pt_entry_agree)
    then show ?thesis
      using pt_entry_set [OF x(2) z(2), of x e s1]
        pt_entry_set_other [OF x(2) z(2) alT [OF x(1)] alT [OF z(1)], of e s1] by (cases "z = x") auto
  qed
  show "pt_entry (pt_set x i e s1) y j = 0" if "j < 512"
  proof -
    have "in_page y (w - hhdm_offset s)" if "w \<in> extent (y + hhdm_offset s + 8 * of_nat j) 8" for w
      using entry_bytes [OF \<open>j < 512\<close> that] in_page_shift [of y "hhdm_offset s" "w - hhdm_offset s"] by simp
    from zero [rule_format, OF this] have "kmem s1 w = 0" if "w \<in> extent (y + hhdm_offset s + 8 * of_nat j) 8" for w
      using that off by (simp add: phys_byte_def)
    then have "pt_entry s1 y j = 0" unfolding pt_entry_def off
      using extent_cell [of _ 8] by (intro load64_zero) simp
    moreover have "x \<noteq> y" using x(1) y dis by blast
    ultimately show ?thesis
      using pt_entry_set_other [OF x(2) that alT [OF x(1)] alF [OF y], of e s1] by simp
  qed
qed

lemma pt_tabs_extend:
  assumes tabs: "pt_tabs a s T" and x: "T (r, p) = Some x" "length p < 3" "slot_ok p i" "T (r, p @ [i]) = None"
    and y: "y \<notin> ran T" "pmm_page_ok s y" "pte_addr y" and off: "hhdm_offset s2 = hhdm_offset s"
    and ent: "\<And>z j. z \<in> ran T \<Longrightarrow> j < 512 \<Longrightarrow> pt_entry s2 z j = (if z = x \<and> j = i then e else pt_entry s z j)"
    and ent0: "\<And>j. j < 512 \<Longrightarrow> pt_entry s2 y j = 0"
    and e: "arch_vmm_pte_is_present a e" "arch_vmm_pte_get_phys a e = y"
  shows "pt_tabs a s2 (T((r, p @ [i]) \<mapsto> y))"
proof -
  let ?T = "T((r, p @ [i]) \<mapsto> y)"
  have child: "pt_child a s2 z j = ?T (r', q @ [j])"
    if h: "?T (r', q) = Some z" "length q < 3" "slot_ok q j" for r' q z j
  proof -
    have j: "j < 512" using h(3) by (simp add: slot_ok_def)
    show ?thesis
    proof (cases "(r', q) = (r, p @ [i])")
      case True
      then have "pt_child a s2 z j = None" using h ent0 [OF j] by (simp add: pt_child_def pte.absent_0)
      moreover have "T (r', q @ [j]) = None" using pt_tabs_none [OF tabs x(4), of "[j]"] True by simp
      ultimately show ?thesis using True by auto
    next
      case False
      then have z: "T (r', q) = Some z" using h(1) by auto
      have zr: "z \<in> ran T" using z by (auto simp: ran_def)
      have old: "pt_child a s z j = T (r', q @ [j])" by (rule pt_tabs_child [OF tabs z h(2,3)])
      show ?thesis
      proof (cases "z = x \<and> j = i")
        case True
        then have "(r', q) = (r, p)" using pt_tabs_inj [OF tabs] z x(1) by blast
        then show ?thesis using True ent [OF zr j] e by (auto simp: pt_child_def)
      next
        case False
        then have "(r', q @ [j]) \<noteq> (r, p @ [i])" using z x(1) by auto
        moreover have "pt_child a s2 z j = pt_child a s z j"
          using ent [OF zr j] False by (simp add: pt_child_def)
        ultimately show ?thesis using old by auto
      qed
    qed
  qed
  have "inj_on ?T (dom ?T)"
    using tabs y(1) unfolding pt_tabs_def by (auto simp: inj_on_def ran_def split: if_splits)
  moreover have "?T (r', q) \<noteq> None \<and> length q < 3 \<and> slot_ok q j" if "?T (r', q @ [j]) \<noteq> None" for r' q j
  proof (cases "(r', q @ [j]) = (r, p @ [i])")
    case True
    then show ?thesis using x by auto
  next
    case False
    then have "T (r', q @ [j]) \<noteq> None" using that by auto
    then have "T (r', q) \<noteq> None \<and> length q < 3 \<and> slot_ok q j" using tabs unfolding pt_tabs_def by blast
    then show ?thesis by auto
  qed
  moreover have "pmm_page_ok s2 z \<and> pte_addr z" if "?T k = Some z" for k z
    using that tabs y(2,3) unfolding pt_tabs_def pmm_page_ok_cong [OF off] by (cases k) (auto split: if_splits)
  moreover have "z = r'" if "?T (r', []) = Some z" for r' z
    using that tabs unfolding pt_tabs_def by auto
  ultimately show ?thesis using child unfolding pt_tabs_def by blast
qed

lemma pt_tabs_other:
  "pt_tabs a s T \<Longrightarrow> T k = Some x \<Longrightarrow> T k' = Some z \<Longrightarrow> k' \<noteq> k \<Longrightarrow> z \<noteq> x"
  using pt_tabs_inj by blast

lemma vm_new_table:
  assumes inv: "vm_inv a s F T" and x: "T (r, p) = Some x" "length p < 3" "slot_ok p i" "T (r, p @ [i]) = None"
    and y: "y \<in> F" "pmm_rel s1 (F - {y})" "s1 = s\<lparr>kmem := m, free_list_head := h\<rparr>"
    and zero: "\<forall>z. in_page y z \<longrightarrow> phys_byte s1 z = 0"
    and frame: "\<forall>z. (\<forall>q \<in> F. \<not> in_page q z) \<longrightarrow> phys_byte s1 z = phys_byte s z"
    and e: "arch_vmm_pte_is_present a e" "arch_vmm_pte_get_phys a e = y"
  shows "vm_grow a s F T (pt_set x i e s1) (F - {y}) (T((r, p @ [i]) \<mapsto> y))"
proof -
  let ?s = "pt_set x i e s1" and ?T = "T((r, p @ [i]) \<mapsto> y)"
  have rel: "pmm_rel s F" and tabs: "pt_tabs a s T" and dis: "ran T \<inter> F = {}" and Fa: "\<forall>q \<in> F. pte_addr q"
    using inv by (auto simp: vm_inv_def)
  have off: "hhdm_offset s1 = hhdm_offset s" using y(3) by simp
  have i: "i < 512" using x(3) by (simp add: slot_ok_def)
  have xr: "x \<in> ran T" using x(1) by (auto simp: ran_def)
  have yr: "y \<notin> ran T" using y(1) dis by blast
  note ent = vm_new_entries [OF rel tabs dis xr i y(1) off zero frame, where e = e]
  have tabs': "pt_tabs a ?s ?T"
    by (rule pt_tabs_extend [OF tabs x yr pmm_rel_ok [OF rel y(1)] _ _ ent(1) ent(2) e])
      (use Fa y(1) off in auto)
  have ran: "ran ?T = insert y (ran T)" using x(4) by simp
  have "pmm_rel ?s (F - {y})" unfolding pt_set_def
  proof (rule pmm_rel_mem [OF y(2)])
    fix q z assume q: "q \<in> F - {y}" "in_page q z"
    then have "\<not> in_page x z"
      using in_page_unique [of x q z] pt_tabs_page [OF tabs rel x(1)] pmm_page_ok_aligned [OF rel pmm_rel_ok [OF rel]] xr dis
      by blast
    from pt_set_out [OF i this, of e s1]
    show "store64 (kmem s1) (x + hhdm_offset s1 + 8 * word_of_nat i) e (z + hhdm_offset s1) = phys_byte s1 z"
      by (simp add: pt_set_def phys_byte_def)
  qed
  then have "vm_inv a ?s (F - {y}) ?T" using tabs' dis Fa ran unfolding vm_inv_def by blast
  moreover have "?s = s\<lparr>kmem := kmem ?s, free_list_head := h\<rparr>" using y(3) by (simp add: pt_set_def)
  then have "\<exists>m h. ?s = s\<lparr>kmem := m, free_list_head := h\<rparr>" by blast
  moreover have "phys_byte ?s z = phys_byte s z" if "\<forall>q \<in> F \<union> ran T. \<not> in_page q z" for z
    using that xr pt_set_out [OF i, of x z e s1] frame by auto
  moreover have "pt_walk a ?s r' q = pt_walk a s r' q"
    if h: "T (r', []) \<noteq> None" "length q = 4" "path_ok q" for r' q
  proof -
    have last: "last q < 512" using h(2,3) by (cases q rule: rev_cases) (auto simp: slot_ok_def)
    have key: "(r', butlast q) \<noteq> (r, p)" using h(2) x(2) by auto
    have "leaf_of a ?s ?T r' q = leaf_of a s T r' q"
    proof (cases "T (r', butlast q)")
      case None
      then show ?thesis using ent(2) [OF last] by (auto simp: leaf_of_def pte.absent_0)
    next
      case (Some z)
      then have "(r', butlast q) \<noteq> (r, p @ [i])" "z \<noteq> x" "z \<in> ran T"
        using x(4) pt_tabs_other [OF tabs x(1) Some key] by (auto simp: ran_def)
      then have "?T (r', butlast q) = Some z" "pt_entry ?s z (last q) = pt_entry s z (last q)"
        using Some ent(1) [OF _ last, of z] by auto
      then show ?thesis using Some by (simp add: leaf_of_def)
    qed
    moreover have "?T (r', []) \<noteq> None" using h(1) by auto
    ultimately show ?thesis using pt_walk_root [OF tabs' _ h(2,3)] pt_walk_root [OF tabs h] by simp
  qed
  moreover have "T \<subseteq>\<^sub>m ?T" using x(4) by (auto simp: map_le_def)
  ultimately show ?thesis using y(1) ran unfolding vm_grow_def by auto
qed

section \<open>The walking functions\<close>

lemma get_or_create_grow:
  assumes inv: "vm_inv a s F T" and x: "T (r, p) = Some x" "length p < 3" "slot_ok p i"
  shows "\<exists>t s'. get_or_create_table a (x + hhdm_offset s) (of_nat i) s = Some (t, s') \<and>
    (t = 0 \<and> s' = s \<and> F = {} \<or>
     (\<exists>F' T' y. vm_grow a s F T s' F' T' \<and> T' (r, p @ [i]) = Some y \<and> t = y + hhdm_offset s \<and>
        (\<exists>z. F \<subseteq> insert z F')))"
proof -
  have rel: "pmm_rel s F" and tabs: "pt_tabs a s T" and Fa: "\<forall>q \<in> F. pte_addr q"
    using inv by (auto simp: vm_inv_def)
  have child: "pt_child a s x i = T (r, p @ [i])" by (rule pt_tabs_child [OF tabs x])
  show ?thesis
  proof (cases "T (r, p @ [i])")
    case (Some y)
    then have "get_or_create_table a (x + hhdm_offset s) (of_nat i) s = Some (y + hhdm_offset s, s)"
      using child by (auto simp: pt_child_def pt_entry_def get_or_create_table_def Let_def pmm_phys_to_virt_def
          hhdm_get_offset_def split: if_splits)
    then show ?thesis using Some vm_grow_refl [OF inv] by blast
  next
    case None
    have absent: "\<not> arch_vmm_pte_is_present a (load64 (kmem s) (x + hhdm_offset s + 8 * of_nat i))"
      using child None by (auto simp: pt_child_def pt_entry_def split: if_splits)
    obtain y s1 where al: "alloc_zeroed_page s = Some (y, s1)"
      "y = 0 \<and> s1 = s \<and> F = {} \<or> y \<noteq> 0 \<and> y \<in> F \<and> pmm_rel s1 (F - {y}) \<and>
        (\<exists>m h. s1 = s\<lparr>kmem := m, free_list_head := h\<rparr>) \<and> (\<forall>z. in_page y z \<longrightarrow> phys_byte s1 z = 0) \<and>
        (\<forall>z. (\<forall>q \<in> F. \<not> in_page q z) \<longrightarrow> phys_byte s1 z = phys_byte s z)"
      using alloc_zeroed [OF rel] by blast
    show ?thesis
    proof (cases "y = 0")
      case True
      then show ?thesis using al absent by (simp add: get_or_create_table_def)
    next
      case False
      then obtain m h where s1: "y \<in> F" "pmm_rel s1 (F - {y})" "s1 = s\<lparr>kmem := m, free_list_head := h\<rparr>"
        "\<forall>z. in_page y z \<longrightarrow> phys_byte s1 z = 0"
        "\<forall>z. (\<forall>q \<in> F. \<not> in_page q z) \<longrightarrow> phys_byte s1 z = phys_byte s z" using al(2) by blast
      let ?e = "arch_vmm_make_pte a y (VMM_PRESENT OR VMM_WRITABLE OR VMM_USER) True"
      have e: "arch_vmm_pte_is_present a ?e" "arch_vmm_pte_get_phys a ?e = y"
        using Fa s1(1) by (auto simp: pte.phys_make VMM_PRESENT_def VMM_WRITABLE_def VMM_USER_def intro: pte.present_table)
      have "get_or_create_table a (x + hhdm_offset s) (of_nat i) s = Some (y + hhdm_offset s, pt_set x i ?e s1)"
        using al(1) absent False s1(3)
        by (simp add: get_or_create_table_def pt_set_def pmm_phys_to_virt_def hhdm_get_offset_def)
      moreover have "F \<subseteq> insert y (F - {y})" by blast
      moreover have "(T((r, p @ [i]) \<mapsto> y)) (r, p @ [i]) = Some y" by simp
      ultimately show ?thesis using vm_new_table [OF inv x None s1 e] by blast
    qed
  qed
qed

text \<open>Indices as digits of the page number.\<close>

lemma unat_drop_bit: "unat (drop_bit n (w :: 'a::len word)) = unat w div 2 ^ n"
proof -
  have "unat (drop_bit n w) = drop_bit n (take_bit LENGTH('a) (unat w))" by (rule unsigned_drop_bit_eq)
  also have "take_bit LENGTH('a) (unat w) = unat w" by (simp add: take_bit_nat_eq_self_iff)
  finally show ?thesis by (simp only: drop_bit_eq_div)
qed

lemma vmm_index: "unat (VMM_INDEX va l) = unat va div 2 ^ (12 + 9 * l) mod 512"
proof -
  have "VMM_INDEX va l = take_bit 9 (drop_bit (12 + 9 * l) va)"
    by (simp add: VMM_INDEX_def VMM_LEVEL_BITS_def take_bit_eq_mask mask_eq_exp_minus_1 mult.commute)
  then show ?thesis by (simp add: unat_take_bit unat_drop_bit)
qed

definition user_va :: "u64 \<Rightarrow> bool" where
  "user_va va \<longleftrightarrow> va < VMM_ADDR_SPLIT"

lemma user_va_iff: "user_va va \<longleftrightarrow> unat va < 2 ^ 47"
  by (simp add: user_va_def VMM_ADDR_SPLIT_def VMM_VA_BITS_def VMM_LEVELS_def VMM_LEVEL_BITS_def word_less_nat_alt)

definition vpath :: "u64 \<Rightarrow> nat \<Rightarrow> nat list" where
  "vpath va l = map (\<lambda>k. unat (VMM_INDEX va k)) (rev [Suc l..<4])"

lemma vpath_3 [simp]: "vpath va 3 = []"
  by (simp add: vpath_def)

lemma vpath_step: "l < 3 \<Longrightarrow> vpath va l = vpath va (Suc l) @ [unat (VMM_INDEX va (Suc l))]"
  using upt_conv_Cons [of "Suc l" 4] by (simp add: vpath_def)

lemma length_vpath [simp]: "length (vpath va l) = 3 - l"
  by (simp add: vpath_def)

lemma va_path_vpath: "va_path va = vpath va 0 @ [unat (VMM_INDEX va 0)]"
  by (simp add: va_path_def vpath_def upt_conv_Cons numeral_2_eq_2 numeral_3_eq_3)

lemma vpath_slot: "user_va va \<Longrightarrow> l < 3 \<Longrightarrow> slot_ok (vpath va (Suc l)) (unat (VMM_INDEX va (Suc l)))"
proof -
  assume va: "user_va va" and l: "l < 3"
  have "vpath va (Suc l) = [] \<Longrightarrow> l = 2" using l length_vpath [of va "Suc l"] by auto
  moreover have "unat va div 2 ^ 39 < 256" using va by (simp add: user_va_iff)
  ultimately show ?thesis by (auto simp: slot_ok_def vmm_index)
qed

lemma path_ok_va: "user_va va \<Longrightarrow> path_ok (va_path va)"
proof -
  assume va: "user_va va"
  have "unat va div 2 ^ 39 < 256" using va by (simp add: user_va_iff)
  then show ?thesis by (auto simp: path_ok_def va_path_def vmm_index)
qed

lemma length_va_path [simp]: "length (va_path va) = 4"
  by (simp add: va_path_def)

lemma walk_create:
  assumes va: "user_va va"
  shows "l \<le> 3 \<Longrightarrow> vm_inv a s F T \<Longrightarrow> T (r, vpath va l) = Some x \<Longrightarrow>
    \<exists>t s' F' T'. walk_levels l a (x + hhdm_offset s) va True s = Some (t, s') \<and> vm_grow a s F T s' F' T' \<and>
      (\<exists>Z. finite Z \<and> card Z \<le> l \<and> F \<subseteq> F' \<union> Z) \<and>
      (t = 0 \<and> F' = {} \<or> (\<exists>y. T' (r, vpath va 0) = Some y \<and> t = y + hhdm_offset s))"
proof (induction l arbitrary: s F T x)
  case 0
  then show ?case using vm_grow_refl by (fastforce intro: exI [of _ "{}"])
next
  case (Suc l)
  let ?i = "unat (VMM_INDEX va (Suc l))"
  have l: "l < 3" using Suc.prems by simp
  have "length (vpath va (Suc l)) < 3" by simp
  moreover have i: "of_nat ?i = VMM_INDEX va (Suc l)" by simp
  ultimately have get: "\<exists>t s'. get_or_create_table a (x + hhdm_offset s) (VMM_INDEX va (Suc l)) s = Some (t, s') \<and>
    (t = 0 \<and> s' = s \<and> F = {} \<or> (\<exists>F' T' y. vm_grow a s F T s' F' T' \<and>
      T' (r, vpath va (Suc l) @ [?i]) = Some y \<and> t = y + hhdm_offset s \<and> (\<exists>z. F \<subseteq> insert z F')))"
    using get_or_create_grow [OF Suc.prems(2,3) _ vpath_slot [OF va l]] unfolding i by blast
  then obtain t s1 where
    g: "get_or_create_table a (x + hhdm_offset s) (VMM_INDEX va (Suc l)) s = Some (t, s1)"
    "t = 0 \<and> s1 = s \<and> F = {} \<or>
      (\<exists>F' T' y. vm_grow a s F T s1 F' T' \<and> T' (r, vpath va (Suc l) @ [?i]) = Some y \<and>
        t = y + hhdm_offset s \<and> (\<exists>z. F \<subseteq> insert z F'))"
    by blast
  from g(2) show ?case
  proof
    assume "t = 0 \<and> s1 = s \<and> F = {}"
    moreover then have "walk_levels (Suc l) a (x + hhdm_offset s) va True s = Some (0, s)" using g(1) by simp
    moreover have "finite {}" "card {} \<le> Suc l" "F \<subseteq> F \<union> {}" by simp_all
    ultimately show ?thesis using vm_grow_refl [OF Suc.prems(2)] by blast
  next
    assume "\<exists>F' T' y. vm_grow a s F T s1 F' T' \<and> T' (r, vpath va (Suc l) @ [?i]) = Some y \<and>
      t = y + hhdm_offset s \<and> (\<exists>z. F \<subseteq> insert z F')"
    then obtain F1 T1 y z where y: "vm_grow a s F T s1 F1 T1" "T1 (r, vpath va l) = Some y"
      "t = y + hhdm_offset s" "F \<subseteq> insert z F1" using vpath_step [OF l] by auto
    have off: "hhdm_offset s1 = hhdm_offset s" by (rule vm_grow_off [OF y(1)])
    have inv1: "vm_inv a s1 F1 T1" using y(1) by (simp add: vm_grow_def)
    have "t \<noteq> 0" using pt_tabs_page [of a s1 T1 F1] inv1 y(2,3) off by (auto simp: vm_inv_def)
    moreover obtain t' s' F' T' Z where w: "walk_levels l a (y + hhdm_offset s1) va True s1 = Some (t', s')"
      "vm_grow a s1 F1 T1 s' F' T'" "t' = 0 \<and> F' = {} \<or> (\<exists>y. T' (r, vpath va 0) = Some y \<and> t' = y + hhdm_offset s1)"
      and Z: "finite Z" "card Z \<le> l" "F1 \<subseteq> F' \<union> Z"
      using Suc.IH [OF _ inv1 y(2)] l by auto
    have "card (insert z Z) \<le> Suc l" "F \<subseteq> F' \<union> insert z Z" "finite (insert z Z)"
      using Z y(4) by (auto simp: card_insert_if)
    note Z' = this
    ultimately have "walk_levels (Suc l) a (x + hhdm_offset s) va True s = Some (t', s')"
      using g(1) y(3) off w(1) by simp
    moreover have "t' = 0 \<and> F' = {} \<or> (\<exists>y. T' (r, vpath va 0) = Some y \<and> t' = y + hhdm_offset s)"
      using w(3) off by simp
    ultimately show ?thesis using vm_grow_trans [OF y(1) w(2)] Z' by blast
  qed
qed

lemma walk_read:
  assumes va: "user_va va" and inv: "vm_inv a s F T"
  shows "l \<le> 3 \<Longrightarrow> T (r, vpath va l) = Some x \<Longrightarrow>
    walk_levels l a (x + hhdm_offset s) va False s =
      Some (case T (r, vpath va 0) of None \<Rightarrow> 0 | Some y \<Rightarrow> y + hhdm_offset s, s)"
proof (induction l arbitrary: x)
  case (Suc l)
  let ?i = "unat (VMM_INDEX va (Suc l))"
  have l: "l < 3" using Suc.prems by simp
  have tabs: "pt_tabs a s T" using inv by (simp add: vm_inv_def)
  have child: "pt_child a s x ?i = T (r, vpath va l)"
    using pt_tabs_child [OF tabs Suc.prems(2) _ vpath_slot [OF va l]] vpath_step [OF l] by simp
  show ?case
  proof (cases "T (r, vpath va l)")
    case None
    have "[Suc 0..<4] = [Suc 0..<Suc l] @ [Suc l..<4]" using l upt_add_eq_append [of "Suc 0" "Suc l" "3 - l"] by simp
    then have "\<exists>q. vpath va 0 = vpath va l @ q" by (simp add: vpath_def)
    then have "T (r, vpath va 0) = None" using pt_tabs_none [OF tabs None] by auto
    then show ?thesis using child None by (auto simp: pt_child_def pt_entry_def split: if_splits)
  next
    case (Some y)
    have "y + hhdm_offset s \<noteq> 0" using pt_tabs_page [OF tabs _ Some] inv by (auto simp: vm_inv_def)
    then show ?thesis using child Some Suc.IH [OF _ Some] l
      by (auto simp: pt_child_def pt_entry_def pmm_phys_to_virt_def hhdm_get_offset_def split: if_splits)
  qed
qed (simp add: vpath_def)

text \<open>Writing a leaf entry changes exactly one translation of one address space.\<close>

lemma leaf_write:
  assumes inv: "vm_inv a s F T" and y: "T (r, p) = Some y" "length p = 3" "i < 512"
  shows "vm_inv a (pt_set y i e s) F T"
    and "T (r', []) \<noteq> None \<Longrightarrow> length q = 4 \<Longrightarrow> path_ok q \<Longrightarrow> pt_walk a (pt_set y i e s) r' q =
      (if r' = r \<and> q = p @ [i] then if arch_vmm_pte_is_present a e then Some e else None else pt_walk a s r' q)"
proof -
  let ?s = "pt_set y i e s"
  have rel: "pmm_rel s F" and tabs: "pt_tabs a s T" and dis: "ran T \<inter> F = {}"
    using inv by (auto simp: vm_inv_def)
  have yr: "y \<in> ran T" using y(1) by (auto simp: ran_def)
  have al: "page_aligned z" if "z \<in> ran T \<union> F" for z
    using that pt_tabs_page [OF tabs rel] pmm_page_ok_aligned [OF rel pmm_rel_ok [OF rel]] by (auto simp: ran_def)
  have ent: "pt_entry ?s z j = (if z = y \<and> j = i then e else pt_entry s z j)" if z: "z \<in> ran T" "j < 512" for z j
    using pt_entry_set [OF y(3) z(2), of y e s] pt_entry_set_other [OF y(3) z(2) al al, of y z e s] z yr
    by (cases "z = y") auto
  have "pt_child a ?s z j = T (r', q @ [j])" if h: "T (r', q) = Some z" "length q < 3" "slot_ok q j" for r' q z j
  proof -
    have "(r', q) \<noteq> (r, p)" using h(2) y(2) by auto
    then have "z \<noteq> y" by (rule pt_tabs_other [OF tabs y(1) h(1)])
    moreover have "z \<in> ran T" using h(1) by (auto simp: ran_def)
    ultimately have "pt_child a ?s z j = pt_child a s z j" using ent h(3) by (simp add: pt_child_def slot_ok_def)
    then show ?thesis using pt_tabs_child [OF tabs h] by simp
  qed
  then have tabs': "pt_tabs a ?s T" using tabs unfolding pt_tabs_def pmm_page_ok_upd by blast
  have "pmm_rel ?s F" unfolding pt_set_def
  proof (rule pmm_rel_mem [OF rel])
    fix q z assume q: "q \<in> F" "in_page q z"
    then have "\<not> in_page y z" using in_page_unique [OF al al q(2)] yr dis by blast
    from pt_set_out [OF y(3) this, of e s]
    show "store64 (kmem s) (y + hhdm_offset s + 8 * word_of_nat i) e (z + hhdm_offset s) = phys_byte s z"
      by (simp add: pt_set_def phys_byte_def)
  qed
  then show "vm_inv a ?s F T" using tabs' inv by (simp add: vm_inv_def)
  show "pt_walk a ?s r' q =
      (if r' = r \<and> q = p @ [i] then if arch_vmm_pte_is_present a e then Some e else None else pt_walk a s r' q)"
    if h: "T (r', []) \<noteq> None" "length q = 4" "path_ok q"
  proof -
    obtain q' j where q: "q = q' @ [j]" using h(2) by (cases q rule: rev_cases) auto
    have j: "j < 512" using h(3) q by (simp add: slot_ok_def)
    have "leaf_of a ?s T r' q = (if r' = r \<and> q = p @ [i]
      then if arch_vmm_pte_is_present a e then Some e else None else leaf_of a s T r' q)"
    proof (cases "T (r', q')")
      case (Some z)
      then have z: "z \<in> ran T" by (auto simp: ran_def)
      show ?thesis using Some q ent [OF z j] y(1) pt_tabs_inj [OF tabs y(1), of "(r', q')"] by (auto simp: leaf_of_def)
    qed (use q y(1) in \<open>auto simp: leaf_of_def\<close>)
    then show ?thesis using pt_walk_root [OF tabs' h] pt_walk_root [OF tabs h] by simp
  qed
qed

end
