(* ===== verification/Vmm_Ops.thy ===== *)
theory Vmm_Ops
  imports Vmm_Space
begin

text \<open>
  The operations of \<^verbatim>\<open>vmm.c\<close> on the address spaces of all contexts: mapping, unmapping,
  translating and demand paging, each as an update of the translations of one context.
\<close>

section \<open>Pages of an address space\<close>

definition same_page :: "u64 \<Rightarrow> u64 \<Rightarrow> bool" where
  "same_page va va' \<longleftrightarrow> unat va div 4096 = unat va' div 4096"

lemma va_digit: "unat (VMM_INDEX va l) = unat va div 4096 div 512 ^ l mod 512"
proof -
  have "(2 :: nat) ^ (12 + 9 * l) = 4096 * 512 ^ l" by (simp add: power_add power_mult)
  then show ?thesis by (simp only: vmm_index div_mult2_eq)
qed

lemma digits_eq:
  fixes n k :: nat
  shows "n < 512 ^ d \<Longrightarrow> k < 512 ^ d \<Longrightarrow> (\<And>l. l < d \<Longrightarrow> n div 512 ^ l mod 512 = k div 512 ^ l mod 512) \<Longrightarrow> n = k"
proof (induction d arbitrary: n k)
  case (Suc d)
  have "n div 512 div 512 ^ l mod 512 = k div 512 div 512 ^ l mod 512" if "l < d" for l
    using Suc.prems(3) [of "Suc l"] that by (simp only: div_mult2_eq [symmetric] power_Suc Suc_less_eq)
  note digits = this
  have "n div 512 < 512 ^ d" "k div 512 < 512 ^ d"
    using Suc.prems(1,2) by (simp_all add: less_mult_imp_div_less mult.commute)
  then have "n div 512 = k div 512" using digits by (rule Suc.IH)
  moreover have "n mod 512 = k mod 512" using Suc.prems(3) [of 0] by simp
  ultimately show ?case by (metis mod_mult_div_eq)
qed simp

lemma va_path_eq:
  assumes "user_va va" "user_va va'"
  shows "va_path va = va_path va' \<longleftrightarrow> same_page va va'"
proof
  assume eq: "va_path va = va_path va'"
  have "unat va div 4096 div 512 ^ l mod 512 = unat va' div 4096 div 512 ^ l mod 512" if "l < 4" for l
  proof -
    have "l = 0 \<or> l = 1 \<or> l = 2 \<or> l = 3" using that by auto
    then show ?thesis using eq by (auto simp: va_path_def va_digit)
  qed
  note digits = this
  have "unat va div 4096 < 512 ^ 4" "unat va' div 4096 < 512 ^ 4"
    using assms by (simp_all add: user_va_iff less_mult_imp_div_less)
  then show "same_page va va'" unfolding same_page_def using digits by (rule digits_eq)
qed (simp add: va_path_def va_digit same_page_def)

section \<open>Contexts\<close>

text \<open>\<open>ctx\<close> points to the structure of the context with root table \<open>r\<close>; the structure lies neither
  in a free page nor in a table.\<close>

definition vm_ctx :: "'a pmm_state_scheme \<Rightarrow> u64 set \<Rightarrow> tabs \<Rightarrow> u64 \<Rightarrow> u64 \<Rightarrow> bool" where
  "vm_ctx s F T ctx r \<longleftrightarrow> ctx \<noteq> 0 \<and> T (r, []) = Some r \<and> ctx_root_phys (kmem s) ctx = r \<and>
     ctx_root_virt (kmem s) ctx = r + hhdm_offset s \<and>
     (\<forall>x \<in> extent ctx 32. \<forall>q \<in> F \<union> ran T. \<not> in_page (q + hhdm_offset s) x)"

definition ctx_same :: "mem \<Rightarrow> mem \<Rightarrow> u64 \<Rightarrow> bool" where
  "ctx_same m m' ctx \<longleftrightarrow> ctx_root_phys m' ctx = ctx_root_phys m ctx \<and> ctx_root_virt m' ctx = ctx_root_virt m ctx \<and>
     ctx_demand_lo m' ctx = ctx_demand_lo m ctx \<and> ctx_demand_hi m' ctx = ctx_demand_hi m ctx"

lemma ctx_sameI:
  assumes "\<And>x. x \<in> extent ctx 32 \<Longrightarrow> m' x = m x"
  shows "ctx_same m m' ctx"
proof -
  have "extent (ctx + of_nat k) 8 \<subseteq> extent ctx 32" if "k \<le> 24" for k
    using that by (intro extent_sub) auto
  then have "load64 m' (ctx + of_nat k) = load64 m (ctx + of_nat k)" if "k \<le> 24" for k
    using that assms by (intro load64_agree) blast
  from this [of 0] this [of 8] this [of 16] this [of 24] show ?thesis
    by (simp add: ctx_same_def ctx_root_phys_def ctx_root_virt_def ctx_demand_lo_def ctx_demand_hi_def)
qed

lemma vm_ctx_keep:
  assumes ctx: "vm_ctx s F T ctx r" and off: "hhdm_offset s' = hhdm_offset s"
    and frame: "\<forall>x. (\<forall>q \<in> F \<union> ran T. \<not> in_page q x) \<longrightarrow> phys_byte s' x = phys_byte s x"
  shows "ctx_same (kmem s) (kmem s') ctx"
    and "F' \<union> ran T' \<subseteq> F \<union> ran T \<Longrightarrow> T' (r, []) = T (r, []) \<Longrightarrow> vm_ctx s' F' T' ctx r"
proof -
  have "kmem s' x = kmem s x" if x: "x \<in> extent ctx 32" for x
  proof -
    have "\<not> in_page q (x - hhdm_offset s)" if "q \<in> F \<union> ran T" for q
      using ctx x that in_page_shift [of q "hhdm_offset s" "x - hhdm_offset s"] unfolding vm_ctx_def by simp
    then have "phys_byte s' (x - hhdm_offset s) = phys_byte s (x - hhdm_offset s)" using frame by blast
    then show ?thesis using off by (simp add: phys_byte_def)
  qed
  then show same: "ctx_same (kmem s) (kmem s') ctx" by (rule ctx_sameI)
  show "vm_ctx s' F' T' ctx r" if sub: "F' \<union> ran T' \<subseteq> F \<union> ran T" "T' (r, []) = T (r, [])"
    using ctx same sub off unfolding vm_ctx_def ctx_same_def by auto
qed

section \<open>Mapping\<close>

text \<open>What an operation does to the machine: it may turn free pages into tables, and it updates the
  leaf entries by \<open>upd\<close>.\<close>

definition vm_update ::
  "arch \<Rightarrow> 'a pmm_state_scheme \<Rightarrow> u64 set \<Rightarrow> tabs \<Rightarrow> 'a pmm_state_scheme \<Rightarrow> u64 set \<Rightarrow> tabs \<Rightarrow>
     (u64 \<Rightarrow> nat list \<Rightarrow> u64 option \<Rightarrow> u64 option) \<Rightarrow> bool" where
  "vm_update a s F T s' F' T' upd \<longleftrightarrow>
     vm_inv a s' F' T' \<and> F' \<subseteq> F \<and> ran T' = ran T \<union> (F - F') \<and>
     (\<exists>m h. s' = s\<lparr>kmem := m, free_list_head := h\<rparr>) \<and>
     (\<forall>x. (\<forall>q \<in> F \<union> ran T. \<not> in_page q x) \<longrightarrow> phys_byte s' x = phys_byte s x) \<and>
     (\<forall>r. T' (r, []) = T (r, [])) \<and>
     (\<forall>r p. T (r, []) \<noteq> None \<longrightarrow> length p = 4 \<longrightarrow> path_ok p \<longrightarrow> pt_walk a s' r p = upd r p (pt_walk a s r p))"

lemma vm_grow_update: "vm_grow a s F T s' F' T' \<Longrightarrow> vm_update a s F T s' F' T' (\<lambda>_ _ e. e)"
  by (simp add: vm_grow_def vm_update_def)

lemma leaf_nonzero:
  assumes "vm_inv a s F T" "T k = Some y" "i < 512"
  shows "y + hhdm_offset s + 8 * of_nat i \<noteq> 0"
proof
  assume z: "y + hhdm_offset s + 8 * of_nat i = 0"
  have "pmm_page_ok s y" using assms(1,2) unfolding vm_inv_def pt_tabs_def by blast
  then have ok: "page_aligned (y + hhdm_offset s)" "y + hhdm_offset s \<noteq> 0"
    by (auto simp: pmm_page_ok_def pmm_node_ok_def)
  have "in_page (y + hhdm_offset s) (y + hhdm_offset s + of_nat (8 * i))" using assms(3) by (intro in_page_offset) simp
  then have "in_page (y + hhdm_offset s) 0" using z by simp
  then show False using in_page_unique [OF ok(1) page_aligned_0, of 0] ok(2) by (simp add: in_page_def)
qed

lemma leaf_write_update:
  assumes g: "vm_grow a s F T s1 F1 T1" and y: "T1 (r, p) = Some y" "length p = 3" "i < 512"
  shows "vm_update a s F T (pt_set y i e s1) F1 T1
    (\<lambda>r' q old. if r' = r \<and> q = p @ [i] then if arch_vmm_pte_is_present a e then Some e else None else old)"
proof -
  note a = g [unfolded vm_grow_def]
  have inv1: "vm_inv a s1 F1 T1" using a by blast
  obtain m h where s1: "s1 = s\<lparr>kmem := m, free_list_head := h\<rparr>" using a by blast
  have "pt_set y i e s1 = s\<lparr>kmem := kmem (pt_set y i e s1), free_list_head := h\<rparr>" by (simp add: s1 pt_set_def)
  then have "\<exists>m h. pt_set y i e s1 = s\<lparr>kmem := m, free_list_head := h\<rparr>" by blast
  moreover have "phys_byte (pt_set y i e s1) x = phys_byte s x" if x: "\<forall>q \<in> F \<union> ran T. \<not> in_page q x" for x
  proof -
    have "y \<in> ran T1" "ran T1 = ran T \<union> (F - F1)" using y(1) a by (blast intro: ranI)+
    then have "y \<in> F \<union> ran T" by blast
    then have "phys_byte (pt_set y i e s1) x = phys_byte s1 x" using x by (intro pt_set_out [OF y(3)]) blast
    moreover have "phys_byte s1 x = phys_byte s x" using a x by blast
    ultimately show ?thesis by simp
  qed
  moreover have "pt_walk a (pt_set y i e s1) r' q =
      (if r' = r \<and> q = p @ [i] then if arch_vmm_pte_is_present a e then Some e else None else pt_walk a s r' q)"
    if "T (r', []) \<noteq> None" "length q = 4" "path_ok q" for r' q
  proof -
    have "T1 (r', []) \<noteq> None" "pt_walk a s1 r' q = pt_walk a s r' q" using a that by simp_all
    then show ?thesis using leaf_write(2) [OF inv1 y _ that(2,3), of r' e] by simp
  qed
  ultimately show ?thesis using a leaf_write(1) [OF inv1 y, of e] unfolding vm_update_def by blast
qed

lemma vm_ctx_root:
  assumes "vm_inv a s F T" "vm_ctx s F T ctx r" "user_va va"
  shows "get_root_table a ctx va s = r + hhdm_offset s" "r + hhdm_offset s \<noteq> 0" "T (r, vpath va 3) = Some r"
  using assms pt_tabs_page [of a s T F "(r, [])" r]
  by (auto simp: get_root_table_def user_va_def vm_ctx_def vm_inv_def)

lemma map_page_update:
  assumes inv: "vm_inv a s F T" and ctx: "vm_ctx s F T ctx r" and va: "user_va va"
  shows "\<exists>ret s' F' T'. vmm_map_page a ctx va ph fl s = Some (ret, s') \<and>
    (ret = 0 \<and> vm_update a s F T s' F' T' (\<lambda>r' q old. if r' = r \<and> q = va_path va
        then Some (arch_vmm_make_pte a ph (fl OR VMM_PRESENT) False) else old) \<or>
     ret = -1 \<and> F' = {} \<and> (\<exists>Z. finite Z \<and> card Z \<le> 3 \<and> F \<subseteq> Z) \<and> vm_update a s F T s' F' T' (\<lambda>_ _ e. e))"
proof -
  note root = vm_ctx_root [OF inv ctx va]
  have nz: "ctx \<noteq> 0" using ctx by (simp add: vm_ctx_def)
  let ?i = "unat (VMM_INDEX va 0)" and ?e = "arch_vmm_make_pte a ph (fl OR VMM_PRESENT) False"
  have i: "?i < 512" by (simp add: vmm_index)
  obtain t s1 F1 T1 Z where w: "walk_levels 3 a (r + hhdm_offset s) va True s = Some (t, s1)"
    "vm_grow a s F T s1 F1 T1" "t = 0 \<and> F1 = {} \<or> (\<exists>y. T1 (r, vpath va 0) = Some y \<and> t = y + hhdm_offset s)"
    and Z: "finite Z" "card Z \<le> 3" "F \<subseteq> F1 \<union> Z"
    using walk_create [OF va _ inv root(3)] by auto
  show ?thesis
  proof (cases "t = 0 \<and> F1 = {}")
    case True
    then have "vmm_map_page a ctx va ph fl s = Some (-1, s1)"
      using w(1) root(1,2) nz by (simp add: vmm_map_page_def walk_to_leaf_slot_def VMM_LEVELS_def)
    moreover have "F \<subseteq> Z" using True Z(3) by simp
    ultimately show ?thesis using vm_grow_update [OF w(2)] True Z by blast
  next
    case False
    then obtain y where y: "T1 (r, vpath va 0) = Some y" "t = y + hhdm_offset s" using w(3) by blast
    have inv1: "vm_inv a s1 F1 T1" and off: "hhdm_offset s1 = hhdm_offset s"
      using w(2) vm_grow_off by (auto simp: vm_grow_def)
    have t: "t \<noteq> 0" "t + 8 * of_nat ?i \<noteq> 0"
      using leaf_nonzero [OF inv1 y(1), of 0] leaf_nonzero [OF inv1 y(1) i] y(2) off by simp_all
    then have "vmm_map_page a ctx va ph fl s = Some (0, pt_set y ?i ?e s1)"
      using w(1) root(1,2) nz y(2) off by (simp add: vmm_map_page_def walk_to_leaf_slot_def VMM_LEVELS_def pt_set_def)
    moreover have "arch_vmm_pte_is_present a ?e"
      by (simp add: pte.present_leaf VMM_PRESENT_def bit.conj_disj_distrib2)
    then have "vm_update a s F T (pt_set y ?i ?e s1) F1 T1
        (\<lambda>r' q old. if r' = r \<and> q = va_path va then Some ?e else old)"
      using leaf_write_update [OF w(2) y(1) _ i, of ?e] by (simp add: va_path_vpath)
    ultimately show ?thesis by blast
  qed
qed

section \<open>Reading, unmapping\<close>

lemma leaf_slot_read:
  assumes inv: "vm_inv a s F T" and ctx: "vm_ctx s F T ctx r" and va: "user_va va"
  shows "walk_to_leaf_slot a ctx va False s =
    Some (case T (r, vpath va 0) of None \<Rightarrow> 0 | Some y \<Rightarrow> y + hhdm_offset s + 8 * of_nat (unat (VMM_INDEX va 0)), s)"
  using vm_ctx_root [OF inv ctx va] walk_read [OF va inv, of 3 r r] leaf_nonzero [OF inv, of "(r, vpath va 0)" _ 0]
  by (auto simp: walk_to_leaf_slot_def VMM_LEVELS_def split: option.splits)

lemma walk_va:
  assumes inv: "vm_inv a s F T" and ctx: "vm_ctx s F T ctx r" and va: "user_va va"
  shows "pt_walk a s r (va_path va) =
    (case T (r, vpath va 0) of None \<Rightarrow> None
     | Some y \<Rightarrow> let e = load64 (kmem s) (y + hhdm_offset s + 8 * of_nat (unat (VMM_INDEX va 0))) in
         if arch_vmm_pte_is_present a e then Some e else None)"
proof -
  have "pt_walk a s r (va_path va) = leaf_of a s T r (va_path va)"
    using inv ctx by (intro pt_walk_root path_ok_va [OF va]) (auto simp: vm_inv_def vm_ctx_def)
  then show ?thesis by (cases "T (r, vpath va 0)") (simp_all add: leaf_of_def va_path_vpath pt_entry_def Let_def)
qed

lemma unmap_page_update:
  assumes inv: "vm_inv a s F T" and ctx: "vm_ctx s F T ctx r" and va: "user_va va"
  shows "\<exists>ret s'. vmm_unmap_page a ctx va s = Some (ret, s') \<and>
    (ret = 0 \<and> pt_walk a s r (va_path va) \<noteq> None \<and>
       vm_update a s F T s' F T (\<lambda>r' q old. if r' = r \<and> q = va_path va then None else old) \<or>
     ret = -1 \<and> pt_walk a s r (va_path va) = None \<and> s' = s)"
proof -
  have nz: "ctx \<noteq> 0" using ctx by (simp add: vm_ctx_def)
  let ?i = "unat (VMM_INDEX va 0)"
  have i: "?i < 512" by (simp add: vmm_index)
  show ?thesis
  proof (cases "pt_walk a s r (va_path va)")
    case None
    then have "vmm_unmap_page a ctx va s = Some (-1, s)"
      using leaf_slot_read [OF assms] walk_va [OF assms] nz
      by (auto simp: vmm_unmap_page_def Let_def split: option.splits if_splits)
    then show ?thesis using None by simp
  next
    case (Some e)
    then obtain y where y: "T (r, vpath va 0) = Some y"
      "arch_vmm_pte_is_present a (load64 (kmem s) (y + hhdm_offset s + 8 * of_nat ?i))"
      using walk_va [OF assms] by (auto simp: Let_def split: option.splits if_splits)
    have "vmm_unmap_page a ctx va s = Some (0, pt_set y ?i 0 s)"
      using leaf_slot_read [OF assms] nz y leaf_nonzero [OF inv y(1) i]
      by (simp add: vmm_unmap_page_def pt_set_def)
    moreover have "vm_update a s F T (pt_set y ?i 0 s) F T
        (\<lambda>r' q old. if r' = r \<and> q = va_path va then None else old)"
      using leaf_write_update [OF vm_grow_refl [OF inv] y(1) _ i, of 0] by (simp add: va_path_vpath pte.absent_0)
    ultimately show ?thesis using Some by blast
  qed
qed

lemma virt_to_phys_walk:
  assumes inv: "vm_inv a s F T" and ctx: "vm_ctx s F T ctx r" and va: "user_va va"
  shows "vmm_virt_to_phys a ctx va s = Some (case pt_walk a s r (va_path va) of None \<Rightarrow> 0
    | Some e \<Rightarrow> arch_vmm_pte_get_phys a e OR (va AND (PAGE_SIZE - 1)))"
proof -
  have nz: "ctx \<noteq> 0" using ctx by (simp add: vm_ctx_def)
  have "T (r, vpath va 0) = Some y \<Longrightarrow> y + hhdm_offset s + 8 * of_nat (unat (VMM_INDEX va 0)) \<noteq> 0" for y
    by (rule leaf_nonzero [OF inv]) (simp_all add: vmm_index)
  then show ?thesis using leaf_slot_read [OF assms] walk_va [OF assms] nz
    by (auto simp: vmm_virt_to_phys_def Let_def split: option.splits)
qed

end
