(* ===== verification/Vmm_Client.thy ===== *)
theory Vmm_Client
  imports Vmm_Ops
begin

text \<open>
  The contract of the virtual memory manager as its clients see it: contexts are independent maps
  from pages to frames with flags, and demand paging adds zeroed frames to the current one.
\<close>

section \<open>The contract\<close>

datatype vm_op = Vm_map u64 u64 u64 | Vm_unmap u64

fun vm_op_ok :: "vm_op \<Rightarrow> bool" where
  "vm_op_ok (Vm_map va ph fl) \<longleftrightarrow> user_va va \<and> pte_addr ph"
| "vm_op_ok (Vm_unmap va) \<longleftrightarrow> user_va va"

type_synonym aspace = "u64 \<Rightarrow> (u64 \<times> u64) option"

text \<open>An operation that returned \<open>ret\<close>, on an address space as a map.\<close>

fun vm_spec :: "vm_op \<Rightarrow> int \<Rightarrow> aspace \<Rightarrow> aspace" where
  "vm_spec (Vm_map va ph fl) ret A =
     (if ret = 0 then (\<lambda>x. if same_page x va then Some (ph, (fl OR VMM_PRESENT) AND 31) else A x) else A)"
| "vm_spec (Vm_unmap va) ret A = (if ret = 0 then (\<lambda>x. if same_page x va then None else A x) else A)"

fun vm_spec_run :: "vm_op list \<Rightarrow> int list \<Rightarrow> aspace \<Rightarrow> aspace" where
  "vm_spec_run (x # xs) (r # rs) A = vm_spec_run xs rs (vm_spec x r A)"
| "vm_spec_run _ _ A = A"

text \<open>Running operations on one context; the results are collected.\<close>

fun vm_exec :: "('c \<Rightarrow> vm_op \<Rightarrow> 's \<Rightarrow> (int \<times> 's) option) \<Rightarrow> 'c \<Rightarrow> vm_op list \<Rightarrow> 's \<Rightarrow> (int list \<times> 's) option" where
  "vm_exec step c [] s = Some ([], s)"
| "vm_exec step c (x # xs) s =
     Option.bind (step c x s) (\<lambda>(r, s'). map_option (\<lambda>(rs, s''). (r # rs, s'')) (vm_exec step c xs s'))"

text \<open>\<open>ok s F C\<close>: the machine is in order, \<open>F\<close> are the free pages, \<open>C\<close> gives the root of each
  context. Every operation returns and updates the space of its own context as specified.\<close>

locale address_spaces =
  fixes ok :: "'s \<Rightarrow> u64 set \<Rightarrow> (u64 \<Rightarrow> u64 option) \<Rightarrow> bool"
    and look :: "'s \<Rightarrow> u64 \<Rightarrow> aspace"
    and step :: "u64 \<Rightarrow> vm_op \<Rightarrow> 's \<Rightarrow> (int \<times> 's) option"
  assumes step_law: "ok s F C \<Longrightarrow> C c = Some r \<Longrightarrow> vm_op_ok x \<Longrightarrow>
    \<exists>ret s' F'. step c x s = Some (ret, s') \<and> ok s' F' C \<and> F' \<subseteq> F \<and>
      (\<forall>c' r' va. C c' = Some r' \<longrightarrow> user_va va \<longrightarrow>
         look s' r' va = (if r' = r then vm_spec x ret (look s r) va else look s r' va))"
begin

lemma vm_spec_cong: "(\<And>va. user_va va \<Longrightarrow> A va = B va) \<Longrightarrow> user_va va \<Longrightarrow> vm_spec x ret A va = vm_spec x ret B va"
  by (cases x) auto

lemma vm_spec_run_cong:
  "(\<And>va. user_va va \<Longrightarrow> A va = B va) \<Longrightarrow> user_va va \<Longrightarrow> vm_spec_run xs rs A va = vm_spec_run xs rs B va"
proof (induction xs rs A arbitrary: B rule: vm_spec_run.induct)
  case (1 x xs r rs A)
  have "vm_spec x r A va = vm_spec x r B va" if "user_va va" for va
    using "1.prems"(1) that by (rule vm_spec_cong)
  then show ?case using "1.IH" "1.prems"(2) by simp
qed auto

text \<open>A whole sequence of operations on one context is its specification on that context, and
  nothing on the others.\<close>

lemma exec_refines:
  "ok s F C \<Longrightarrow> C c = Some r \<Longrightarrow> \<forall>x \<in> set xs. vm_op_ok x \<Longrightarrow>
   \<exists>rets s' F'. vm_exec step c xs s = Some (rets, s') \<and> length rets = length xs \<and> ok s' F' C \<and> F' \<subseteq> F \<and>
     (\<forall>va. user_va va \<longrightarrow> look s' r va = vm_spec_run xs rets (look s r) va) \<and>
     (\<forall>c' r' va. C c' = Some r' \<longrightarrow> r' \<noteq> r \<longrightarrow> user_va va \<longrightarrow> look s' r' va = look s r' va)"
proof (induction xs arbitrary: s F)
  case Nil
  then show ?case by auto
next
  case (Cons x xs)
  have "vm_op_ok x" using Cons.prems(3) by simp
  from step_law [OF Cons.prems(1,2) this] obtain ret s1 F1 where st: "step c x s = Some (ret, s1)" "ok s1 F1 C" "F1 \<subseteq> F"
    and look: "\<And>c' r' va. C c' = Some r' \<Longrightarrow> user_va va \<Longrightarrow>
      look s1 r' va = (if r' = r then vm_spec x ret (look s r) va else look s r' va)" by blast
  have "\<forall>x \<in> set xs. vm_op_ok x" using Cons.prems(3) by simp
  from Cons.IH [OF st(2) Cons.prems(2) this] obtain rets s' F' where
    ex: "vm_exec step c xs s1 = Some (rets, s')" "length rets = length xs" "ok s' F' C" "F' \<subseteq> F1"
    and l1: "\<And>va. user_va va \<Longrightarrow> look s' r va = vm_spec_run xs rets (look s1 r) va"
    and l2: "\<And>c' r' va. C c' = Some r' \<Longrightarrow> r' \<noteq> r \<Longrightarrow> user_va va \<Longrightarrow> look s' r' va = look s1 r' va" by blast
  have "vm_exec step c (x # xs) s = Some (ret # rets, s')" using st(1) ex(1) by simp
  moreover have "look s' r va = vm_spec_run (x # xs) (ret # rets) (look s r) va" if va: "user_va va" for va
  proof -
    have "vm_spec_run xs rets (look s1 r) va = vm_spec_run xs rets (vm_spec x ret (look s r)) va"
      using look [OF Cons.prems(2)] va by (intro vm_spec_run_cong) auto
    then show ?thesis using l1 [OF va] by simp
  qed
  moreover have "look s' r' va = look s r' va" if "C c' = Some r'" "r' \<noteq> r" "user_va va" for c' r' va
    using l2 [OF that] look [OF that(1,3)] that(2) by simp
  moreover have "length (ret # rets) = length (x # xs)" using ex(2) by simp
  moreover have "F' \<subseteq> F" using ex(4) st(3) by blast
  ultimately show ?case using ex(3) by blast
qed

end

section \<open>The virtual memory manager provides it\<close>

definition vm_world :: "arch \<Rightarrow> 'a pmm_state_scheme \<Rightarrow> u64 set \<Rightarrow> (u64 \<Rightarrow> u64 option) \<Rightarrow> bool" where
  "vm_world a s F C \<longleftrightarrow> (\<exists>T. vm_inv a s F T \<and> (\<forall>c r. C c = Some r \<longrightarrow> vm_ctx s F T c r))"

definition vm_step :: "arch \<Rightarrow> u64 \<Rightarrow> vm_op \<Rightarrow> 'a vmm_state_scheme \<Rightarrow> (int \<times> 'a vmm_state_scheme) option" where
  "vm_step a c x s = (case x of Vm_map va ph fl \<Rightarrow> vmm_map_page a c va ph fl s | Vm_unmap va \<Rightarrow> vmm_unmap_page a c va s)"

lemma vm_update_ctx:
  assumes "vm_update a s F T s' F' T' upd" "vm_ctx s F T c r"
  shows "vm_ctx s' F' T' c r" "ctx_same (kmem s) (kmem s') c"
proof -
  note u = assms(1) [unfolded vm_update_def]
  have off: "hhdm_offset s' = hhdm_offset s" using u by auto
  have sub: "F' \<union> ran T' \<subseteq> F \<union> ran T" using u by blast
  have frame: "\<forall>x. (\<forall>q \<in> F \<union> ran T. \<not> in_page q x) \<longrightarrow> phys_byte s' x = phys_byte s x" using u by blast
  show "vm_ctx s' F' T' c r" using u sub by (intro vm_ctx_keep(2) [OF assms(2) off frame]) blast+
  show "ctx_same (kmem s) (kmem s') c" by (rule vm_ctx_keep(1) [OF assms(2) off frame])
qed

lemma vm_update_look:
  assumes u: "vm_update a s F T s' F' T' (\<lambda>r' q old. if r' = r \<and> q = va_path va then new else old)"
    and "vm_ctx s F T c' r'" "user_va va" "user_va x"
  shows "vspace a s' r' x = (if r' = r \<and> same_page x va
    then map_option (\<lambda>e. (arch_vmm_pte_get_phys a e, arch_vmm_pte_get_flags a e)) new else vspace a s r' x)"
proof -
  have "T (r', []) \<noteq> None" using assms(2) by (simp add: vm_ctx_def)
  then have "pt_walk a s' r' (va_path x) = (if r' = r \<and> va_path x = va_path va then new else pt_walk a s r' (va_path x))"
    using u path_ok_va [OF assms(4)] unfolding vm_update_def by simp
  then show ?thesis using va_path_eq [OF assms(4,3)] by (simp add: vspace_def)
qed

lemma vm_update_look_same:
  assumes u: "vm_update a s F T s' F' T' (\<lambda>_ _ e. e)" and "vm_ctx s F T c' r'" "user_va x"
  shows "vspace a s' r' x = vspace a s r' x"
proof -
  have "T (r', []) \<noteq> None" using assms(2) by (simp add: vm_ctx_def)
  then have "pt_walk a s' r' (va_path x) = pt_walk a s r' (va_path x)"
    using u path_ok_va [OF assms(3)] unfolding vm_update_def by simp
  then show ?thesis by (simp add: vspace_def)
qed

lemma vm_step_map:
  assumes w: "vm_inv a s F T" "\<forall>c r. C c = Some r \<longrightarrow> vm_ctx s F T c r" and c: "C c = Some r"
    and va: "user_va va" and ph: "pte_addr ph"
  shows "\<exists>ret s' F'. vmm_map_page a c va ph fl s = Some (ret, s') \<and> vm_world a s' F' C \<and> F' \<subseteq> F \<and>
    (\<forall>c' r' x. C c' = Some r' \<longrightarrow> user_va x \<longrightarrow>
       vspace a s' r' x = (if r' = r then vm_spec (Vm_map va ph fl) ret (vspace a s r) x else vspace a s r' x))"
proof -
  have ctx: "vm_ctx s F T c r" using w(2) c by blast
  obtain ret s' F' T' where m: "vmm_map_page a c va ph fl s = Some (ret, s')"
    "ret = 0 \<and> vm_update a s F T s' F' T' (\<lambda>r' q old. if r' = r \<and> q = va_path va
        then Some (arch_vmm_make_pte a ph (fl OR VMM_PRESENT) False) else old) \<or>
     ret = -1 \<and> vm_update a s F T s' F' T' (\<lambda>_ _ e. e)"
    using map_page_update [OF w(1) ctx va] by blast
  obtain u where u: "vm_update a s F T s' F' T' u" using m(2) by blast
  have "vm_inv a s' F' T'" "F' \<subseteq> F" using u unfolding vm_update_def by blast+
  moreover have "\<forall>c r. C c = Some r \<longrightarrow> vm_ctx s' F' T' c r" using w(2) vm_update_ctx(1) [OF u] by blast
  ultimately have "vm_world a s' F' C" "F' \<subseteq> F" unfolding vm_world_def by blast+
  moreover have "vspace a s' r' x = (if r' = r then vm_spec (Vm_map va ph fl) ret (vspace a s r) x else vspace a s r' x)"
    if h: "C c' = Some r'" "user_va x" for c' r' x
  proof -
    have ctx': "vm_ctx s F T c' r'" using w(2) h(1) by blast
    from m(2) show ?thesis
    proof
      assume "ret = 0 \<and> vm_update a s F T s' F' T' (\<lambda>r' q old. if r' = r \<and> q = va_path va
        then Some (arch_vmm_make_pte a ph (fl OR VMM_PRESENT) False) else old)"
      then show ?thesis using vm_update_look [OF _ ctx' va h(2)] ph by (auto simp: pte.phys_make pte.flags_make)
    next
      assume "ret = -1 \<and> vm_update a s F T s' F' T' (\<lambda>_ _ e. e)"
      then show ?thesis using vm_update_look_same [OF _ ctx' h(2)] by auto
    qed
  qed
  ultimately show ?thesis using m(1) by blast
qed

lemma vm_step_unmap:
  assumes w: "vm_inv a s F T" "\<forall>c r. C c = Some r \<longrightarrow> vm_ctx s F T c r" and c: "C c = Some r" and va: "user_va va"
  shows "\<exists>ret s' F'. vmm_unmap_page a c va s = Some (ret, s') \<and> vm_world a s' F' C \<and> F' \<subseteq> F \<and>
    (\<forall>c' r' x. C c' = Some r' \<longrightarrow> user_va x \<longrightarrow>
       vspace a s' r' x = (if r' = r then vm_spec (Vm_unmap va) ret (vspace a s r) x else vspace a s r' x))"
proof -
  have ctx: "vm_ctx s F T c r" using w(2) c by blast
  have world: "vm_world a s F C" using w unfolding vm_world_def by blast
  obtain ret s' where m: "vmm_unmap_page a c va s = Some (ret, s')"
    "ret = 0 \<and> vm_update a s F T s' F T (\<lambda>r' q old. if r' = r \<and> q = va_path va then None else old) \<or> ret = -1 \<and> s' = s"
    using unmap_page_update [OF w(1) ctx va] by blast
  from m(2) show ?thesis
  proof
    assume h: "ret = -1 \<and> s' = s"
    then show ?thesis using m(1) world by auto
  next
    assume h: "ret = 0 \<and> vm_update a s F T s' F T (\<lambda>r' q old. if r' = r \<and> q = va_path va then None else old)"
    then have u: "vm_update a s F T s' F T (\<lambda>r' q old. if r' = r \<and> q = va_path va then None else old)" by blast
    have "vm_world a s' F C" using w(2) vm_update_ctx(1) [OF u] u unfolding vm_world_def vm_update_def by blast
    moreover have "vspace a s' r' x = (if r' = r then vm_spec (Vm_unmap va) ret (vspace a s r) x else vspace a s r' x)"
      if "C c' = Some r'" "user_va x" for c' r' x
      using vm_update_look [OF u _ va that(2), of c' r'] w(2) that(1) h by auto
    ultimately show ?thesis using m(1) by blast
  qed
qed

interpretation vm: address_spaces "vm_world a" "vspace a" "vm_step a :: u64 \<Rightarrow> vm_op \<Rightarrow> 'b vmm_state_scheme \<Rightarrow> _" for a
proof
  fix s :: "'b vmm_state_scheme" and F C c r x
  assume w: "vm_world a s F C" and c: "C c = Some r" and x: "vm_op_ok x"
  then obtain T where T: "vm_inv a s F T" "\<forall>c r. C c = Some r \<longrightarrow> vm_ctx s F T c r" unfolding vm_world_def by blast
  show "\<exists>ret s' F'. vm_step a c x s = Some (ret, s') \<and> vm_world a s' F' C \<and> F' \<subseteq> F \<and>
      (\<forall>c' r' va. C c' = Some r' \<longrightarrow> user_va va \<longrightarrow>
         vspace a s' r' va = (if r' = r then vm_spec x ret (vspace a s r) va else vspace a s r' va))"
  proof (cases x)
    case (Vm_map va ph fl)
    then have va: "user_va va" "pte_addr ph" and st: "vm_step a c (Vm_map va ph fl) s = vmm_map_page a c va ph fl s"
      using x by (simp_all add: vm_step_def)
    show ?thesis unfolding Vm_map st by (rule vm_step_map [OF T c va])
  next
    case (Vm_unmap va)
    then have va: "user_va va" and st: "vm_step a c (Vm_unmap va) s = vmm_unmap_page a c va s"
      using x by (simp_all add: vm_step_def)
    show ?thesis unfolding Vm_unmap st by (rule vm_step_unmap [OF T c va])
  qed
qed

end
