(* ===== verification/Vmm_Fault.thy ===== *)
theory Vmm_Fault
  imports Vmm_Client
begin

text \<open>
  Demand paging: the page-fault handler of \<^verbatim>\<open>vmm.c\<close> on a fault in the lower half, and the
  properties of the address spaces with a concrete machine that satisfies their hypotheses.
\<close>

section \<open>Pages that change hands\<close>

lemma pt_walk_frame:
  assumes tabs: "pt_tabs a s T" and off: "hhdm_offset s' = hhdm_offset s"
    and same: "\<And>x y. x \<in> ran T \<Longrightarrow> in_page x y \<Longrightarrow> phys_byte s' y = phys_byte s y"
    and p: "T (r, []) \<noteq> None" "length p = 4" "path_ok p"
  shows "pt_walk a s' r p = pt_walk a s r p"
proof -
  have tabs': "pt_tabs a s' T" by (rule pt_tabs_frame(1) [OF tabs off]) (rule same)
  have last: "last p < 512" using p(2,3) by (cases p rule: rev_cases) (auto simp: slot_ok_def)
  have "leaf_of a s' T r p = leaf_of a s T r p"
  proof (cases "T (r, butlast p)")
    case (Some y)
    then have "pt_entry s' y (last p) = pt_entry s y (last p)" 
      using last same by (intro pt_tabs_frame(2) [OF tabs off]) (auto simp: ran_def)
    then show ?thesis using Some by (simp add: leaf_of_def)
  qed (simp add: leaf_of_def)
  then show ?thesis using pt_walk_root [OF tabs' p] pt_walk_root [OF tabs p] by simp
qed

lemma table_not_free:
  assumes "vm_inv a s F T" "x \<in> ran T" "in_page x y" "q \<in> F"
  shows "\<not> in_page q y"
proof
  assume "in_page q y"
  have rel: "pmm_rel s F" and tabs: "pt_tabs a s T" and dis: "ran T \<inter> F = {}" using assms(1) by (auto simp: vm_inv_def)
  have "page_aligned x" "page_aligned q"
    using assms(2,4) pt_tabs_page [OF tabs rel] pmm_page_ok_aligned [OF rel pmm_rel_ok [OF rel]] by (auto simp: ran_def)
  then have "x = q" using in_page_unique assms(3) \<open>in_page q y\<close> by blast
  then show False using assms(2,4) dis by blast
qed

text \<open>A frame taken from the free pages: no table changes.\<close>

lemma take_frame:
  assumes inv: "vm_inv a s F T"
  shows "\<exists>f s1. alloc_zeroed_page s = Some (f, s1) \<and>
    (f = 0 \<and> s1 = s \<and> F = {} \<or>
     f \<noteq> 0 \<and> f \<in> F \<and> vm_inv a s1 (F - {f}) T \<and> (\<exists>m h. s1 = s\<lparr>kmem := m, free_list_head := h\<rparr>) \<and>
     (\<forall>x. in_page f x \<longrightarrow> phys_byte s1 x = 0) \<and>
     (\<forall>x. (\<forall>q \<in> F. \<not> in_page q x) \<longrightarrow> phys_byte s1 x = phys_byte s x) \<and>
     (\<forall>r p. T (r, []) \<noteq> None \<longrightarrow> length p = 4 \<longrightarrow> path_ok p \<longrightarrow> pt_walk a s1 r p = pt_walk a s r p))"
proof -
  have rel: "pmm_rel s F" and tabs: "pt_tabs a s T" using inv by (auto simp: vm_inv_def)
  obtain f s1 where al: "alloc_zeroed_page s = Some (f, s1)"
    "f = 0 \<and> s1 = s \<and> F = {} \<or> f \<noteq> 0 \<and> f \<in> F \<and> pmm_rel s1 (F - {f}) \<and>
      (\<exists>m h. s1 = s\<lparr>kmem := m, free_list_head := h\<rparr>) \<and> (\<forall>x. in_page f x \<longrightarrow> phys_byte s1 x = 0) \<and>
      (\<forall>x. (\<forall>q \<in> F. \<not> in_page q x) \<longrightarrow> phys_byte s1 x = phys_byte s x)"
    using alloc_zeroed [OF rel] by blast
  show ?thesis
  proof (cases "f = 0")
    case True
    then show ?thesis using al by simp
  next
    case False
    then have f: "f \<in> F" "pmm_rel s1 (F - {f})" "\<exists>m h. s1 = s\<lparr>kmem := m, free_list_head := h\<rparr>"
      "\<forall>x. in_page f x \<longrightarrow> phys_byte s1 x = 0"
      "\<forall>x. (\<forall>q \<in> F. \<not> in_page q x) \<longrightarrow> phys_byte s1 x = phys_byte s x" using al(2) by blast+
    have off: "hhdm_offset s1 = hhdm_offset s" using f(3) by auto
    have same: "phys_byte s1 y = phys_byte s y" if "x \<in> ran T" "in_page x y" for x y
      using f(5) table_not_free [OF inv that] by blast
    have "pt_tabs a s1 T" by (rule pt_tabs_frame(1) [OF tabs off]) (rule same)
    then have "vm_inv a s1 (F - {f}) T" using f(2) inv unfolding vm_inv_def by blast
    moreover have "pt_walk a s1 r p = pt_walk a s r p" if "T (r, []) \<noteq> None" "length p = 4" "path_ok p" for r p
      by (rule pt_walk_frame [OF tabs off _ that]) (rule same)
    ultimately show ?thesis using al(1) False f by blast
  qed
qed

text \<open>A frame given back.\<close>

lemma give_frame:
  assumes inv: "vm_inv a s F T" and f: "f \<notin> F \<union> ran T" "pmm_page_ok s f" "pte_addr f"
  shows "vm_inv a (pmm_free f 1 s) (insert f F) T"
    and "\<exists>m h. pmm_free f 1 s = s\<lparr>kmem := m, free_list_head := h\<rparr>"
    and "\<forall>x. \<not> in_page f x \<longrightarrow> phys_byte (pmm_free f 1 s) x = phys_byte s x"
    and "T (r, []) \<noteq> None \<Longrightarrow> length p = 4 \<Longrightarrow> path_ok p \<Longrightarrow> pt_walk a (pmm_free f 1 s) r p = pt_walk a s r p"
proof -
  have rel: "pmm_rel s F" and tabs: "pt_tabs a s T" using inv by (auto simp: vm_inv_def)
  have eff: "pmm_rel (pmm_free f 1 s) (insert f F)" "\<exists>m h. pmm_free f 1 s = s\<lparr>kmem := m, free_list_head := h\<rparr>"
    "\<forall>x. \<not> in_page f x \<longrightarrow> phys_byte (pmm_free f 1 s) x = phys_byte s x"
    using pmm_free_rel [OF rel, of 1 f] f by auto
  then show "\<exists>m h. pmm_free f 1 s = s\<lparr>kmem := m, free_list_head := h\<rparr>"
    "\<forall>x. \<not> in_page f x \<longrightarrow> phys_byte (pmm_free f 1 s) x = phys_byte s x" by blast+
  have off: "hhdm_offset (pmm_free f 1 s) = hhdm_offset s" by simp
  have same: "phys_byte (pmm_free f 1 s) y = phys_byte s y" if h: "x \<in> ran T" "in_page x y" for x y
  proof -
    have "page_aligned x" "page_aligned f"
      using h(1) pt_tabs_page [OF tabs rel] pmm_page_ok_aligned [OF rel f(2)] by (auto simp: ran_def)
    then have "\<not> in_page f y" using in_page_unique [of x f y] h f(1) by blast
    then show ?thesis using eff(3) by blast
  qed
  have "pt_tabs a (pmm_free f 1 s) T" by (rule pt_tabs_frame(1) [OF tabs off]) (rule same)
  then show "vm_inv a (pmm_free f 1 s) (insert f F) T" using eff(1) inv f unfolding vm_inv_def by blast
  show "pt_walk a (pmm_free f 1 s) r p = pt_walk a s r p"
    if "T (r, []) \<noteq> None" "length p = 4" "path_ok p"
    by (rule pt_walk_frame [OF tabs off _ that]) (rule same)
qed

section \<open>The demand page\<close>

lemma page_of:
  "unat (va AND NOT (PAGE_SIZE - 1)) = unat va - unat va mod 4096"
proof -
  have "PAGE_SIZE - 1 = mask 12" by (simp add: PAGE_SIZE_def mask_eq_exp_minus_1)
  then show ?thesis using unat_and_not_mask [of va 12] by simp
qed

lemma page_of_user: "user_va va \<Longrightarrow> user_va (va AND NOT (PAGE_SIZE - 1))"
  by (simp add: user_va_iff page_of)

lemma page_of_same: "same_page x (va AND NOT (PAGE_SIZE - 1)) \<longleftrightarrow> same_page x va"
proof -
  have "(unat va - unat va mod 4096) div 4096 = unat va div 4096"
    by (simp add: minus_mod_eq_mult_div)
  then show ?thesis by (simp only: same_page_def page_of)
qed

text \<open>The frame \<open>f\<close> has left the free pages: it is mapped, or given back when mapping fails.\<close>

definition demand_map :: "arch \<Rightarrow> u64 \<Rightarrow> u64 \<Rightarrow> 'a vmm_state_scheme \<Rightarrow> (bool \<times> 'a vmm_state_scheme) option" where
  "demand_map a addr f s =
     Option.bind (vmm_map_page a (vmm_current_context s) (addr AND NOT (PAGE_SIZE - 1)) f (VMM_WRITABLE OR VMM_USER) s)
       (\<lambda>(r, s2). if r \<noteq> 0 then Some (False, pmm_free f 1 s2) else Some (True, s2))"

lemma demand_map_fail:
  assumes u: "vm_update a s F T s' {} T' (\<lambda>_ _ e. e)" and inv: "vm_inv a s F T"
    and ctxs: "\<forall>c r. C c = Some r \<longrightarrow> vm_ctx s F T c r" "\<forall>c r. C c = Some r \<longrightarrow> vm_ctx s (insert f F) T c r"
    and f: "f \<notin> F \<union> ran T" "pmm_page_ok s f" "pte_addr f"
  shows "vm_world a (pmm_free f 1 s') {f} C"
    and "C c = Some r \<Longrightarrow> user_va x \<Longrightarrow> vspace a (pmm_free f 1 s') r x = vspace a s r x"
proof -
  note uu = u [unfolded vm_update_def]
  have inv': "vm_inv a s' {} T'" using uu by blast
  have ran: "ran T' = ran T \<union> F" using uu by simp
  have off: "hhdm_offset s' = hhdm_offset s" using uu by auto
  have f': "f \<notin> {} \<union> ran T'" "pmm_page_ok s' f" using f ran pmm_page_ok_cong [OF off] by auto
  note g = give_frame [OF inv' f' f(3)]
  have off2: "hhdm_offset (pmm_free f 1 s') = hhdm_offset s" using off by simp
  have frame: "\<forall>x. (\<forall>q \<in> insert f F \<union> ran T. \<not> in_page q x) \<longrightarrow> phys_byte (pmm_free f 1 s') x = phys_byte s x"
    using g(3) uu by simp
  have "vm_ctx (pmm_free f 1 s') {f} T' c r" if "C c = Some r" for c r
    using vm_ctx_keep(2) [OF ctxs(2) [rule_format, OF that] off2 frame, of "{f}" T'] uu ran by auto
  then show "vm_world a (pmm_free f 1 s') {f} C" using g(1) unfolding vm_world_def by blast
  show "vspace a (pmm_free f 1 s') r x = vspace a s r x" if h: "C c = Some r" "user_va x"
  proof -
    have ctx: "vm_ctx s F T c r" using ctxs(1) h(1) by blast
    have "T' (r, []) \<noteq> None" using ctx uu by (simp add: vm_ctx_def)
    then have "vspace a (pmm_free f 1 s') r x = vspace a s' r x"
      using g(4) [of r "va_path x"] path_ok_va [OF h(2)] by (simp add: vspace_def)
    then show ?thesis using vm_update_look_same [OF u ctx h(2)] by simp
  qed
qed

lemma demand_map_effect:
  assumes inv: "vm_inv a s F T" and cur: "C (vmm_current_context s) = Some r" and va: "user_va addr"
    and ctxs: "\<forall>c r. C c = Some r \<longrightarrow> vm_ctx s F T c r" "\<forall>c r. C c = Some r \<longrightarrow> vm_ctx s (insert f F) T c r"
    and f: "f \<notin> F \<union> ran T" "pmm_page_ok s f" "pte_addr f" and zero: "\<forall>x. in_page f x \<longrightarrow> phys_byte s x = 0"
  shows "\<exists>h s' F'. demand_map a addr f s = Some (h, s') \<and> vm_world a s' F' C \<and> F' \<subseteq> insert f F \<and>
    (h \<longrightarrow> F' \<subseteq> F \<and> (\<forall>x. in_page f x \<longrightarrow> phys_byte s' x = 0) \<and>
       (\<forall>c' r' x. C c' = Some r' \<longrightarrow> user_va x \<longrightarrow>
          vspace a s' r' x = (if r' = r \<and> same_page x addr then Some (f, 7) else vspace a s r' x))) \<and>
    (\<not> h \<longrightarrow> (\<exists>Z. finite Z \<and> card Z \<le> 3 \<and> F \<subseteq> Z) \<and>
       (\<forall>c' r' x. C c' = Some r' \<longrightarrow> user_va x \<longrightarrow> vspace a s' r' x = vspace a s r' x))"
proof -
  let ?va = "addr AND NOT (PAGE_SIZE - 1)" and ?fl = "VMM_WRITABLE OR VMM_USER"
  let ?e = "arch_vmm_make_pte a f (?fl OR VMM_PRESENT) False"
  have ctx: "vm_ctx s F T (vmm_current_context s) r" using ctxs(1) cur by blast
  obtain ret s' F' T' where m: "vmm_map_page a (vmm_current_context s) ?va f ?fl s = Some (ret, s')"
    "ret = 0 \<and> vm_update a s F T s' F' T' (\<lambda>r' q old. if r' = r \<and> q = va_path ?va then Some ?e else old) \<or>
     ret = -1 \<and> F' = {} \<and> (\<exists>Z. finite Z \<and> card Z \<le> 3 \<and> F \<subseteq> Z) \<and> vm_update a s F T s' F' T' (\<lambda>_ _ e. e)"
    using map_page_update [OF inv ctx page_of_user [OF va], of f ?fl] by blast
  from m(2) show ?thesis
  proof
    assume ok: "ret = 0 \<and> vm_update a s F T s' F' T' (\<lambda>r' q old. if r' = r \<and> q = va_path ?va then Some ?e else old)"
    then have u: "vm_update a s F T s' F' T' (\<lambda>r' q old. if r' = r \<and> q = va_path ?va then Some ?e else old)" by blast
    have res: "demand_map a addr f s = Some (True, s')" using m(1) ok by (simp add: demand_map_def)
    have F': "F' \<subseteq> F" and inv': "vm_inv a s' F' T'" using u unfolding vm_update_def by blast+
    have "vm_world a s' F' C" using inv' ctxs(1) vm_update_ctx(1) [OF u] unfolding vm_world_def by blast
    moreover have "phys_byte s' x = 0" if x: "in_page f x" for x
    proof -
      have rel: "pmm_rel s F" using inv by (simp add: vm_inv_def)
      have "page_aligned q" if "q \<in> F \<union> ran T" for q
        using that pmm_page_ok_aligned [OF rel pmm_rel_ok [OF rel]] pt_tabs_page [OF _ rel] inv
        by (auto simp: vm_inv_def ran_def)
      then have "\<forall>q \<in> F \<union> ran T. \<not> in_page q x"
        using in_page_unique [OF pmm_page_ok_aligned [OF rel f(2)] _ x] f(1) by metis
      then show ?thesis using u zero x unfolding vm_update_def by simp
    qed
    moreover have "vspace a s' r' x = (if r' = r \<and> same_page x addr then Some (f, 7) else vspace a s r' x)"
      if h: "C c' = Some r'" "user_va x" for c' r' x
      using vm_update_look [OF u ctxs(1) [rule_format, OF h(1)] page_of_user [OF va] h(2)] f(3)
      by (simp add: page_of_same pte.phys_make pte.flags_make VMM_PRESENT_def VMM_WRITABLE_def VMM_USER_def)
    ultimately show ?thesis using res F' by blast
  next
    assume no: "ret = -1 \<and> F' = {} \<and> (\<exists>Z. finite Z \<and> card Z \<le> 3 \<and> F \<subseteq> Z) \<and> vm_update a s F T s' F' T' (\<lambda>_ _ e. e)"
    then have u: "vm_update a s F T s' {} T' (\<lambda>_ _ e. e)" by blast
    have res: "demand_map a addr f s = Some (False, pmm_free f 1 s')" using m(1) no by (simp add: demand_map_def)
    note fail = demand_map_fail [OF u inv ctxs f]
    then show ?thesis using res no by blast
  qed
qed

lemma fault_demand:
  assumes "user_va addr" "hhdm_offset s \<ge> VMM_ADDR_SPLIT" "vmm_current_context s \<noteq> 0"
  shows "vmm_handle_page_fault a addr err s =
    (if ctx_demand_lo (kmem s) (vmm_current_context s) \<le> addr \<and> addr < ctx_demand_hi (kmem s) (vmm_current_context s) \<and>
        \<not> arch_vmm_fault_is_present a err
     then Option.bind (alloc_zeroed_page s) (\<lambda>(f, s1). if f = 0 then Some (False, s1) else demand_map a addr f s1)
     else Some (False, s))"
proof -
  have "addr < hhdm_offset s" using assms(1,2) by (simp add: user_va_def)
  then have "try_handle_hhdm_mmio_fault a addr err s = Some (False, s)"
    by (simp add: try_handle_hhdm_mmio_fault_def hhdm_get_offset_def)
  then show ?thesis using assms(3) unfolding demand_map_def
    by (auto simp: vmm_handle_page_fault_def try_handle_demand_page_fault_def Let_def not_le not_less)
qed

lemma vm_finite: "vm_inv a s F T \<Longrightarrow> finite F"
  by (auto simp: vm_inv_def pmm_rel_def)

lemma demand_taken:
  assumes inv: "vm_inv a s F T" and ctxs: "\<forall>c r. C c = Some r \<longrightarrow> vm_ctx s F T c r"
    and cur: "C (vmm_current_context s) = Some r" and va: "user_va addr"
    and al: "alloc_zeroed_page s = Some (f, s1)" "f \<noteq> 0"
  shows "\<exists>h s' F'. demand_map a addr f s1 = Some (h, s') \<and> vm_world a s' F' C \<and> F' \<subseteq> F \<and>
    (h \<longrightarrow> f \<in> F - F' \<and> (\<forall>x. in_page f x \<longrightarrow> phys_byte s' x = 0) \<and>
       (\<forall>c' r' x. C c' = Some r' \<longrightarrow> user_va x \<longrightarrow>
          vspace a s' r' x = (if r' = r \<and> same_page x addr then Some (f, 7) else vspace a s r' x))) \<and>
    (\<not> h \<longrightarrow> card F \<le> 4 \<and>
       (\<forall>c' r' x. C c' = Some r' \<longrightarrow> user_va x \<longrightarrow> vspace a s' r' x = vspace a s r' x))"
proof -
  have f: "f \<in> F" "vm_inv a s1 (F - {f}) T" "\<exists>m h. s1 = s\<lparr>kmem := m, free_list_head := h\<rparr>"
    "\<forall>x. in_page f x \<longrightarrow> phys_byte s1 x = 0" "\<forall>x. (\<forall>q \<in> F. \<not> in_page q x) \<longrightarrow> phys_byte s1 x = phys_byte s x"
    and walk: "\<forall>r p. T (r, []) \<noteq> None \<longrightarrow> length p = 4 \<longrightarrow> path_ok p \<longrightarrow> pt_walk a s1 r p = pt_walk a s r p"
    using take_frame [OF inv] al by auto
  obtain m h where s1: "s1 = s\<lparr>kmem := m, free_list_head := h\<rparr>" using f(3) by blast
  have fF: "insert f (F - {f}) = F" using f(1) by blast
  have frame: "\<forall>x. (\<forall>q \<in> F \<union> ran T. \<not> in_page q x) \<longrightarrow> phys_byte s1 x = phys_byte s x" using f(5) by blast
  have off: "hhdm_offset s1 = hhdm_offset s" using s1 by simp
  have ctxs1: "\<forall>c r. C c = Some r \<longrightarrow> vm_ctx s1 (F - {f}) T c r" "\<forall>c r. C c = Some r \<longrightarrow> vm_ctx s1 (insert f (F - {f})) T c r"
    using ctxs vm_ctx_keep(2) [OF _ off frame] unfolding fF by blast+
  have look1: "vspace a s1 r x = vspace a s r x" if h: "C c = Some r" "user_va x" for c r x
  proof -
    have "T (r, []) \<noteq> None" using ctxs h(1) by (auto simp: vm_ctx_def)
    then have "pt_walk a s1 r (va_path x) = pt_walk a s r (va_path x)"
      using walk path_ok_va [OF h(2)] length_va_path by blast
    then show ?thesis by (simp add: vspace_def)
  qed
  have fok: "f \<notin> F - {f} \<union> ran T" "pmm_page_ok s1 f" "pte_addr f"
    using f(1) inv pmm_rel_ok [of s F f] pmm_page_ok_cong [OF off] by (auto simp: vm_inv_def)
  have cur1: "C (vmm_current_context s1) = Some r" using cur s1 by simp
  obtain h s' F' where d: "demand_map a addr f s1 = Some (h, s')" "vm_world a s' F' C" "F' \<subseteq> insert f (F - {f})"
    and ok: "h \<Longrightarrow> F' \<subseteq> F - {f} \<and> (\<forall>x. in_page f x \<longrightarrow> phys_byte s' x = 0) \<and>
       (\<forall>c' r' x. C c' = Some r' \<longrightarrow> user_va x \<longrightarrow>
          vspace a s' r' x = (if r' = r \<and> same_page x addr then Some (f, 7) else vspace a s1 r' x))"
    and no: "\<not> h \<Longrightarrow> (\<exists>Z. finite Z \<and> card Z \<le> 3 \<and> F - {f} \<subseteq> Z) \<and>
       (\<forall>c' r' x. C c' = Some r' \<longrightarrow> user_va x \<longrightarrow> vspace a s' r' x = vspace a s1 r' x)"
    using demand_map_effect [OF f(2) cur1 va ctxs1 fok f(4)] by blast
  have "card F \<le> 4" if nh: "\<not> h"
  proof -
    obtain Z where "finite Z" "card Z \<le> 3" "F - {f} \<subseteq> Z" using no [OF nh] by blast
    then have "card (F - {f}) \<le> 3" using card_mono order_trans by blast
    then show ?thesis using f(1) vm_finite [OF inv] by (simp add: card_Diff_singleton)
  qed
  moreover have "F' \<subseteq> F" using d(3) fF by simp
  moreover have "f \<in> F - F'" if h using ok [OF that] f(1) by blast
  ultimately show ?thesis using d(1,2) ok no look1
    by (intro exI [of _ h] exI [of _ s'] exI [of _ F'] conjI impI) auto
qed

section \<open>A concrete machine\<close>

text \<open>Five free pages, an empty root table at physical 0x8000 and a context structure in the page at
  physical 0x4000, with the demand range of \<^verbatim>\<open>test_vmm.c\<close>.\<close>

definition vm_ctx_addr :: u64 where "vm_ctx_addr = 0xFFFF800000004000"

definition vm_base :: vmm_state where
  "vm_base = \<lparr>kmem = store64 (store64 (store64 (store64 (\<lambda>_. 0) vm_ctx_addr 0x8000) (vm_ctx_addr + 8) 0xFFFF800000008000)
       (vm_ctx_addr + 16) 0x60000000) (vm_ctx_addr + 24) 0x70000000,
     hhdm_offset = 0xFFFF800000000000, free_list_head = 0, max_phys_addr = 0x100000, heap_block_list = 0,
     vmm_kernel_context = vm_ctx_addr, vmm_current_context = vm_ctx_addr, user_root_reg = 0x8000, kernel_root_reg = 0\<rparr>"

definition vm_example :: vmm_state where
  "vm_example = pmm_free 0x10000 5 vm_base"

definition vm_example_free :: "u64 set" where
  "vm_example_free = {0x10000, 0x11000, 0x12000, 0x13000, 0x14000}"

definition vm_example_ctxs :: "u64 \<Rightarrow> u64 option" where
  "vm_example_ctxs = [vm_ctx_addr \<mapsto> 0x8000]"

lemma vm_example_blocks: "page_block 0x10000 (unat (5 :: u64)) = vm_example_free"
  by (auto simp add: vm_example_free_def page_block_def PAGE_SIZE_def lessThan_nat_numeral lessThan_Suc pred_numeral_simps)

lemma vm_example_pmm:
  "pmm_rel vm_example vm_example_free" "hhdm_offset vm_example = 0xFFFF800000000000"
  "\<forall>x. (\<forall>q \<in> vm_example_free. \<not> in_page q x) \<longrightarrow> phys_byte vm_example x = phys_byte vm_base x"
  "vmm_current_context vm_example = vm_ctx_addr"
proof -
  have "pmm_rel vm_base {}"
    by (simp add: pmm_rel_def pmm_inv_def vm_base_def page_aligned_def exI [of _ "[]"])
  moreover have "\<forall>q \<in> vm_example_free. pmm_page_ok vm_base q"
    by (simp add: vm_example_free_def pmm_page_ok_def pmm_node_ok_def vm_base_def page_aligned_def)
  ultimately have eff: "pmm_rel vm_example vm_example_free"
    "\<forall>x. (\<forall>q \<in> vm_example_free. \<not> in_page q x) \<longrightarrow> phys_byte vm_example x = phys_byte vm_base x"
    "\<exists>m h. vm_example = vm_base\<lparr>kmem := m, free_list_head := h\<rparr>"
    using pmm_free_rel [of vm_base "{}" 5 "0x10000"] unfolding vm_example_blocks vm_example_def by simp_all
  then show "pmm_rel vm_example vm_example_free"
    "\<forall>x. (\<forall>q \<in> vm_example_free. \<not> in_page q x) \<longrightarrow> phys_byte vm_example x = phys_byte vm_base x" by blast+
  obtain m h where ex: "vm_example = vm_base\<lparr>kmem := m, free_list_head := h\<rparr>" using eff(3) by blast
  show "vmm_current_context vm_example = vm_ctx_addr" "hhdm_offset vm_example = 0xFFFF800000000000"
    unfolding ex by (simp_all add: vm_base_def)
qed

lemma vm_example_aligned: "page_aligned 0x4000" "page_aligned 0x8000" "q \<in> vm_example_free \<Longrightarrow> page_aligned q"
  by (auto simp: vm_example_free_def page_aligned_def)

lemma vm_example_untouched:
  assumes "in_page 0x4000 x \<or> in_page 0x8000 x"
  shows "phys_byte vm_example x = phys_byte vm_base x"
proof -
  have "\<not> in_page q x" if q: "q \<in> vm_example_free" for q
    using assms in_page_unique [OF _ vm_example_aligned(3) [OF q], of "0x4000" x]
      in_page_unique [OF _ vm_example_aligned(3) [OF q], of "0x8000" x] vm_example_aligned(1,2) q
    by (auto simp: vm_example_free_def)
  then show ?thesis using vm_example_pmm(3) by blast
qed

lemma vm_ctx_page: "x \<in> extent vm_ctx_addr 32 \<Longrightarrow> in_page 0x4000 (x - 0xFFFF800000000000)"
proof -
  assume "x \<in> extent vm_ctx_addr 32"
  then have "in_page vm_ctx_addr x" using extent_mono [of 32 4096 vm_ctx_addr] by (auto simp: in_page_extent)
  then show ?thesis by (simp add: in_page_def vm_ctx_addr_def)
qed

lemma vm_example_root: "i < 512 \<Longrightarrow> pt_entry vm_example 0x8000 i = 0"
proof -
  assume i: "i < 512"
  have "phys_byte vm_example y = 0" if y: "in_page 0x8000 y" for y
  proof -
    have "\<not> in_page 0x4000 y" using in_page_unique [OF vm_example_aligned(1,2) _ y] by auto
    then have out: "y + 0xFFFF800000000000 \<notin> extent vm_ctx_addr 32" using vm_ctx_page [of "y + 0xFFFF800000000000"] by auto
    have "extent (vm_ctx_addr + of_nat k) 8 \<subseteq> extent vm_ctx_addr 32" if "k \<le> 24" for k
      using that by (intro extent_sub) auto
    from this [of 0] this [of 8] this [of 16] this [of 24] out have
      "y + 0xFFFF800000000000 \<notin> extent vm_ctx_addr 8" "y + 0xFFFF800000000000 \<notin> extent (vm_ctx_addr + 8) 8"
      "y + 0xFFFF800000000000 \<notin> extent (vm_ctx_addr + 16) 8" "y + 0xFFFF800000000000 \<notin> extent (vm_ctx_addr + 24) 8"
      by auto
    then have "phys_byte vm_base y = 0" by (simp add: phys_byte_def vm_base_def store64_out)
    then show ?thesis using vm_example_untouched y by simp
  qed
  then have "pt_entry vm_example 0x8000 i = pt_entry (vm_example\<lparr>kmem := \<lambda>_. 0\<rparr>) 0x8000 i"
    using i by (intro pt_entry_agree) (simp_all add: phys_byte_def)
  then show ?thesis by (simp add: pt_entry_def load64_zero)
qed

lemma vm_base_ctx:
  "ctx_root_phys (kmem vm_base) vm_ctx_addr = 0x8000" "ctx_root_virt (kmem vm_base) vm_ctx_addr = 0xFFFF800000008000"
  "ctx_demand_lo (kmem vm_base) vm_ctx_addr = 0x60000000" "ctx_demand_hi (kmem vm_base) vm_ctx_addr = 0x70000000"
proof -
  have "apart (vm_ctx_addr + 8) 8 vm_ctx_addr 8" "apart (vm_ctx_addr + 16) 8 vm_ctx_addr 8"
    "apart (vm_ctx_addr + 24) 8 vm_ctx_addr 8" "apart (vm_ctx_addr + 16) 8 (vm_ctx_addr + 8) 8"
    "apart (vm_ctx_addr + 24) 8 (vm_ctx_addr + 8) 8" "apart (vm_ctx_addr + 24) 8 (vm_ctx_addr + 16) 8"
    by (simp_all add: apart_def vm_ctx_addr_def)
  note ap = this
  show "ctx_root_phys (kmem vm_base) vm_ctx_addr = 0x8000" "ctx_root_virt (kmem vm_base) vm_ctx_addr = 0xFFFF800000008000"
    "ctx_demand_lo (kmem vm_base) vm_ctx_addr = 0x60000000" "ctx_demand_hi (kmem vm_base) vm_ctx_addr = 0x70000000"
    unfolding ctx_root_phys_def ctx_root_virt_def ctx_demand_lo_def ctx_demand_hi_def vm_base_def pmm_state.select_convs
    by (simp_all only: load64_store64_same load64_store64_apart ap)
qed

lemma vm_example_ctx:
  "ctx_root_phys (kmem vm_example) vm_ctx_addr = 0x8000" "ctx_root_virt (kmem vm_example) vm_ctx_addr = 0xFFFF800000008000"
  "ctx_demand_lo (kmem vm_example) vm_ctx_addr = 0x60000000" "ctx_demand_hi (kmem vm_example) vm_ctx_addr = 0x70000000"
proof -
  have "hhdm_offset vm_base = 0xFFFF800000000000" by (simp add: vm_base_def)
  then have "kmem vm_example x = kmem vm_base x" if "x \<in> extent vm_ctx_addr 32" for x
    using vm_example_untouched [OF disjI1 [OF vm_ctx_page [OF that]]] vm_example_pmm(2) by (simp add: phys_byte_def)
  then have "ctx_same (kmem vm_base) (kmem vm_example) vm_ctx_addr" by (rule ctx_sameI)
  then show "ctx_root_phys (kmem vm_example) vm_ctx_addr = 0x8000"
    "ctx_root_virt (kmem vm_example) vm_ctx_addr = 0xFFFF800000008000"
    "ctx_demand_lo (kmem vm_example) vm_ctx_addr = 0x60000000" "ctx_demand_hi (kmem vm_example) vm_ctx_addr = 0x70000000"
    by (simp_all add: ctx_same_def vm_base_ctx)
qed

lemma vm_example_apart:
  assumes "x \<in> extent vm_ctx_addr 32" "q \<in> insert 0x8000 vm_example_free"
  shows "\<not> in_page (q + 0xFFFF800000000000) x"
proof
  assume "in_page (q + 0xFFFF800000000000) x"
  then have "in_page q (x - 0xFFFF800000000000)" using in_page_shift [of q "0xFFFF800000000000" "x - 0xFFFF800000000000"] by simp
  moreover have "page_aligned q" using assms(2) vm_example_aligned(2,3) by auto
  ultimately have "0x4000 = q" using in_page_unique [OF vm_example_aligned(1) _ vm_ctx_page [OF assms(1)]] by blast
  then show False using assms(2) by (simp add: vm_example_free_def)
qed

lemma vm_example_world: "vm_world a vm_example vm_example_free vm_example_ctxs"
proof -
  let ?T = "[(0x8000, []) \<mapsto> 0x8000] :: tabs"
  have "pt_tabs a vm_example ?T"
    by (auto simp: pt_tabs_def pmm_page_ok_def pmm_node_ok_def vm_example_pmm(2) page_aligned_def pte_addr_def
        pt_child_def vm_example_root slot_ok_def pte.absent_0 split: if_splits)
  moreover have ran: "ran ?T = {0x8000}" by simp
  moreover have "{0x8000} \<inter> vm_example_free = {}" "\<forall>q \<in> vm_example_free. pte_addr q"
    by (simp_all add: vm_example_free_def pte_addr_def)
  ultimately have inv: "vm_inv a vm_example vm_example_free ?T" using vm_example_pmm(1) unfolding vm_inv_def by blast
  have "vm_ctx vm_example vm_example_free ?T vm_ctx_addr 0x8000"
    unfolding vm_ctx_def ran vm_example_pmm(2) vm_example_ctx using vm_example_apart by (simp add: vm_ctx_addr_def)
  then show ?thesis using inv unfolding vm_world_def vm_example_ctxs_def
    by (intro exI [of _ ?T]) (simp split: if_splits)
qed

section \<open>Properties of the virtual memory manager\<close>



text \<open>\<open>vmm_virt_to_phys\<close> computes the hardware's translation: frame and page offset of a mapped
  address, 0 for an address that is not mapped.\<close>

theorem vmm_translate:
  assumes "vm_world a s F C" "C c = Some r" "user_va va"
  shows "vmm_virt_to_phys a c va s =
    Some (case vspace a s r va of None \<Rightarrow> 0 | Some (ph, fl) \<Rightarrow> ph OR (va AND (PAGE_SIZE - 1)))"
proof -
  obtain T where "vm_inv a s F T" "vm_ctx s F T c r" using assms(1,2) unfolding vm_world_def by blast
  from virt_to_phys_walk [OF this assms(3)] show ?thesis by (simp add: vspace_def split: option.splits)
qed

theorem vmm_translate_witness: "vmm_virt_to_phys AArch64 vm_ctx_addr 0x1000 vm_example = Some 0"
proof -
  have va: "user_va 0x1000" by (simp add: user_va_iff)
  have c: "vm_example_ctxs vm_ctx_addr = Some 0x8000" by (simp add: vm_example_ctxs_def)
  have "vspace AArch64 vm_example 0x8000 0x1000 = None"
    by (simp add: vspace_def va_path_def vmm_index vm_example_root pte.absent_0)
  then show ?thesis using vmm_translate [OF vm_example_world c va, of AArch64] by simp
qed





end
