(* ===== verification/Vmm_Destroy.thy ===== *)
theory Vmm_Destroy
  imports Vmm_Fault
begin

text \<open>
  Tearing down a context: \<open>vmm_destroy_context\<close> gives back the root table, every table and every
  frame below it in the lower half, and the context structure, and nothing else.
\<close>

section \<open>The pages below a table\<close>

definition slot_pages :: "(u64 \<Rightarrow> u64 set) \<Rightarrow> arch \<Rightarrow> 'a pmm_state_scheme \<Rightarrow> u64 \<Rightarrow> nat \<Rightarrow> u64 set" where
  "slot_pages below a s x i = (case pt_child a s x i of None \<Rightarrow> {} | Some y \<Rightarrow> insert y (below y))"

primrec pt_below :: "nat \<Rightarrow> arch \<Rightarrow> 'a pmm_state_scheme \<Rightarrow> u64 \<Rightarrow> u64 set" where
  "pt_below 0 a s x = (\<Union>i<512. slot_pages (\<lambda>_. {}) a s x i)"
| "pt_below (Suc l) a s x = (\<Union>i<512. slot_pages (pt_below l a s) a s x i)"

text \<open>No page is reached twice.\<close>

definition slots_apart :: "(u64 \<Rightarrow> u64 set) \<Rightarrow> arch \<Rightarrow> 'a pmm_state_scheme \<Rightarrow> u64 \<Rightarrow> nat \<Rightarrow> bool" where
  "slots_apart below a s x n \<longleftrightarrow>
     (\<forall>i < n. \<forall>j < n. i \<noteq> j \<longrightarrow> slot_pages below a s x i \<inter> slot_pages below a s x j = {}) \<and>
     (\<forall>i < n. x \<notin> slot_pages below a s x i) \<and>
     (\<forall>i < n. \<forall>y. pt_child a s x i = Some y \<longrightarrow> y \<notin> below y)"

lemma slots_apartD:
  assumes "slots_apart below a s x n" "i < n"
  shows "j < n \<Longrightarrow> i \<noteq> j \<Longrightarrow> slot_pages below a s x i \<inter> slot_pages below a s x j = {}"
    and "x \<notin> slot_pages below a s x i" and "pt_child a s x i = Some y \<Longrightarrow> y \<notin> below y"
  using assms unfolding slots_apart_def by blast+

primrec pt_tree :: "nat \<Rightarrow> arch \<Rightarrow> 'a pmm_state_scheme \<Rightarrow> u64 \<Rightarrow> bool" where
  "pt_tree 0 a s x \<longleftrightarrow> slots_apart (\<lambda>_. {}) a s x 512"
| "pt_tree (Suc l) a s x \<longleftrightarrow> slots_apart (pt_below l a s) a s x 512 \<and>
     (\<forall>i < 512. \<forall>y. pt_child a s x i = Some y \<longrightarrow> pt_tree l a s y)"

definition same_bytes :: "u64 set \<Rightarrow> 'a pmm_state_scheme \<Rightarrow> 'a pmm_state_scheme \<Rightarrow> bool" where
  "same_bytes P s s' \<longleftrightarrow> hhdm_offset s' = hhdm_offset s \<and> (\<forall>q \<in> P. \<forall>x. in_page q x \<longrightarrow> phys_byte s' x = phys_byte s x)"

lemma same_bytes_sub: "same_bytes P s s' \<Longrightarrow> Q \<subseteq> P \<Longrightarrow> same_bytes Q s s'"
  by (auto simp: same_bytes_def)

lemma same_bytes_child: "same_bytes P s s' \<Longrightarrow> x \<in> P \<Longrightarrow> i < 512 \<Longrightarrow> pt_child a s' x i = pt_child a s x i"
  using pt_entry_agree [of x s' s i] by (auto simp: same_bytes_def pt_child_def)

lemma slot_pages_cong:
  assumes "pt_child a s' x i = pt_child a s x i" "\<And>y. pt_child a s x i = Some y \<Longrightarrow> f y = g y"
  shows "slot_pages f a s' x i = slot_pages g a s x i"
  using assms by (simp add: slot_pages_def split: option.splits)

lemma pt_below_same:
  "same_bytes (insert x (pt_below l a s x)) s s' \<Longrightarrow> pt_below l a s' x = pt_below l a s x"
proof (induction l arbitrary: x)
  case 0
  then have "slot_pages (\<lambda>_. {}) a s' x i = slot_pages (\<lambda>_. {}) a s x i" if "i < 512" for i
    using that by (intro slot_pages_cong) (auto intro: same_bytes_child)
  then show ?case by simp
next
  case (Suc l)
  have "slot_pages (pt_below l a s') a s' x i = slot_pages (pt_below l a s) a s x i" if i: "i < 512" for i
  proof (rule slot_pages_cong)
    show "pt_child a s' x i = pt_child a s x i" using Suc.prems i by (auto intro: same_bytes_child)
    fix y assume y: "pt_child a s x i = Some y"
    then have "insert y (pt_below l a s y) = slot_pages (pt_below l a s) a s x i" by (simp add: slot_pages_def)
    then have "insert y (pt_below l a s y) \<subseteq> pt_below (Suc l) a s x" using i by auto
    then show "pt_below l a s' y = pt_below l a s y" using Suc.prems by (intro Suc.IH) (auto intro: same_bytes_sub)
  qed
  then show ?case by simp
qed

lemma slots_apart_same:
  assumes "slots_apart f a s x n" "n \<le> 512"
    and "\<And>i. i < 512 \<Longrightarrow> pt_child a s' x i = pt_child a s x i"
    and "\<And>i y. i < 512 \<Longrightarrow> pt_child a s x i = Some y \<Longrightarrow> g y = f y"
  shows "slots_apart g a s' x n"
proof -
  have "slot_pages g a s' x i = slot_pages f a s x i" if "i < n" for i
  proof (rule slot_pages_cong)
    have i: "i < 512" using that assms(2) by simp
    show "pt_child a s' x i = pt_child a s x i" by (rule assms(3) [OF i])
    show "g y = f y" if "pt_child a s x i = Some y" for y by (rule assms(4) [OF i that])
  qed
  moreover have "y \<notin> g y" if "i < n" "pt_child a s' x i = Some y" for i y
  proof -
    have i: "i < 512" using that(1) assms(2) by simp
    have y: "pt_child a s x i = Some y" using that(2) assms(3) [OF i] by simp
    then show ?thesis using assms(1) assms(4) [OF i y] that(1) unfolding slots_apart_def by blast
  qed
  ultimately show ?thesis using assms(1) unfolding slots_apart_def by simp
qed

lemma pt_tree_same:
  "pt_tree l a s x \<Longrightarrow> same_bytes (insert x (pt_below l a s x)) s s' \<Longrightarrow> pt_tree l a s' x"
proof (induction l arbitrary: x)
  case 0
  then have "pt_child a s' x i = pt_child a s x i" if "i < 512" for i using that by (auto intro: same_bytes_child)
  then show ?case using 0 slots_apart_same [of "\<lambda>_. {}" a s x 512 s' "\<lambda>_. {}"] by simp
next
  case (Suc l)
  have child: "pt_child a s' x i = pt_child a s x i" if "i < 512" for i
    using Suc.prems that by (auto intro: same_bytes_child)
  have sub: "same_bytes (insert y (pt_below l a s y)) s s'" if "pt_child a s x i = Some y" "i < 512" for i y
  proof -
    have "insert y (pt_below l a s y) = slot_pages (pt_below l a s) a s x i" using that by (simp add: slot_pages_def)
    then have "insert y (pt_below l a s y) \<subseteq> pt_below (Suc l) a s x" using that by auto
    then show ?thesis using Suc.prems(2) by (auto intro: same_bytes_sub)
  qed
  have "slots_apart (pt_below l a s') a s' x 512"
  proof (rule slots_apart_same)
    show "slots_apart (pt_below l a s) a s x 512" using Suc.prems by simp
    show "pt_below l a s' y = pt_below l a s y" if "i < 512" "pt_child a s x i = Some y" for i y
      using sub [OF that(2,1)] by (rule pt_below_same)
  qed (use child in auto)
  moreover have "pt_tree l a s' y" if "i < 512" "pt_child a s' x i = Some y" for i y
    using that child Suc.prems(1) sub by (intro Suc.IH) auto
  ultimately show ?case by auto
qed

section \<open>Freeing the slots of a table\<close>

text \<open>\<open>f\<close> frees the pages \<open>B s y\<close> below a table \<open>y\<close> that satisfies \<open>R\<close>; both depend on the bytes of
  these pages only.\<close>

definition freed :: "'a pmm_state_scheme \<Rightarrow> u64 set \<Rightarrow> u64 set \<Rightarrow> 'a pmm_state_scheme \<Rightarrow> bool" where
  "freed s F P s' \<longleftrightarrow> pmm_rel s' (F \<union> P) \<and> (\<exists>m h. s' = s\<lparr>kmem := m, free_list_head := h\<rparr>) \<and>
     (\<forall>x. (\<forall>q \<in> P. \<not> in_page q x) \<longrightarrow> phys_byte s' x = phys_byte s x)"

definition pages_ok :: "'a pmm_state_scheme \<Rightarrow> u64 set \<Rightarrow> u64 set \<Rightarrow> bool" where
  "pages_ok s F P \<longleftrightarrow> (\<forall>q \<in> P. pmm_page_ok s q) \<and> P \<inter> F = {}"

definition frees_below ::
  "(u64 \<Rightarrow> 'a pmm_state_scheme \<Rightarrow> 'a pmm_state_scheme) \<Rightarrow> ('a pmm_state_scheme \<Rightarrow> u64 \<Rightarrow> u64 set) \<Rightarrow>
     ('a pmm_state_scheme \<Rightarrow> u64 \<Rightarrow> bool) \<Rightarrow> bool" where
  "frees_below f B R \<longleftrightarrow>
     (\<forall>s F y. pmm_rel s F \<longrightarrow> R s y \<longrightarrow> y \<notin> B s y \<longrightarrow> pages_ok s F (insert y (B s y)) \<longrightarrow>
        freed s F (B s y) (f (y + hhdm_offset s) s)) \<and>
     (\<forall>s s' y. same_bytes (insert y (B s y)) s s' \<longrightarrow> B s' y = B s y \<and> (R s y \<longrightarrow> R s' y))"

lemma freed_refl: "pmm_rel s F \<Longrightarrow> freed s F {} s"
  using pmm_state_same [of s] by (auto simp: freed_def)

lemma freed_trans: "freed s F P s1 \<Longrightarrow> freed s1 (F \<union> P) Q s2 \<Longrightarrow> freed s F (P \<union> Q) s2"
proof -
  assume a: "freed s F P s1" and b: "freed s1 (F \<union> P) Q s2"
  obtain m h m' h' where "s1 = s\<lparr>kmem := m, free_list_head := h\<rparr>" "s2 = s1\<lparr>kmem := m', free_list_head := h'\<rparr>"
    using a b unfolding freed_def by blast
  then have "s2 = s\<lparr>kmem := m', free_list_head := h'\<rparr>" by simp
  then show ?thesis using a b unfolding freed_def by (simp add: Un_assoc) blast
qed

lemma freed_off: "freed s F P s' \<Longrightarrow> hhdm_offset s' = hhdm_offset s"
  by (auto simp: freed_def)

lemma freed_same:
  assumes "freed s F P s'" "pmm_rel s F" "\<forall>q \<in> P \<union> Q. pmm_page_ok s q" "P \<inter> Q = {}"
  shows "same_bytes Q s s'"
proof -
  have "phys_byte s' x = phys_byte s x" if q: "q \<in> Q" "in_page q x" for q x
  proof -
    have "\<not> in_page p x" if p: "p \<in> P" for p
    proof -
      have "page_aligned p" "page_aligned q" using p q(1) assms(3) pmm_page_ok_aligned [OF assms(2)] by auto
      then show ?thesis using in_page_unique [of p q x] q p assms(4) by blast
    qed
    then show ?thesis using assms(1) unfolding freed_def by blast
  qed
  then show ?thesis using freed_off [OF assms(1)] by (simp add: same_bytes_def)
qed

lemma freed_one:
  assumes "pmm_rel s F" "pmm_page_ok s q" "q \<notin> F"
  shows "freed s F {q} (pmm_free q 1 s)"
  using pmm_free_rel [of s F 1 q] assms by (simp add: freed_def)

lemma free_slot:
  assumes fr: "frees_below f B R" and rel: "pmm_rel s F" and n: "n < 512"
    and y: "\<And>y. pt_child a s x n = Some y \<Longrightarrow> R s y \<and> y \<notin> B s y" and ok: "pages_ok s F (slot_pages (B s) a s x n)"
  shows "freed s F (slot_pages (B s) a s x n) (vmm_free_slot a f (x + hhdm_offset s) n s)"
proof (cases "pt_child a s x n")
  case None
  then have "vmm_free_slot a f (x + hhdm_offset s) n s = s"
    by (auto simp: vmm_free_slot_def pt_child_def pt_entry_def Let_def split: if_splits)
  then show ?thesis using None freed_refl [OF rel] by (simp add: slot_pages_def)
next
  case (Some y)
  let ?s1 = "f (y + hhdm_offset s) s"
  have P: "slot_pages (B s) a s x n = insert y (B s y)" using Some by (simp add: slot_pages_def)
  have st: "vmm_free_slot a f (x + hhdm_offset s) n s = pmm_free y 1 ?s1"
    using Some by (auto simp: vmm_free_slot_def pt_child_def pt_entry_def Let_def pmm_phys_to_virt_def
        hhdm_get_offset_def split: if_splits)
  have f1: "freed s F (B s y) ?s1"
    using fr rel y [OF Some] ok unfolding P frees_below_def by blast
  have "pmm_page_ok ?s1 y" "y \<notin> F \<union> B s y"
    using ok y [OF Some] pmm_page_ok_cong [OF freed_off [OF f1], of y] unfolding P pages_ok_def by auto
  then have "freed ?s1 (F \<union> B s y) {y} (pmm_free y 1 ?s1)" using f1 by (intro freed_one) (auto simp: freed_def)
  moreover have "B s y \<union> {y} = insert y (B s y)" by blast
  ultimately show ?thesis using freed_trans [OF f1] unfolding P st by metis
qed

lemma free_slots:
  assumes fr: "frees_below f B R" and rel: "pmm_rel s F" and x: "pmm_page_ok s x"
  shows "n \<le> 512 \<Longrightarrow> slots_apart (B s) a s x n \<Longrightarrow> (\<And>i y. i < n \<Longrightarrow> pt_child a s x i = Some y \<Longrightarrow> R s y) \<Longrightarrow>
    pages_ok s F (\<Union>i<n. slot_pages (B s) a s x i) \<Longrightarrow>
    freed s F (\<Union>i<n. slot_pages (B s) a s x i) (fold (vmm_free_slot a f (x + hhdm_offset s)) [0..<n] s)"
proof (induction n)
  case 0
  then show ?case using freed_refl [OF rel] by simp
next
  case (Suc n)
  let ?P = "\<lambda>i. slot_pages (B s) a s x i" and ?s1 = "fold (vmm_free_slot a f (x + hhdm_offset s)) [0..<n] s"
  have n: "n < 512" using Suc.prems(1) by simp
  have ap: "slots_apart (B s) a s x n" using Suc.prems(2) unfolding slots_apart_def by (meson less_SucI)
  have U: "(\<Union>i<Suc n. ?P i) = (\<Union>i<n. ?P i) \<union> ?P n" unfolding lessThan_Suc by blast
  have oks: "pages_ok s F (\<Union>i<n. ?P i)" "pages_ok s F (?P n)"
    using Suc.prems(4) unfolding U pages_ok_def by blast+
  have f1: "freed s F (\<Union>i<n. ?P i) ?s1"
  proof (rule Suc.IH [OF _ ap _ oks(1)])
    show "n \<le> 512" using n by simp
    show "R s y" if "i < n" "pt_child a s x i = Some y" for i y
      using Suc.prems(3) [OF less_SucI [OF that(1)] that(2)] .
  qed
  have "x \<notin> ?P i" "?P i \<inter> ?P n = {}" if "i < n" for i
    using slots_apartD [OF Suc.prems(2), of i] that by auto
  then have dis: "(\<Union>i<n. ?P i) \<inter> insert x (?P n) = {}" by blast
  have same: "same_bytes (insert x (?P n)) s ?s1"
    using oks x unfolding pages_ok_def by (intro freed_same [OF f1 rel _ dis]) blast
  have child: "pt_child a ?s1 x n = pt_child a s x n" using same_bytes_child [OF same _ n] by simp
  have below: "B ?s1 y = B s y \<and> R ?s1 y" if "pt_child a s x n = Some y" for y
  proof -
    have "insert y (B s y) \<subseteq> insert x (?P n)" using that by (auto simp: slot_pages_def)
    then have "same_bytes (insert y (B s y)) s ?s1" by (rule same_bytes_sub [OF same])
    then show ?thesis using fr Suc.prems(3) [of n y] that unfolding frees_below_def by blast
  qed
  have P1: "slot_pages (B ?s1) a ?s1 x n = ?P n" using child below by (intro slot_pages_cong) auto
  have rel1: "pmm_rel ?s1 (F \<union> (\<Union>i<n. ?P i))" using f1 by (simp add: freed_def)
  have "freed ?s1 (F \<union> (\<Union>i<n. ?P i)) (slot_pages (B ?s1) a ?s1 x n) (vmm_free_slot a f (x + hhdm_offset ?s1) n ?s1)"
  proof (rule free_slot [OF fr rel1 n])
    fix y assume "pt_child a ?s1 x n = Some y"
    then have y: "pt_child a s x n = Some y" using child by simp
    then have "y \<notin> B s y" using slots_apartD(3) [OF Suc.prems(2)] by blast
    then show "R ?s1 y \<and> y \<notin> B ?s1 y" using below [OF y] by simp
  next
    show "pages_ok ?s1 (F \<union> (\<Union>i<n. ?P i)) (slot_pages (B ?s1) a ?s1 x n)"
      using oks(2) dis pmm_page_ok_cong [OF freed_off [OF f1]] unfolding P1 pages_ok_def by blast
  qed
  from freed_trans [OF f1 this [unfolded P1]] show ?case
    unfolding U freed_off [OF f1] by simp
qed

lemma frees_nothing: "frees_below (\<lambda>_ s. s) (\<lambda>_ _. {}) (\<lambda>_ _. True)"
  using freed_refl by (auto simp: frees_below_def)

lemma frees_table: "frees_below (vmm_free_table_recursive l a) (pt_below l a) (pt_tree l a)"
proof (induction l)
  case 0
  have "freed s F (pt_below 0 a s y) (vmm_free_table_recursive 0 a (y + hhdm_offset s) s)"
    if "pmm_rel s F" "pt_tree 0 a s y" "pages_ok s F (insert y (pt_below 0 a s y))" for s :: "'a pmm_state_scheme" and F y
    using free_slots [OF frees_nothing that(1), of y 512 a] that(2,3) by (simp add: pages_ok_def)
  moreover have "pt_below 0 a s' y = pt_below 0 a s y \<and> (pt_tree 0 a s y \<longrightarrow> pt_tree 0 a s' y)"
    if "same_bytes (insert y (pt_below 0 a s y)) s s'" for s s' :: "'a pmm_state_scheme" and y
    using pt_below_same [OF that] pt_tree_same [OF _ that] by blast
  ultimately show ?case unfolding frees_below_def by blast
next
  case (Suc l)
  have "freed s F (pt_below (Suc l) a s y) (vmm_free_table_recursive (Suc l) a (y + hhdm_offset s) s)"
    if "pmm_rel s F" "pt_tree (Suc l) a s y" "pages_ok s F (insert y (pt_below (Suc l) a s y))"
    for s :: "'a pmm_state_scheme" and F y
    using free_slots [OF Suc that(1), of y 512 a] that(2,3) by (simp add: pages_ok_def)
  moreover have "pt_below (Suc l) a s' y = pt_below (Suc l) a s y \<and> (pt_tree (Suc l) a s y \<longrightarrow> pt_tree (Suc l) a s' y)"
    if "same_bytes (insert y (pt_below (Suc l) a s y)) s s'" for s s' :: "'a pmm_state_scheme" and y
    using pt_below_same [OF that] pt_tree_same [OF _ that] by blast
  ultimately show ?case unfolding frees_below_def by blast
qed

section \<open>Destroying a context\<close>

text \<open>The pages below the lower half of a root.\<close>

definition user_pages :: "arch \<Rightarrow> 'a pmm_state_scheme \<Rightarrow> u64 \<Rightarrow> u64 set" where
  "user_pages a s r = (\<Union>i<256. slot_pages (pt_below 2 a s) a s r i)"

definition user_tree :: "arch \<Rightarrow> 'a pmm_state_scheme \<Rightarrow> u64 \<Rightarrow> bool" where
  "user_tree a s r \<longleftrightarrow> slots_apart (pt_below 2 a s) a s r 256 \<and>
     (\<forall>i < 256. \<forall>y. pt_child a s r i = Some y \<longrightarrow> pt_tree 2 a s y)"

lemma heap_inv_freed:
  assumes inv: "heap_inv s H F" and fr: "freed s F P s'"
    and dis: "\<forall>b \<in> set H. \<forall>x \<in> bx b. \<forall>q \<in> P. \<not> in_page (q + hhdm_offset s) x"
  shows "heap_inv s' H (F \<union> P)"
proof -
  obtain m h where s': "s' = s\<lparr>kmem := m, free_list_head := h\<rparr>" using fr by (auto simp: freed_def)
  have "kmem s' x = kmem s x" if b: "b \<in> set H" "x \<in> bx b" for b x
  proof -
    have "\<not> in_page q (x - hhdm_offset s)" if "q \<in> P" for q
      using dis b that in_page_shift [of q "hhdm_offset s" "x - hhdm_offset s"] by simp
    then have "phys_byte s' (x - hhdm_offset s) = phys_byte s (x - hhdm_offset s)" using fr unfolding freed_def by blast
    then show ?thesis using freed_off [OF fr] by (simp add: phys_byte_def)
  qed
  moreover have "hseg (kmem s) (heap_block_list s) H" using inv by (simp add: heap_inv_def)
  ultimately have "hseg (kmem s') (heap_block_list s) H" using hseg_frame by blast
  moreover have "heap_block_list s' = heap_block_list s" "hhdm_offset s' = hhdm_offset s" using s' by simp_all
  ultimately show ?thesis using inv fr dis unfolding heap_inv_def freed_def by auto
qed

lemma ctx_outside:
  assumes inv: "heap_inv s H F" and ctx: "(ctx, n) \<in> used H" "32 \<le> unat n" and fr: "freed s F P s'"
    and dis: "\<forall>b \<in> set H. \<forall>x \<in> bx b. \<forall>q \<in> P. \<not> in_page (q + hhdm_offset s) x"
  shows "ctx_same (kmem s) (kmem s') ctx"
proof (rule ctx_sameI)
  fix x assume "x \<in> extent ctx 32"
  then have x: "x \<in> extent ctx (unat n)" using extent_mono [OF ctx(2)] by blast
  have "heap_ok H" using inv by (simp add: heap_inv_def)
  from used_payload [OF ctx(1) this] obtain b where b: "b \<in> set H" "extent ctx (unat n) \<subseteq> bx b" by blast
  have "\<not> in_page q (x - hhdm_offset s)" if "q \<in> P" for q
    using dis b x that in_page_shift [of q "hhdm_offset s" "x - hhdm_offset s"] by auto
  then have "phys_byte s' (x - hhdm_offset s) = phys_byte s (x - hhdm_offset s)" using fr unfolding freed_def by blast
  then show "kmem s' x = kmem s x" using freed_off [OF fr] by (simp add: phys_byte_def)
qed

lemma destroy_slots:
  assumes inv: "heap_inv s H F" and ctx: "(ctx, n) \<in> used H" "32 \<le> unat n"
    and root: "ctx_root_virt (kmem s) ctx = r + hhdm_offset s" "pmm_page_ok s r"
    and tree: "user_tree a s r" and ok: "pages_ok s F (user_pages a s r)"
    and dis: "\<forall>b \<in> set H. \<forall>x \<in> bx b. \<forall>q \<in> user_pages a s r. \<not> in_page (q + hhdm_offset s) x"
  defines "f \<equiv> \<lambda>i s. vmm_free_slot a (vmm_free_table_recursive 2 a) (ctx_root_virt (kmem s) ctx) i s"
  shows "k \<le> 256 \<Longrightarrow> freed s F (\<Union>i<k. slot_pages (pt_below 2 a s) a s r i) (fold f [0..<k] s)"
proof -
  let ?g = "vmm_free_slot a (vmm_free_table_recursive 2 a) (r + hhdm_offset s)"
  let ?U = "\<lambda>k. \<Union>i<k. slot_pages (pt_below 2 a s) a s r i"
  have rel: "pmm_rel s F" using inv by (simp add: heap_inv_def)
  have fr: "freed s F (?U k) (fold ?g [0..<k] s)" if k: "k \<le> 256" for k
  proof (rule free_slots [OF frees_table rel root(2)])
    show "slots_apart (pt_below 2 a s) a s r k"
      using tree k unfolding user_tree_def slots_apart_def by (meson order_less_le_trans)
    show "pages_ok s F (?U k)" using ok k unfolding pages_ok_def user_pages_def by fastforce
    show "pt_tree 2 a s y" if "i < k" "pt_child a s r i = Some y" for i y
      using tree that k unfolding user_tree_def by (meson order_less_le_trans)
  qed (use k in simp)
  have "fold f [0..<k] s = fold ?g [0..<k] s" if "k \<le> 256" for k
    using that
  proof (induction k)
    case (Suc k)
    have sub: "?U k \<subseteq> user_pages a s r" unfolding user_pages_def using Suc.prems by (intro UN_mono) auto
    have "ctx_same (kmem s) (kmem (fold ?g [0..<k] s)) ctx"
      using Suc.prems dis sub by (intro ctx_outside [OF inv ctx fr]) auto
    then show ?case using Suc root(1) by (simp add: f_def ctx_same_def)
  qed simp
  then show "k \<le> 256 \<Longrightarrow> freed s F (?U k) (fold f [0..<k] s)" using fr by simp
qed

text \<open>C5. Destroying a context leaks nothing and frees nothing else. For a context whose page tables
  are a proper tree of pages that the heap and the free list do not use, \<open>vmm_destroy_context\<close>
  returns; the free pages afterwards are those before plus exactly the root table and all tables and
  frames below its lower half, and exactly the block of the context structure has left the heap.\<close>

theorem vmm_destroy_exact:
  assumes inv: "heap_inv s H F" and ctx: "(ctx, n) \<in> used H" "32 \<le> unat n"
    and root: "ctx_root_phys (kmem s) ctx = r" "ctx_root_virt (kmem s) ctx = r + hhdm_offset s"
    and tree: "user_tree a s r" and ok: "pages_ok s F (insert r (user_pages a s r))"
    and dis: "\<forall>b \<in> set H. \<forall>x \<in> bx b. \<forall>q \<in> insert r (user_pages a s r). \<not> in_page (q + hhdm_offset s) x"
  shows "\<exists>s' H'. vmm_destroy_context a ctx s = Some s' \<and>
    heap_inv s' H' (F \<union> insert r (user_pages a s r)) \<and> used H' = used H - {(ctx, n)}"
proof -
  let ?f = "\<lambda>i s. vmm_free_slot a (vmm_free_table_recursive 2 a) (ctx_root_virt (kmem s) ctx) i s"
  define s1 where "s1 = fold ?f [0..<256] s"
  define s2 where "s2 = pmm_free r 1 s1"
  have ok': "pmm_page_ok s r" "pages_ok s F (user_pages a s r)" "r \<notin> F" using ok by (auto simp: pages_ok_def)
  have f1: "freed s F (user_pages a s r) s1" unfolding s1_def user_pages_def
    using dis by (intro destroy_slots [OF inv ctx root(2) ok'(1) tree ok'(2), unfolded user_pages_def]) (auto simp: user_pages_def)
  have r: "r \<notin> user_pages a s r" using tree slots_apartD(2) unfolding user_tree_def user_pages_def by blast
  have "freed s1 (F \<union> user_pages a s r) {r} s2" unfolding s2_def
    using f1 r ok' pmm_page_ok_cong [OF freed_off [OF f1]] by (intro freed_one) (auto simp: freed_def)
  from freed_trans [OF f1 this] have f2: "freed s F (insert r (user_pages a s r)) s2" by simp
  have inv2: "heap_inv s2 H (F \<union> insert r (user_pages a s r))" by (rule heap_inv_freed [OF inv f2 dis])
  have "ctx_same (kmem s) (kmem s1) ctx" using dis by (intro ctx_outside [OF inv ctx f1]) auto
  then have "ctx_root_phys (kmem s1) ctx = r" using root(1) by (simp add: ctx_same_def)
  moreover have "ctx \<noteq> 0"
  proof -
    obtain b where "(b, n, False) \<in> set H" "ctx = b + 32" using ctx(1) by (auto simp: used_def)
    then show ?thesis using inv payload_nz [of b n False] by (auto simp: heap_inv_def heap_ok_def)
  qed
  moreover have "r \<noteq> 0" using pmm_page_ok_nz [OF ok'(1)] .
  ultimately have "vmm_destroy_context a ctx s = kfree ctx s2"
    using root(1) by (simp add: vmm_destroy_context_def s1_def s2_def Let_def)
  then show ?thesis using kfree_effect [OF inv2 ctx(1)] by auto
qed

section \<open>A concrete context\<close>

text \<open>One heap page whose only block holds the structure of a context with an empty root table.\<close>

definition hp :: u64 where "hp = 0xFFFF800000004000"

definition ctx_example :: heap_state where
  "ctx_example = \<lparr>kmem = store64 (store64 (store64 (\<lambda>_. 0) hp 4064) (hp + 32) 0x8000) (hp + 40) 0xFFFF800000008000,
     hhdm_offset = 0xFFFF800000000000, free_list_head = 0, max_phys_addr = 0, heap_block_list = hp\<rparr>"

lemma hp_page: "page_aligned hp" "page_aligned 0x8000" "page_aligned 0" "page_aligned 0xFFFF800000008000"
  by (simp_all add: hp_def page_aligned_def)

lemma ctx_example_bytes:
  "x \<notin> extent hp 48 \<Longrightarrow> kmem ctx_example x = 0"
  "kmem ctx_example (hp + 8) = 0"
proof -
  have sub: "extent (hp + of_nat k) 8 \<subseteq> extent hp 48" if "k \<le> 40" for k using that by (intro extent_sub) auto
  show "kmem ctx_example x = 0" if "x \<notin> extent hp 48"
  proof -
    have "x \<notin> extent hp 8" "x \<notin> extent (hp + 32) 8" "x \<notin> extent (hp + 40) 8"
      using sub [of 0] sub [of 32] sub [of 40] that by auto
    then show ?thesis by (simp add: ctx_example_def store64_out)
  qed
  have "hp + 8 \<notin> extent hp 8" "hp + 8 \<notin> extent (hp + 32) 8" "hp + 8 \<notin> extent (hp + 40) 8"
    by (simp_all add: extent_def)
  then show "kmem ctx_example (hp + 8) = 0" by (simp add: ctx_example_def store64_out)
qed

lemma ctx_example_loads:
  "load64 (kmem ctx_example) hp = 4064" "load64 (kmem ctx_example) (hp + 16) = 0"
  "load64 (kmem ctx_example) (hp + 32) = 0x8000" "load64 (kmem ctx_example) (hp + 40) = 0xFFFF800000008000"
proof -
  have "apart (hp + 32) 8 hp 8" "apart (hp + 40) 8 hp 8" "apart (hp + 40) 8 (hp + 32) 8"
    "apart hp 8 (hp + 16) 8" "apart (hp + 32) 8 (hp + 16) 8" "apart (hp + 40) 8 (hp + 16) 8"
    by (simp_all add: apart_def hp_def)
  note ap = this
  have z: "load64 (\<lambda>_. 0) (hp + 16) = 0" by (rule load64_zero) simp
  show "load64 (kmem ctx_example) hp = 4064" "load64 (kmem ctx_example) (hp + 16) = 0"
    "load64 (kmem ctx_example) (hp + 32) = 0x8000" "load64 (kmem ctx_example) (hp + 40) = 0xFFFF800000008000"
    unfolding ctx_example_def pmm_state.select_convs by (simp_all only: load64_store64_same load64_store64_apart ap z)
qed

lemma ctx_example_heap: "heap_inv ctx_example [(hp, 4064, False)] {}"
proof -
  have "extent hp 4096 \<inter> extent 0 4096 = {}"
    using in_page_unique [OF hp_page(1,3)] by (auto simp: in_page_extent hp_def)
  then have "heap_ok [(hp, 4064, False)]" by (simp add: heap_ok_def hp_def)
  moreover have "hseg (kmem ctx_example) (heap_block_list ctx_example) [(hp, 4064, False)]"
    using ctx_example_loads ctx_example_bytes(2)
    by (simp add: hb_size_def hb_is_free_def hb_next_def) (simp add: ctx_example_def hp_def)
  moreover have "pmm_rel ctx_example {}"
    by (simp add: pmm_rel_def pmm_inv_def ctx_example_def page_aligned_def exI [of _ "[]"])
  ultimately show ?thesis by (simp add: heap_inv_def)
qed

lemma ctx_example_root: "i < 512 \<Longrightarrow> pt_child a ctx_example 0x8000 i = None"
proof -
  assume i: "i < 512"
  have "kmem ctx_example y = 0" if y: "in_page 0xFFFF800000008000 y" for y
  proof -
    have "\<not> in_page hp y" using in_page_unique [OF hp_page(1,4) _ y] by (auto simp: hp_def)
    then have "y \<notin> extent hp 48" using extent_mono [of 48 4096 hp] by (auto simp: in_page_extent)
    then show ?thesis by (rule ctx_example_bytes(1))
  qed
  moreover have "in_page 0xFFFF800000008000 (0xFFFF800000008000 + 8 * of_nat i + of_nat k)" if "k < 8" for k
  proof (rule entry_bytes [OF i])
    show "0xFFFF800000008000 + 8 * of_nat i + of_nat k \<in> extent (0xFFFF800000008000 + 8 * of_nat i) (8 :: nat)"
      using that by (intro extent_cell) auto
  qed
  ultimately have "load64 (kmem ctx_example) (0xFFFF800000008000 + 8 * of_nat i) = 0" by (intro load64_zero) blast
  then have "pt_entry ctx_example 0x8000 i = 0" by (simp add: pt_entry_def ctx_example_def)
  then show ?thesis by (simp add: pt_child_def pte.absent_0)
qed

theorem vmm_destroy_exact_witness:
  "\<exists>s' H'. vmm_destroy_context X86_64 (hp + 32) ctx_example = Some s' \<and> heap_inv s' H' {0x8000} \<and> used H' = {}"
proof -
  let ?H = "[(hp, 4064, False)]"
  have none: "user_pages X86_64 ctx_example 0x8000 = {}" by (simp add: user_pages_def slot_pages_def ctx_example_root)
  have tree: "user_tree X86_64 ctx_example 0x8000"
    by (simp add: user_tree_def slots_apart_def slot_pages_def ctx_example_root)
  have off: "hhdm_offset ctx_example = 0xFFFF800000000000" by (simp add: ctx_example_def)
  have ok: "pages_ok ctx_example {} (insert 0x8000 (user_pages X86_64 ctx_example 0x8000))"
    by (simp add: none pages_ok_def pmm_page_ok_def off pmm_node_ok_def hp_page)
  have dis: "\<forall>b \<in> set ?H. \<forall>x \<in> bx b. \<forall>q \<in> insert 0x8000 (user_pages X86_64 ctx_example 0x8000).
      \<not> in_page (q + hhdm_offset ctx_example) x"
    using in_page_unique [OF hp_page(1,4)] by (auto simp: none off in_page_extent [symmetric] hp_def)
  have "(hp + 32, 4064) \<in> used ?H" "ctx_root_phys (kmem ctx_example) (hp + 32) = 0x8000"
    "ctx_root_virt (kmem ctx_example) (hp + 32) = 0x8000 + hhdm_offset ctx_example"
    using ctx_example_loads by (simp_all add: ctx_root_phys_def ctx_root_virt_def off add.commute)
  from vmm_destroy_exact [OF ctx_example_heap this(1) _ this(2,3) tree ok dis] show ?thesis
    by (simp add: none)
qed

end
