(* ===== verification/Uaccess.thy ===== *)
theory Uaccess
  imports Vmm_Space
begin

text \<open>
  Copies between kernel and user memory (\<^verbatim>\<open>kernel/src/mm/uaccess.c\<close>) and kernel stacks
  (\<^verbatim>\<open>kernel/src/proc/kstack.c\<close>), both on the byte memory. The error numbers are those of
  \<^verbatim>\<open>kernel/include/errno.h\<close>; a system call returns them negated.
\<close>

section \<open>Error numbers\<close>

definition ENOENT :: int where "ENOENT = 2"
definition EIO :: int where "EIO = 5"
definition EBADF :: int where "EBADF = 9"
definition ECHILD :: int where "ECHILD = 10"
definition EAGAIN :: int where "EAGAIN = 11"
definition ENOMEM :: int where "ENOMEM = 12"
definition EACCES :: int where "EACCES = 13"
definition EFAULT :: int where "EFAULT = 14"
definition ENOTDIR :: int where "ENOTDIR = 20"
definition EINVAL :: int where "EINVAL = 22"
definition ESPIPE :: int where "ESPIPE = 29"
definition ENOSYS :: int where "ENOSYS = 38"

lemmas errnos = ENOENT_def EIO_def EBADF_def ECHILD_def EAGAIN_def ENOMEM_def EACCES_def EFAULT_def
  ENOTDIR_def EINVAL_def ESPIPE_def ENOSYS_def

section \<open>Copies\<close>

definition copy_from_user :: "u64 \<Rightarrow> u64 \<Rightarrow> u64 \<Rightarrow> mem \<Rightarrow> int \<times> mem" where
  "copy_from_user kernel_dst user_src len m =
     (let start = user_src; end = start + len in
      if end < start then (- EFAULT, m)
      else if end > VMM_ADDR_SPLIT then (- EFAULT, m)
      else (0, memcpy m kernel_dst user_src len))"

definition copy_to_user :: "u64 \<Rightarrow> u64 \<Rightarrow> u64 \<Rightarrow> mem \<Rightarrow> int \<times> mem" where
  "copy_to_user user_dst kernel_src len m =
     (let start = user_dst; end = start + len in
      if end < start then (- EFAULT, m)
      else if end > VMM_ADDR_SPLIT then (- EFAULT, m)
      else (0, memcpy m user_dst kernel_src len))"

text \<open>The range is accepted exactly if it lies in the lower half, with no wrap-around.\<close>

lemma split_unat: "unat VMM_ADDR_SPLIT = 2 ^ 47"
  by (simp add: VMM_ADDR_SPLIT_def VMM_VA_BITS_def VMM_LEVELS_def VMM_LEVEL_BITS_def)

lemma user_range:
  "\<not> start + len < start \<and> \<not> start + len > VMM_ADDR_SPLIT \<longleftrightarrow> unat start + unat len \<le> 2 ^ 47" for start len :: u64
proof -
  have lt: "unat start < 2 ^ 64" "unat len < 2 ^ 64" using unat_lt_u64 [of start] unat_lt_u64 [of len] by simp_all
  have sum: "unat (start + len) = (if unat start + unat len < 2 ^ 64 then unat start + unat len
      else unat start + unat len - 2 ^ 64)"
    by (simp add: unat_plus_if_size word_size)
  then show ?thesis using lt unfolding word_less_nat_alt split_unat by auto
qed

lemma memcpy_loop_outside:
  "x \<notin> extent dest (unat n) \<Longrightarrow> memcpy_loop m dest src n i x = m x"
proof (induction m dest src n i rule: memcpy_loop.induct)
  case (1 m dest src n i)
  show ?case
  proof (cases "i < n")
    case True
    then have "dest + i \<in> extent dest (unat n)" by (simp add: extent_def word_less_nat_alt)
    then have "x \<noteq> dest + i" using "1.prems" by auto
    have "memcpy_loop m dest src n i x = memcpy_loop (m(dest + i := m (src + i))) dest src n (i + 1) x"
      using True by (subst memcpy_loop.simps) simp
    also have "\<dots> = (m(dest + i := m (src + i))) x" by (rule "1.IH" [OF True "1.prems"])
    finally show ?thesis using \<open>x \<noteq> dest + i\<close> by simp
  qed (simp add: memcpy_loop.simps [of m dest src n i])
qed

lemma memcpy_outside: "x \<notin> extent dest (unat n) \<Longrightarrow> memcpy m dest src n x = m x"
  by (simp add: memcpy_def memcpy_loop_outside)

lemma memcpy_changed: "memcpy m dest src n x \<noteq> m x \<Longrightarrow> x \<in> extent dest (unat n)"
  using memcpy_outside by blast

lemma memcpy_copies:
  assumes "apart dest (unat n) src (unat n)"
  shows "load_bytes (memcpy m dest src n) dest (unat n) = load_bytes m src (unat n)"
proof (rule load_bytes_eqI)
  fix i assume i: "i < unat n"
  then have "unat (of_nat i :: u64) = i" using unat_lt_u64 [of n] by (simp add: unat_of_nat_small)
  then show "memcpy m dest src n (dest + of_nat i) = m (src + of_nat i)" using i by (simp add: memcpy_apply [OF assms])
qed

lemma user_bytes:
  assumes "unat start + unat len \<le> 2 ^ 47" "x \<in> extent start (unat len)"
  shows "user_va x"
proof -
  have x: "x = start + (x - start)" by simp
  have "unat (x - start) < unat len" using assms(2) by (simp add: extent_def)
  then have "unat x = unat start + unat (x - start)"
    using assms(1) unat_add_u64 [of start "x - start"] x by simp
  then show ?thesis using assms \<open>unat (x - start) < unat len\<close> by (simp add: user_va_iff)
qed

text \<open>C6. A copy to user space never writes to kernel memory. It succeeds exactly when the whole
  destination range lies below the kernel half (an overflowing length is rejected); a rejected copy
  returns \<open>-EFAULT\<close> and changes nothing; a successful one delivers the bytes and changes only user
  addresses inside the range. A copy from user space accepts exactly the same ranges, fails the same
  way, and writes only inside the kernel buffer.\<close>

theorem uaccess_confined:
  "(case copy_to_user d s n m of (r, m') \<Rightarrow>
      (r = 0 \<longleftrightarrow> unat d + unat n \<le> 2 ^ 47) \<and> (r \<noteq> 0 \<longrightarrow> r = - EFAULT \<and> m' = m) \<and>
      (r = 0 \<and> apart d (unat n) s (unat n) \<longrightarrow> load_bytes m' d (unat n) = load_bytes m s (unat n)) \<and>
      (\<forall>x. m' x \<noteq> m x \<longrightarrow> x \<in> extent d (unat n) \<and> user_va x)) \<and>
   (case copy_from_user d s n m of (r, m') \<Rightarrow>
      (r = 0 \<longleftrightarrow> unat s + unat n \<le> 2 ^ 47) \<and> (r \<noteq> 0 \<longrightarrow> r = - EFAULT \<and> m' = m) \<and>
      (r = 0 \<and> apart d (unat n) s (unat n) \<longrightarrow> load_bytes m' d (unat n) = load_bytes m s (unat n)) \<and>
      (\<forall>x. m' x \<noteq> m x \<longrightarrow> x \<in> extent d (unat n)))"
proof
  show "case copy_to_user d s n m of (r, m') \<Rightarrow>
      (r = 0 \<longleftrightarrow> unat d + unat n \<le> 2 ^ 47) \<and> (r \<noteq> 0 \<longrightarrow> r = - EFAULT \<and> m' = m) \<and>
      (r = 0 \<and> apart d (unat n) s (unat n) \<longrightarrow> load_bytes m' d (unat n) = load_bytes m s (unat n)) \<and>
      (\<forall>x. m' x \<noteq> m x \<longrightarrow> x \<in> extent d (unat n) \<and> user_va x)"
  proof (cases "unat d + unat n \<le> 2 ^ 47")
    case True
    then have "copy_to_user d s n m = (0, memcpy m d s n)"
      using user_range [of d n] by (simp add: copy_to_user_def Let_def)
    then show ?thesis using True memcpy_copies memcpy_changed [of m d s n] user_bytes [OF True] by auto
  next
    case False
    then have "copy_to_user d s n m = (- EFAULT, m)" using user_range [of d n] by (auto simp: copy_to_user_def Let_def)
    then show ?thesis using False by (simp add: EFAULT_def)
  qed
  show "case copy_from_user d s n m of (r, m') \<Rightarrow>
      (r = 0 \<longleftrightarrow> unat s + unat n \<le> 2 ^ 47) \<and> (r \<noteq> 0 \<longrightarrow> r = - EFAULT \<and> m' = m) \<and>
      (r = 0 \<and> apart d (unat n) s (unat n) \<longrightarrow> load_bytes m' d (unat n) = load_bytes m s (unat n)) \<and>
      (\<forall>x. m' x \<noteq> m x \<longrightarrow> x \<in> extent d (unat n))"
  proof (cases "unat s + unat n \<le> 2 ^ 47")
    case True
    then have "copy_from_user d s n m = (0, memcpy m d s n)"
      using user_range [of s n] by (simp add: copy_from_user_def Let_def)
    then show ?thesis using True memcpy_copies memcpy_changed [of m d s n] by auto
  next
    case False
    then have "copy_from_user d s n m = (- EFAULT, m)" using user_range [of s n] by (auto simp: copy_from_user_def Let_def)
    then show ?thesis using False by (simp add: EFAULT_def)
  qed
qed

theorem uaccess_confined_witness:
  "fst (copy_to_user 0x7FFFFFFFFFFF 0 2 (\<lambda>_. 0)) = -14 \<and> fst (copy_to_user 0x7FFFFFFFFFFF 0 1 (\<lambda>_. 0)) = 0 \<and>
   fst (copy_from_user 0 0xFFFFFFFFFFFFFFFF 2 (\<lambda>_. 0)) = -14"
  using uaccess_confined [where d = "0x7FFFFFFFFFFF" and s = 0 and n = 2 and m = "\<lambda>_. 0"]
    uaccess_confined [where d = "0x7FFFFFFFFFFF" and s = 0 and n = 1 and m = "\<lambda>_. 0"]
    uaccess_confined [where d = 0 and s = "0xFFFFFFFFFFFFFFFF" and n = 2 and m = "\<lambda>_. 0"]
  by (auto simp: EFAULT_def split: prod.splits)

section \<open>Kernel stacks\<close>

definition KSTACK_PAGES :: u64 where "KSTACK_PAGES = 4"
definition KSTACK_SIZE :: u64 where "KSTACK_SIZE = KSTACK_PAGES * PAGE_SIZE"
definition KSTACK_GUARD :: u64 where "KSTACK_GUARD = 0x5041474544414544"

definition kstack_alloc :: "'a pmm_state_scheme \<Rightarrow> (u64 \<times> 'a pmm_state_scheme) option" where
  "kstack_alloc s =
     Option.bind (pmm_alloc KSTACK_PAGES s)
       (\<lambda>(phys_addr, s1). if phys_addr = 0 then Some (0, s1)
          else let kstack = pmm_phys_to_virt s1 phys_addr;
                   m = memset (kmem s1) kstack 0 KSTACK_SIZE
               in Some (kstack, s1\<lparr>kmem := store64 m kstack KSTACK_GUARD\<rparr>))"

definition kstack_free :: "u64 \<Rightarrow> 'a pmm_state_scheme \<Rightarrow> 'a pmm_state_scheme" where
  "kstack_free kstack s = (if kstack = 0 then s else pmm_free (pmm_virt_to_phys s kstack) KSTACK_PAGES s)"

definition kstack_get_top :: "u64 \<Rightarrow> u64" where
  "kstack_get_top kstack = (if kstack = 0 then 0 else kstack + KSTACK_SIZE)"

definition kstack_guard_intact :: "mem \<Rightarrow> u64 \<Rightarrow> bool" where
  "kstack_guard_intact m kstack \<longleftrightarrow> (if kstack = 0 then True else load64 m kstack = KSTACK_GUARD)"

definition kstack_contains :: "u64 \<Rightarrow> u64 \<Rightarrow> bool" where
  "kstack_contains kstack ptr \<longleftrightarrow>
     (if kstack = 0 \<or> ptr = 0 then False else ptr \<ge> kstack \<and> ptr < kstack_get_top kstack)"

text \<open>The scan for untouched bytes; the result is \<^verbatim>\<open>*free\<close>.\<close>

function kstack_free_loop :: "mem \<Rightarrow> u64 \<Rightarrow> u64 \<Rightarrow> u64 \<Rightarrow> u64" where
  "kstack_free_loop m kstack i free =
     (if i < KSTACK_SIZE \<and> m (kstack + i) = 0 then kstack_free_loop m kstack (i + 1) (free + 1) else free)"
  by pat_completeness auto
termination
  by (relation "measure (\<lambda>(m, kstack, i, free). unat KSTACK_SIZE - unat i)") (auto simp: unat_inc word_less_nat_alt)

declare kstack_free_loop.simps [simp del]

text \<open>\<open>None\<close> when an argument is \<^verbatim>\<open>NULL\<close> and the outputs are left alone.\<close>

definition kstack_get_usage :: "mem \<Rightarrow> u64 \<Rightarrow> (u64 \<times> u64) option" where
  "kstack_get_usage m kstack = (if kstack = 0 then None else Some (kstack_free_loop m kstack 8 0, KSTACK_SIZE))"

lemma kstack_alloc_effect:
  assumes rel: "pmm_rel s F" and al: "kstack_alloc s = Some (k, s')" "k \<noteq> 0"
  defines "B \<equiv> page_block (k - hhdm_offset s) 4"
  shows "B \<subseteq> F" "pmm_rel s' (F - B)" "hhdm_offset s' = hhdm_offset s" "load64 (kmem s') k = KSTACK_GUARD"
    "\<And>x. x \<in> extent k 16384 \<Longrightarrow> x \<notin> extent k 8 \<Longrightarrow> kmem s' x = 0"
proof -
  obtain r s1 where r: "pmm_alloc 4 s = Some (r, s1)" "r \<noteq> 0" "k = r + hhdm_offset s1"
    "s' = s1\<lparr>kmem := store64 (memset (kmem s1) k 0 16384) k KSTACK_GUARD\<rparr>"
    using al by (auto simp: kstack_alloc_def KSTACK_PAGES_def KSTACK_SIZE_def PAGE_SIZE_def pmm_phys_to_virt_def
        hhdm_get_offset_def Let_def split: Option.bind_splits if_splits)
  have eff: "page_block r 4 \<subseteq> F" "pmm_rel s1 (F - page_block r 4)" "\<exists>m h. s1 = s\<lparr>kmem := m, free_list_head := h\<rparr>"
    using pmm_alloc_rel [OF rel, of 4] r(1,2) by auto
  have off: "hhdm_offset s1 = hhdm_offset s" using eff(3) by auto
  have B: "B = page_block r 4" using r(3) off by (simp add: B_def)
  show "B \<subseteq> F" "hhdm_offset s' = hhdm_offset s" using eff(1) B off r(4) by simp_all
  show "load64 (kmem s') k = KSTACK_GUARD" using r(4) by (simp add: load64_store64_same)
  show "kmem s' x = 0" if "x \<in> extent k 16384" "x \<notin> extent k 8" for x
    using that r(4) by (simp add: store64_out memset_apply extent_def)
  have out: "kmem s' x = kmem s1 x" if "x \<notin> extent k 16384" for x
  proof -
    have "x \<notin> extent k 8" using that extent_mono [of 8 16384 k] by auto
    then show ?thesis using that r(4) by (simp add: store64_out memset_apply extent_def)
  qed
  have "kmem s' (x + hhdm_offset s1) = phys_byte s1 x" if q: "q \<in> F - page_block r 4" "in_page q x" for q x
  proof (rule trans [OF out])
    show "x + hhdm_offset s1 \<notin> extent k 16384"
    proof
      assume "x + hhdm_offset s1 \<in> extent k 16384"
      then have "x \<in> extent r (4 * 4096)" using r(3) by (simp add: extent_def)
      then obtain p where p: "p \<in> page_block r 4" "in_page p x" using page_block_cover [of x r 4] by auto
      have "page_aligned p" "page_aligned q"
        using p(1) q(1) eff(1) pmm_page_ok_aligned [OF rel pmm_rel_ok [OF rel]] by auto
      then show False using in_page_unique [of p q x] p q by blast
    qed
  qed (simp add: phys_byte_def)
  then have "pmm_rel (s1\<lparr>kmem := kmem s'\<rparr>) (F - page_block r 4)" by (intro pmm_rel_mem [OF eff(2)])
  then show "pmm_rel s' (F - B)" using r(4) B by simp
qed

lemma kstack_scan:
  "unat i \<le> 16384 \<Longrightarrow> (\<And>j. unat i \<le> j \<Longrightarrow> j < 16384 \<Longrightarrow> m (k + of_nat j) = 0) \<Longrightarrow>
   kstack_free_loop m k i f = f + (KSTACK_SIZE - i)"
proof (induction m k i f rule: kstack_free_loop.induct)
  case (1 m k i f)
  have sz: "unat KSTACK_SIZE = 16384" by (simp add: KSTACK_SIZE_def KSTACK_PAGES_def PAGE_SIZE_def)
  show ?case
  proof (cases "i < KSTACK_SIZE")
    case True
    then have lt: "unat i < 16384" using sz by (simp add: word_less_nat_alt)
    then have z: "m (k + i) = 0" using "1.prems"(2) [of "unat i"] by simp
    have "unat (i + 1) = unat i + 1" using True by (rule unat_inc)
    then have "kstack_free_loop m k (i + 1) (f + 1) = f + 1 + (KSTACK_SIZE - (i + 1))"
      using True z lt "1.prems"(2) by (intro "1.IH") auto
    then show ?thesis using True z by (subst kstack_free_loop.simps) simp
  next
    case False
    then have "i = KSTACK_SIZE" using "1.prems"(1) sz by (simp add: word_less_nat_alt flip: unat_inject)
    then show ?thesis by (subst kstack_free_loop.simps) simp
  qed
qed

text \<open>A kernel stack is fresh memory with an intact guard, and giving it back restores the free
  pages. A successful \<open>kstack_alloc\<close> takes four consecutive free pages; the guard word is in place;
  all other bytes are zero, so the usage scan reports all of them free; and \<open>kstack_free\<close> puts exactly
  these pages back.\<close>

theorem kstack_roundtrip:
  assumes "pmm_rel s F" "kstack_alloc s = Some (k, s')" "k \<noteq> 0"
  shows "page_block (k - hhdm_offset s) 4 \<subseteq> F \<and> kstack_guard_intact (kmem s') k \<and>
    kstack_get_usage (kmem s') k = Some (16376, 16384) \<and> pmm_rel (kstack_free k s') F"
proof -
  note e = kstack_alloc_effect [OF assms]
  let ?B = "page_block (k - hhdm_offset s) 4"
  have usage: "kstack_free_loop (kmem s') k 8 0 = 0 + (KSTACK_SIZE - 8)"
  proof (rule kstack_scan)
    fix j :: nat assume j: "unat (8 :: u64) \<le> j" "j < 16384"
    then show "kmem s' (k + of_nat j) = 0" by (intro e(5)) (simp_all add: extent_def unat_of_nat_small)
  qed simp
  have "pmm_rel (pmm_free (k - hhdm_offset s) 4 s') (F - ?B \<union> ?B)"
    using pmm_free_rel [OF e(2), of 4 "k - hhdm_offset s"] e(1,3) pmm_rel_ok [OF assms(1)]
    by (auto simp: pmm_page_ok_cong [OF e(3)])
  moreover have "F - ?B \<union> ?B = F" using e(1) by blast
  ultimately show ?thesis using e(1,3,4) assms(3) usage
    by (simp add: kstack_guard_intact_def kstack_get_usage_def kstack_free_def pmm_virt_to_phys_def hhdm_get_offset_def
        KSTACK_PAGES_def KSTACK_SIZE_def PAGE_SIZE_def)
qed

text \<open>A machine whose free list holds four consecutive pages, the highest first.\<close>

definition kstack_nodes :: "u64 list" where
  "kstack_nodes = [0xFFFF800000005000, 0xFFFF800000004000, 0xFFFF800000003000, 0xFFFF800000002000]"

definition kstack_example :: pmm_state where
  "kstack_example = \<lparr>kmem = store64 (store64 (store64 (\<lambda>_. 0) 0xFFFF800000005000 0xFFFF800000004000)
       0xFFFF800000004000 0xFFFF800000003000) 0xFFFF800000003000 0xFFFF800000002000,
     hhdm_offset = 0xFFFF800000000000, free_list_head = 0xFFFF800000005000, max_phys_addr = 0\<rparr>"

lemma kstack_example_inv: "pmm_inv kstack_example kstack_nodes"
proof -
  let ?m = "kmem kstack_example"
  have "apart 0xFFFF800000003000 8 0xFFFF800000005000 8" "apart 0xFFFF800000004000 8 0xFFFF800000005000 8"
    "apart 0xFFFF800000003000 8 0xFFFF800000004000 8" "apart 0xFFFF800000005000 8 0xFFFF800000002000 8"
    "apart 0xFFFF800000004000 8 0xFFFF800000002000 8" "apart 0xFFFF800000003000 8 0xFFFF800000002000 8"
    by (simp_all add: apart_def)
  note ap = this
  have z: "load64 (\<lambda>_. 0) x = 0" for x by (rule load64_zero) simp
  have "load64 ?m 0xFFFF800000005000 = 0xFFFF800000004000" "load64 ?m 0xFFFF800000004000 = 0xFFFF800000003000"
    "load64 ?m 0xFFFF800000003000 = 0xFFFF800000002000" "load64 ?m 0xFFFF800000002000 = 0"
    unfolding kstack_example_def pmm_state.select_convs by (simp_all only: load64_store64_same load64_store64_apart ap z)
  then have "flist ?m 0xFFFF800000005000 kstack_nodes" by (simp add: kstack_nodes_def)
  then show ?thesis
    by (simp add: pmm_inv_def kstack_nodes_def pmm_node_ok_def page_aligned_def) (simp add: kstack_example_def page_aligned_def)
qed

theorem kstack_roundtrip_witness:
  "\<exists>k s'. kstack_alloc kstack_example = Some (k, s') \<and> k \<noteq> 0 \<and> kstack_guard_intact (kmem s') k \<and>
     kstack_get_usage (kmem s') k = Some (16376, 16384)"
proof -
  have rel: "pmm_rel kstack_example ((\<lambda>v. v - 0xFFFF800000000000) ` set kstack_nodes)"
    using kstack_example_inv by (auto simp: pmm_rel_def kstack_example_def)
  have "unat (4 - 1 :: u64) = 3" by simp
  moreover have "pmm_fit 3 kstack_nodes = Some ([], kstack_nodes)"
    by (simp add: kstack_nodes_def PAGE_SIZE_def numeral_3_eq_3)
  ultimately have "pmm_fit (unat (4 - 1 :: u64)) kstack_nodes = Some ([], kstack_nodes)" by simp
  from pmm_alloc_some [OF kstack_example_inv this] obtain m h where
    "pmm_alloc 4 kstack_example = Some (0x2000, kstack_example\<lparr>kmem := m, free_list_head := h\<rparr>)"
    by (auto simp: kstack_nodes_def PAGE_SIZE_def kstack_example_def)
  then obtain s' where k: "kstack_alloc kstack_example = Some (0xFFFF800000002000, s')"
    by (simp add: kstack_alloc_def KSTACK_PAGES_def pmm_phys_to_virt_def hhdm_get_offset_def Let_def)
      (simp add: kstack_example_def)
  then show ?thesis using kstack_roundtrip [OF rel k] by auto
qed

end
