(* ===== verification/Ramfs.thy ===== *)
theory Ramfs
  imports Uaccess
begin

text \<open>
  The in-memory file system of \<^verbatim>\<open>kernel/src/fs/ramfs/ramfs.c\<close> and the node structures of
  \<^verbatim>\<open>kernel/include/fs/vfs/vfs.h\<close>. Nodes live in a store indexed by their address; an optional
  address is a pointer that may be \<^verbatim>\<open>NULL\<close>. Strings are the bytes before the terminating NUL. The
  allocator's answers are part of the state: \<open>alloc_ok n\<close> tells whether allocation number \<open>n\<close>
  succeeds. A result \<open>None\<close> is a call that does not return or follows a dangling pointer.
\<close>

section \<open>Nodes\<close>

type_synonym cstring = "u8 list"

definition VFS_NAME_SIZE :: nat where "VFS_NAME_SIZE = 128"
definition VFS_PATH_MAX :: nat where "VFS_PATH_MAX = 256"
definition VFS_FILE :: u32 where "VFS_FILE = 1"
definition VFS_DIRECTORY :: u32 where "VFS_DIRECTORY = 2"
definition VFS_CHARDEVICE :: u32 where "VFS_CHARDEVICE = 4"

text \<open>\<^verbatim>\<open>snprintf(buf, n, "%s", s)\<close> keeps at most \<open>n - 1\<close> bytes.\<close>

definition snprintf_s :: "nat \<Rightarrow> cstring \<Rightarrow> cstring" where
  "snprintf_s n s = take (n - 1) s"

text \<open>The two tables of operations in the kernel.\<close>

datatype vfs_ops = Ramfs_ops | Console_dev_ops

type_synonym page = "nat \<Rightarrow> u8"

record ramfs_node_data =
  first_child :: "nat option"
  next_sibling :: "nat option"
  pages :: "page option list"

record vfs_node =
  node_name :: cstring
  node_flags :: u32
  node_inode :: u64
  node_size :: u64
  node_ops :: "vfs_ops option"
  priv_data :: "ramfs_node_data option"

record vfs_dirent =
  dirent_name :: cstring
  dirent_flags :: u32
  dirent_inode :: u64

record fs_state =
  nodes :: "nat \<Rightarrow> vfs_node option"
  next_node :: nat
  alloc_ok :: "nat \<Rightarrow> bool"
  alloc_no :: nat
  vfs_mount_list :: "(cstring \<times> nat) list"

definition fs_alloc :: "fs_state \<Rightarrow> bool \<times> fs_state" where
  "fs_alloc s = (alloc_ok s (alloc_no s), s\<lparr>alloc_no := Suc (alloc_no s)\<rparr>)"

definition node_data :: "fs_state \<Rightarrow> nat \<Rightarrow> ramfs_node_data option" where
  "node_data s n = Option.bind (nodes s n) priv_data"

definition set_node :: "nat \<Rightarrow> vfs_node \<Rightarrow> fs_state \<Rightarrow> fs_state" where
  "set_node n v s = s\<lparr>nodes := (nodes s)(n := Some v)\<rparr>"

definition set_data :: "nat \<Rightarrow> ramfs_node_data \<Rightarrow> fs_state \<Rightarrow> fs_state" where
  "set_data n d s = s\<lparr>nodes := (nodes s)(n := map_option (\<lambda>v. v\<lparr>priv_data := Some d\<rparr>) (nodes s n))\<rparr>"

section \<open>Pages of a file\<close>

partial_function (option) ramfs_new_count :: "u64 \<Rightarrow> u64 \<Rightarrow> u64 option" where
  [code]: "ramfs_new_count new_count index =
     (if new_count \<le> index then ramfs_new_count (new_count * 2) index else Some new_count)"

text \<open>The result tells whether \<^verbatim>\<open>node_data->pages[index]\<close> is a page afterwards.\<close>

definition ramfs_walk_grow :: "nat \<Rightarrow> ramfs_node_data \<Rightarrow> u64 \<Rightarrow> fs_state \<Rightarrow> (bool \<times> fs_state) option" where
  "ramfs_walk_grow n d index s =
     (let page_count = of_nat (length (pages d)) in
      Option.bind (ramfs_new_count (if page_count \<noteq> 0 then page_count * 2 else 4) index)
        (\<lambda>new_count. case fs_alloc s of (ok, s1) \<Rightarrow>
           if \<not> ok then Some (False, s1)
           else Some (True, set_data n
                  (d\<lparr>pages := pages d @ replicate (unat (new_count - page_count)) None\<rparr>) s1)))"

definition ramfs_walk_slot :: "nat \<Rightarrow> u64 \<Rightarrow> bool \<Rightarrow> fs_state \<Rightarrow> (bool \<times> fs_state) option" where
  "ramfs_walk_slot n index alloc s =
     Option.bind (node_data s n)
       (\<lambda>d. if pages d ! unat index = None then
              if \<not> alloc then Some (False, s)
              else case fs_alloc s of (ok, s1) \<Rightarrow>
                if \<not> ok then Some (False, s1)
                else Some (True, set_data n (d\<lparr>pages := (pages d)[unat index := Some (\<lambda>_. 0)]\<rparr>) s1)
            else Some (True, s))"

definition ramfs_walk_page :: "nat \<Rightarrow> u64 \<Rightarrow> bool \<Rightarrow> fs_state \<Rightarrow> (bool \<times> fs_state) option" where
  "ramfs_walk_page n index alloc s =
     (case node_data s n of
        None \<Rightarrow> Some (False, s)
      | Some d \<Rightarrow>
          if index \<ge> of_nat (length (pages d)) then
            if \<not> alloc then Some (False, s)
            else Option.bind (ramfs_walk_grow n d index s)
              (\<lambda>(ok, s1). if \<not> ok then Some (False, s1) else ramfs_walk_slot n index alloc s1)
          else ramfs_walk_slot n index alloc s)"

section \<open>Creating nodes\<close>

definition ramfs_node_new :: "cstring option \<Rightarrow> u32 \<Rightarrow> fs_state \<Rightarrow> nat option \<times> fs_state" where
  "ramfs_node_new name flags s =
     (case name of
        None \<Rightarrow> (None, s)
      | Some nm \<Rightarrow>
          case fs_alloc s of (ok, s1) \<Rightarrow>
            if \<not> ok then (None, s1)
            else case fs_alloc s1 of (ok2, s2) \<Rightarrow>
              if \<not> ok2 then (None, s2)
              else (Some (next_node s2),
                    set_node (next_node s2)
                      \<lparr>node_name = snprintf_s VFS_NAME_SIZE nm, node_flags = flags, node_inode = 0, node_size = 0,
                       node_ops = Some Ramfs_ops,
                       priv_data = Some \<lparr>first_child = None, next_sibling = None, pages = []\<rparr>\<rparr>
                      (s2\<lparr>next_node := Suc (next_node s2)\<rparr>)))"

definition ramfs_create_root :: "fs_state \<Rightarrow> nat option \<times> fs_state" where
  "ramfs_create_root s = ramfs_node_new (Some [47]) VFS_DIRECTORY s"

section \<open>Directories\<close>

partial_function (option) ramfs_find_loop :: "cstring \<Rightarrow> fs_state \<Rightarrow> nat option \<Rightarrow> nat option option" where
  [code]: "ramfs_find_loop name s child =
     (case child of
        None \<Rightarrow> Some None
      | Some c \<Rightarrow>
          Option.bind (nodes s c)
            (\<lambda>v. if strncmp_l VFS_NAME_SIZE (node_name v) name = 0 then Some (Some c)
                 else Option.bind (priv_data v) (\<lambda>d. ramfs_find_loop name s (next_sibling d))))"

definition ramfs_ops_finddir :: "nat option \<Rightarrow> cstring \<Rightarrow> fs_state \<Rightarrow> nat option option" where
  "ramfs_ops_finddir node name s =
     (case node of
        None \<Rightarrow> Some None
      | Some n \<Rightarrow> Option.bind (node_data s n) (\<lambda>d. ramfs_find_loop name s (first_child d)))"

text \<open>The last sibling, from a given one on.\<close>

partial_function (option) ramfs_last_sibling :: "fs_state \<Rightarrow> nat \<Rightarrow> nat option" where
  [code]: "ramfs_last_sibling s sibling =
     Option.bind (node_data s sibling)
       (\<lambda>d. case next_sibling d of None \<Rightarrow> Some sibling | Some n \<Rightarrow> ramfs_last_sibling s n)"

definition ramfs_append :: "nat \<Rightarrow> nat \<Rightarrow> fs_state \<Rightarrow> fs_state option" where
  "ramfs_append dir node s =
     Option.bind (node_data s dir)
       (\<lambda>dir_data. case first_child dir_data of
          None \<Rightarrow> Some (set_data dir (dir_data\<lparr>first_child := Some node\<rparr>) s)
        | Some sibling \<Rightarrow>
            Option.bind (ramfs_last_sibling s sibling)
              (\<lambda>last. Option.bind (node_data s last)
                 (\<lambda>d. Some (set_data last (d\<lparr>next_sibling := Some node\<rparr>) s))))"

text \<open>The results are the return value, what \<^verbatim>\<open>*out\<close> is set to, and the state.\<close>

definition ramfs_ops_create ::
  "nat option \<Rightarrow> cstring \<Rightarrow> u32 \<Rightarrow> fs_state \<Rightarrow> (int \<times> nat option \<times> fs_state) option" where
  "ramfs_ops_create dir name flags s =
     (case dir of
        None \<Rightarrow> Some (-1, None, s)
      | Some dn \<Rightarrow>
          Option.bind (nodes s dn)
            (\<lambda>dv. if node_flags dv AND VFS_DIRECTORY = 0 then Some (-1, None, s)
                  else Option.bind (ramfs_ops_finddir dir name s)
                    (\<lambda>found. if found \<noteq> None then Some (-1, None, s)
                       else case ramfs_node_new (Some name) flags s of
                           (None, s1) \<Rightarrow> Some (-1, None, s1)
                         | (Some node, s1) \<Rightarrow>
                             Option.bind (ramfs_append dn node s1) (\<lambda>s2. Some (0, Some node, s2)))))"

definition ramfs_dirent :: "vfs_node \<Rightarrow> vfs_dirent" where
  "ramfs_dirent v = \<lparr>dirent_name = snprintf_s VFS_NAME_SIZE (node_name v), dirent_flags = node_flags v,
                     dirent_inode = node_inode v\<rparr>"

partial_function (option) ramfs_readdir_loop :: "fs_state \<Rightarrow> u32 \<Rightarrow> nat option \<Rightarrow> u32 \<Rightarrow> (int \<times> vfs_dirent option) option" where
  [code]: "ramfs_readdir_loop s index child i =
     (case child of
        None \<Rightarrow> Some (0, None)
      | Some c \<Rightarrow>
          Option.bind (nodes s c)
            (\<lambda>v. if i = index
                 then Some (1, Some (ramfs_dirent v))
                 else Option.bind (priv_data v) (\<lambda>d. ramfs_readdir_loop s index (next_sibling d) (i + 1))))"

text \<open>\<open>out\<close> tells whether the output pointer is not \<^verbatim>\<open>NULL\<close>; the entry is what is stored there.\<close>

definition ramfs_ops_readdir :: "nat option \<Rightarrow> u32 \<Rightarrow> bool \<Rightarrow> fs_state \<Rightarrow> (int \<times> vfs_dirent option) option" where
  "ramfs_ops_readdir node index out s =
     (case node of
        None \<Rightarrow> Some (-1, None)
      | Some n \<Rightarrow> if \<not> out then Some (-1, None)
          else Option.bind (node_data s n) (\<lambda>d. ramfs_readdir_loop s index (first_child d) 0))"

section \<open>Reading and writing\<close>

text \<open>Page index, offset in the page and size of the next chunk.\<close>

definition ramfs_get_chunk_info :: "u64 \<Rightarrow> u64 \<Rightarrow> u64 \<times> u64 \<times> u64" where
  "ramfs_get_chunk_info offset remaining =
     (let page_index = offset div PAGE_SIZE; page_offset = offset mod PAGE_SIZE;
          chunk_size = PAGE_SIZE - page_offset
      in (page_index, page_offset, if chunk_size > remaining then remaining else chunk_size))"

lemma chunk_size_pos:
  assumes "ramfs_get_chunk_info offset remaining = (i, p, c)" "remaining > 0"
  shows "0 < c" "c \<le> remaining"
proof -
  have "offset mod 4096 < 4096" by (simp add: word_less_nat_alt unat_mod)
  then have "0 < 4096 - offset mod 4096" by (simp add: word_gt_0)
  then show "0 < c" "c \<le> remaining"
    using assms by (auto simp: ramfs_get_chunk_info_def PAGE_SIZE_def Let_def split: if_splits)
qed


lemma chunk_rest_less:
  assumes "(i, p, c) = ramfs_get_chunk_info offset remaining" "remaining \<noteq> 0"
  shows "unat (remaining - c) < unat remaining"
proof -
  have "0 < c" "c \<le> remaining"
    using chunk_size_pos [OF assms(1) [symmetric]] assms(2) by (simp_all add: word_gt_0)
  then show ?thesis by (simp add: unat_sub word_le_nat_alt word_less_nat_alt)
qed

text \<open>The bytes of the page \<^verbatim>\<open>ramfs_walk_page\<close> found, from \<open>page_offset\<close> on.\<close>

definition page_bytes :: "fs_state \<Rightarrow> nat \<Rightarrow> u64 \<Rightarrow> u64 \<Rightarrow> u64 \<Rightarrow> u8 list option" where
  "page_bytes s n index page_offset sz =
     Option.bind (node_data s n)
       (\<lambda>d. Option.bind (pages d ! unat index)
          (\<lambda>pg. Some (map (\<lambda>i. pg (unat page_offset + i)) [0..<unat sz])))"

text \<open>The result is what is stored at the buffer.\<close>

function ramfs_read_loop :: "nat \<Rightarrow> u64 \<Rightarrow> u64 \<Rightarrow> fs_state \<Rightarrow> u8 list option" where
  "ramfs_read_loop n offset remaining s =
     (if remaining = 0 then Some []
      else case ramfs_get_chunk_info offset remaining of (page_index, page_offset, chunk_size) \<Rightarrow>
        Option.bind (ramfs_walk_page n page_index False s)
          (\<lambda>(found, s1).
             Option.bind (if found then page_bytes s1 n page_index page_offset chunk_size
                          else Some (replicate (unat chunk_size) 0))
               (\<lambda>bs. map_option (\<lambda>rest. bs @ rest)
                  (ramfs_read_loop n (offset + chunk_size) (remaining - chunk_size) s1))))"
  by pat_completeness auto
termination by (relation "measure (\<lambda>(n, offset, remaining, s). unat remaining)") (auto intro: chunk_rest_less)

declare ramfs_read_loop.simps [simp del]

text \<open>\<open>buffer\<close> tells whether the buffer is not \<^verbatim>\<open>NULL\<close>. The size returned is an \<^verbatim>\<open>int64_t\<close>.\<close>

definition ramfs_ops_read :: "nat option \<Rightarrow> u64 \<Rightarrow> u64 \<Rightarrow> bool \<Rightarrow> fs_state \<Rightarrow> (int \<times> u8 list) option" where
  "ramfs_ops_read node offset sz buffer s =
     (case node of
        None \<Rightarrow> Some (- EINVAL, [])
      | Some n \<Rightarrow>
          Option.bind (nodes s n)
            (\<lambda>v. if node_flags v AND VFS_FILE = 0 \<or> \<not> buffer then Some (- EINVAL, [])
                 else if offset \<ge> node_size v then Some (0, [])
                 else let max_size = node_size v - offset;
                          sz = (if sz > max_size then max_size else sz)
                      in map_option (\<lambda>bs. (sint sz, bs)) (ramfs_read_loop n offset sz s)))"

definition page_write :: "page \<Rightarrow> nat \<Rightarrow> nat \<Rightarrow> (nat \<Rightarrow> u8) \<Rightarrow> page" where
  "page_write pg off sz buf = (\<lambda>i. if off \<le> i \<and> i < off + sz then buf (i - off) else pg i)"

definition set_page_bytes :: "nat \<Rightarrow> u64 \<Rightarrow> u64 \<Rightarrow> u64 \<Rightarrow> (nat \<Rightarrow> u8) \<Rightarrow> fs_state \<Rightarrow> fs_state option" where
  "set_page_bytes n index page_offset sz buf s =
     Option.bind (node_data s n)
       (\<lambda>d. Option.bind (pages d ! unat index)
          (\<lambda>pg. Some (set_data n
             (d\<lparr>pages := (pages d)[unat index := Some (page_write pg (unat page_offset) (unat sz) buf)]\<rparr>) s)))"

text \<open>\<open>buf\<close> are the bytes at the caller's buffer. The results are the size actually written and the
  offset after it.\<close>

function ramfs_write_loop ::
  "nat \<Rightarrow> u64 \<Rightarrow> u64 \<Rightarrow> (nat \<Rightarrow> u8) \<Rightarrow> u64 \<Rightarrow> fs_state \<Rightarrow> (u64 \<times> u64 \<times> fs_state) option" where
  "ramfs_write_loop n offset remaining buf actual_size s =
     (if remaining = 0 then Some (actual_size, offset, s)
      else case ramfs_get_chunk_info offset remaining of (page_index, page_offset, chunk_size) \<Rightarrow>
        Option.bind (ramfs_walk_page n page_index True s)
          (\<lambda>(found, s1).
             if found then
               Option.bind (set_page_bytes n page_index page_offset chunk_size buf s1)
                 (\<lambda>s2. ramfs_write_loop n (offset + chunk_size) (remaining - chunk_size)
                    (\<lambda>i. buf (unat chunk_size + i)) (actual_size + chunk_size) s2)
             else Some (actual_size, offset, s1)))"
  by pat_completeness auto
termination by (relation "measure (\<lambda>(n, offset, remaining, buf, actual_size, s). unat remaining)") (auto intro: chunk_rest_less)

declare ramfs_write_loop.simps [simp del]

definition ramfs_ops_write ::
  "nat option \<Rightarrow> u64 \<Rightarrow> u64 \<Rightarrow> (nat \<Rightarrow> u8) option \<Rightarrow> fs_state \<Rightarrow> (int \<times> fs_state) option" where
  "ramfs_ops_write node offset sz buffer s =
     (case (node, buffer) of
        (Some n, Some buf) \<Rightarrow>
          Option.bind (nodes s n)
            (\<lambda>v. if node_flags v AND VFS_FILE = 0 then Some (- EINVAL, s)
                 else Option.bind (ramfs_write_loop n offset sz buf 0 s)
                   (\<lambda>(actual_size, offset, s1).
                      Option.bind (nodes s1 n)
                        (\<lambda>v. Some (sint actual_size,
                                   if actual_size > 0 \<and> offset > node_size v
                                   then set_node n (v\<lparr>node_size := offset\<rparr>) s1 else s1))))
      | _ \<Rightarrow> Some (- EINVAL, s))"

end
