(* ===== verification/Ramfs_Data.thy ===== *)
theory Ramfs_Data
  imports Ramfs
begin

text \<open>
  File contents of the in-memory file system: a file is a finite array of bytes whose pages exist only
  where something was written. \<open>pages_byte\<close> is the byte at a position, 0 in a hole. The lemmas show
  that the page-wise reading and writing loops implement reading and writing of that array.
\<close>

section \<open>Contents\<close>

definition pages_byte :: "page option list \<Rightarrow> nat \<Rightarrow> u8" where
  "pages_byte ps i =
     (if i div 4096 < length ps then case ps ! (i div 4096) of None \<Rightarrow> 0 | Some pg \<Rightarrow> pg (i mod 4096) else 0)"

definition upd_pages :: "nat \<Rightarrow> page option list \<Rightarrow> nat \<Rightarrow> fs_state \<Rightarrow> fs_state" where
  "upd_pages n ps k s =
     s\<lparr>nodes := (nodes s)(n := map_option (priv_data_update (map_option (pages_update (\<lambda>_. ps)))) (nodes s n)),
       alloc_no := k\<rparr>"

lemma upd_pages_upd [simp]: "upd_pages n ps' k' (upd_pages n ps k s) = upd_pages n ps' k' s"
  by (simp add: upd_pages_def option.map_comp o_def)

lemma upd_pages_same: "node_data s n = Some d \<Longrightarrow> upd_pages n (pages d) (alloc_no s) s = s"
  by (auto simp: upd_pages_def node_data_def bind_eq_Some_conv fun_upd_idem)

lemma node_data_upd [simp]:
  "node_data (upd_pages n ps k s) m =
     (if m = n then map_option (pages_update (\<lambda>_. ps)) (node_data s n) else node_data s m)"
  by (cases "nodes s n") (simp_all add: node_data_def upd_pages_def)

lemma upd_pages_simps [simp]:
  "alloc_ok (upd_pages n ps k s) = alloc_ok s" "alloc_no (upd_pages n ps k s) = k"
  "next_node (upd_pages n ps k s) = next_node s" "vfs_mount_list (upd_pages n ps k s) = vfs_mount_list s"
  "m \<noteq> n \<Longrightarrow> nodes (upd_pages n ps k s) m = nodes s m"
  "nodes (upd_pages n ps k s) n = map_option (priv_data_update (map_option (pages_update (\<lambda>_. ps)))) (nodes s n)"
  by (simp_all add: upd_pages_def)

lemma priv_data_pages:
  "priv_data v = Some d \<Longrightarrow>
     priv_data_update (map_option (pages_update (\<lambda>_. ps))) v = v\<lparr>priv_data := Some (d\<lparr>pages := ps\<rparr>)\<rparr>"
  by (cases v) simp

lemma set_data_upd:
  assumes "node_data s n = Some d"
  shows "set_data n (d\<lparr>pages := ps\<rparr>) (s\<lparr>alloc_no := k\<rparr>) = upd_pages n ps k s"
    and "set_data n (d\<lparr>pages := ps\<rparr>) s = upd_pages n ps (alloc_no s) s"
  using assms by (auto simp: set_data_def upd_pages_def node_data_def bind_eq_Some_conv priv_data_pages)

lemma alloc_upd: "node_data s n = Some d \<Longrightarrow> s\<lparr>alloc_no := k\<rparr> = upd_pages n (pages d) k s"
  using upd_pages_upd [of n "pages d" k "pages d" "alloc_no s" s]
  by (auto simp: upd_pages_def node_data_def bind_eq_Some_conv fun_upd_idem)

section \<open>Finding a page\<close>

lemma new_count_ok:
  "\<lbrakk>0 < c; unat i < 2 ^ 52; unat c \<le> max 4 (2 * unat i)\<rbrakk> \<Longrightarrow>
   \<exists>r. ramfs_new_count c i = Some r \<and> unat i < unat r \<and> unat c \<le> unat r \<and> unat r \<le> max 4 (2 * unat i)"
proof (induction "unat i + 1 - unat c" arbitrary: c rule: less_induct)
  case less
  show ?case
  proof (cases "c \<le> i")
    case True
    then have le: "unat c \<le> unat i" "unat c > 0" using less.prems(1) by (simp_all add: word_le_nat_alt word_less_nat_alt)
    then have d: "unat (c * 2) = 2 * unat c" using less.prems(2) by (simp add: unat_mult_lem [THEN iffD1] mult.commute)
    have "\<exists>r. ramfs_new_count (c * 2) i = Some r \<and> unat i < unat r \<and> unat (c * 2) \<le> unat r \<and>
        unat r \<le> max 4 (2 * unat i)"
      using le d less.prems(2) by (intro less.hyps) (simp_all add: word_less_nat_alt)
    then show ?thesis using True d by (auto simp: ramfs_new_count.simps [of c])
  next
    case False
    then show ?thesis using less.prems by (auto simp: ramfs_new_count.simps [of c] word_le_nat_alt)
  qed
qed

definition pages_fit :: "page option list \<Rightarrow> bool" where
  "pages_fit ps \<longleftrightarrow> length ps \<le> 2 ^ 53"

lemma pages_fit_len: "pages_fit ps \<Longrightarrow> unat (of_nat (length ps) :: u64) = length ps"
  by (simp add: pages_fit_def unat_of_nat take_bit_nat_eq_self)

lemma pages_byte_append_None [simp]: "pages_byte (ps @ replicate k None) i = pages_byte ps i"
  by (simp add: pages_byte_def nth_append)

lemma pages_byte_fresh: "ps ! k = None \<Longrightarrow> pages_byte (ps[k := Some (\<lambda>_. 0)]) i = pages_byte ps i"
  by (cases "i div 4096 = k") (simp_all add: pages_byte_def)

definition walked :: "bool \<Rightarrow> nat \<Rightarrow> u64 \<Rightarrow> page option list \<Rightarrow> fs_state \<Rightarrow> (bool \<times> fs_state) option \<Rightarrow> bool" where
  "walked all n index ps0 s r \<longleftrightarrow>
     (\<exists>found ps k. r = Some (found, upd_pages n ps k s) \<and> pages_fit ps \<and>
        (\<forall>i. pages_byte ps i = pages_byte ps0 i) \<and>
        (found \<longrightarrow> unat index < length ps \<and> ps ! unat index \<noteq> None) \<and> (all \<longrightarrow> found))"

lemma walk_slot_ok:
  assumes d: "node_data s n = Some d" and fit: "pages_fit (pages d)" and i: "unat index < length (pages d)"
  shows "walked (\<forall>k. alloc_ok s k) n index (pages d) s (ramfs_walk_slot n index True s)"
proof (cases "pages d ! unat index")
  case None
  show ?thesis
  proof (cases "alloc_ok s (alloc_no s)")
    case True
    let ?ps = "(pages d)[unat index := Some (\<lambda>_. 0)]"
    have "ramfs_walk_slot n index True s = Some (True, upd_pages n ?ps (Suc (alloc_no s)) s)"
      using d None True by (simp add: ramfs_walk_slot_def fs_alloc_def set_data_upd)
    then show ?thesis unfolding walked_def
      using fit i pages_byte_fresh [OF None]
      by (intro exI [of _ True] exI [of _ ?ps] exI [of _ "Suc (alloc_no s)"]) (simp add: pages_fit_def)
  next
    case False
    have "ramfs_walk_slot n index True s = Some (False, upd_pages n (pages d) (Suc (alloc_no s)) s)"
      using d None False alloc_upd [OF d] by (simp add: ramfs_walk_slot_def fs_alloc_def)
    then show ?thesis unfolding walked_def
      using fit False by (intro exI [of _ False] exI [of _ "pages d"] exI [of _ "Suc (alloc_no s)"]) auto
  qed
next
  case (Some pg)
  then have "ramfs_walk_slot n index True s = Some (True, upd_pages n (pages d) (alloc_no s) s)"
    using d upd_pages_same [OF d] by (simp add: ramfs_walk_slot_def)
  then show ?thesis unfolding walked_def
    using fit i Some by (intro exI [of _ True] exI [of _ "pages d"] exI [of _ "alloc_no s"]) simp
qed

lemma walked_trans:
  assumes "walked all n index ps (upd_pages n ps k s) r" "\<forall>i. pages_byte ps i = pages_byte ps0 i"
  shows "walked all n index ps0 s r"
  using assms unfolding walked_def by auto

lemma walk_grow_ok:
  assumes d: "node_data s n = Some d" and fit: "pages_fit (pages d)" and idx: "unat index < 2 ^ 52"
    and ge: "length (pages d) \<le> unat index"
  shows "walked (\<forall>k. alloc_ok s k) n index (pages d) s (ramfs_walk_page n index True s)"
proof -
  let ?l = "length (pages d)" and ?w = "of_nat (length (pages d)) :: u64"
  let ?c = "if ?w \<noteq> 0 then ?w * 2 else 4"
  have l: "unat ?w = ?l" using fit by (rule pages_fit_len)
  have w2: "unat (?w * 2) = 2 * ?l" using l ge idx by (simp add: unat_mult_lem [THEN iffD1] mult.commute)
  have "0 < ?c" using l w2 by (auto simp: word_less_nat_alt unat_eq_0)
  moreover have "unat ?c \<le> max 4 (2 * unat index)" using w2 ge by auto
  ultimately obtain r where r: "ramfs_new_count ?c index = Some r" "unat index < unat r" "unat r \<le> max 4 (2 * unat index)"
    using new_count_ok [of ?c index] idx by blast
  have page: "index \<ge> ?w" using l ge by (simp add: word_le_nat_alt)
  have rl: "unat (r - ?w) = unat r - ?l" using l r(2) ge by (simp add: unat_sub word_le_nat_alt)
  let ?ps = "pages d @ replicate (unat (r - ?w)) None"
  have len: "length ?ps = unat r" using rl r(2) ge by simp
  show ?thesis
  proof (cases "alloc_ok s (alloc_no s)")
    case True
    let ?s = "upd_pages n ?ps (Suc (alloc_no s)) s"
    have "ramfs_walk_grow n d index s = Some (True, ?s)"
      using r(1) True d by (simp add: ramfs_walk_grow_def Let_def fs_alloc_def set_data_upd)
    then have eq: "ramfs_walk_page n index True s = ramfs_walk_slot n index True ?s"
      using d page by (simp add: ramfs_walk_page_def)
    have "walked (\<forall>k. alloc_ok ?s k) n index (pages (d\<lparr>pages := ?ps\<rparr>)) ?s (ramfs_walk_slot n index True ?s)"
      using d r idx len by (intro walk_slot_ok) (simp_all add: pages_fit_def)
    then show ?thesis unfolding eq using walked_trans [of _ n index ?ps "Suc (alloc_no s)" s] by simp
  next
    case False
    have "ramfs_walk_page n index True s = Some (False, upd_pages n (pages d) (Suc (alloc_no s)) s)"
      using d page r(1) False alloc_upd [OF d] by (simp add: ramfs_walk_page_def ramfs_walk_grow_def Let_def fs_alloc_def)
    then show ?thesis unfolding walked_def
      using fit False by (intro exI [of _ False] exI [of _ "pages d"] exI [of _ "Suc (alloc_no s)"]) auto
  qed
qed

lemma walk_page_ok:
  assumes "node_data s n = Some d" "pages_fit (pages d)" "unat index < 2 ^ 52"
  shows "walked (\<forall>k. alloc_ok s k) n index (pages d) s (ramfs_walk_page n index True s)"
proof (cases "length (pages d) \<le> unat index")
  case True
  then show ?thesis by (rule walk_grow_ok [OF assms])
next
  case False
  then have "ramfs_walk_page n index True s = ramfs_walk_slot n index True s"
    using assms(1) pages_fit_len [OF assms(2)] by (simp add: ramfs_walk_page_def word_le_nat_alt)
  then show ?thesis using walk_slot_ok [OF assms(1,2)] False by simp
qed

lemma walk_page_read:
  assumes "node_data s n = Some d" "pages_fit (pages d)"
  shows "ramfs_walk_page n index False s =
    Some (unat index < length (pages d) \<and> pages d ! unat index \<noteq> None, s)"
  using assms(1) pages_fit_len [OF assms(2)]
  by (auto simp: ramfs_walk_page_def ramfs_walk_slot_def word_le_nat_alt)

section \<open>The loops\<close>

lemma chunk_info:
  assumes "ramfs_get_chunk_info offset remaining = (i, p, c)" "remaining \<noteq> 0"
  shows "unat i = unat offset div 4096" "unat p = unat offset mod 4096"
    "unat c = min (4096 - unat offset mod 4096) (unat remaining)" "unat c > 0"
proof -
  have p: "unat (offset mod 4096) = unat offset mod 4096" by (simp add: unat_mod)
  then have "offset mod 4096 \<le> 4096" by (simp add: word_le_nat_alt)
  then have q: "unat (4096 - offset mod 4096) = 4096 - unat offset mod 4096" using p by (simp add: unat_sub)
  note a = assms(1) [unfolded ramfs_get_chunk_info_def PAGE_SIZE_def Let_def]
  show "unat i = unat offset div 4096" using a by (auto simp: unat_div)
  show "unat p = unat offset mod 4096" using a p by auto
  show "unat c = min (4096 - unat offset mod 4096) (unat remaining)"
    using a q by (auto simp: word_less_nat_alt split: if_splits)
  show "unat c > 0" using chunk_size_pos(1) [OF assms(1)] assms(2) by (simp add: word_gt_0 unat_gt_0)
qed

lemma chunk_next:
  fixes offset c :: u64
  assumes "unat c \<le> unat remaining" "unat offset + unat remaining < 2 ^ 64"
  shows "unat (offset + c) = unat offset + unat c" "unat (remaining - c) = unat remaining - unat c"
  using assms by (simp_all add: unat_plus_simple [THEN iffD1] word_le_nat_alt unat_sub unat_add_lem [THEN iffD1])

lemma pages_byte_write:
  assumes "ps ! (off div 4096) = Some pg" "off div 4096 < length ps" "off mod 4096 + c \<le> 4096"
  shows "pages_byte (ps[off div 4096 := Some (page_write pg (off mod 4096) c buf)]) j =
    (if off \<le> j \<and> j < off + c then buf (j - off) else pages_byte ps j)"
proof (cases "j div 4096 = off div 4096")
  case True
  have *: "j = off div 4096 * 4096 + j mod 4096" "off = off div 4096 * 4096 + off mod 4096"
    by (metis True div_mult_mod_eq, simp)
  have "off \<le> j \<longleftrightarrow> off mod 4096 \<le> j mod 4096" "j < off + c \<longleftrightarrow> j mod 4096 < off mod 4096 + c"
    "j - off = j mod 4096 - off mod 4096"
    using * by linarith+
  then show ?thesis using True assms by (simp add: pages_byte_def page_write_def)
next
  case False
  have "\<not> (off \<le> j \<and> j < off + c)"
  proof
    assume "off \<le> j \<and> j < off + c"
    then have "j < off div 4096 * 4096 + 4096" "off div 4096 * 4096 \<le> j"
      using assms(3) div_mult_mod_eq [of off 4096] by linarith+
    then show False using False by (simp add: div_nat_eqI)
  qed
  then show ?thesis using False by (auto simp: pages_byte_def)
qed

definition written ::
  "bool \<Rightarrow> nat \<Rightarrow> u64 \<Rightarrow> u64 \<Rightarrow> (nat \<Rightarrow> u8) \<Rightarrow> u64 \<Rightarrow> page option list \<Rightarrow> fs_state \<Rightarrow> (u64 \<times> u64 \<times> fs_state) option \<Rightarrow> bool" where
  "written all n off rem buf act ps0 s r \<longleftrightarrow>
     (\<exists>c ps k. r = Some (act + c, off + c, upd_pages n ps k s) \<and> unat c \<le> unat rem \<and> pages_fit ps \<and>
        (\<forall>i. pages_byte ps i = (if unat off \<le> i \<and> i < unat off + unat c then buf (i - unat off) else pages_byte ps0 i)) \<and>
        (all \<longrightarrow> c = rem))"

lemma written_step:
  assumes w: "written all n (off + c) (rem - c) (\<lambda>i. buf (unat c + i)) (act + c) ps (upd_pages n ps k s) r"
    and ps: "\<forall>i. pages_byte ps i = (if unat off \<le> i \<and> i < unat off + unat c then buf (i - unat off) else pages_byte ps0 i)"
    and c: "unat c \<le> unat rem" "unat off + unat rem < 2 ^ 64"
  shows "written all n off rem buf act ps0 s r"
proof -
  obtain c' ps' k' where r: "r = Some (act + c + c', off + c + c', upd_pages n ps' k' s)" and
    c': "unat c' \<le> unat (rem - c)" and fit: "pages_fit ps'" and all: "all \<longrightarrow> c' = rem - c" and
    ps': "\<forall>i. pages_byte ps' i = (if unat (off + c) \<le> i \<and> i < unat (off + c) + unat c'
       then buf (unat c + (i - unat (off + c))) else pages_byte ps i)"
    using w unfolding written_def by auto
  note n = chunk_next [OF c]
  have u: "unat (c + c') = unat c + unat c'" using c c' n(2) by (simp add: unat_add_lem [THEN iffD1])
  have "\<forall>i. pages_byte ps' i =
      (if unat off \<le> i \<and> i < unat off + unat (c + c') then buf (i - unat off) else pages_byte ps0 i)"
    unfolding ps' [rule_format] ps [rule_format] n u by auto
  then show ?thesis unfolding written_def
    using r fit all u c c' n(2)
    by (intro exI [of _ "c + c'"] exI [of _ ps'] exI [of _ k']) (simp add: add.assoc)
qed

lemma written_stop:
  assumes "pages_fit ps" "\<forall>i. pages_byte ps i = pages_byte ps0 i" "all \<longrightarrow> rem = 0"
  shows "written all n off rem buf act ps0 s (Some (act, off, upd_pages n ps k s))"
  unfolding written_def using assms
  by (intro exI [of _ "0 :: u64"] exI [of _ ps] exI [of _ k]) auto

lemma write_loop_ok:
  assumes "node_data s n = Some d" "pages_fit (pages d)" "unat off + unat rem < 2 ^ 64"
  shows "written (\<forall>k. alloc_ok s k) n off rem buf act (pages d) s (ramfs_write_loop n off rem buf act s)"
  using assms
proof (induction "unat rem" arbitrary: s d off rem buf act rule: less_induct)
  case less
  note d = less.prems(1) and fit = less.prems(2) and b = less.prems(3)
  show ?case
  proof (cases "rem = 0")
    case True
    then show ?thesis
      using written_stop [of "pages d" "pages d" _ rem n off buf act s "alloc_no s"] fit upd_pages_same [OF d]
      by (simp add: ramfs_write_loop.simps [of n off 0])
  next
    case False
    obtain i p c where ch: "ramfs_get_chunk_info off rem = (i, p, c)" by (metis prod_cases3)
    note ci = chunk_info [OF ch False]
    have cr: "unat c \<le> unat rem" using ci(3) by simp
    have pc: "unat off mod 4096 + unat c \<le> 4096"
      using ci(3) mod_less_divisor [of 4096 "unat off"] by linarith
    have "unat i < 2 ^ 52" using ci(1) b by simp
    from walk_page_ok [OF d fit this] obtain found ps k where
      wk: "ramfs_walk_page n i True s = Some (found, upd_pages n ps k s)" "pages_fit ps"
        "\<forall>j. pages_byte ps j = pages_byte (pages d) j" and
      fo: "found \<longrightarrow> unat i < length ps \<and> ps ! unat i \<noteq> None" "(\<forall>k. alloc_ok s k) \<longrightarrow> found"
      unfolding walked_def by blast
    show ?thesis
    proof (cases found)
      case True
      then obtain pg where pg: "unat i < length ps" "ps ! unat i = Some pg" using fo by auto
      let ?ps = "ps[unat i := Some (page_write pg (unat p) (unat c) buf)]"
      let ?s = "upd_pages n ?ps k s"
      have "set_page_bytes n i p c buf (upd_pages n ps k s) = Some ?s"
        using d pg set_data_upd(2) [of "upd_pages n ps k s" n "d\<lparr>pages := ps\<rparr>" ?ps] by (simp add: set_page_bytes_def)
      then have eq: "ramfs_write_loop n off rem buf act s =
          ramfs_write_loop n (off + c) (rem - c) (\<lambda>i. buf (unat c + i)) (act + c) ?s"
        using wk(1) True False ch by (simp add: ramfs_write_loop.simps [of n off rem])
      have "\<forall>j. pages_byte ?ps j =
          (if unat off \<le> j \<and> j < unat off + unat c then buf (j - unat off) else pages_byte (pages d) j)"
        using pages_byte_write [of ps "unat off" pg "unat c" buf] pg ci(1,2) pc wk(3) by simp
      moreover have "written (\<forall>k. alloc_ok ?s k) n (off + c) (rem - c) (\<lambda>i. buf (unat c + i)) (act + c)
          (pages (d\<lparr>pages := ?ps\<rparr>)) ?s (ramfs_write_loop n (off + c) (rem - c) (\<lambda>i. buf (unat c + i)) (act + c) ?s)"
        using d wk(2) chunk_next [OF cr b] ci(4) cr b by (intro less.hyps) (simp_all add: pages_fit_def)
      ultimately show ?thesis unfolding eq using written_step [of _ n off c rem buf act ?ps k s _ "pages d"] cr b by simp
    next
      case False
      then have eq: "ramfs_write_loop n off rem buf act s = Some (act, off, upd_pages n ps k s)"
        using wk(1) \<open>rem \<noteq> 0\<close> ch by (simp add: ramfs_write_loop.simps [of n off rem])
      have "(\<forall>k. alloc_ok s k) \<longrightarrow> rem = 0" using False fo(2) by blast
      then show ?thesis unfolding eq by (rule written_stop [OF wk(2,3)])
    qed
  qed
qed

lemma upt_map_split: "map f [0..<a + b] = map f [0..<a] @ map (\<lambda>i. f (a + i)) [0..<b]"
  by (rule nth_equalityI) (auto simp: nth_append)

lemma read_loop_ok:
  assumes d: "node_data s n = Some d" and fit: "pages_fit (pages d)" and "unat off + unat rem < 2 ^ 64"
  shows "ramfs_read_loop n off rem s = Some (map (\<lambda>i. pages_byte (pages d) (unat off + i)) [0..<unat rem])"
  using assms(3)
proof (induction "unat rem" arbitrary: off rem rule: less_induct)
  case less
  note b = less.prems
  show ?case
  proof (cases "rem = 0")
    case True
    then show ?thesis by (simp add: ramfs_read_loop.simps [of n off 0])
  next
    case False
    obtain i p c where ch: "ramfs_get_chunk_info off rem = (i, p, c)" by (metis prod_cases3)
    note ci = chunk_info [OF ch False]
    have cr: "unat c \<le> unat rem" using ci(3) by simp
    have pc: "unat off mod 4096 + unat c \<le> 4096"
      using ci(3) mod_less_divisor [of 4096 "unat off"] by linarith
    note nx = chunk_next [OF cr b]
    let ?f = "unat i < length (pages d) \<and> pages d ! unat i \<noteq> None"
    have dv: "(unat off + j) div 4096 = unat i" "(unat off + j) mod 4096 = unat p + j" if "j < unat c" for j
    proof -
      have "unat off + j = unat i * 4096 + (unat p + j)" "unat p + j < 4096" using ci(1,2) pc that by simp_all
      then show "(unat off + j) div 4096 = unat i" "(unat off + j) mod 4096 = unat p + j"
        by (simp_all only: div_mult_self3 mod_mult_self3 mod_less div_less)
    qed
    have "(if ?f then page_bytes s n i p c else Some (replicate (unat c) 0)) =
        Some (map (\<lambda>j. pages_byte (pages d) (unat off + j)) [0..<unat c])"
      using d dv by (auto simp: page_bytes_def pages_byte_def intro!: nth_equalityI)
    moreover have "ramfs_read_loop n (off + c) (rem - c) s =
        Some (map (\<lambda>j. pages_byte (pages d) (unat (off + c) + j)) [0..<unat (rem - c)])"
      using nx ci(4) cr b by (intro less.hyps) simp_all
    moreover have "unat rem = unat c + (unat rem - unat c)" using cr by simp
    ultimately show ?thesis
      using False ch walk_page_read [OF d fit, of i] nx
        upt_map_split [of "\<lambda>j. pages_byte (pages d) (unat off + j)" "unat c" "unat rem - unat c"]
      by (simp add: ramfs_read_loop.simps [of n off rem] add.assoc)
  qed
qed

end
