(* ===== verification/Ramfs_File.thy ===== *)
theory Ramfs_File
  imports Ramfs_Data
begin

text \<open>
  What a file promises its users: its contents are a list of bytes, a write replaces a part of them
  (padding with zeros when it starts behind the end), a read returns a part of them. The interface is
  the locale \<open>byte_file\<close>, with a run of writes and reads checked against the list. The in-memory
  file system implements it.
\<close>

section \<open>The interface\<close>

definition overwrite :: "nat \<Rightarrow> u8 list \<Rightarrow> u8 list \<Rightarrow> u8 list" where
  "overwrite off bs xs =
     (if bs = [] then xs else take off (xs @ replicate (off - length xs) 0) @ bs @ drop (off + length bs) xs)"

datatype file_op = File_write u64 "u8 list" | File_read u64 u64

fun file_op_ok :: "file_op \<Rightarrow> bool" where
  "file_op_ok (File_write off bs) \<longleftrightarrow> unat off + length bs < 2 ^ 63"
| "file_op_ok (File_read off sz) \<longleftrightarrow> unat sz < 2 ^ 63"

fun file_spec :: "file_op list \<Rightarrow> (int \<times> u8 list) list \<Rightarrow> u8 list \<Rightarrow> u8 list option" where
  "file_spec [] [] xs = Some xs"
| "file_spec (File_write off bs # ops) ((k, ys) # rs) xs =
     (if 0 \<le> k \<and> k \<le> int (length bs) then file_spec ops rs (overwrite (unat off) (take (nat k) bs) xs) else None)"
| "file_spec (File_read off sz # ops) ((k, ys) # rs) xs =
     (if ys = take (unat sz) (drop (unat off) xs) \<and> k = int (length ys) then file_spec ops rs xs else None)"
| "file_spec _ _ xs = None"

fun file_exec ::
  "(u64 \<Rightarrow> u8 list \<Rightarrow> 's \<Rightarrow> (int \<times> 's) option) \<Rightarrow> (u64 \<Rightarrow> u64 \<Rightarrow> 's \<Rightarrow> (int \<times> u8 list) option) \<Rightarrow>
   file_op list \<Rightarrow> 's \<Rightarrow> ((int \<times> u8 list) list \<times> 's) option" where
  "file_exec wr rd [] s = Some ([], s)"
| "file_exec wr rd (File_write off bs # ops) s =
     Option.bind (wr off bs s) (\<lambda>(k, s1). map_option (\<lambda>(rs, s2). ((k, []) # rs, s2)) (file_exec wr rd ops s1))"
| "file_exec wr rd (File_read off sz # ops) s =
     Option.bind (rd off sz s) (\<lambda>r. map_option (\<lambda>(rs, s2). (r # rs, s2)) (file_exec wr rd ops s))"

locale byte_file =
  fixes contents :: "'s \<Rightarrow> u8 list option"
    and wr :: "u64 \<Rightarrow> u8 list \<Rightarrow> 's \<Rightarrow> (int \<times> 's) option"
    and rd :: "u64 \<Rightarrow> u64 \<Rightarrow> 's \<Rightarrow> (int \<times> u8 list) option"
    and others :: "'s \<Rightarrow> 'o"
    and plenty :: "'s \<Rightarrow> bool"
  assumes wr: "\<lbrakk>contents s = Some xs; unat off + length bs < 2 ^ 63\<rbrakk> \<Longrightarrow>
      \<exists>k s'. wr off bs s = Some (int k, s') \<and> k \<le> length bs \<and> contents s' = Some (overwrite (unat off) (take k bs) xs) \<and>
        others s' = others s \<and> plenty s' = plenty s \<and> (plenty s \<longrightarrow> k = length bs)"
    and rd: "\<lbrakk>contents s = Some xs; unat sz < 2 ^ 63\<rbrakk> \<Longrightarrow>
      rd off sz s = Some (int (length (take (unat sz) (drop (unat off) xs))), take (unat sz) (drop (unat off) xs))"
begin

lemma exec_spec:
  "\<lbrakk>contents s = Some xs; list_all file_op_ok ops\<rbrakk> \<Longrightarrow>
   \<exists>rs s' ys. file_exec wr rd ops s = Some (rs, s') \<and> file_spec ops rs xs = Some ys \<and> contents s' = Some ys \<and>
     others s' = others s \<and>
     (plenty s \<longrightarrow> list_all2 (\<lambda>op r. \<forall>off bs. op = File_write off bs \<longrightarrow> fst r = int (length bs)) ops rs)"
proof (induction ops arbitrary: s xs)
  case Nil
  then show ?case by simp
next
  case (Cons op ops)
  show ?case
  proof (cases op)
    case (File_write off bs)
    then obtain k s1 where w: "wr off bs s = Some (int k, s1)" "k \<le> length bs" "others s1 = others s"
      "contents s1 = Some (overwrite (unat off) (take k bs) xs)" "plenty s1 = plenty s" "plenty s \<longrightarrow> k = length bs"
      using wr [of s xs off bs] Cons.prems by auto
    then obtain rs s' ys where "file_exec wr rd ops s1 = Some (rs, s')"
      "file_spec ops rs (overwrite (unat off) (take k bs) xs) = Some ys" "contents s' = Some ys" "others s' = others s1"
      "plenty s1 \<longrightarrow> list_all2 (\<lambda>op r. \<forall>off bs. op = File_write off bs \<longrightarrow> fst r = int (length bs)) ops rs"
      using Cons.IH [of s1] Cons.prems(2) by auto
    then show ?thesis using w File_write
      by (intro exI [of _ "(int k, []) # rs"] exI [of _ s'] exI [of _ ys]) simp
  next
    case (File_read off sz)
    let ?ys = "take (unat sz) (drop (unat off) xs)"
    have r: "rd off sz s = Some (int (length ?ys), ?ys)" using rd [of s xs sz off] Cons.prems File_read by simp
    obtain rs s' ys where "file_exec wr rd ops s = Some (rs, s')"
      "file_spec ops rs xs = Some ys" "contents s' = Some ys" "others s' = others s"
      "plenty s \<longrightarrow> list_all2 (\<lambda>op r. \<forall>off bs. op = File_write off bs \<longrightarrow> fst r = int (length bs)) ops rs"
      using Cons.IH [of s xs] Cons.prems by auto
    then show ?thesis using r File_read
      by (intro exI [of _ "(int (length ?ys), ?ys) # rs"] exI [of _ s'] exI [of _ ys]) simp
  qed
qed

end

section \<open>Files of the in-memory file system\<close>

definition file_ok :: "fs_state \<Rightarrow> nat \<Rightarrow> bool" where
  "file_ok s n \<longleftrightarrow>
     (case nodes s n of None \<Rightarrow> False
      | Some v \<Rightarrow> node_flags v AND VFS_FILE \<noteq> 0 \<and> unat (node_size v) < 2 ^ 63 \<and>
          (case priv_data v of None \<Rightarrow> False
           | Some d \<Rightarrow> pages_fit (pages d) \<and> (\<forall>i \<ge> unat (node_size v). pages_byte (pages d) i = 0)))"

definition file_contents :: "nat \<Rightarrow> fs_state \<Rightarrow> u8 list option" where
  "file_contents n s =
     (if file_ok s n
      then Option.bind (nodes s n)
        (\<lambda>v. map_option (\<lambda>d. map (pages_byte (pages d)) [0..<unat (node_size v)]) (priv_data v))
      else None)"

definition file_write :: "nat \<Rightarrow> u64 \<Rightarrow> u8 list \<Rightarrow> fs_state \<Rightarrow> (int \<times> fs_state) option" where
  "file_write n off bs s = ramfs_ops_write (Some n) off (of_nat (length bs)) (Some ((!) bs)) s"

definition file_read :: "nat \<Rightarrow> u64 \<Rightarrow> u64 \<Rightarrow> fs_state \<Rightarrow> (int \<times> u8 list) option" where
  "file_read n off sz s = ramfs_ops_read (Some n) off sz True s"

text \<open>What the operations on file \<open>n\<close> leave alone: every other node, the links, name, kind and operations
  of \<open>n\<close> itself, the mount table and the number of nodes.\<close>

definition file_others ::
  "nat \<Rightarrow> fs_state \<Rightarrow> (nat \<Rightarrow> vfs_node option) \<times> (cstring \<times> u32 \<times> vfs_ops option \<times> nat option option \<times> nat option option) option \<times> nat \<times> (cstring \<times> nat) list" where
  "file_others n s =
     ((nodes s)(n := None),
      map_option (\<lambda>v. (node_name v, node_flags v, node_ops v, map_option first_child (priv_data v), map_option next_sibling (priv_data v))) (nodes s n),
      next_node s, vfs_mount_list s)"

lemma file_contents_SomeE:
  assumes "file_contents n s = Some xs"
  obtains v d where "nodes s n = Some v" "priv_data v = Some d" "node_flags v AND VFS_FILE \<noteq> 0"
    "unat (node_size v) < 2 ^ 63" "pages_fit (pages d)" "\<forall>i \<ge> unat (node_size v). pages_byte (pages d) i = 0"
    "xs = map (pages_byte (pages d)) [0..<unat (node_size v)]" "node_data s n = Some d"
  using assms by (auto simp: file_contents_def file_ok_def node_data_def split: if_splits option.splits)

lemma overwrite_map:
  assumes f: "\<forall>i \<ge> m. f i = 0"
    and g: "\<forall>i. g i = (if off \<le> i \<and> i < off + length bs then bs ! (i - off) else f i)"
    and m: "m' = (if bs = [] then m else max m (off + length bs))"
  shows "overwrite off bs (map f [0..<m]) = map g [0..<m']" "\<forall>i \<ge> m'. g i = 0"
proof -
  show "\<forall>i \<ge> m'. g i = 0" using f g m by auto
  show "overwrite off bs (map f [0..<m]) = map g [0..<m']"
  proof (cases "bs = []")
    case True
    then have "g i = f i" for i using g [rule_format, of i] by (auto split: if_splits)
    then have "g = f" by (rule ext)
    then show ?thesis using True m by (simp add: overwrite_def)
  next
    case False
    show ?thesis
    proof (rule nth_equalityI)
      show "length (overwrite off bs (map f [0..<m])) = length (map g [0..<m'])"
        using False m by (simp add: overwrite_def min_def max_def)
      fix i assume "i < length (overwrite off bs (map f [0..<m]))"
      then have i: "i < m'" using False m by (simp add: overwrite_def min_def max_def split: if_splits)
      consider "i < off" | "off \<le> i" "i < off + length bs" | "off + length bs \<le> i" by linarith
      then show "overwrite off bs (map f [0..<m]) ! i = map g [0..<m'] ! i"
        by cases (use False m i f g in \<open>auto simp: overwrite_def nth_append min_def max_def split: if_splits\<close>)
    qed
  qed
qed


lemma sint_small: "unat w < 2 ^ 63 \<Longrightarrow> sint w = int (unat w)" for w :: u64
proof -
  assume "unat w < 2 ^ 63"
  then have "w < 2 ^ 63" by (simp add: word_less_nat_alt)
  then have "uint w < 2 ^ 63" by (simp add: word_less_def)
  then have "signed_take_bit 63 (uint w) = uint w"
    by (simp add: signed_take_bit_int_eq_self_iff order_trans [OF _ uint_ge_0])
  then show ?thesis by (simp add: sint_uint)
qed

lemma file_write_ok:
  assumes c: "file_contents n s = Some xs" and b: "unat off + length bs < 2 ^ 63"
  shows "\<exists>k s'. file_write n off bs s = Some (int k, s') \<and> k \<le> length bs \<and>
      file_contents n s' = Some (overwrite (unat off) (take k bs) xs) \<and> file_others n s' = file_others n s \<and>
      (\<forall>k. alloc_ok s' k) = (\<forall>k. alloc_ok s k) \<and> ((\<forall>k. alloc_ok s k) \<longrightarrow> k = length bs)"
proof -
  from c obtain v d where v: "nodes s n = Some v" "priv_data v = Some d" "node_flags v AND VFS_FILE \<noteq> 0"
    "unat (node_size v) < 2 ^ 63" and fit: "pages_fit (pages d)" and z: "\<forall>i \<ge> unat (node_size v). pages_byte (pages d) i = 0"
    and xs: "xs = map (pages_byte (pages d)) [0..<unat (node_size v)]" and d: "node_data s n = Some d"
    by (rule file_contents_SomeE)
  let ?sz = "of_nat (length bs) :: u64"
  have sz: "unat ?sz = length bs" using b by (simp add: unat_of_nat_small)
  from write_loop_ok [OF d fit, of off ?sz "(!) bs" 0] obtain k ps al where
    w: "ramfs_write_loop n off ?sz ((!) bs) 0 s = Some (k, off + k, upd_pages n ps al s)" and
    k: "unat k \<le> length bs" and ps: "pages_fit ps" and all: "(\<forall>k. alloc_ok s k) \<longrightarrow> k = ?sz" and
    pb: "\<forall>i. pages_byte ps i = (if unat off \<le> i \<and> i < unat off + unat k then bs ! (i - unat off) else pages_byte (pages d) i)"
    using b sz unfolding written_def by auto
  have ok: "unat (off + k) = unat off + unat k" using k b by (simp add: unat_add_lem [THEN iffD1])
  have sk: "sint k = int (unat k)" using k b by (intro sint_small) simp
  let ?bs = "take (unat k) bs"
  have pb': "\<forall>i. pages_byte ps i = (if unat off \<le> i \<and> i < unat off + length ?bs then ?bs ! (i - unat off) else pages_byte (pages d) i)"
    using k by (auto simp: pb)
  let ?v1 = "v\<lparr>priv_data := Some (d\<lparr>pages := ps\<rparr>)\<rparr>"
  let ?grow = "k > 0 \<and> off + k > node_size v"
  let ?m = "if ?grow then off + k else node_size v"
  let ?s = "if ?grow then set_node n (?v1\<lparr>node_size := off + k\<rparr>) (upd_pages n ps al s) else upd_pages n ps al s"
  have n1: "nodes (upd_pages n ps al s) n = Some ?v1" using v by (simp add: priv_data_pages)
  have run: "file_write n off bs s = Some (int (unat k), ?s)"
    unfolding file_write_def ramfs_ops_write_def using v w sk by (simp add: priv_data_pages)
  have ns: "nodes ?s n = Some (?v1\<lparr>node_size := ?m\<rparr>)" using n1 by (simp add: set_node_def)
  have m: "unat ?m = (if ?bs = [] then unat (node_size v) else max (unat (node_size v)) (unat off + length ?bs))"
    using ok k by (auto simp: word_less_nat_alt max_def unat_eq_0 unat_gt_0)
  note ow = overwrite_map [OF z pb' m]
  have "file_contents n ?s = Some (overwrite (unat off) ?bs xs)"
    using ns v(3,4) ps ow m b k by (simp add: file_contents_def file_ok_def xs)
  moreover have "file_others n ?s = file_others n s"
    using v n1 by (simp add: file_others_def set_node_def upd_pages_def)
  moreover have "alloc_ok ?s = alloc_ok s" by (simp add: set_node_def)
  ultimately show ?thesis
    using run k all sz by (intro exI [of _ "unat k"] exI [of _ ?s]) auto
qed

lemma file_read_ok:
  assumes c: "file_contents n s = Some xs" and b: "unat sz < 2 ^ 63"
  shows "file_read n off sz s =
    Some (int (length (take (unat sz) (drop (unat off) xs))), take (unat sz) (drop (unat off) xs))"
proof -
  from c obtain v d where v: "nodes s n = Some v" "priv_data v = Some d" "node_flags v AND VFS_FILE \<noteq> 0"
    "unat (node_size v) < 2 ^ 63" and fit: "pages_fit (pages d)"
    and xs: "xs = map (pages_byte (pages d)) [0..<unat (node_size v)]" and d: "node_data s n = Some d"
    by (rule file_contents_SomeE)
  show ?thesis
  proof (cases "off \<ge> node_size v")
    case True
    then show ?thesis using v xs by (simp add: file_read_def ramfs_ops_read_def word_le_nat_alt)
  next
    case False
    let ?z = "if sz > node_size v - off then node_size v - off else sz"
    have lt: "unat off < unat (node_size v)" using False by (simp add: word_le_nat_alt)
    then have z: "unat ?z = min (unat sz) (unat (node_size v) - unat off)"
      by (auto simp: word_less_nat_alt unat_sub word_le_nat_alt min_def)
    have rl: "ramfs_read_loop n off ?z s = Some (map (\<lambda>i. pages_byte (pages d) (unat off + i)) [0..<unat ?z])"
      using z v(4) lt by (intro read_loop_ok [OF d fit]) simp
    have "map (\<lambda>i. pages_byte (pages d) (unat off + i)) [0..<unat ?z] = take (unat sz) (drop (unat off) xs)"
      unfolding z xs using lt by (intro nth_equalityI) (auto simp: nth_drop)
    moreover have "sint ?z = int (unat ?z)" using z b by (intro sint_small) simp
    moreover have "length (take (unat sz) (drop (unat off) xs)) = unat ?z" unfolding z xs by simp
    ultimately show ?thesis using v False rl by (simp only: file_read_def ramfs_ops_read_def) (simp add: Let_def)
  qed
qed


interpretation rf: byte_file "file_contents n" "file_write n" "file_read n" "file_others n" "\<lambda>s. \<forall>k. alloc_ok s k"
  for n
  by unfold_locales (use file_write_ok file_read_ok in \<open>blast+\<close>)

text \<open>C11. Any sequence of writes and reads on a file of the in-memory file system returns, and behaves
  as on the list of its bytes: a write stores a prefix of its bytes at its offset, filling the gap
  behind the old end with zeros, and stores all of them when every allocation succeeds; a read returns
  exactly the bytes between its offset and the end of the file, at most as many as asked for. Every
  other node, the name, kind, operations and links of the file, and the mount table stay as they are.\<close>

theorem ramfs_file_refines:
  assumes "file_contents n s = Some xs" "list_all file_op_ok ops"
  shows "\<exists>rs s' ys.
    file_exec (\<lambda>off bs. ramfs_ops_write (Some n) off (of_nat (length bs)) (Some ((!) bs)))
      (\<lambda>off sz. ramfs_ops_read (Some n) off sz True) ops s = Some (rs, s') \<and>
    file_spec ops rs xs = Some ys \<and> file_contents n s' = Some ys \<and> file_others n s' = file_others n s \<and>
    ((\<forall>k. alloc_ok s k) \<longrightarrow>
       list_all2 (\<lambda>op r. \<forall>off bs. op = File_write off bs \<longrightarrow> fst r = int (length bs)) ops rs)"
  using rf.exec_spec [OF assms] unfolding file_write_def [abs_def] file_read_def [abs_def] .

definition file_example :: fs_state where
  "file_example = \<lparr>nodes = [0 \<mapsto> \<lparr>node_name = [97], node_flags = VFS_FILE, node_inode = 0, node_size = 0,
       node_ops = Some Ramfs_ops, priv_data = Some \<lparr>first_child = None, next_sibling = None, pages = []\<rparr>\<rparr>],
     next_node = 1, alloc_ok = (\<lambda>_. True), alloc_no = 0, vfs_mount_list = []\<rparr>"

lemma file_example_empty: "file_contents 0 file_example = Some []"
  by (simp add: file_contents_def file_ok_def file_example_def VFS_FILE_def pages_fit_def pages_byte_def)

theorem ramfs_file_refines_witness:
  "file_contents 0 file_example = Some [] \<and>
   (\<exists>rs s' ys.
    file_exec (\<lambda>off bs. ramfs_ops_write (Some 0) off (of_nat (length bs)) (Some ((!) bs)))
      (\<lambda>off sz. ramfs_ops_read (Some 0) off sz True) [File_write 5000 [1, 2], File_read 4998 10] file_example = Some (rs, s') \<and>
    file_spec [File_write 5000 [1, 2], File_read 4998 10] rs [] = Some ys \<and> file_contents 0 s' = Some ys)"
  using ramfs_file_refines [OF file_example_empty, of "[File_write 5000 [1, 2], File_read 4998 10]"]
    file_example_empty by auto

end
