(* ===== verification/Vfs.thy ===== *)
theory Vfs
  imports Ramfs_File
begin

text \<open>
  The virtual file system of \<^verbatim>\<open>kernel/src/fs/vfs/vfs.c\<close>: the mount table, most recent mount first,
  and the walk along a path, which finds nodes through the operations of their file system and creates
  missing ones when asked to.
\<close>

section \<open>Operations of a node\<close>

text \<open>The callbacks a node's table of operations has; \<open>None\<close> is a \<^verbatim>\<open>NULL\<close> callback.\<close>

definition ops_finddir :: "vfs_ops \<Rightarrow> (nat \<Rightarrow> cstring \<Rightarrow> fs_state \<Rightarrow> nat option option) option" where
  "ops_finddir ops = (case ops of
      Ramfs_ops \<Rightarrow> Some (\<lambda>n. ramfs_ops_finddir (Some n))
    | Console_dev_ops \<Rightarrow> None)"

definition ops_create :: "vfs_ops \<Rightarrow> (nat \<Rightarrow> cstring \<Rightarrow> u32 \<Rightarrow> fs_state \<Rightarrow> (int \<times> nat option \<times> fs_state) option) option" where
  "ops_create ops = (case ops of
      Ramfs_ops \<Rightarrow> Some (\<lambda>n. ramfs_ops_create (Some n))
    | Console_dev_ops \<Rightarrow> None)"

section \<open>Mounts\<close>

definition vfs_init :: "fs_state \<Rightarrow> fs_state" where
  "vfs_init s = s\<lparr>vfs_mount_list := []\<rparr>"

definition vfs_mount :: "cstring option \<Rightarrow> nat option \<Rightarrow> fs_state \<Rightarrow> int \<times> fs_state" where
  "vfs_mount path root_node s =
     (case (path, root_node) of
        (Some p, Some r) \<Rightarrow>
          (case fs_alloc s of (ok, s1) \<Rightarrow>
             if \<not> ok then (-1, s1)
             else (0, s1\<lparr>vfs_mount_list := (snprintf_s VFS_NAME_SIZE p, r) # vfs_mount_list s1\<rparr>))
      | _ \<Rightarrow> (-1, s))"

fun vfs_best_match :: "cstring \<Rightarrow> (cstring \<times> nat) option \<Rightarrow> nat \<Rightarrow> (cstring \<times> nat) list \<Rightarrow> (cstring \<times> nat) option" where
  "vfs_best_match path best best_len [] = best"
| "vfs_best_match path best best_len (current # rest) =
     (let mount_len = length (fst current) in
      if strncmp_l mount_len path (fst current) = 0 \<and> mount_len > best_len
      then vfs_best_match path (Some current) mount_len rest
      else vfs_best_match path best best_len rest)"

text \<open>The root found and the path left below it.\<close>

definition vfs_get_mountpoint :: "cstring option \<Rightarrow> fs_state \<Rightarrow> (nat \<times> cstring) option" where
  "vfs_get_mountpoint path s =
     (case path of
        None \<Rightarrow> None
      | Some p \<Rightarrow>
          case vfs_best_match p None 0 (vfs_mount_list s) of
            None \<Rightarrow> None
          | Some (mp, root) \<Rightarrow> Some (root, dropWhile (\<lambda>c. c = 47) (drop (length mp) p)))"

section \<open>Walking a path\<close>

text \<open>Creation of a missing node, inside \<^verbatim>\<open>vfs_inner_find_and_create\<close>. The inner \<open>None\<close> is
  \<^verbatim>\<open>return NULL\<close>.\<close>

definition vfs_create_missing ::
  "vfs_ops \<Rightarrow> nat \<Rightarrow> cstring \<Rightarrow> bool \<Rightarrow> u32 \<Rightarrow> fs_state \<Rightarrow> (nat option \<times> fs_state) option" where
  "vfs_create_missing ops parent token is_last flags s =
     (let make = (\<lambda>kind. case ops_create ops of
            None \<Rightarrow> Some (None, s)
          | Some create \<Rightarrow> Option.bind (create parent token kind s)
              (\<lambda>(r, out, s1). if r \<noteq> 0 then Some (None, s1) else Some (out, s1)))
      in if is_last \<and> flags AND VFS_FILE \<noteq> 0 then make VFS_FILE
         else if flags AND VFS_DIRECTORY \<noteq> 0 then make VFS_DIRECTORY
         else Some (None, s))"

definition strtokr_next :: "cstring option \<Rightarrow> cstring option \<times> cstring option" where
  "strtokr_next saveptr = (case saveptr of None \<Rightarrow> (None, None) | Some r \<Rightarrow> strtokr_l [47] r)"

lemma strtokr_next_None [simp]: "strtokr_next None = (None, None)"
  by (simp add: strtokr_next_def)

lemma strtokr_next_shorter:
  "strtokr_next save = (Some t, save') \<Longrightarrow>
     (case save' of None \<Rightarrow> 0 | Some r \<Rightarrow> length r) < (case save of None \<Rightarrow> 0 | Some r \<Rightarrow> length r)"
  using strtokr_l_shorter [of "[47]" _ t]
  by (auto simp: strtokr_next_def strtokr_l_def Let_def split: option.splits if_splits)

text \<open>\<open>target\<close> and \<open>parent\<close> are the C variables; they are equal whenever the loop is entered.\<close>

function vfs_walk_loop ::
  "bool \<Rightarrow> u32 \<Rightarrow> cstring option \<Rightarrow> cstring option \<Rightarrow> nat \<Rightarrow> fs_state \<Rightarrow> (nat option \<times> fs_state) option" where
  "vfs_walk_loop stop_at_parent flags token saveptr parent s =
     (case token of
        None \<Rightarrow> Some (Some parent, s)
      | Some tok \<Rightarrow>
          case strtokr_next saveptr of (next_token, saveptr') \<Rightarrow>
            let is_last = (next_token = None) in
            Option.bind (nodes s parent)
              (\<lambda>pv. if is_last \<and> stop_at_parent then
                      if node_flags pv AND VFS_DIRECTORY = 0 then Some (None, s) else Some (Some parent, s)
                    else if node_flags pv AND VFS_DIRECTORY = 0 then Some (None, s)
                    else case node_ops pv of
                        None \<Rightarrow> Some (None, s)
                      | Some ops \<Rightarrow>
                          case ops_finddir ops of
                            None \<Rightarrow> Some (None, s)
                          | Some finddir \<Rightarrow>
                              Option.bind (finddir parent tok s)
                                (\<lambda>found. Option.bind
                                   (case found of
                                      Some t \<Rightarrow> Some (Some t, s)
                                    | None \<Rightarrow> vfs_create_missing ops parent tok is_last flags s)
                                   (\<lambda>(target, s1). case target of
                                        None \<Rightarrow> Some (None, s1)
                                      | Some t \<Rightarrow> vfs_walk_loop stop_at_parent flags next_token saveptr' t s1))))"
  by pat_completeness auto
termination
  by (relation "measure (\<lambda>(stop, flags, token, save, parent, s).
      case token of None \<Rightarrow> 0 | Some _ \<Rightarrow> Suc (case save of None \<Rightarrow> 0 | Some r \<Rightarrow> length r))")
    (auto split: option.split dest: strtokr_next_shorter [OF sym])

declare vfs_walk_loop.simps [simp del]

definition vfs_inner_find_and_create ::
  "cstring option \<Rightarrow> bool \<Rightarrow> u32 \<Rightarrow> fs_state \<Rightarrow> (nat option \<times> fs_state) option" where
  "vfs_inner_find_and_create path stop_at_parent flags s =
     (case path of
        None \<Rightarrow> Some (None, s)
      | Some p \<Rightarrow>
          if length p \<ge> VFS_PATH_MAX then Some (None, s)
          else case vfs_get_mountpoint path s of
              None \<Rightarrow> Some (None, s)
            | Some (root, rest) \<Rightarrow>
                case strtokr_l [47] (snprintf_s VFS_PATH_MAX rest) of (token, saveptr) \<Rightarrow>
                  vfs_walk_loop stop_at_parent flags token saveptr root s)"

definition vfs_lookup :: "cstring option \<Rightarrow> fs_state \<Rightarrow> (nat option \<times> fs_state) option" where
  "vfs_lookup path s = vfs_inner_find_and_create path False 0 s"

definition vfs_create :: "cstring option \<Rightarrow> u32 \<Rightarrow> fs_state \<Rightarrow> (nat option \<times> fs_state) option" where
  "vfs_create path flags s = vfs_inner_find_and_create path False flags s"

definition vfs_mkdir_parents :: "cstring option \<Rightarrow> fs_state \<Rightarrow> (nat option \<times> fs_state) option" where
  "vfs_mkdir_parents path s = vfs_inner_find_and_create path True VFS_DIRECTORY s"

end
