(* ===== verification/Ramfs_Tree.thy ===== *)
theory Ramfs_Tree
  imports Vfs
begin

text \<open>
  The directory tree of the in-memory file system. The invariant \<open>fs_inv\<close> relates the sibling
  chains in the node store to a children list for every directory. Finding a name is a search in that
  list, and creating a node appends to it, leaving every other directory as it was.
\<close>

section \<open>The invariant\<close>

type_synonym children = "nat \<Rightarrow> nat list"

fun sib_chain :: "fs_state \<Rightarrow> nat option \<Rightarrow> nat list \<Rightarrow> bool" where
  "sib_chain s p [] \<longleftrightarrow> p = None"
| "sib_chain s p (x # xs) \<longleftrightarrow>
     p = Some x \<and> (case node_data s x of None \<Rightarrow> False | Some d \<Rightarrow> sib_chain s (next_sibling d) xs)"

definition node_nm :: "fs_state \<Rightarrow> nat \<Rightarrow> cstring" where
  "node_nm s n = (case nodes s n of None \<Rightarrow> [] | Some v \<Rightarrow> node_name v)"

definition good_name :: "cstring \<Rightarrow> bool" where
  "good_name nm \<longleftrightarrow> length nm < 128 \<and> 0 \<notin> set nm"

definition is_dir :: "fs_state \<Rightarrow> nat \<Rightarrow> bool" where
  "is_dir s n = (case nodes s n of None \<Rightarrow> False | Some v \<Rightarrow> node_flags v AND VFS_DIRECTORY \<noteq> 0)"

definition fs_inv :: "fs_state \<Rightarrow> children \<Rightarrow> bool" where
  "fs_inv s ch \<longleftrightarrow>
     (\<forall>n. nodes s n \<noteq> None \<longrightarrow> n < next_node s) \<and>
     (\<forall>n d. node_data s n = Some d \<longrightarrow> sib_chain s (first_child d) (ch n)) \<and>
     (\<forall>n. node_data s n = None \<longrightarrow> ch n = []) \<and>
     (\<forall>n v. nodes s n = Some v \<and> node_flags v AND VFS_DIRECTORY \<noteq> 0 \<longrightarrow>
        node_ops v = Some Ramfs_ops \<and> priv_data v \<noteq> None) \<and>
     (\<forall>n. distinct (ch n) \<and> distinct (map (node_nm s) (ch n)) \<and> (\<forall>c \<in> set (ch n). good_name (node_nm s c))) \<and>
     (\<forall>m n. m \<noteq> n \<longrightarrow> set (ch m) \<inter> set (ch n) = {})"

definition child :: "fs_state \<Rightarrow> children \<Rightarrow> nat \<Rightarrow> cstring \<Rightarrow> nat option" where
  "child s ch d nm = List.find (\<lambda>c. node_nm s c = nm) (ch d)"

text \<open>The part of a node that creating other nodes leaves alone: all but the links.\<close>

definition node_view :: "vfs_node \<Rightarrow> cstring \<times> u32 \<times> u64 \<times> u64 \<times> vfs_ops option \<times> page option list option" where
  "node_view v = (node_name v, node_flags v, node_inode v, node_size v, node_ops v, map_option pages (priv_data v))"

lemma sib_chain_nodes: "sib_chain s p xs \<Longrightarrow> c \<in> set xs \<Longrightarrow> node_data s c \<noteq> None"
  by (induction xs arbitrary: p) (auto split: option.splits)

lemma node_data_Some: "node_data s n = Some d \<longleftrightarrow> (\<exists>v. nodes s n = Some v \<and> priv_data v = Some d)"
  by (auto simp: node_data_def bind_eq_Some_conv)

lemma sib_chain_cong:
  "(\<forall>c \<in> set xs. map_option next_sibling (node_data s' c) = map_option next_sibling (node_data s c)) \<Longrightarrow>
     sib_chain s' p xs = sib_chain s p xs"
  by (induction xs arbitrary: p) (force split: option.splits)+

section \<open>Finding\<close>

lemma name_match:
  assumes "good_name a" "0 \<notin> set b"
  shows "strncmp_l VFS_NAME_SIZE a b = 0 \<longleftrightarrow> a = b"
proof -
  have "strncmp_l VFS_NAME_SIZE a b = 0 \<longleftrightarrow> take 128 a = take 128 b"
    using assms by (simp add: strncmp_l_eq_0 good_name_def VFS_NAME_SIZE_def)
  also have "\<dots> \<longleftrightarrow> a = take 128 b" using assms(1) by (simp add: good_name_def)
  also have "\<dots> \<longleftrightarrow> a = b" using assms(1) by (auto simp: good_name_def)
  finally show ?thesis .
qed

lemma find_loop_chain:
  assumes "sib_chain s p xs" "\<forall>c \<in> set xs. good_name (node_nm s c)" "0 \<notin> set nm"
  shows "ramfs_find_loop nm s p = Some (List.find (\<lambda>c. node_nm s c = nm) xs)"
  using assms(1,2)
proof (induction xs arbitrary: p)
  case Nil
  then show ?case by (simp add: ramfs_find_loop.simps)
next
  case (Cons x xs)
  then obtain d where p: "p = Some x" and d: "node_data s x = Some d" and c: "sib_chain s (next_sibling d) xs"
    by (auto split: option.splits)
  obtain v where v: "nodes s x = Some v" "priv_data v = Some d" using d by (auto simp: node_data_Some)
  have "strncmp_l VFS_NAME_SIZE (node_name v) nm = 0 \<longleftrightarrow> node_nm s x = nm"
    using name_match [of "node_name v" nm] Cons.prems(2) assms(3) v(1) by (simp add: node_nm_def)
  then show ?case using p v Cons.IH [OF c] Cons.prems(2) by (simp add: ramfs_find_loop.simps [of nm s "Some x"])
qed

lemma finddir_child:
  assumes "fs_inv s ch" "node_data s d \<noteq> None" "0 \<notin> set nm"
  shows "ramfs_ops_finddir (Some d) nm s = Some (child s ch d nm)"
proof -
  obtain dd where d: "node_data s d = Some dd" using assms(2) by blast
  then have "sib_chain s (first_child dd) (ch d)" "\<forall>c \<in> set (ch d). good_name (node_nm s c)"
    using assms(1) by (auto simp: fs_inv_def)
  then show ?thesis using d find_loop_chain assms(3) by (simp add: ramfs_ops_finddir_def child_def)
qed

lemma last_sibling_chain:
  "sib_chain s (Some x) (x # xs) \<Longrightarrow> ramfs_last_sibling s x = Some (last (x # xs))"
proof (induction xs arbitrary: x)
  case Nil
  then show ?case by (subst ramfs_last_sibling.simps) (auto split: option.splits)
next
  case (Cons y xs)
  then obtain d where "node_data s x = Some d" "next_sibling d = Some y" "sib_chain s (Some y) (y # xs)"
    by (auto split: option.splits)
  then show ?case using Cons.IH [of y] by (subst ramfs_last_sibling.simps) simp
qed

section \<open>Creating\<close>

text \<open>The state with the new node \<open>n\<close> in the store but not linked yet.\<close>

definition fresh_node :: "cstring \<Rightarrow> u32 \<Rightarrow> vfs_node" where
  "fresh_node nm flags = \<lparr>node_name = snprintf_s VFS_NAME_SIZE nm, node_flags = flags, node_inode = 0, node_size = 0,
     node_ops = Some Ramfs_ops, priv_data = Some \<lparr>first_child = None, next_sibling = None, pages = []\<rparr>\<rparr>"

definition with_node :: "cstring \<Rightarrow> u32 \<Rightarrow> fs_state \<Rightarrow> fs_state" where
  "with_node nm flags s =
     set_node (next_node s) (fresh_node nm flags) (s\<lparr>alloc_no := alloc_no s + 2, next_node := Suc (next_node s)\<rparr>)"

lemma node_new_cases:
  "ramfs_node_new (Some nm) flags s =
     (if \<not> alloc_ok s (alloc_no s) then (None, s\<lparr>alloc_no := alloc_no s + 1\<rparr>)
      else if \<not> alloc_ok s (Suc (alloc_no s)) then (None, s\<lparr>alloc_no := alloc_no s + 2\<rparr>)
      else (Some (next_node s), with_node nm flags s))"
  by (simp add: ramfs_node_new_def fs_alloc_def with_node_def set_node_def fresh_node_def)

lemma node_data_set_data:
  "node_data s n \<noteq> None \<Longrightarrow> node_data (set_data n d s) m = (if m = n then Some d else node_data s m)"
  by (auto simp: node_data_def set_data_def bind_eq_Some_conv)

lemma set_data_view:
  assumes "node_data s n = Some d" "pages d' = pages d"
  shows "map_option node_view (nodes (set_data n d' s) m) = map_option node_view (nodes s m)"
  using assms by (auto simp: set_data_def node_data_Some node_view_def)

lemma set_data_simps [simp]:
  "next_node (set_data n d s) = next_node s" "alloc_ok (set_data n d s) = alloc_ok s"
  "alloc_no (set_data n d s) = alloc_no s" "vfs_mount_list (set_data n d s) = vfs_mount_list s"
  by (simp_all add: set_data_def)

lemma view_nm: "map_option node_view (nodes s' n) = map_option node_view (nodes s n) \<Longrightarrow> node_nm s' n = node_nm s n"
  by (cases "nodes s n"; cases "nodes s' n") (auto simp: node_nm_def node_view_def)

lemma view_dir: "map_option node_view (nodes s' n) = map_option node_view (nodes s n) \<Longrightarrow> is_dir s' n = is_dir s n"
  by (cases "nodes s n"; cases "nodes s' n") (auto simp: is_dir_def node_view_def)

lemma view_data:
  "map_option node_view (nodes s' n) = map_option node_view (nodes s n) \<Longrightarrow> (node_data s' n = None) = (node_data s n = None)"
  by (cases "nodes s n"; cases "nodes s' n") (auto simp: node_data_def node_view_def)

text \<open>Appending to a chain.\<close>

lemma chain_append:
  assumes "sib_chain s p xs" "xs \<noteq> []" "distinct xs" "n \<notin> set xs" "node_data s n = Some d0" "next_sibling d0 = None"
    and "node_data s (last xs) = Some d"
  shows "sib_chain (set_data (last xs) (d\<lparr>next_sibling := Some n\<rparr>) s) p (xs @ [n])"
proof -
  let ?s = "set_data (last xs) (d\<lparr>next_sibling := Some n\<rparr>) s"
  have nd: "node_data ?s m = (if m = last xs then Some (d\<lparr>next_sibling := Some n\<rparr>) else node_data s m)" for m
    using assms(7) by (simp add: node_data_set_data)
  have "n \<noteq> last xs" using assms(2,4) last_in_set by metis
  then have n: "node_data ?s n = Some d0" using nd assms(5) by simp
  have "sib_chain ?s q (ys @ [n])" if "sib_chain s q ys" "ys \<noteq> []" "distinct ys" "last ys = last xs" for q ys
    using that
  proof (induction ys arbitrary: q)
    case (Cons y ys)
    show ?case
    proof (cases "ys = []")
      case True
      then show ?thesis using Cons.prems nd n assms(6) by (auto split: option.splits)
    next
      case False
      then have "y \<noteq> last xs" using Cons.prems by (metis distinct.simps(2) last_ConsR last_in_set)
      then show ?thesis using False Cons nd by (auto split: option.splits)
    qed
  qed simp
  then show ?thesis using assms(1-3) by blast
qed


lemma fs_invD:
  assumes "fs_inv s ch"
  shows "nodes s n \<noteq> None \<Longrightarrow> n < next_node s" "node_data s n = Some d \<Longrightarrow> sib_chain s (first_child d) (ch n)"
    "node_data s n = None \<Longrightarrow> ch n = []" "distinct (ch n)" "distinct (map (node_nm s) (ch n))"
    "c \<in> set (ch n) \<Longrightarrow> good_name (node_nm s c)" "m \<noteq> n \<Longrightarrow> set (ch m) \<inter> set (ch n) = {}"
    "is_dir s n \<Longrightarrow> node_data s n \<noteq> None"
  using assms by (auto simp: fs_inv_def is_dir_def node_data_def split: option.splits)

lemma fs_inv_children:
  assumes "fs_inv s ch" "c \<in> set (ch n)"
  shows "node_data s c \<noteq> None" "c < next_node s"
proof -
  obtain d where d: "node_data s n = Some d"
    using fs_invD(3) [OF assms(1), of n] assms(2) by (cases "node_data s n") auto
  show nd: "node_data s c \<noteq> None"
    using sib_chain_nodes [OF fs_invD(2) [OF assms(1) d] assms(2)] .
  then show "c < next_node s" using fs_invD(1) [OF assms(1), of c] by (cases "nodes s c") (simp_all add: node_data_def)
qed

lemma fs_inv_fresh: "fs_inv s ch \<Longrightarrow> nodes s (next_node s) = None \<and> node_data s (next_node s) = None \<and> ch (next_node s) = []"
  using fs_invD(1,3) [of s ch "next_node s"] by (cases "nodes s (next_node s)") (simp_all add: node_data_def)

definition added :: "fs_state \<Rightarrow> children \<Rightarrow> nat \<Rightarrow> cstring \<Rightarrow> u32 \<Rightarrow> fs_state \<Rightarrow> bool" where
  "added s ch d nm flags s' \<longleftrightarrow>
     fs_inv s' (ch(d := ch d @ [next_node s])) \<and> next_node s' = Suc (next_node s) \<and>
     alloc_ok s' = alloc_ok s \<and> vfs_mount_list s' = vfs_mount_list s \<and>
     map_option node_view (nodes s' (next_node s)) = Some (node_view (fresh_node nm flags)) \<and>
     (\<forall>m. m \<noteq> next_node s \<longrightarrow> map_option node_view (nodes s' m) = map_option node_view (nodes s m))"

lemma addedI:
  assumes inv: "fs_inv s ch" and d: "node_data s d \<noteq> None" and nm: "good_name nm" "child s ch d nm = None"
    and nx: "next_node s' = Suc (next_node s)" "alloc_ok s' = alloc_ok s" "vfs_mount_list s' = vfs_mount_list s"
    and n: "map_option node_view (nodes s' (next_node s)) = Some (node_view (fresh_node nm flags))"
    and v: "\<And>m. m \<noteq> next_node s \<Longrightarrow> map_option node_view (nodes s' m) = map_option node_view (nodes s m)"
    and ch: "\<And>m dd. node_data s' m = Some dd \<Longrightarrow> sib_chain s' (first_child dd) ((ch(d := ch d @ [next_node s])) m)"
  shows "added s ch d nm flags s'"
proof -
  let ?n = "next_node s" and ?ch = "ch(d := ch d @ [next_node s])"
  note fr = fs_inv_fresh [OF inv]
  have ex: "nodes s' m = None \<longleftrightarrow> nodes s m = None" if "m \<noteq> ?n" for m
    using v [OF that] by (metis map_option_is_None)
  have lt: "c \<noteq> ?n" if "c \<in> set (ch m)" for c m using fs_inv_children [OF inv that] by simp
  have nms: "node_nm s' c = node_nm s c" if "c \<noteq> ?n" for c by (rule view_nm) (rule v [OF that])
  have nmn: "node_nm s' ?n = nm"
    using n nm(1) by (auto simp: node_nm_def node_view_def fresh_node_def snprintf_s_def good_name_def VFS_NAME_SIZE_def)
  have dn: "d \<noteq> ?n" using d fr by auto
  have c1: "m < next_node s'" if "nodes s' m \<noteq> None" for m
    using that ex [of m] fs_invD(1) [OF inv, of m] nx(1) by (cases "m = ?n") auto
  have c3: "?ch m = []" if "node_data s' m = None" for m
  proof (cases "m = ?n")
    case True
    then show ?thesis using fr dn by simp
  next
    case False
    then have "node_data s m = None" using view_data [OF v [OF False]] that by simp
    then show ?thesis using fs_invD(3) [OF inv] d by auto
  qed
  have c4: "node_ops w = Some Ramfs_ops \<and> priv_data w \<noteq> None"
    if w: "nodes s' m = Some w" "node_flags w AND VFS_DIRECTORY \<noteq> 0" for m w
  proof (cases "m = ?n")
    case True
    then show ?thesis using n w by (auto simp: node_view_def fresh_node_def)
  next
    case False
    then obtain u where u: "nodes s m = Some u" "node_view w = node_view u" using v [OF False] w by (cases "nodes s m") auto
    then have "node_ops u = Some Ramfs_ops \<and> priv_data u \<noteq> None"
      using w inv unfolding fs_inv_def node_view_def by auto
    then show ?thesis using u(2) by (cases "priv_data w") (auto simp: node_view_def)
  qed
  have new: "nm \<notin> node_nm s ` set (ch d)" using nm(2) by (auto simp: child_def find_None_iff)
  have nin: "?n \<notin> set (ch m)" for m using lt by blast
  have nmc: "node_nm s' c = node_nm s c" if "c \<in> set (ch m)" for c m using nms lt [OF that] .
  have map: "map (node_nm s') (ch m) = map (node_nm s) (ch m)" for m using nmc by simp
  have dis: "distinct (map (node_nm s') (ch m))" for m unfolding map by (rule fs_invD(5) [OF inv])
  have new': "nm \<notin> node_nm s' ` set (ch d)" using new nmc by (metis image_iff)
  have c5: "distinct (?ch m) \<and> distinct (map (node_nm s') (?ch m)) \<and> (\<forall>c \<in> set (?ch m). good_name (node_nm s' c))" for m
    using fs_invD(4) [OF inv, of m] fs_invD(6) [OF inv, of _ m] nin dis new' nmn nm(1) nmc [of _ m] by (cases "m = d") auto
  have c6: "set (?ch m) \<inter> set (?ch k) = {}" if "m \<noteq> k" for m k
    using fs_invD(7) [OF inv that] lt that by auto
  have "fs_inv s' ?ch" unfolding fs_inv_def using c1 ch c3 c4 c5 c6 by blast
  then show ?thesis unfolding added_def using nx n v by blast
qed


lemma append_added:
  assumes inv: "fs_inv s ch" and d: "node_data s d = Some dd" and nm: "good_name nm" "child s ch d nm = None"
  shows "\<exists>s'. ramfs_append d (next_node s) (with_node nm flags s) = Some s' \<and> added s ch d nm flags s'"
proof -
  let ?n = "next_node s" and ?s1 = "with_node nm flags s" and ?d0 = "\<lparr>first_child = None, next_sibling = None, pages = []\<rparr>"
  note fr = fs_inv_fresh [OF inv]
  have dn: "d \<noteq> ?n" using d fr by auto
  have nd1: "node_data ?s1 m = (if m = ?n then Some ?d0 else node_data s m)" for m
    by (simp add: with_node_def set_node_def node_data_def fresh_node_def)
  have v1: "map_option node_view (nodes ?s1 ?n) = Some (node_view (fresh_node nm flags))"
    "\<And>m. m \<noteq> ?n \<Longrightarrow> nodes ?s1 m = nodes s m" by (simp_all add: with_node_def set_node_def)
  have sc1: "sib_chain ?s1 p (ch m) = sib_chain s p (ch m)" for p m
    using fs_inv_children [OF inv] nd1 by (intro sib_chain_cong) auto
  have chd: "sib_chain s (first_child dd) (ch d)" using fs_invD(2) [OF inv d] .
  have st: "added s ch d nm flags (set_data x dx ?s1)"
    if x: "node_data ?s1 x = Some d1" "pages dx = pages d1"
      and c: "\<And>m e. node_data (set_data x dx ?s1) m = Some e \<Longrightarrow>
        sib_chain (set_data x dx ?s1) (first_child e) ((ch(d := ch d @ [?n])) m)" for x dx d1
  proof (rule addedI [OF inv _ nm])
    show "node_data s d \<noteq> None" using d by simp
    show "map_option node_view (nodes (set_data x dx ?s1) ?n) = Some (node_view (fresh_node nm flags))"
      unfolding set_data_view [OF x] by (rule v1)
    show "map_option node_view (nodes (set_data x dx ?s1) m) = map_option node_view (nodes s m)" if "m \<noteq> ?n" for m
      unfolding set_data_view [OF x] v1(2) [OF that] ..
    show "sib_chain (set_data x dx ?s1) (first_child e) ((ch(d := ch d @ [?n])) m)"
      if "node_data (set_data x dx ?s1) m = Some e" for m e using c that .
  qed (simp_all add: with_node_def set_node_def)
  show ?thesis
  proof (cases "ch d = []")
    case True
    let ?dx = "dd\<lparr>first_child := Some ?n\<rparr>" let ?s2 = "set_data d ?dx ?s1"
    have d1: "node_data ?s1 d = Some dd" using nd1 dn d by simp
    have nd2: "node_data ?s2 m = (if m = d then Some ?dx else node_data ?s1 m)" for m
      using d1 by (simp add: node_data_set_data)
    have sc2: "sib_chain ?s2 p xs = sib_chain ?s1 p xs" for p xs
      using d1 nd2 by (intro sib_chain_cong) auto
    have "sib_chain ?s2 (first_child e) ((ch(d := ch d @ [?n])) m)" if "node_data ?s2 m = Some e" for m e
      using that True nd2 nd1 dn fr fs_invD(2) [OF inv, of m] by (auto simp: sc2 sc1 split: if_splits)
    from st [OF d1 _ this] have "added s ch d nm flags ?s2" by simp
    moreover have "ramfs_append d ?n ?s1 = Some ?s2" using d1 chd True by (simp add: ramfs_append_def)
    ultimately show ?thesis by blast
  next
    case False
    let ?l = "last (ch d)"
    have lin: "?l \<in> set (ch d)" using False by simp
    have ln: "?l \<noteq> ?n" using fs_inv_children [OF inv lin] by simp
    obtain dl where dl: "node_data s ?l = Some dl" using fs_inv_children [OF inv lin] by blast
    have l1: "node_data ?s1 ?l = Some dl" using nd1 ln dl by simp
    let ?dx = "dl\<lparr>next_sibling := Some ?n\<rparr>" let ?s2 = "set_data ?l ?dx ?s1"
    have nd2: "node_data ?s2 m = (if m = ?l then Some ?dx else node_data ?s1 m)" for m
      using l1 by (simp add: node_data_set_data)
    have nin: "?n \<notin> set (ch d)" using fs_inv_children(2) [OF inv, of ?n d] by blast
    have app: "sib_chain ?s2 (first_child dd) (ch d @ [?n])"
      using chd sc1 False fs_invD(4) [OF inv] nd1 l1 nin
      by (intro chain_append [where ?d0.0 = ?d0]) auto
    have oth: "sib_chain ?s2 p (ch m) = sib_chain ?s1 p (ch m)" if "m \<noteq> d" for m p
      using nd2 lin fs_invD(7) [OF inv that] by (intro sib_chain_cong) auto
    have "sib_chain ?s2 (first_child e) ((ch(d := ch d @ [?n])) m)" if e: "node_data ?s2 m = Some e" for m e
    proof (cases "m = d")
      case True
      then have "first_child e = first_child dd" using e nd2 nd1 d dl dn by (auto split: if_splits)
      then show ?thesis using True app by simp
    next
      case neq: False
      then show ?thesis
        using e nd2 nd1 dl fr fs_invD(2) [OF inv, of m] ln by (auto simp: oth sc1 split: if_splits)
    qed
    from st [OF l1 _ this] have "added s ch d nm flags ?s2" by simp
    moreover have "ramfs_append d ?n ?s1 = Some ?s2"
    proof -
      obtain x xs where x: "ch d = x # xs" using False by (cases "ch d") auto
      then have "first_child dd = Some x" using chd by simp
      moreover have "ramfs_last_sibling ?s1 x = Some ?l"
        using last_sibling_chain [of ?s1 x xs] chd sc1 [of "Some x" d] calculation x by simp
      ultimately show ?thesis using d dn nd1 l1 by (simp add: ramfs_append_def)
    qed
    ultimately show ?thesis by blast
  qed
qed


text \<open>The whole of \<open>ramfs_ops_create\<close>: an existing name, memory running out, or a new last child.\<close>

lemma fs_inv_alloc [simp]: "fs_inv (s\<lparr>alloc_no := k\<rparr>) ch = fs_inv s ch"
proof -
  have "node_data (s\<lparr>alloc_no := k\<rparr>) = node_data s" by (auto simp: node_data_def)
  moreover from this have "sib_chain (s\<lparr>alloc_no := k\<rparr>) p xs = sib_chain s p xs" for p xs by (intro sib_chain_cong) simp
  moreover have "node_nm (s\<lparr>alloc_no := k\<rparr>) = node_nm s" by (auto simp: node_nm_def)
  ultimately show ?thesis by (simp add: fs_inv_def)
qed

lemma create_ok:
  assumes inv: "fs_inv s ch" and d: "is_dir s d" and nm: "good_name nm"
  shows "\<exists>r out s'. ramfs_ops_create (Some d) nm flags s = Some (r, out, s') \<and>
    (if child s ch d nm \<noteq> None then r = -1 \<and> out = None \<and> s' = s
     else (r = -1 \<and> out = None \<and> (\<exists>k. s' = s\<lparr>alloc_no := k\<rparr>) \<and> \<not> (\<forall>k. alloc_ok s k)) \<or>
          (r = 0 \<and> out = Some (next_node s) \<and> added s ch d nm flags s'))"
proof -
  obtain v where v: "nodes s d = Some v" "node_flags v AND VFS_DIRECTORY \<noteq> 0"
    using d by (auto simp: is_dir_def split: option.splits)
  obtain dd where dd: "node_data s d = Some dd" using fs_invD(8) [OF inv d] by blast
  have f: "ramfs_ops_finddir (Some d) nm s = Some (child s ch d nm)"
    using finddir_child [OF inv] dd nm by (simp add: good_name_def)
  show ?thesis
  proof (cases "child s ch d nm")
    case None
    obtain s' where "ramfs_append d (next_node s) (with_node nm flags s) = Some s'" "added s ch d nm flags s'"
      using append_added [OF inv dd nm None] by blast
    then show ?thesis using f v None by (auto simp: ramfs_ops_create_def node_new_cases)
  next
    case (Some c)
    then show ?thesis using f v by (simp add: ramfs_ops_create_def)
  qed
qed

lemma added_child:
  assumes "added s ch d nm flags s'" "fs_inv s ch" "good_name nm" "child s ch d nm = None" "node_data s d \<noteq> None"
  shows "child s' (ch(d := ch d @ [next_node s])) m x =
    (if m = d \<and> x = nm then Some (next_node s) else child s ch m x)"
proof -
  let ?n = "next_node s"
  have lt: "c \<noteq> ?n" if "c \<in> set (ch m)" for c m using fs_inv_children [OF assms(2) that] by simp
  have nms: "node_nm s' c = node_nm s c" if "c \<noteq> ?n" for c
    using assms(1) that by (intro view_nm) (simp add: added_def)
  have nmn: "node_nm s' ?n = nm" using assms(1,3)
    by (auto simp: added_def node_nm_def node_view_def fresh_node_def snprintf_s_def good_name_def VFS_NAME_SIZE_def)
  have eq: "List.find (\<lambda>c. node_nm s' c = x) (ch k) = List.find (\<lambda>c. node_nm s c = x) (ch k)" for k
    using lt nms by (intro find_cong) auto
  have app: "List.find P (xs @ ys) = (case List.find P xs of None \<Rightarrow> List.find P ys | Some c \<Rightarrow> Some c)" for P and xs ys :: "nat list"
    by (induction xs) auto
  show ?thesis using assms(4) nmn eq by (auto simp: child_def app split: option.splits)
qed

lemma added_dir:
  assumes "added s ch d nm flags s'"
  shows "is_dir s' m = (if m = next_node s then flags AND VFS_DIRECTORY \<noteq> 0 else is_dir s m)"
proof (cases "m = next_node s")
  case True
  then show ?thesis using assms by (auto simp: added_def is_dir_def node_view_def fresh_node_def)
next
  case False
  then show ?thesis using assms view_dir [of s' m s] by (simp add: added_def)
qed


section \<open>Listing\<close>

lemma readdir_chain:
  assumes "sib_chain s p xs" "length xs < 2 ^ 32 - unat i" "i \<le> index"
  shows "ramfs_readdir_loop s index p i =
    (if unat index - unat i < length xs
     then Some (1, map_option ramfs_dirent (nodes s (xs ! (unat index - unat i)))) else Some (0, None))"
  using assms
proof (induction xs arbitrary: p i)
  case Nil
  then show ?case by (simp add: ramfs_readdir_loop.simps)
next
  case (Cons x xs)
  then obtain d where p: "p = Some x" and d: "node_data s x = Some d" and c: "sib_chain s (next_sibling d) xs"
    by (auto split: option.splits)
  obtain v where v: "nodes s x = Some v" "priv_data v = Some d" using d by (auto simp: node_data_Some)
  show ?case
  proof (cases "i = index")
    case True
    then show ?thesis using p v by (simp add: ramfs_readdir_loop.simps [of s index "Some x"])
  next
    case False
    have u: "unat (i + 1) = unat i + 1" using Cons.prems(2) by (simp add: unat_add_lem [THEN iffD1])
    have lt: "unat i < unat index" using False Cons.prems(3) by (metis order_less_le word_less_nat_alt)
    have "ramfs_readdir_loop s index (next_sibling d) (i + 1) =
      (if unat index - unat (i + 1) < length xs
       then Some (1, map_option ramfs_dirent (nodes s (xs ! (unat index - unat (i + 1))))) else Some (0, None))"
      using c u lt Cons.prems(2) by (intro Cons.IH) (simp_all add: word_le_nat_alt)
    moreover have "unat index - unat i = Suc (unat index - Suc (unat i))" using lt by simp
    ultimately show ?thesis using p v False u by (simp add: ramfs_readdir_loop.simps [of s index "Some x"])
  qed
qed

lemma readdir_children:
  assumes inv: "fs_inv s ch" and d: "node_data s d \<noteq> None" and l: "length (ch d) < 2 ^ 32"
  shows "ramfs_ops_readdir (Some d) index True s =
    (if unat index < length (ch d) then Some (1, map_option ramfs_dirent (nodes s (ch d ! unat index))) else Some (0, None))"
proof -
  obtain dd where "node_data s d = Some dd" using d by blast
  then show ?thesis using readdir_chain [of s "first_child dd" "ch d" 0 index] fs_invD(2) [OF inv] l
    by (simp add: ramfs_ops_readdir_def)
qed

end
