(* ===== verification/Vfs_Path.thy ===== *)
theory Vfs_Path
  imports Ramfs_Tree
begin

text \<open>
  Paths. \<open>resolve\<close> follows the components of a path down the directory tree; the walk of the virtual
  file system computes it, and when it creates missing nodes it only adds to the tree (\<open>grown\<close>):
  every path that led somewhere still leads to the same node.
\<close>

section \<open>Resolution\<close>

fun resolve :: "fs_state \<Rightarrow> children \<Rightarrow> nat \<Rightarrow> cstring list \<Rightarrow> nat option" where
  "resolve s ch d [] = Some d"
| "resolve s ch d (t # ts) = (if is_dir s d then Option.bind (child s ch d t) (\<lambda>c. resolve s ch c ts) else None)"

definition toks :: "cstring option \<Rightarrow> cstring option \<Rightarrow> cstring list" where
  "toks token save = (case token of None \<Rightarrow> [] | Some t \<Rightarrow> t # (case save of None \<Rightarrow> [] | Some r \<Rightarrow> tokens_l [47] r))"

lemma strtokr_l_toks: "strtokr_l [47] r = (token, save) \<Longrightarrow> tokens_l [47] r = toks token save"
proof -
  assume "strtokr_l [47] r = (token, save)"
  moreover from this have "token \<noteq> None \<longrightarrow> save \<noteq> None"
    by (auto simp: strtokr_l_def Let_def split: if_splits)
  ultimately show ?thesis by (auto simp: tokens_l.simps [of "[47]" r] toks_def split: option.splits)
qed

lemma toks_next:
  assumes "strtokr_next save = (nt, save')"
  shows "toks (Some t) save = t # toks nt save'"
  using assms strtokr_l_toks [of _ nt save']
  by (cases save) (simp_all add: toks_def strtokr_next_def)

lemma toks_Nil [simp]: "toks token save = [] \<longleftrightarrow> token = None"
  by (simp add: toks_def split: option.splits)

section \<open>Growing trees\<close>

definition grown :: "fs_state \<Rightarrow> children \<Rightarrow> fs_state \<Rightarrow> children \<Rightarrow> bool" where
  "grown s ch s' ch' \<longleftrightarrow>
     fs_inv s' ch' \<and> next_node s \<le> next_node s' \<and> alloc_ok s' = alloc_ok s \<and> vfs_mount_list s' = vfs_mount_list s \<and>
     (\<forall>m < next_node s. map_option node_view (nodes s' m) = map_option node_view (nodes s m)) \<and>
     (\<forall>m < next_node s. \<forall>x. child s' ch' m x = child s ch m x \<or>
        child s ch m x = None \<and> (\<exists>n \<ge> next_node s. child s' ch' m x = Some n)) \<and>
     (\<forall>m \<ge> next_node s. \<forall>x c. child s' ch' m x = Some c \<longrightarrow> next_node s \<le> c)"

lemma child_lt: "fs_inv s ch \<Longrightarrow> child s ch m x = Some c \<Longrightarrow> c < next_node s \<and> nodes s c \<noteq> None"
  using fs_inv_children [of s ch c m]
  by (auto simp: child_def find_Some_iff node_data_def bind_eq_Some_conv)

lemma child_new: "fs_inv s ch \<Longrightarrow> m \<ge> next_node s \<Longrightarrow> child s ch m x = None"
  using fs_invD(1,3) [of s ch m] by (cases "nodes s m") (auto simp: child_def node_data_def)

lemma grown_refl: "fs_inv s ch \<Longrightarrow> grown s ch s ch"
  by (simp add: grown_def child_new)

lemma child_alloc [simp]: "child (s\<lparr>alloc_no := k\<rparr>) ch m x = child s ch m x"
  by (simp add: child_def node_nm_def)

lemma grown_alloc: "fs_inv s ch \<Longrightarrow> grown s ch (s\<lparr>alloc_no := k\<rparr>) ch"
  by (simp add: grown_def child_new)

lemma grownD:
  assumes "grown s ch s' ch'"
  shows "fs_inv s' ch'" "next_node s \<le> next_node s'" "alloc_ok s' = alloc_ok s" "vfs_mount_list s' = vfs_mount_list s"
    "m < next_node s \<Longrightarrow> map_option node_view (nodes s' m) = map_option node_view (nodes s m)"
    "m < next_node s \<Longrightarrow> child s' ch' m x = child s ch m x \<or>
        child s ch m x = None \<and> (\<exists>n \<ge> next_node s. child s' ch' m x = Some n)"
    "next_node s \<le> m \<Longrightarrow> child s' ch' m x = Some c \<Longrightarrow> next_node s \<le> c"
  using assms unfolding grown_def by blast+

lemma grownI:
  assumes "fs_inv s' ch'" "next_node s \<le> next_node s'" "alloc_ok s' = alloc_ok s" "vfs_mount_list s' = vfs_mount_list s"
    "\<And>m. m < next_node s \<Longrightarrow> map_option node_view (nodes s' m) = map_option node_view (nodes s m)"
    "\<And>m x. m < next_node s \<Longrightarrow> child s' ch' m x = child s ch m x \<or>
        child s ch m x = None \<and> (\<exists>n \<ge> next_node s. child s' ch' m x = Some n)"
    "\<And>m x c. next_node s \<le> m \<Longrightarrow> child s' ch' m x = Some c \<Longrightarrow> next_node s \<le> c"
  shows "grown s ch s' ch'"
  using assms unfolding grown_def by blast

lemma grown_trans:
  assumes a: "grown s ch s1 ch1" and b: "grown s1 ch1 s2 ch2"
  shows "grown s ch s2 ch2"
proof (rule grownI)
  have n: "next_node s \<le> next_node s1" by (rule grownD(2) [OF a])
  show "fs_inv s2 ch2" by (rule grownD(1) [OF b])
  show "next_node s \<le> next_node s2" using n grownD(2) [OF b] by simp
  show "alloc_ok s2 = alloc_ok s" "vfs_mount_list s2 = vfs_mount_list s"
    using grownD(3,4) [OF a] grownD(3,4) [OF b] by simp_all
  show "map_option node_view (nodes s2 m) = map_option node_view (nodes s m)" if "m < next_node s" for m
    using grownD(5) [OF a that] grownD(5) [OF b, of m] n that by simp
  show "child s2 ch2 m x = child s ch m x \<or> child s ch m x = None \<and> (\<exists>k \<ge> next_node s. child s2 ch2 m x = Some k)"
    if m: "m < next_node s" for m x
    using grownD(6) [OF a m, of x] grownD(6) [OF b, of m x] n m by auto
  show "next_node s \<le> c" if m: "next_node s \<le> m" "child s2 ch2 m x = Some c" for m x c
  proof (cases "m < next_node s1")
    case True
    then show ?thesis using grownD(6) [OF b True, of x] grownD(7) [OF a m(1), of x c] m(2) n by auto
  next
    case False
    then show ?thesis using grownD(7) [OF b _ m(2)] n by simp
  qed
qed

lemma grown_added:
  assumes "added s ch d nm flags s'" "fs_inv s ch" "good_name nm" "child s ch d nm = None" "node_data s d \<noteq> None"
  shows "grown s ch s' (ch(d := ch d @ [next_node s]))"
proof -
  note c = added_child [OF assms]
  have d: "d < next_node s" using fs_invD(1) [OF assms(2), of d] assms(5) by (cases "nodes s d") (auto simp: node_data_def)
  note a = assms(1) [unfolded added_def]
  show ?thesis
  proof (rule grownI)
    show "child s' (ch(d := ch d @ [next_node s])) m x = child s ch m x \<or>
        child s ch m x = None \<and> (\<exists>n \<ge> next_node s. child s' (ch(d := ch d @ [next_node s])) m x = Some n)" for m x
      unfolding c using assms(4) by simp
    show "next_node s \<le> k" if "next_node s \<le> m" "child s' (ch(d := ch d @ [next_node s])) m x = Some k" for m x k
      using that(2) d that(1) child_new [OF assms(2) that(1), of x] unfolding c by simp
  qed (use a in simp_all)
qed

lemma grown_dir: "grown s ch s' ch' \<Longrightarrow> m < next_node s \<Longrightarrow> is_dir s' m = is_dir s m"
  by (intro view_dir) (rule grownD(5))

lemma resolve_grown:
  assumes g: "grown s ch s' ch'" and i: "fs_inv s ch"
  shows "resolve s ch r ts = Some m \<Longrightarrow> r < next_node s \<Longrightarrow> resolve s' ch' r ts = Some m"
proof (induction ts arbitrary: r)
  case (Cons t ts)
  then obtain c where c: "is_dir s r" "child s ch r t = Some c" "resolve s ch c ts = Some m"
    by (auto simp: bind_eq_Some_conv split: if_splits)
  have "child s' ch' r t = Some c" using grownD(6) [OF g Cons.prems(2), of t] c(2) by auto
  then show ?case using Cons c grown_dir [OF g] child_lt [OF i c(2)] by simp
qed simp

lemma resolve_new:
  assumes g: "grown s ch s' ch'" and i: "fs_inv s ch"
  shows "resolve s' ch' r ts = Some m \<Longrightarrow> r \<ge> next_node s \<Longrightarrow> m \<ge> next_node s"
proof (induction ts arbitrary: r)
  case (Cons t ts)
  then obtain c where c: "child s' ch' r t = Some c" "resolve s' ch' c ts = Some m"
    by (auto simp: bind_eq_Some_conv split: if_splits)
  then have "next_node s \<le> c" using grownD(7) [OF g Cons.prems(2)] by blast
  then show ?case using Cons.IH c by blast
qed simp

lemma resolve_grown_old:
  assumes g: "grown s ch s' ch'" and i: "fs_inv s ch" and m: "m < next_node s"
  shows "resolve s' ch' r ts = Some m \<Longrightarrow> r < next_node s \<Longrightarrow> resolve s ch r ts = Some m"
proof (induction ts arbitrary: r)
  case (Cons t ts)
  then obtain c where c: "is_dir s' r" "child s' ch' r t = Some c" "resolve s' ch' c ts = Some m"
    by (auto simp: bind_eq_Some_conv split: if_splits)
  have lt: "c < next_node s" using resolve_new [OF g i c(3)] m by (meson leD leI)
  have "child s' ch' r t = child s ch r t \<or> (\<exists>n \<ge> next_node s. child s' ch' r t = Some n)"
    using grownD(6) [OF g Cons.prems(2), of t] by blast
  then have "child s ch r t = Some c" using c(2) lt by auto
  then show ?case using c Cons lt grown_dir [OF g] by simp
qed simp

end
