(* ===== verification/Vfs_Walk.thy ===== *)
theory Vfs_Walk
  imports Vfs_Path
begin

text \<open>
  The walk of \<^verbatim>\<open>vfs_inner_find_and_create\<close>: without creation it computes \<open>resolve\<close>; with creation it
  grows the tree until the path resolves.
\<close>

section \<open>Looking up\<close>

lemma walk_unfold:
  assumes "strtokr_next save = (nt, save')" "nodes s parent = Some pv"
  shows "vfs_walk_loop stop flags (Some t) save parent s =
    (if nt = None \<and> stop then if node_flags pv AND VFS_DIRECTORY = 0 then Some (None, s) else Some (Some parent, s)
     else if node_flags pv AND VFS_DIRECTORY = 0 then Some (None, s)
     else case node_ops pv of
         None \<Rightarrow> Some (None, s)
       | Some ops \<Rightarrow>
           case ops_finddir ops of
             None \<Rightarrow> Some (None, s)
           | Some finddir \<Rightarrow>
               Option.bind (finddir parent t s)
                 (\<lambda>found. Option.bind
                    (case found of
                       Some t \<Rightarrow> Some (Some t, s)
                     | None \<Rightarrow> vfs_create_missing ops parent t (nt = None) flags s)
                    (\<lambda>(target, s1). case target of
                         None \<Rightarrow> Some (None, s1)
                       | Some t \<Rightarrow> vfs_walk_loop stop flags nt save' t s1)))"
  using assms by (simp add: vfs_walk_loop.simps [of stop flags "Some t"] Let_def)

lemma walk_done [simp]: "vfs_walk_loop stop flags None save parent s = Some (Some parent, s)"
  by (simp add: vfs_walk_loop.simps)

lemma is_dir_ops:
  assumes "fs_inv s ch" "is_dir s d"
  obtains v where "nodes s d = Some v" "node_flags v AND VFS_DIRECTORY \<noteq> 0" "node_ops v = Some Ramfs_ops"
  using assms by (auto simp: fs_inv_def is_dir_def split: option.splits)

lemma walk_lookup:
  assumes inv: "fs_inv s ch"
  shows "\<lbrakk>toks token save = ts; nodes s d \<noteq> None; \<forall>t \<in> set ts. 0 \<notin> set t\<rbrakk> \<Longrightarrow>
    vfs_walk_loop False 0 token save d s = Some (resolve s ch d ts, s)"
proof (induction ts arbitrary: token save d)
  case Nil
  then show ?case by simp
next
  case (Cons t ts)
  obtain nt save' where nx: "strtokr_next save = (nt, save')" by fastforce
  have tk: "token = Some t" "toks nt save' = ts"
    using Cons.prems(1) toks_next [OF nx] by (auto simp: toks_def split: option.splits)
  obtain v where v: "nodes s d = Some v" using Cons.prems(2) by blast
  show ?case
  proof (cases "is_dir s d")
    case True
    then obtain w where w: "nodes s d = Some w" "node_flags w AND VFS_DIRECTORY \<noteq> 0" "node_ops w = Some Ramfs_ops"
      using is_dir_ops [OF inv] by blast
    have f: "ramfs_ops_finddir (Some d) t s = Some (child s ch d t)"
      using finddir_child [OF inv fs_invD(8) [OF inv True]] Cons.prems(3) by simp
    show ?thesis
    proof (cases "child s ch d t")
      case None
      then show ?thesis using f w True tk(1)
        by (simp add: walk_unfold [OF nx w(1)] ops_finddir_def vfs_create_missing_def)
    next
      case (Some c)
      then have "nodes s c \<noteq> None" using child_lt [OF inv Some] by blast
      then show ?thesis using f w True tk Some Cons.IH [OF tk(2), of c] Cons.prems(3)
        by (simp add: walk_unfold [OF nx w(1)] ops_finddir_def)
    qed
  next
    case False
    then show ?thesis using v tk(1) by (simp add: walk_unfold [OF nx v] is_dir_def)
  qed
qed

section \<open>Creating\<close>

text \<open>Every node the walk meets before the last component is a directory.\<close>

fun walkable :: "fs_state \<Rightarrow> children \<Rightarrow> nat \<Rightarrow> cstring list \<Rightarrow> bool" where
  "walkable s ch d [] = True"
| "walkable s ch d (t # ts) = (is_dir s d \<and> (case child s ch d t of None \<Rightarrow> True | Some c \<Rightarrow> walkable s ch c ts))"

definition new_kind :: "bool \<Rightarrow> u32 \<Rightarrow> u32" where
  "new_kind stop flags = (if \<not> stop \<and> flags AND VFS_FILE \<noteq> 0 then VFS_FILE else VFS_DIRECTORY)"

definition is_new :: "fs_state \<Rightarrow> nat \<Rightarrow> u32 \<Rightarrow> bool" where
  "is_new s n kind \<longleftrightarrow> (\<exists>nm. map_option node_view (nodes s n) = Some (node_view (fresh_node nm kind)))"

text \<open>One round of the loop: the child exists, or it is created, or nothing is found.\<close>

definition stepped ::
  "fs_state \<Rightarrow> children \<Rightarrow> nat \<Rightarrow> cstring \<Rightarrow> bool \<Rightarrow> u32 \<Rightarrow> nat option \<Rightarrow> fs_state \<Rightarrow> children \<Rightarrow> bool" where
  "stepped s ch d t is_last flags target s1 ch1 \<longleftrightarrow>
     (case child s ch d t of
        Some c \<Rightarrow> target = Some c \<and> s1 = s \<and> ch1 = ch
      | None \<Rightarrow>
          (case target of
             None \<Rightarrow> (\<exists>k. s1 = s\<lparr>alloc_no := k\<rparr>) \<and> ch1 = ch \<and>
               \<not> ((\<forall>k. alloc_ok s k) \<and> (flags AND VFS_DIRECTORY \<noteq> 0 \<or> is_last \<and> flags AND VFS_FILE \<noteq> 0))
           | Some n \<Rightarrow> n = next_node s \<and> ch1 = ch(d := ch d @ [n]) \<and>
               added s ch d t (if is_last \<and> flags AND VFS_FILE \<noteq> 0 then VFS_FILE else VFS_DIRECTORY) s1))"

lemma create_step:
  assumes inv: "fs_inv s ch" and d: "is_dir s d" and t: "good_name t" and c: "child s ch d t = None"
  shows "\<exists>target s1 ch1. Option.bind (ramfs_ops_create (Some d) t kind s)
      (\<lambda>(r, out, s1). if r \<noteq> 0 then Some (None, s1) else Some (out, s1)) = Some (target, s1) \<and>
    (case target of
       None \<Rightarrow> (\<exists>k. s1 = s\<lparr>alloc_no := k\<rparr>) \<and> ch1 = ch \<and> \<not> (\<forall>k. alloc_ok s k)
     | Some n \<Rightarrow> n = next_node s \<and> ch1 = ch(d := ch d @ [n]) \<and> added s ch d t kind s1)"
  using create_ok [OF inv d t, of kind] c by (elim exE conjE) (force split: if_splits)

lemma walk_step:
  assumes inv: "fs_inv s ch" and d: "is_dir s d" and t: "good_name t"
  shows "\<exists>target s1 ch1. Option.bind (ramfs_ops_finddir (Some d) t s)
      (\<lambda>found. case found of Some c \<Rightarrow> Some (Some c, s) | None \<Rightarrow> vfs_create_missing Ramfs_ops d t is_last flags s) =
      Some (target, s1) \<and> stepped s ch d t is_last flags target s1 ch1"
proof -
  have f: "ramfs_ops_finddir (Some d) t s = Some (child s ch d t)"
    using finddir_child [OF inv fs_invD(8) [OF inv d]] t by (simp add: good_name_def)
  show ?thesis
  proof (cases "child s ch d t")
    case None
    let ?kind = "if is_last \<and> flags AND VFS_FILE \<noteq> 0 then VFS_FILE else VFS_DIRECTORY"
    show ?thesis
    proof (cases "flags AND VFS_DIRECTORY \<noteq> 0 \<or> is_last \<and> flags AND VFS_FILE \<noteq> 0")
      case True
      from create_step [OF inv d t None, of ?kind] obtain target s1 ch1 where
        "Option.bind (ramfs_ops_create (Some d) t ?kind s)
           (\<lambda>(r, out, s1). if r \<noteq> 0 then Some (None, s1) else Some (out, s1)) = Some (target, s1)"
        "case target of
           None \<Rightarrow> (\<exists>k. s1 = s\<lparr>alloc_no := k\<rparr>) \<and> ch1 = ch \<and> \<not> (\<forall>k. alloc_ok s k)
         | Some n \<Rightarrow> n = next_node s \<and> ch1 = ch(d := ch d @ [n]) \<and> added s ch d t ?kind s1" by blast
      then show ?thesis using f None True
        by (intro exI [of _ target] exI [of _ s1] exI [of _ ch1])
          (auto simp: vfs_create_missing_def ops_create_def stepped_def split: option.splits)
    next
      case False
      then show ?thesis using f None
        by (intro exI [of _ None] exI [of _ s] exI [of _ ch])
          (auto simp: vfs_create_missing_def stepped_def intro!: exI [of _ "alloc_no s"])
    qed
  next
    case (Some c)
    then show ?thesis using f
      by (intro exI [of _ "Some c"] exI [of _ s] exI [of _ ch]) (simp add: stepped_def)
  qed
qed

lemma stepped_grown:
  assumes "stepped s ch d t is_last flags target s1 ch1" "fs_inv s ch" "is_dir s d" "good_name t"
  shows "grown s ch s1 ch1"
  using assms grown_added [of s ch d t _ s1] grown_refl [of s ch] grown_alloc [of s ch] fs_invD(8) [of s ch d]
  by (auto simp: stepped_def split: option.splits if_splits)

lemma stepped_child:
  assumes "stepped s ch d t is_last flags (Some n) s1 ch1" "fs_inv s ch" "is_dir s d" "good_name t"
  shows "child s1 ch1 d t = Some n" "nodes s1 n \<noteq> None" "n < next_node s1"
proof -
  have "child s1 ch1 d t = Some n"
  proof (cases "child s ch d t")
    case None
    then show ?thesis
      using assms added_child [of s ch d t _ s1 d t] fs_invD(8) [of s ch d] by (auto simp: stepped_def)
  next
    case (Some c)
    then show ?thesis using assms by (simp add: stepped_def)
  qed
  then show "child s1 ch1 d t = Some n" "nodes s1 n \<noteq> None" "n < next_node s1"
    using child_lt [OF grownD(1) [OF stepped_grown [OF assms]]] by auto
qed


text \<open>What a walk from \<open>d\<close> along \<open>ts\<close> achieves.\<close>

definition walked_to ::
  "bool \<Rightarrow> u32 \<Rightarrow> nat \<Rightarrow> cstring list \<Rightarrow> fs_state \<Rightarrow> children \<Rightarrow> nat option \<Rightarrow> fs_state \<Rightarrow> children \<Rightarrow> bool" where
  "walked_to stop flags d ts s ch res s' ch' \<longleftrightarrow>
     grown s ch s' ch' \<and>
     (\<forall>n. res = Some n \<longrightarrow> resolve s' ch' d (if stop then butlast ts else ts) = Some n \<and>
        (n \<ge> next_node s \<longrightarrow> is_new s' n (new_kind stop flags)) \<and>
        (stop \<longrightarrow> (\<forall>x c. child s' ch' n x = Some c \<longrightarrow> c < next_node s))) \<and>
     ((\<forall>k. alloc_ok s k) \<and> walkable s ch d ts \<and>
        (flags AND VFS_DIRECTORY \<noteq> 0 \<or> \<not> stop \<and> flags AND VFS_FILE \<noteq> 0 \<and> resolve s ch d (butlast ts) \<noteq> None) \<longrightarrow>
      res \<noteq> None)"

lemma walked_to_fail:
  assumes "grown s ch s' ch'"
    "\<not> ((\<forall>k. alloc_ok s k) \<and> walkable s ch d ts \<and>
        (flags AND VFS_DIRECTORY \<noteq> 0 \<or> \<not> stop \<and> flags AND VFS_FILE \<noteq> 0 \<and> resolve s ch d (butlast ts) \<noteq> None))"
  shows "walked_to stop flags d ts s ch None s' ch'"
  using assms by (simp add: walked_to_def)

lemma stepped_walkable:
  assumes st: "stepped s ch d t (ts = []) flags (Some c) s1 ch1" and inv: "fs_inv s ch" and d: "is_dir s d" and t: "good_name t"
    and w: "walkable s ch d (t # ts)"
  shows "walkable s1 ch1 c ts"
proof (cases "child s ch d t")
  case None
  then have c: "c = next_node s" "ch1 = ch(d := ch d @ [c])"
    and a: "added s ch d t (if ts = [] \<and> flags AND VFS_FILE \<noteq> 0 then VFS_FILE else VFS_DIRECTORY) s1"
    using st by (simp_all add: stepped_def)
  have dc: "d \<noteq> c" using c fs_invD(1) [OF inv, of d] d by (auto simp: is_dir_def split: option.splits)
  have "child s1 ch1 c x = None" for x
    using added_child [OF a inv t None fs_invD(8) [OF inv d], of c x] child_new [OF inv, of c] c dc by simp
  moreover have "ts \<noteq> [] \<Longrightarrow> is_dir s1 c" using added_dir [OF a, of c] c by (simp add: VFS_DIRECTORY_def)
  ultimately show ?thesis by (cases ts) simp_all
next
  case (Some c')
  then show ?thesis using st w by (simp add: stepped_def)
qed

lemma stepped_resolve:
  assumes st: "stepped s ch d t (ts = []) flags (Some c) s1 ch1" and d: "is_dir s d"
    and r: "flags AND VFS_DIRECTORY = 0" "resolve s ch d (butlast (t # ts)) \<noteq> None"
  shows "resolve s1 ch1 c (butlast ts) \<noteq> None"
proof (cases "ts = []")
  case False
  then have "child s ch d t \<noteq> None" using r(2) by (auto split: if_splits simp: bind_eq_Some_conv)
  then show ?thesis using st r(2) d False by (auto simp: stepped_def)
qed simp

lemma stepped_new:
  assumes st: "stepped s ch d t (ts = []) flags (Some c) s1 ch1" and inv: "fs_inv s ch" and d: "is_dir s d" and t: "good_name t"
    and w: "grown s1 ch1 s' ch'" "resolve s' ch' c (if stop then butlast ts else ts) = Some n"
    and n: "next_node s \<le> n" "n < next_node s1" and stop: "stop \<Longrightarrow> ts \<noteq> []"
  shows "is_new s' n (new_kind stop flags)"
proof -
  have None: "child s ch d t = None" using st n by (auto simp: stepped_def split: option.splits)
  let ?k = "if ts = [] \<and> flags AND VFS_FILE \<noteq> 0 then VFS_FILE else VFS_DIRECTORY"
  have c: "c = next_node s" "ch1 = ch(d := ch d @ [c])" and a: "added s ch d t ?k s1"
    using st None by (simp_all add: stepped_def)
  have nc: "n = c" using n c a by (simp add: added_def)
  have g: "grown s ch s1 ch1" by (rule stepped_grown [OF st inv d t])
  have dc: "d \<noteq> c" using c fs_invD(1) [OF inv, of d] d by (auto simp: is_dir_def split: option.splits)
  have nch: "child s1 ch1 c x = None" for x
    using added_child [OF a inv t None fs_invD(8) [OF inv d], of c x] child_new [OF inv, of c] c dc by simp
  have "resolve s1 ch1 c (if stop then butlast ts else ts) = Some n"
    using resolve_grown_old [OF w(1) grownD(1) [OF g] n(2) w(2)] nc n by simp
  then have "(if stop then butlast ts else ts) = []"
    using nch by (cases "if stop then butlast ts else ts") (simp_all split: if_splits)
  then have "?k = new_kind stop flags" using stop by (auto simp: new_kind_def split: if_splits)
  moreover have "map_option node_view (nodes s' n) = Some (node_view (fresh_node t ?k))"
    using grownD(5) [OF w(1) n(2)] a c nc by (simp add: added_def)
  ultimately show ?thesis unfolding is_new_def by auto
qed

lemma stepped_childless:
  assumes st: "stepped s ch d t (ts = []) flags (Some c) s1 ch1" and inv: "fs_inv s ch" and d: "is_dir s d" and t: "good_name t"
    and w: "grown s1 ch1 s' ch'" "resolve s' ch' c us = Some n" "child s' ch' n x = Some k" and k: "k < next_node s1"
  shows "k < next_node s"
proof (cases "child s ch d t")
  case None
  let ?k = "if ts = [] \<and> flags AND VFS_FILE \<noteq> 0 then VFS_FILE else VFS_DIRECTORY"
  have c: "c = next_node s" "ch1 = ch(d := ch d @ [c])" and a: "added s ch d t ?k s1"
    using st None by (simp_all add: stepped_def)
  have dc: "d \<noteq> c" using c fs_invD(1) [OF inv, of d] d by (auto simp: is_dir_def split: option.splits)
  have nch: "child s1 ch1 c y = None" for y
    using added_child [OF a inv t None fs_invD(8) [OF inv d], of c y] child_new [OF inv, of c] c dc by simp
  have new: "next_node s1 \<le> e" if "child s' ch' c y = Some e" for y e
    using grownD(6) [OF w(1) stepped_child(3) [OF st inv d t], of y] nch [of y] that by auto
  show ?thesis
  proof (cases us)
    case Nil
    then show ?thesis using new w(2,3) k by fastforce
  next
    case (Cons u us')
    then obtain e where e: "child s' ch' c u = Some e" "resolve s' ch' e us' = Some n"
      using w(2) by (auto simp: bind_eq_Some_conv split: if_splits)
    have "next_node s1 \<le> n" using resolve_new [OF w(1) grownD(1) [OF stepped_grown [OF st inv d t]] e(2) new [OF e(1)]] .
    then show ?thesis using grownD(7) [OF w(1) _ w(3)] k by simp
  qed
next
  case (Some c')
  then show ?thesis using st k by (simp add: stepped_def)
qed

lemma walked_to_step:
  assumes st: "stepped s ch d t (ts = []) flags (Some c) s1 ch1" and inv: "fs_inv s ch" and d: "is_dir s d" and t: "good_name t"
    and w: "walked_to stop flags c ts s1 ch1 res s' ch'" and stop: "stop \<Longrightarrow> ts \<noteq> []"
  shows "walked_to stop flags d (t # ts) s ch res s' ch'"
proof -
  have g: "grown s ch s1 ch1" by (rule stepped_grown [OF st inv d t])
  have g': "grown s1 ch1 s' ch'" using w by (simp add: walked_to_def)
  have dl: "d < next_node s" using fs_invD(1) [OF inv, of d] d by (auto simp: is_dir_def split: option.splits)
  have "resolve s1 ch1 d [t] = Some c" using stepped_child(1) [OF st inv d t] d grown_dir [OF g dl] by simp
  then have "resolve s' ch' d [t] = Some c"
    using resolve_grown [OF g' grownD(1) [OF g]] dl grownD(2) [OF g] by (meson order_less_le_trans)
  then have step: "is_dir s' d" "child s' ch' d t = Some c" by (auto simp: bind_eq_Some_conv split: if_splits)
  have res: "resolve s' ch' d (if stop then butlast (t # ts) else t # ts) = Some n"
    if "resolve s' ch' c (if stop then butlast ts else ts) = Some n" for n
    using that step stop by (cases stop) simp_all
  have "res \<noteq> None" if "\<forall>k. alloc_ok s k" "walkable s ch d (t # ts)"
    "flags AND VFS_DIRECTORY \<noteq> 0 \<or> \<not> stop \<and> flags AND VFS_FILE \<noteq> 0 \<and> resolve s ch d (butlast (t # ts)) \<noteq> None"
    using w that stepped_walkable [OF st inv d t that(2)] stepped_resolve [OF st d] grownD(3) [OF g]
    unfolding walked_to_def by metis
  moreover have "is_new s' n (new_kind stop flags)"
    if n: "res = Some n" "next_node s \<le> n" for n
  proof (cases "n < next_node s1")
    case True
    then show ?thesis using stepped_new [OF st inv d t g' _ n(2) True stop] w n(1) by (simp add: walked_to_def)
  next
    case False
    then show ?thesis using w n(1) by (simp add: walked_to_def)
  qed
  moreover have "k < next_node s" if n: "res = Some n" "stop" "child s' ch' n x = Some k" for n x k
  proof -
    have "resolve s' ch' c (butlast ts) = Some n" "k < next_node s1" using w n by (auto simp: walked_to_def)
    then show ?thesis using stepped_childless [OF st inv d t g' _ n(3)] by blast
  qed
  ultimately show ?thesis unfolding walked_to_def using grown_trans [OF g g'] w res unfolding walked_to_def by blast
qed


lemma vfs_walk_create:
  "\<lbrakk>toks token save = ts; fs_inv s ch; nodes s d \<noteq> None; \<forall>t \<in> set ts. good_name t\<rbrakk> \<Longrightarrow>
   \<exists>res s' ch'. vfs_walk_loop stop flags token save d s = Some (res, s') \<and> walked_to stop flags d ts s ch res s' ch'"
proof (induction ts arbitrary: token save d s ch)
  case Nil
  then have "d < next_node s" using fs_invD(1) by blast
  then show ?case using Nil grown_refl [of s ch] child_lt [OF Nil(2)]
    by (intro exI [of _ "Some d"] exI [of _ s] exI [of _ ch]) (simp add: walked_to_def)
next
  case (Cons t ts)
  note inv = Cons.prems(2)
  obtain nt save' where nx: "strtokr_next save = (nt, save')" by fastforce
  have tk: "token = Some t" "toks nt save' = ts"
    using Cons.prems(1) toks_next [OF nx] by (auto simp: toks_def split: option.splits)
  have nt: "nt = None \<longleftrightarrow> ts = []" using tk(2) toks_Nil by blast
  obtain v where v: "nodes s d = Some v" using Cons.prems(3) by blast
  have dl: "d < next_node s" using fs_invD(1) [OF inv] Cons.prems(3) by blast
  have t: "good_name t" using Cons.prems(4) by simp
  show ?case
  proof (cases "is_dir s d")
    case False
    have "vfs_walk_loop stop flags token save d s = Some (None, s)"
      using False v tk(1) by (simp add: walk_unfold [OF nx v] is_dir_def)
    moreover have "walked_to stop flags d (t # ts) s ch None s ch"
      using False by (intro walked_to_fail grown_refl [OF inv]) simp
    ultimately show ?thesis by blast
  next
    case dir: True
    then have f: "node_flags v AND VFS_DIRECTORY \<noteq> 0" "node_ops v = Some Ramfs_ops"
      using is_dir_ops [OF inv dir] v by auto
    show ?thesis
    proof (cases "nt = None \<and> stop")
      case True
      then have "vfs_walk_loop stop flags token save d s = Some (Some d, s)"
        using f tk(1) by (simp add: walk_unfold [OF nx v])
      then show ?thesis using True nt grown_refl [OF inv] dl child_lt [OF inv]
        by (intro exI [of _ "Some d"] exI [of _ s] exI [of _ ch]) (simp add: walked_to_def)
    next
      case False
      obtain target s1 ch1 where
        b: "Option.bind (ramfs_ops_finddir (Some d) t s) (\<lambda>found. case found of Some c \<Rightarrow> Some (Some c, s)
            | None \<Rightarrow> vfs_create_missing Ramfs_ops d t (ts = []) flags s) = Some (target, s1)"
        and st: "stepped s ch d t (ts = []) flags target s1 ch1"
        using walk_step [OF inv dir t, of "ts = []" flags] by blast
      obtain found where fd: "ramfs_ops_finddir (Some d) t s = Some found" and
        cs: "(case found of Some c \<Rightarrow> Some (Some c, s) | None \<Rightarrow> vfs_create_missing Ramfs_ops d t (ts = []) flags s) = Some (target, s1)"
        using b by (auto simp: bind_eq_Some_conv)
      have eq: "vfs_walk_loop stop flags token save d s =
          (case target of None \<Rightarrow> Some (None, s1) | Some c \<Rightarrow> vfs_walk_loop stop flags nt save' c s1)"
        using f(1) False unfolding tk(1) walk_unfold [OF nx v] f(2) nt by (simp only: if_False) (simp add: ops_finddir_def fd cs)
      show ?thesis
      proof (cases target)
        case None
        have "\<not> ((\<forall>k. alloc_ok s k) \<and> walkable s ch d (t # ts) \<and> (flags AND VFS_DIRECTORY \<noteq> 0 \<or>
            \<not> stop \<and> flags AND VFS_FILE \<noteq> 0 \<and> resolve s ch d (butlast (t # ts)) \<noteq> None))"
          using st None by (auto simp: stepped_def split: option.splits if_splits)
        then have "walked_to stop flags d (t # ts) s ch None s1 ch1"
          by (rule walked_to_fail [OF stepped_grown [OF st inv dir t]])
        moreover have "vfs_walk_loop stop flags token save d s = Some (None, s1)" unfolding eq None by simp
        ultimately show ?thesis by blast
      next
        case (Some c)
        note st' = st [unfolded Some]
        obtain res s' ch' where r: "vfs_walk_loop stop flags nt save' c s1 = Some (res, s')"
          and w: "walked_to stop flags c ts s1 ch1 res s' ch'"
          using Cons.IH [OF tk(2) grownD(1) [OF stepped_grown [OF st inv dir t]] stepped_child(2) [OF st' inv dir t]]
            Cons.prems(4) by (metis list.set_intros(2))
        have "walked_to stop flags d (t # ts) s ch res s' ch'"
          using False nt by (intro walked_to_step [OF st' inv dir t w]) blast
        moreover have "vfs_walk_loop stop flags token save d s = Some (res, s')" unfolding eq Some using r by simp
        ultimately show ?thesis by blast
      qed
    qed
  qed
qed

end
