(* ===== verification/Vfs_Correct.thy ===== *)
theory Vfs_Correct
  imports Vfs_Walk "HOL-Library.Sublist"
begin

text \<open>
  What the virtual file system promises its users: a path is resolved below the longest mounted prefix,
  a lookup changes nothing, and creation makes the path resolve without disturbing any other path.
\<close>

section \<open>The longest mounted prefix\<close>

lemma match_prefix:
  assumes "0 \<notin> set p" "0 \<notin> set mp"
  shows "strncmp_l (length mp) p mp = 0 \<longleftrightarrow> prefix mp p"
proof -
  have "strncmp_l (length mp) p mp = 0 \<longleftrightarrow> take (length mp) p = mp" using assms by (simp add: strncmp_l_eq_0)
  also have "\<dots> \<longleftrightarrow> prefix mp p" by (metis append_eq_conv_conj prefix_def take_is_prefix)
  finally show ?thesis .
qed

lemma best_match:
  assumes p: "0 \<notin> set p"
  shows "\<lbrakk>\<forall>m \<in> set ms. 0 \<notin> set (fst m); vfs_best_match p best bl ms = r\<rbrakk> \<Longrightarrow>
    (r = best \<and> (\<forall>m \<in> set ms. prefix (fst m) p \<longrightarrow> length (fst m) \<le> bl)) \<or>
    (\<exists>b xs ys. r = Some b \<and> ms = xs @ b # ys \<and> prefix (fst b) p \<and> bl < length (fst b) \<and>
       (\<forall>m \<in> set xs. prefix (fst m) p \<longrightarrow> length (fst m) < length (fst b)) \<and>
       (\<forall>m \<in> set ys. prefix (fst m) p \<longrightarrow> length (fst m) \<le> length (fst b)))"
proof (induction ms arbitrary: best bl)
  case (Cons m ms)
  have mp: "strncmp_l (length (fst m)) p (fst m) = 0 \<longleftrightarrow> prefix (fst m) p"
    using match_prefix [OF p] Cons.prems(1) by simp
  show ?case
  proof (cases "prefix (fst m) p \<and> bl < length (fst m)")
    case True
    then have "vfs_best_match p (Some m) (length (fst m)) ms = r" using Cons.prems(2) mp by (simp add: Let_def)
    from Cons.IH [OF _ this] Cons.prems(1) consider
      "r = Some m" "\<forall>k \<in> set ms. prefix (fst k) p \<longrightarrow> length (fst k) \<le> length (fst m)"
      | b xs ys where "r = Some b" "ms = xs @ b # ys" "prefix (fst b) p" "length (fst m) < length (fst b)"
        "\<forall>k \<in> set xs. prefix (fst k) p \<longrightarrow> length (fst k) < length (fst b)"
        "\<forall>k \<in> set ys. prefix (fst k) p \<longrightarrow> length (fst k) \<le> length (fst b)" by auto
    then show ?thesis
    proof cases
      case 1
      then show ?thesis using True by (intro disjI2 exI [of _ m] exI [of _ "[]"] exI [of _ ms]) simp
    next
      case (2 b xs ys)
      then show ?thesis using True by (intro disjI2 exI [of _ b] exI [of _ "m # xs"] exI [of _ ys]) auto
    qed
  next
    case False
    then have "vfs_best_match p best bl ms = r" using Cons.prems(2) mp by (simp add: Let_def split: if_splits)
    from Cons.IH [OF _ this] Cons.prems(1) consider
      "r = best" "\<forall>k \<in> set ms. prefix (fst k) p \<longrightarrow> length (fst k) \<le> bl"
      | b xs ys where "r = Some b" "ms = xs @ b # ys" "prefix (fst b) p" "bl < length (fst b)"
        "\<forall>k \<in> set xs. prefix (fst k) p \<longrightarrow> length (fst k) < length (fst b)"
        "\<forall>k \<in> set ys. prefix (fst k) p \<longrightarrow> length (fst k) \<le> length (fst b)" by auto
    then show ?thesis
    proof cases
      case 1
      then show ?thesis using False by (intro disjI1) auto
    next
      case (2 b xs ys)
      then show ?thesis using False by (intro disjI2 exI [of _ b] exI [of _ "m # xs"] exI [of _ ys]) auto
    qed
  qed
qed simp

text \<open>C37. A path is resolved at the mount whose path is its longest prefix, the most recent one of
  several equal ones, and below it with the prefix and the slashes after it removed; there is no mount
  point exactly when no non-empty mount path is a prefix.\<close>

theorem vfs_mount_longest:
  assumes "0 \<notin> set p" "\<forall>m \<in> set (vfs_mount_list s). 0 \<notin> set (fst m)"
  shows "case vfs_get_mountpoint (Some p) s of
      None \<Rightarrow> \<forall>m \<in> set (vfs_mount_list s). prefix (fst m) p \<longrightarrow> fst m = []
    | Some (root, rest) \<Rightarrow> \<exists>mp newer older. vfs_mount_list s = newer @ (mp, root) # older \<and> prefix mp p \<and> mp \<noteq> [] \<and>
        (\<forall>m \<in> set newer. prefix (fst m) p \<longrightarrow> length (fst m) < length mp) \<and>
        (\<forall>m \<in> set older. prefix (fst m) p \<longrightarrow> length (fst m) \<le> length mp) \<and>
        rest = dropWhile (\<lambda>c. c = 47) (drop (length mp) p)"
proof -
  from best_match [OF assms refl, of None 0] consider
    "vfs_best_match p None 0 (vfs_mount_list s) = None" "\<forall>m \<in> set (vfs_mount_list s). prefix (fst m) p \<longrightarrow> fst m = []"
    | b xs ys where "vfs_best_match p None 0 (vfs_mount_list s) = Some b" "vfs_mount_list s = xs @ b # ys"
        "prefix (fst b) p" "0 < length (fst b)"
        "\<forall>m \<in> set xs. prefix (fst m) p \<longrightarrow> length (fst m) < length (fst b)"
        "\<forall>m \<in> set ys. prefix (fst m) p \<longrightarrow> length (fst m) \<le> length (fst b)" by auto
  then show ?thesis
  proof cases
    case 1
    then show ?thesis by (simp add: vfs_get_mountpoint_def)
  next
    case (2 b xs ys)
    obtain mp root where b: "b = (mp, root)" by fastforce
    have "vfs_get_mountpoint (Some p) s = Some (root, dropWhile (\<lambda>c. c = 47) (drop (length mp) p))"
      using 2(1) b by (simp add: vfs_get_mountpoint_def)
    then show ?thesis using 2(2-6) b by (simp only: option.case prod.case) (intro exI [of _ mp] exI [of _ xs] exI [of _ ys], simp)
  qed
qed

section \<open>Lookup and creation\<close>

definition vfs_inv :: "fs_state \<Rightarrow> children \<Rightarrow> bool" where
  "vfs_inv s ch \<longleftrightarrow> fs_inv s ch \<and> (\<forall>m \<in> set (vfs_mount_list s). nodes s (snd m) \<noteq> None \<and> 0 \<notin> set (fst m))"

definition vfs_path_ok :: "cstring \<Rightarrow> bool" where
  "vfs_path_ok p \<longleftrightarrow> length p < 256 \<and> 0 \<notin> set p"

definition vfs_target :: "fs_state \<Rightarrow> children \<Rightarrow> cstring \<Rightarrow> nat option" where
  "vfs_target s ch p =
     (case vfs_get_mountpoint (Some p) s of
        None \<Rightarrow> None | Some (root, rest) \<Rightarrow> resolve s ch root (tokens_l [47] rest))"

lemma best_match_in: "vfs_best_match p best bl ms = Some b \<Longrightarrow> best = Some b \<or> b \<in> set ms"
  by (induction ms arbitrary: best bl) (auto simp: Let_def split: if_splits)

lemma mountpoint_root:
  assumes "vfs_get_mountpoint (Some p) s = Some (root, rest)" "vfs_inv s ch"
  shows "nodes s root \<noteq> None" "length rest \<le> length p" "set rest \<subseteq> set p" "root < next_node s"
proof -
  obtain mp where "vfs_best_match p None 0 (vfs_mount_list s) = Some (mp, root)"
    and r: "rest = dropWhile (\<lambda>c. c = 47) (drop (length mp) p)"
    using assms(1) by (auto simp: vfs_get_mountpoint_def split: option.splits)
  then have "(mp, root) \<in> set (vfs_mount_list s)" using best_match_in by fastforce
  then show n: "nodes s root \<noteq> None" using assms(2) by (auto simp: vfs_inv_def)
  show "length rest \<le> length p" unfolding r using length_dropWhile_le [of "\<lambda>c. c = 47" "drop (length mp) p"] by simp
  show "set rest \<subseteq> set p" unfolding r by (meson in_set_dropD set_dropWhileD subsetI)
  show "root < next_node s" using n assms(2) fs_invD(1) by (auto simp: vfs_inv_def)
qed

lemma inner_walk:
  assumes "vfs_get_mountpoint (Some p) s = Some (root, rest)" "vfs_inv s ch" "vfs_path_ok p"
  obtains token save where "vfs_inner_find_and_create (Some p) stop flags s = vfs_walk_loop stop flags token save root s"
    "toks token save = tokens_l [47] rest"
proof -
  obtain token save where t: "strtokr_l [47] rest = (token, save)" by fastforce
  have "snprintf_s VFS_PATH_MAX rest = rest"
    using mountpoint_root(2) [OF assms(1,2)] assms(3) by (simp add: snprintf_s_def VFS_PATH_MAX_def vfs_path_ok_def)
  then have "vfs_inner_find_and_create (Some p) stop flags s = vfs_walk_loop stop flags token save root s"
    using assms t by (simp add: vfs_inner_find_and_create_def VFS_PATH_MAX_def vfs_path_ok_def)
  then show thesis using that strtokr_l_toks [OF t] by simp
qed

lemma lookup_target:
  assumes "vfs_inv s ch" "vfs_path_ok p"
  shows "vfs_lookup (Some p) s = Some (vfs_target s ch p, s)"
proof (cases "vfs_get_mountpoint (Some p) s")
  case None
  then show ?thesis using assms(2)
    by (simp add: vfs_lookup_def vfs_inner_find_and_create_def vfs_target_def vfs_path_ok_def VFS_PATH_MAX_def)
next
  case (Some rr)
  obtain root rest where rr: "rr = (root, rest)" by fastforce
  note mp = Some [unfolded rr]
  obtain token save where w: "vfs_inner_find_and_create (Some p) False 0 s = vfs_walk_loop False 0 token save root s"
    "toks token save = tokens_l [47] rest"
    by (rule inner_walk [OF mp assms])
  have "0 \<notin> set t" if "t \<in> set (tokens_l [47] rest)" for t
    using tokens_l_sound [OF that] mountpoint_root(3) [OF mp assms(1)] assms(2) by (auto simp: vfs_path_ok_def)
  then have "vfs_walk_loop False 0 token save root s = Some (resolve s ch root (tokens_l [47] rest), s)"
    using assms(1) mountpoint_root(1) [OF mp assms(1)] w(2) by (intro walk_lookup) (auto simp: vfs_inv_def)
  then show ?thesis using w(1) mp by (simp add: vfs_lookup_def vfs_target_def)
qed


text \<open>Creation, for all three callers of the walk.\<close>

lemma vfs_inv_grown:
  assumes "vfs_inv s ch" "grown s ch s' ch'"
  shows "vfs_inv s' ch'"
proof -
  have "nodes s' r \<noteq> None" if "nodes s r \<noteq> None" for r
    using grownD(5) [OF assms(2), of r] fs_invD(1) [of s ch r] assms(1) that by (auto simp: vfs_inv_def)
  then show ?thesis using assms grownD(1,4) [OF assms(2)] by (simp add: vfs_inv_def)
qed

lemma mountpoint_cong: "vfs_mount_list s' = vfs_mount_list s \<Longrightarrow> vfs_get_mountpoint p s' = vfs_get_mountpoint p s"
  by (cases p) (simp_all add: vfs_get_mountpoint_def)

lemma target_grown:
  assumes inv: "vfs_inv s ch" and g: "grown s ch s' ch'"
  shows "vfs_target s ch q = Some n \<Longrightarrow> vfs_target s' ch' q = Some n"
    "vfs_target s' ch' q = Some n \<Longrightarrow> n < next_node s \<Longrightarrow> vfs_target s ch q = Some n"
proof -
  have i: "fs_inv s ch" using inv by (simp add: vfs_inv_def)
  note mc = mountpoint_cong [OF grownD(4) [OF g]]
  show "vfs_target s' ch' q = Some n" if "vfs_target s ch q = Some n"
    using that resolve_grown [OF g i] mountpoint_root(4) [OF _ inv] by (auto simp: vfs_target_def mc split: option.splits)
  show "vfs_target s ch q = Some n" if "vfs_target s' ch' q = Some n" "n < next_node s"
    using that resolve_grown_old [OF g i] mountpoint_root(4) [OF _ inv] by (auto simp: vfs_target_def mc split: option.splits)
qed

lemma inner_create:
  assumes mp: "vfs_get_mountpoint (Some p) s = Some (root, rest)" and inv: "vfs_inv s ch" and p: "vfs_path_ok p"
    and len: "\<forall>t \<in> set (tokens_l [47] rest). length t < 128"
  shows "\<exists>res s' ch'. vfs_inner_find_and_create (Some p) stop flags s = Some (res, s') \<and>
    walked_to stop flags root (tokens_l [47] rest) s ch res s' ch'"
proof -
  obtain token save where w: "vfs_inner_find_and_create (Some p) stop flags s = vfs_walk_loop stop flags token save root s"
    "toks token save = tokens_l [47] rest"
    by (rule inner_walk [OF mp inv p])
  have "good_name t" if "t \<in> set (tokens_l [47] rest)" for t
    using tokens_l_sound [OF that] mountpoint_root(3) [OF mp inv] p len that by (auto simp: vfs_path_ok_def good_name_def)
  then show ?thesis unfolding w(1)
    using inv mountpoint_root(1) [OF mp inv] w(2) by (intro vfs_walk_create) (auto simp: vfs_inv_def)
qed

lemma target_lt: "vfs_inv s ch \<Longrightarrow> vfs_target s ch q = Some n \<Longrightarrow> n < next_node s"
proof -
  assume inv: "vfs_inv s ch" and t: "vfs_target s ch q = Some n"
  have i: "fs_inv s ch" using inv by (simp add: vfs_inv_def)
  have "resolve s ch r ts = Some n \<Longrightarrow> r < next_node s \<Longrightarrow> n < next_node s" for r ts
    by (induction ts arbitrary: r) (auto simp: bind_eq_Some_conv split: if_splits dest: child_lt [OF i])
  then show ?thesis using t mountpoint_root(4) [OF _ inv] by (auto simp: vfs_target_def split: option.splits)
qed

text \<open>C12. Creating a path returns, and when it yields a node, looking the path up afterwards yields the
  same node; a node that did not exist before is an empty file or directory as asked for. Every path
  that led to a node leads to the same node afterwards, and no path leads to an old node it did not
  lead to before, with its contents unchanged. Looking up never changes anything. With enough memory
  creation succeeds whenever every node on the way is a directory and, for a file, its directory
  exists.\<close>

theorem vfs_create_lookup:
  assumes "vfs_inv s ch" "vfs_path_ok p" "vfs_get_mountpoint (Some p) s = Some (root, rest)"
    "\<forall>t \<in> set (tokens_l [47] rest). length t < 128"
  shows "\<exists>res s' ch'. vfs_create (Some p) flags s = Some (res, s') \<and> vfs_inv s' ch' \<and>
    (\<forall>n. res = Some n \<longrightarrow> vfs_lookup (Some p) s' = Some (Some n, s') \<and>
       (next_node s \<le> n \<longrightarrow> is_new s' n (if flags AND VFS_FILE \<noteq> 0 then VFS_FILE else VFS_DIRECTORY))) \<and>
    (\<forall>q n. vfs_path_ok q \<and> n < next_node s \<longrightarrow>
       (vfs_lookup (Some q) s' = Some (Some n, s') \<longleftrightarrow> vfs_lookup (Some q) s = Some (Some n, s))) \<and>
    (\<forall>m < next_node s. map_option node_view (nodes s' m) = map_option node_view (nodes s m)) \<and>
    ((\<forall>k. alloc_ok s k) \<and> walkable s ch root (tokens_l [47] rest) \<and>
       (flags AND VFS_DIRECTORY \<noteq> 0 \<or>
        flags AND VFS_FILE \<noteq> 0 \<and> resolve s ch root (butlast (tokens_l [47] rest)) \<noteq> None) \<longrightarrow> res \<noteq> None)"
proof -
  obtain res s' ch' where r: "vfs_inner_find_and_create (Some p) False flags s = Some (res, s')"
    and w: "walked_to False flags root (tokens_l [47] rest) s ch res s' ch'"
    using inner_create [OF assms(3,1,2,4)] by blast
  have g: "grown s ch s' ch'" using w by (simp add: walked_to_def)
  have inv': "vfs_inv s' ch'" by (rule vfs_inv_grown [OF assms(1) g])
  note lk = lookup_target [OF inv'] and lk0 = lookup_target [OF assms(1)]
  have found: "vfs_lookup (Some p) s' = Some (Some n, s')" if "res = Some n" for n
    using w that assms(3) lk [OF assms(2)] mountpoint_cong [OF grownD(4) [OF g]]
    by (simp add: walked_to_def vfs_target_def)
  have same: "vfs_lookup (Some q) s' = Some (Some n, s') \<longleftrightarrow> vfs_lookup (Some q) s = Some (Some n, s)"
    if "vfs_path_ok q" "n < next_node s" for q n
    using target_grown [OF assms(1) g, of q n] that by (auto simp: lk lk0)
  show ?thesis
    using r w inv' found same grownD(5) [OF g]
    by (intro exI [of _ res] exI [of _ s'] exI [of _ ch']) (simp add: vfs_create_def walked_to_def new_kind_def)
qed


text \<open>The parents first, then the file itself: how the archive loader makes a file.\<close>

lemma walkable_parent:
  "\<lbrakk>walkable s ch d ts; ts \<noteq> []; resolve s ch d (butlast ts) = Some m\<rbrakk> \<Longrightarrow> is_dir s m"
  by (induction ts arbitrary: d) (auto simp: bind_eq_Some_conv split: if_splits option.splits)

lemma parent_walkable:
  "\<lbrakk>resolve s ch d (butlast ts) = Some m; is_dir s m\<rbrakk> \<Longrightarrow> walkable s ch d ts"
  by (induction ts arbitrary: d) (auto simp: bind_eq_Some_conv split: if_splits option.splits)

lemma is_new_dir: "is_new s n VFS_DIRECTORY \<Longrightarrow> is_dir s n"
  by (auto simp: is_new_def is_dir_def node_view_def fresh_node_def VFS_DIRECTORY_def)

lemma is_new_grown: "is_new s n k \<Longrightarrow> grown s ch s' ch' \<Longrightarrow> n < next_node s \<Longrightarrow> is_new s' n k"
  using grownD(5) [of s ch s' ch' n] by (simp add: is_new_def)

lemma resolve_append: "resolve s ch d (xs @ ys) = Option.bind (resolve s ch d xs) (\<lambda>e. resolve s ch e ys)"
  by (induction xs arbitrary: d) (simp_all add: bind_assoc)

lemma mkdir_parents_ok:
  assumes inv: "vfs_inv s ch" and p: "vfs_path_ok p" and mp: "vfs_get_mountpoint (Some p) s = Some (root, rest)"
    and len: "\<forall>t \<in> set (tokens_l [47] rest). length t < 128" and ne: "tokens_l [47] rest \<noteq> []"
    and ok: "\<forall>k. alloc_ok s k" and w: "walkable s ch root (tokens_l [47] rest)"
  shows "\<exists>par s1 ch1. vfs_mkdir_parents (Some p) s = Some (Some par, s1) \<and> grown s ch s1 ch1 \<and> is_dir s1 par \<and>
    resolve s1 ch1 root (butlast (tokens_l [47] rest)) = Some par \<and>
    (\<forall>n. vfs_target s1 ch1 p = Some n \<longrightarrow> n < next_node s)"
proof -
  let ?ts = "tokens_l [47] rest"
  obtain res s1 ch1 where r1: "vfs_inner_find_and_create (Some p) True VFS_DIRECTORY s = Some (res, s1)"
    and w1: "walked_to True VFS_DIRECTORY root ?ts s ch res s1 ch1"
    using inner_create [OF mp inv p len] by blast
  have g1: "grown s ch s1 ch1" using w1 by (simp add: walked_to_def)
  obtain par where par: "res = Some par" using w1 ok w by (auto simp: walked_to_def VFS_DIRECTORY_def)
  have rp: "resolve s1 ch1 root (butlast ?ts) = Some par" using w1 par by (simp add: walked_to_def)
  have i: "fs_inv s ch" using inv by (simp add: vfs_inv_def)
  have dir: "is_dir s1 par"
  proof (cases "next_node s \<le> par")
    case True
    then show ?thesis using w1 par by (intro is_new_dir) (simp add: walked_to_def new_kind_def)
  next
    case False
    then have "resolve s ch root (butlast ?ts) = Some par"
      using resolve_grown_old [OF g1 i _ rp mountpoint_root(4) [OF mp inv]] by simp
    then show ?thesis using walkable_parent [OF w ne] grown_dir [OF g1] False by simp
  qed
  have mp1: "vfs_get_mountpoint (Some p) s1 = Some (root, rest)" using mp mountpoint_cong [OF grownD(4) [OF g1]] by simp
  have "n < next_node s" if "vfs_target s1 ch1 p = Some n" for n
  proof -
    have "resolve s1 ch1 root (butlast ?ts @ [last ?ts]) = Some n" using that mp1 ne by (simp add: vfs_target_def)
    then have "child s1 ch1 par (last ?ts) = Some n" using rp dir by (simp only: resolve_append) (simp add: bind_eq_Some_conv)
    then show ?thesis using w1 par by (auto simp: walked_to_def)
  qed
  then show ?thesis using r1 par g1 dir rp by (auto simp: vfs_mkdir_parents_def)
qed

lemma mkdir_then_create:
  assumes inv: "vfs_inv s ch" and p: "vfs_path_ok p" and mp: "vfs_get_mountpoint (Some p) s = Some (root, rest)"
    and len: "\<forall>t \<in> set (tokens_l [47] rest). length t < 128" and ne: "tokens_l [47] rest \<noteq> []"
    and ok: "\<forall>k. alloc_ok s k" and w: "walkable s ch root (tokens_l [47] rest)"
    and fl: "flags = VFS_FILE \<or> flags = VFS_DIRECTORY"
  shows "\<exists>par s1 ch1 n s2 ch2. vfs_mkdir_parents (Some p) s = Some (Some par, s1) \<and>
    vfs_create (Some p) flags s1 = Some (Some n, s2) \<and> grown s ch s1 ch1 \<and> grown s1 ch1 s2 ch2 \<and>
    vfs_target s2 ch2 p = Some n \<and> (n \<ge> next_node s \<longrightarrow> is_new s2 n flags)"
proof -
  let ?ts = "tokens_l [47] rest"
  obtain par s1 ch1 where r1: "vfs_mkdir_parents (Some p) s = Some (Some par, s1)" and g1: "grown s ch s1 ch1"
    and dir: "is_dir s1 par" and rp: "resolve s1 ch1 root (butlast ?ts) = Some par"
    and old: "\<forall>n. vfs_target s1 ch1 p = Some n \<longrightarrow> n < next_node s"
    using mkdir_parents_ok [OF inv p mp len ne ok w] by blast
  have inv1: "vfs_inv s1 ch1" by (rule vfs_inv_grown [OF inv g1])
  have mp1: "vfs_get_mountpoint (Some p) s1 = Some (root, rest)" using mp mountpoint_cong [OF grownD(4) [OF g1]] by simp
  obtain res2 s2 ch2 where r2: "vfs_inner_find_and_create (Some p) False flags s1 = Some (res2, s2)"
    and w2: "walked_to False flags root ?ts s1 ch1 res2 s2 ch2"
    using inner_create [OF mp1 inv1 p len] by blast
  have g2: "grown s1 ch1 s2 ch2" using w2 by (simp add: walked_to_def)
  obtain n where n: "res2 = Some n"
    using w2 ok grownD(3) [OF g1] parent_walkable [OF rp dir] fl rp
    by (auto simp: walked_to_def VFS_DIRECTORY_def VFS_FILE_def)
  have tn: "vfs_target s2 ch2 p = Some n"
    using w2 n mp1 mountpoint_cong [OF grownD(4) [OF g2]] by (simp add: vfs_target_def walked_to_def)
  have "is_new s2 n flags" if nn: "next_node s \<le> n"
  proof -
    have "next_node s1 \<le> n" using old target_grown(2) [OF inv1 g2 tn] nn by (meson leD leI)
    then show ?thesis using w2 n fl by (auto simp: walked_to_def new_kind_def VFS_FILE_def VFS_DIRECTORY_def)
  qed
  then show ?thesis using r1 r2 n g1 g2 tn by (auto simp: vfs_create_def)
qed

text \<open>C36. With enough memory, making the parents of a path and then the file itself succeeds whenever
  every node already on the way is a directory: the path then leads to the file, which is new and empty
  unless the path led to a node before, and every path that led to a node still does.\<close>

theorem vfs_make_file:
  assumes "vfs_inv s ch" "vfs_path_ok p" "vfs_get_mountpoint (Some p) s = Some (root, rest)"
    "\<forall>t \<in> set (tokens_l [47] rest). length t < 128" "tokens_l [47] rest \<noteq> []"
    "\<forall>k. alloc_ok s k" "walkable s ch root (tokens_l [47] rest)"
  shows "\<exists>par s1 n s2 ch2. vfs_mkdir_parents (Some p) s = Some (Some par, s1) \<and>
    vfs_create (Some p) VFS_FILE s1 = Some (Some n, s2) \<and> vfs_inv s2 ch2 \<and>
    vfs_lookup (Some p) s2 = Some (Some n, s2) \<and>
    (vfs_lookup (Some p) s = Some (None, s) \<longrightarrow> is_new s2 n VFS_FILE) \<and>
    (\<forall>q m. vfs_path_ok q \<and> vfs_lookup (Some q) s = Some (Some m, s) \<longrightarrow> vfs_lookup (Some q) s2 = Some (Some m, s2))"
proof -
  obtain par s1 ch1 n s2 ch2 where r: "vfs_mkdir_parents (Some p) s = Some (Some par, s1)"
    "vfs_create (Some p) VFS_FILE s1 = Some (Some n, s2)" and g: "grown s ch s1 ch1" "grown s1 ch1 s2 ch2"
    and t: "vfs_target s2 ch2 p = Some n" and new: "next_node s \<le> n \<longrightarrow> is_new s2 n VFS_FILE"
    using mkdir_then_create [OF assms, of VFS_FILE] by blast
  have g': "grown s ch s2 ch2" by (rule grown_trans [OF g])
  have inv2: "vfs_inv s2 ch2" by (rule vfs_inv_grown [OF assms(1) g'])
  note lk = lookup_target [OF assms(1)] lookup_target [OF inv2]
  have "is_new s2 n VFS_FILE" if "vfs_target s ch p = None"
    using target_grown(2) [OF assms(1) g' t] that new by (cases "n < next_node s") auto
  then show ?thesis
    using r inv2 t target_grown(1) [OF assms(1) g'] assms(2)
    by (intro exI [of _ par] exI [of _ s1] exI [of _ n] exI [of _ s2] exI [of _ ch2]) (auto simp: lk)
qed


section \<open>Examples and limits\<close>

text \<open>An empty root directory mounted at \<^verbatim>\<open>/\<close>, and enough memory.\<close>

definition fs_root :: fs_state where
  "fs_root = \<lparr>nodes = [0 \<mapsto> fresh_node [47] VFS_DIRECTORY], next_node = 1, alloc_ok = (\<lambda>_. True), alloc_no = 0,
     vfs_mount_list = [([47], 0)]\<rparr>"

lemma fs_root_inv: "vfs_inv fs_root (\<lambda>_. [])"
  by (auto simp: vfs_inv_def fs_inv_def fs_root_def fresh_node_def node_data_def split: if_splits)

lemma fs_root_mount: "vfs_get_mountpoint (Some [47, 97]) fs_root = Some (0, [97])"
  by (simp add: vfs_get_mountpoint_def fs_root_def byte_diff_def)

lemma fs_root_tokens: "tokens_l [47] [97] = [[97]]"
  by (simp add: tokens_l.simps [of "[47]" "[97]"] strtokr_l_def)

lemma fs_root_dir: "is_dir fs_root 0"
  by (simp add: is_dir_def fs_root_def fresh_node_def VFS_DIRECTORY_def)

theorem vfs_mount_longest_witness:
  "0 \<notin> set ([47, 97] :: u8 list) \<and>
   (\<exists>mp newer older. vfs_mount_list fs_root = newer @ (mp, 0) # older \<and> prefix mp [47, 97] \<and> mp \<noteq> [])"
  using vfs_mount_longest [of "[47, 97]" fs_root] fs_root_mount by (auto simp: fs_root_def)

theorem vfs_create_lookup_witness:
  "vfs_inv fs_root (\<lambda>_. []) \<and> vfs_path_ok [47, 97] \<and>
   (\<exists>n s'. vfs_create (Some [47, 97]) VFS_FILE fs_root = Some (Some n, s') \<and>
     vfs_lookup (Some [47, 97]) s' = Some (Some n, s'))"
proof -
  have p: "vfs_path_ok [47, 97]" by (simp add: vfs_path_ok_def)
  have ok: "(\<forall>k. alloc_ok fs_root k) \<and> walkable fs_root (\<lambda>_. []) 0 (tokens_l [47] [97]) \<and>
      VFS_FILE AND VFS_FILE \<noteq> 0 \<and> resolve fs_root (\<lambda>_. []) 0 (butlast (tokens_l [47] [97])) \<noteq> None"
    using fs_root_dir by (simp add: fs_root_tokens child_def VFS_FILE_def) (simp add: fs_root_def)
  from vfs_create_lookup [OF fs_root_inv p fs_root_mount, of VFS_FILE] obtain res s' where
    r: "vfs_create (Some [47, 97]) VFS_FILE fs_root = Some (res, s')"
    and l: "\<forall>n. res = Some n \<longrightarrow> vfs_lookup (Some [47, 97]) s' = Some (Some n, s')" and ne: "res \<noteq> None"
    using ok by (auto simp: fs_root_tokens)
  then show ?thesis using p fs_root_inv by blast
qed

theorem vfs_make_file_witness:
  "vfs_inv fs_root (\<lambda>_. []) \<and> vfs_path_ok [47, 97] \<and>
   (\<exists>par s1 n s2. vfs_mkdir_parents (Some [47, 97]) fs_root = Some (Some par, s1) \<and>
     vfs_create (Some [47, 97]) VFS_FILE s1 = Some (Some n, s2) \<and> vfs_lookup (Some [47, 97]) s2 = Some (Some n, s2))"
proof -
  have p: "vfs_path_ok [47, 97]" by (simp add: vfs_path_ok_def)
  have w: "walkable fs_root (\<lambda>_. []) 0 (tokens_l [47] [97])"
    using fs_root_dir by (simp add: fs_root_tokens child_def)
  have a: "\<forall>k. alloc_ok fs_root k" by (simp add: fs_root_def)
  from vfs_make_file [OF fs_root_inv p fs_root_mount _ _ a w] show ?thesis
    using p fs_root_inv by (auto simp: fs_root_tokens)
qed





end
