(* ===== verification/Arch_Frame.thy ===== *)
theory Arch_Frame
  imports Uaccess
begin

text \<open>
  The frames a task starts from, in the byte memory: \<^verbatim>\<open>arch_task_init_frame\<close>,
  \<^verbatim>\<open>arch_task_init_user_frame\<close>, \<^verbatim>\<open>arch_task_user_frame\<close> and \<^verbatim>\<open>arch_task_init_switch_frame\<close> of
  \<^verbatim>\<open>kernel/src/arch/x86_64/arch.c\<close> and \<^verbatim>\<open>kernel/src/arch/aarch64/arch.c\<close>, with the layouts of
  \<^verbatim>\<open>struct trap_frame\<close> and \<^verbatim>\<open>struct switch_frame\<close>. The addresses of \<^verbatim>\<open>task_exit_guard\<close> and
  \<^verbatim>\<open>task_trampoline\<close> are parameters. \<open>None\<close> is a panic.
\<close>

section \<open>Layouts\<close>

definition trap_frame_sizeof :: "arch \<Rightarrow> u64" where
  "trap_frame_sizeof a = (case a of X86_64 \<Rightarrow> 176 | AArch64 \<Rightarrow> 296)"

definition TRAP_FRAME_SIZE :: u64 where "TRAP_FRAME_SIZE = 304"
definition SWITCH_FRAME_SIZE :: "arch \<Rightarrow> u64" where
  "SWITCH_FRAME_SIZE a = (case a of X86_64 \<Rightarrow> 64 | AArch64 \<Rightarrow> 96)"

text \<open>x86-64.\<close>

definition tf_int_no :: u64 where "tf_int_no = 120"
definition tf_rip :: u64 where "tf_rip = 136"
definition tf_cs :: u64 where "tf_cs = 144"
definition tf_rflags :: u64 where "tf_rflags = 152"
definition tf_rsp :: u64 where "tf_rsp = 160"
definition tf_ss :: u64 where "tf_ss = 168"

definition X86_64_SELECTOR_KERNEL_CODE :: u64 where "X86_64_SELECTOR_KERNEL_CODE = 0x08"
definition X86_64_SELECTOR_KERNEL_DATA :: u64 where "X86_64_SELECTOR_KERNEL_DATA = 0x10"
definition X86_64_SELECTOR_USER_DATA :: u64 where "X86_64_SELECTOR_USER_DATA = 0x33"
definition X86_64_SELECTOR_USER_CODE :: u64 where "X86_64_SELECTOR_USER_CODE = 0x3b"
definition X86_64_RFLAGS_RESERVED_BIT1 :: u64 where "X86_64_RFLAGS_RESERVED_BIT1 = push_bit 1 1"
definition X86_64_RFLAGS_IF :: u64 where "X86_64_RFLAGS_IF = push_bit 9 1"

text \<open>AArch64.\<close>

definition TRAP_FRAME_OFF_X :: "u64 \<Rightarrow> u64" where "TRAP_FRAME_OFF_X n = n * 8"
definition TRAP_FRAME_OFF_SP :: u64 where "TRAP_FRAME_OFF_SP = 248"
definition TRAP_FRAME_OFF_ELR :: u64 where "TRAP_FRAME_OFF_ELR = 256"
definition TRAP_FRAME_OFF_SPSR :: u64 where "TRAP_FRAME_OFF_SPSR = 264"
definition TRAP_FRAME_OFF_VECTOR_TYPE :: u64 where "TRAP_FRAME_OFF_VECTOR_TYPE = 288"

definition AARCH64_SPSR_M_EL1H :: u64 where "AARCH64_SPSR_M_EL1H = 5"
definition AARCH64_SPSR_M_EL0T :: u64 where "AARCH64_SPSR_M_EL0T = 0"
definition AARCH64_VECTOR_CURRENT_EL_IRQ :: u64 where "AARCH64_VECTOR_CURRENT_EL_IRQ = 5"
definition AARCH64_VECTOR_LOWER_EL_SYNC :: u64 where "AARCH64_VECTOR_LOWER_EL_SYNC = 8"
definition AARCH64_VECTOR_LOWER_EL_IRQ :: u64 where "AARCH64_VECTOR_LOWER_EL_IRQ = 9"

section \<open>x86-64\<close>

definition x86_64_task_init_frame :: "u64 \<Rightarrow> u64 \<Rightarrow> u64 \<Rightarrow> mem \<Rightarrow> u64 \<times> mem" where
  "x86_64_task_init_frame task_exit_guard stack_top entry m =
     (let guard_slot = stack_top - 8;
          m = store64 m guard_slot task_exit_guard;
          frame = (guard_slot - trap_frame_sizeof X86_64) AND NOT 0xF;
          m = memset m frame 0 (trap_frame_sizeof X86_64);
          m = store64 m (frame + tf_rip) entry;
          m = store64 m (frame + tf_cs) X86_64_SELECTOR_KERNEL_CODE;
          m = store64 m (frame + tf_ss) X86_64_SELECTOR_KERNEL_DATA;
          m = store64 m (frame + tf_rflags) (X86_64_RFLAGS_RESERVED_BIT1 OR X86_64_RFLAGS_IF);
          m = store64 m (frame + tf_rsp) guard_slot;
          m = store64 m (frame + tf_int_no) 0xFF
      in (frame, m))"

definition x86_64_task_user_frame :: "u64 \<Rightarrow> u64 option" where
  "x86_64_task_user_frame kernel_stack_top =
     (let frame = kernel_stack_top - trap_frame_sizeof X86_64
      in if frame AND 0xF \<noteq> 0 then None else Some frame)"

definition x86_64_task_init_user_frame :: "u64 \<Rightarrow> u64 \<Rightarrow> u64 \<Rightarrow> mem \<Rightarrow> (u64 \<times> mem) option" where
  "x86_64_task_init_user_frame kernel_stack_top user_entry user_stack_top m =
     map_option (\<lambda>frame.
        (let m = memset m frame 0 (trap_frame_sizeof X86_64);
             m = store64 m (frame + tf_rip) user_entry;
             m = store64 m (frame + tf_cs) X86_64_SELECTOR_USER_CODE;
             m = store64 m (frame + tf_ss) X86_64_SELECTOR_USER_DATA;
             m = store64 m (frame + tf_rflags) (X86_64_RFLAGS_RESERVED_BIT1 OR X86_64_RFLAGS_IF);
             m = store64 m (frame + tf_rsp) user_stack_top;
             m = store64 m (frame + tf_int_no) 0xFF
         in (frame, m))) (x86_64_task_user_frame kernel_stack_top)"

definition x86_64_task_init_switch_frame :: "u64 \<Rightarrow> u64 \<Rightarrow> mem \<Rightarrow> (u64 \<times> mem) option" where
  "x86_64_task_init_switch_frame task_trampoline trap_frame m =
     (let frame = trap_frame - SWITCH_FRAME_SIZE X86_64 in
      if frame AND 0xF \<noteq> 0 then None
      else let m = memset m frame 0 (SWITCH_FRAME_SIZE X86_64);
               m = store64 m (frame + 48) task_trampoline
           in Some (frame, m))"

definition x86_64_trap_frame_from_user :: "u64 \<Rightarrow> mem \<Rightarrow> bool" where
  "x86_64_trap_frame_from_user frame m \<longleftrightarrow> load64 m (frame + tf_cs) AND 3 = 3"

section \<open>AArch64\<close>

definition aarch64_task_init_frame :: "u64 \<Rightarrow> u64 \<Rightarrow> u64 \<Rightarrow> mem \<Rightarrow> u64 \<times> mem" where
  "aarch64_task_init_frame task_exit_guard stack_top entry m =
     (let frame = stack_top - TRAP_FRAME_SIZE;
          m = memset m frame 0 (trap_frame_sizeof AArch64);
          m = store64 m (frame + TRAP_FRAME_OFF_X 30) task_exit_guard;
          m = store64 m (frame + TRAP_FRAME_OFF_SP) stack_top;
          m = store64 m (frame + TRAP_FRAME_OFF_ELR) entry;
          m = store64 m (frame + TRAP_FRAME_OFF_SPSR) AARCH64_SPSR_M_EL1H;
          m = store64 m (frame + TRAP_FRAME_OFF_VECTOR_TYPE) AARCH64_VECTOR_CURRENT_EL_IRQ
      in (frame, m))"

definition aarch64_task_user_frame :: "u64 \<Rightarrow> u64" where
  "aarch64_task_user_frame kernel_stack_top = kernel_stack_top - TRAP_FRAME_SIZE"

definition aarch64_task_init_user_frame :: "u64 \<Rightarrow> u64 \<Rightarrow> u64 \<Rightarrow> mem \<Rightarrow> u64 \<times> mem" where
  "aarch64_task_init_user_frame kernel_stack_top user_entry user_stack_top m =
     (let frame = aarch64_task_user_frame kernel_stack_top;
          m = memset m frame 0 (trap_frame_sizeof AArch64);
          m = store64 m (frame + TRAP_FRAME_OFF_SP) user_stack_top;
          m = store64 m (frame + TRAP_FRAME_OFF_ELR) user_entry;
          m = store64 m (frame + TRAP_FRAME_OFF_SPSR) AARCH64_SPSR_M_EL0T;
          m = store64 m (frame + TRAP_FRAME_OFF_VECTOR_TYPE) AARCH64_VECTOR_LOWER_EL_IRQ
      in (frame, m))"

definition aarch64_task_init_switch_frame :: "u64 \<Rightarrow> u64 \<Rightarrow> mem \<Rightarrow> u64 \<times> mem" where
  "aarch64_task_init_switch_frame task_trampoline trap_frame m =
     (let frame = trap_frame - SWITCH_FRAME_SIZE AArch64;
          m = memset m frame 0 (SWITCH_FRAME_SIZE AArch64);
          m = store64 m (frame + 88) task_trampoline
      in (frame, m))"

definition aarch64_trap_frame_from_user :: "u64 \<Rightarrow> mem \<Rightarrow> bool" where
  "aarch64_trap_frame_from_user frame m \<longleftrightarrow> load64 m (frame + TRAP_FRAME_OFF_VECTOR_TYPE) \<ge> AARCH64_VECTOR_LOWER_EL_SYNC"

section \<open>Both architectures\<close>

definition arch_task_init_frame :: "arch \<Rightarrow> u64 \<Rightarrow> u64 \<Rightarrow> u64 \<Rightarrow> mem \<Rightarrow> u64 \<times> mem" where
  "arch_task_init_frame a task_exit_guard stack_top entry m =
     (case a of X86_64 \<Rightarrow> x86_64_task_init_frame task_exit_guard stack_top entry m
      | AArch64 \<Rightarrow> aarch64_task_init_frame task_exit_guard stack_top entry m)"

definition arch_task_user_frame :: "arch \<Rightarrow> u64 \<Rightarrow> u64 option" where
  "arch_task_user_frame a kernel_stack_top =
     (case a of X86_64 \<Rightarrow> x86_64_task_user_frame kernel_stack_top
      | AArch64 \<Rightarrow> Some (aarch64_task_user_frame kernel_stack_top))"

definition arch_task_init_user_frame :: "arch \<Rightarrow> u64 \<Rightarrow> u64 \<Rightarrow> u64 \<Rightarrow> mem \<Rightarrow> (u64 \<times> mem) option" where
  "arch_task_init_user_frame a kernel_stack_top user_entry user_stack_top m =
     (case a of X86_64 \<Rightarrow> x86_64_task_init_user_frame kernel_stack_top user_entry user_stack_top m
      | AArch64 \<Rightarrow> Some (aarch64_task_init_user_frame kernel_stack_top user_entry user_stack_top m))"

definition arch_task_init_switch_frame :: "arch \<Rightarrow> u64 \<Rightarrow> u64 \<Rightarrow> mem \<Rightarrow> (u64 \<times> mem) option" where
  "arch_task_init_switch_frame a task_trampoline trap_frame m =
     (case a of X86_64 \<Rightarrow> x86_64_task_init_switch_frame task_trampoline trap_frame m
      | AArch64 \<Rightarrow> Some (aarch64_task_init_switch_frame task_trampoline trap_frame m))"

definition arch_trap_frame_from_user :: "arch \<Rightarrow> u64 \<Rightarrow> mem \<Rightarrow> bool" where
  "arch_trap_frame_from_user a frame m =
     (case a of X86_64 \<Rightarrow> x86_64_trap_frame_from_user frame m | AArch64 \<Rightarrow> aarch64_trap_frame_from_user frame m)"

end
