(* ===== verification/Task_Frame.thy ===== *)
theory Task_Frame
  imports Arch_Frame
begin

text \<open>
  The frames fabricated for a new task lie inside its kernel stack, above the guard and in the
  alignment the processor wants, and read back as what they were made from.
\<close>

definition frame_pc :: "arch \<Rightarrow> mem \<Rightarrow> u64 \<Rightarrow> u64" where
  "frame_pc a m f = load64 m (f + (case a of X86_64 \<Rightarrow> tf_rip | AArch64 \<Rightarrow> TRAP_FRAME_OFF_ELR))"

definition frame_sp :: "arch \<Rightarrow> mem \<Rightarrow> u64 \<Rightarrow> u64" where
  "frame_sp a m f = load64 m (f + (case a of X86_64 \<Rightarrow> tf_rsp | AArch64 \<Rightarrow> TRAP_FRAME_OFF_SP))"

definition switch_ret :: "arch \<Rightarrow> mem \<Rightarrow> u64 \<Rightarrow> u64" where
  "switch_ret a m f = load64 m (f + (case a of X86_64 \<Rightarrow> 48 | AArch64 \<Rightarrow> 88))"

lemma load64_memset_apart:
  assumes "apart s (unat n) b 8" "0 < unat n"
  shows "load64 (memset m s c n) b = load64 m b"
proof (rule load64_cong)
  fix i :: nat assume "i < 8"
  then have "unat n \<le> unat (b + of_nat i - s)" using apart_cell [OF assms(1)] assms(2) unat_lt_u64 [of n] by simp
  then show "memset m s c n (b + of_nat i) = m (b + of_nat i)" by (simp add: memset_apply)
qed

lemmas frame_layout =
  trap_frame_sizeof_def TRAP_FRAME_SIZE_def SWITCH_FRAME_SIZE_def tf_int_no_def tf_rip_def tf_cs_def tf_rflags_def
  tf_rsp_def tf_ss_def TRAP_FRAME_OFF_X_def TRAP_FRAME_OFF_SP_def TRAP_FRAME_OFF_ELR_def TRAP_FRAME_OFF_SPSR_def
  TRAP_FRAME_OFF_VECTOR_TYPE_def

lemma align16_add:
  fixes b k :: u64
  assumes "b AND 15 = 0"
  shows "(b + k) AND 15 = k AND 15"
proof -
  have m: "unat (x AND 15) = unat x mod 16" for x :: u64
    using unat_take_bit [of 4 x] by (simp add: take_bit_eq_mask mask_numeral)
  have "unat b mod 16 = 0" using m [of b] assms by simp
  then obtain q where q: "unat b = 16 * q" by (auto simp: mod_eq_0_iff_dvd elim: dvdE)
  have "unat (b + k) mod 16 = (16 * q + unat k) mod 2 ^ 64 mod 16" by (simp add: unat_word_ariths(1) q)
  also have "\<dots> = unat k mod 16" by (simp add: mod_mod_cancel)
  finally have "unat (b + k) mod 16 = unat k mod 16" .
  then show ?thesis using m by (metis word_unat_eq_iff)
qed

text \<open>A kernel stack at \<open>b\<close>: its top does not wrap, and pages are aligned more than 16 bytes.\<close>

definition stack_at :: "u64 \<Rightarrow> bool" where
  "stack_at b \<longleftrightarrow> b \<noteq> 0 \<and> b AND 15 = 0 \<and> unat b + 16384 < 2 ^ 64"

lemma stack_contains:
  assumes "stack_at b" "unat k < 16384"
  shows "kstack_contains b (b + k)"
proof -
  have "unat (b + k) = unat b + unat k" "unat (b + 16384) = unat b + 16384"
    using assms by (simp_all add: stack_at_def unat_add_lem [THEN iffD1])
  moreover from this have "b + k \<noteq> 0" using assms by (auto simp: stack_at_def unat_eq_0 [symmetric])
  ultimately show ?thesis using assms
    by (simp add: kstack_contains_def kstack_get_top_def KSTACK_SIZE_def KSTACK_PAGES_def PAGE_SIZE_def stack_at_def
        word_le_nat_alt word_less_nat_alt)
qed

definition good_frame :: "arch \<Rightarrow> u64 \<Rightarrow> mem \<Rightarrow> bool \<Rightarrow> u64 \<Rightarrow> u64 \<Rightarrow> u64 \<Rightarrow> mem \<Rightarrow> bool" where
  "good_frame a b m user pc sp f m' \<longleftrightarrow>
     kstack_contains b f \<and> f AND 15 = 0 \<and> frame_pc a m' f = pc \<and> frame_sp a m' f = sp \<and>
     arch_trap_frame_from_user a f m' = user \<and> load64 m' b = load64 m b"

text \<open>Fields of a frame at \<open>f\<close> do not overlap, and a frame above the guard leaves the guard alone.\<close>

lemma field_other: "8 \<le> unat (j - i) \<Longrightarrow> 8 \<le> unat (i - j) \<Longrightarrow> load64 (store64 m (f + i) v) (f + j) = load64 m (f + j)"
  by (rule load64_store64_apart) (simp add: apart_def)

lemma field_guard:
  assumes "f = b + k" "8 \<le> unat (k + i)" "8 \<le> unat (- (k + i))"
  shows "load64 (store64 m (f + i) v) b = load64 m b"
  by (rule load64_store64_apart) (use assms in \<open>simp add: apart_def algebra_simps\<close>)

lemma frame_guard:
  assumes "f = b + k" "8 \<le> unat k" "unat n \<le> unat (- k)" "0 < unat n"
  shows "load64 (memset m f c n) b = load64 m b"
  by (rule load64_memset_apart) (use assms in \<open>simp_all add: apart_def\<close>)

lemmas frame_defs = good_frame_def frame_pc_def frame_sp_def switch_ret_def arch_trap_frame_from_user_def
  x86_64_trap_frame_from_user_def aarch64_trap_frame_from_user_def frame_layout
  X86_64_SELECTOR_USER_CODE_def X86_64_SELECTOR_KERNEL_CODE_def AARCH64_VECTOR_LOWER_EL_SYNC_def
  AARCH64_VECTOR_LOWER_EL_IRQ_def AARCH64_VECTOR_CURRENT_EL_IRQ_def

text \<open>A frame at distance \<open>k\<close> from the base of a stack.\<close>

lemma frame_at:
  assumes "stack_at b" "f = b + k" "unat k < 16384" "k AND 15 = 0"
  shows "f AND 15 = 0" "kstack_contains b f"
  using align16_add [of b k] stack_contains [OF assms(1,3)] assms by (simp_all add: stack_at_def)

lemma x86_user_frame:
  assumes "stack_at b"
  shows "\<exists>m'. x86_64_task_init_user_frame (b + 16384) entry usp m = Some (b + 16208, m') \<and>
    x86_64_task_user_frame (b + 16384) = Some (b + 16208) \<and> good_frame X86_64 b m True entry usp (b + 16208) m'"
proof -
  obtain f where f: "f = b + 16208" by blast
  note fa = frame_at [OF assms f, simplified]
  have eq: "b + 16384 - 176 = f" unfolding f by simp
  have uf: "x86_64_task_user_frame (b + 16384) = Some f"
    using fa by (simp add: x86_64_task_user_frame_def frame_layout eq Let_def)
  note g = field_guard [OF f] frame_guard [OF f]
  show ?thesis unfolding x86_64_task_init_user_frame_def uf option.map Let_def f [symmetric]
    by (intro exI conjI, rule refl, rule refl) (simp add: frame_defs field_other g fa)
qed

lemma aarch64_user_frame:
  assumes "stack_at b"
  shows "\<exists>m'. aarch64_task_init_user_frame (b + 16384) entry usp m = (b + 16080, m') \<and>
    aarch64_task_user_frame (b + 16384) = b + 16080 \<and> good_frame AArch64 b m True entry usp (b + 16080) m'"
proof -
  obtain f where f: "f = b + 16080" by blast
  note fa = frame_at [OF assms f, simplified]
  have uf: "aarch64_task_user_frame (b + 16384) = f" unfolding f by (simp add: aarch64_task_user_frame_def frame_layout)
  note g = field_guard [OF f] frame_guard [OF f]
  show ?thesis unfolding aarch64_task_init_user_frame_def uf Let_def f [symmetric]
    by (intro exI conjI, rule refl, rule refl) (simp add: frame_defs field_other g fa)
qed

lemma x86_kernel_frame:
  assumes "stack_at b"
  shows "\<exists>m'. x86_64_task_init_frame guard (b + 16384) entry m = (b + 16192, m') \<and>
    good_frame X86_64 b m False entry (b + 16376) (b + 16192) m' \<and> load64 m' (b + 16376) = guard"
proof -
  obtain f where f: "f = b + 16192" by blast
  note fa = frame_at [OF assms f, simplified]
  have top: "b + 16384 - 8 = f + 184" unfolding f by simp
  have "(f + 8) AND 15 = 8" using align16_add [OF fa(1), of 8] by simp
  then have eq: "(f + 184 - 176) AND NOT 15 = f"
    using and_not_mask [of "f + 8" 4] by (simp add: mask_numeral take_bit_eq_mask add.commute)
  note g = field_guard [OF f] frame_guard [OF f]
  have ms: "load64 (memset m f c 176) (f + 184) = load64 m (f + 184)" for m c
    by (rule load64_memset_apart) (simp_all add: apart_def)
  have ct: "b + 16376 = f + 184" unfolding f by simp
  show ?thesis unfolding x86_64_task_init_frame_def Let_def frame_layout arch.case top eq f [symmetric] ct
    by (intro exI conjI, rule refl) (simp_all add: frame_defs field_other g fa ms)
qed

lemma aarch64_kernel_frame:
  assumes "stack_at b"
  shows "\<exists>m'. aarch64_task_init_frame guard (b + 16384) entry m = (b + 16080, m') \<and>
    good_frame AArch64 b m False entry (b + 16384) (b + 16080) m' \<and> load64 m' (b + 16080 + TRAP_FRAME_OFF_X 30) = guard"
proof -
  obtain f where f: "f = b + 16080" by blast
  note fa = frame_at [OF assms f, simplified]
  have eq: "b + 16384 - 304 = f" unfolding f by simp
  note g = field_guard [OF f] frame_guard [OF f]
  show ?thesis unfolding aarch64_task_init_frame_def Let_def TRAP_FRAME_SIZE_def eq f [symmetric]
    by (intro exI conjI, rule refl) (simp_all add: frame_defs field_other g fa)
qed


text \<open>The frame of the first switch, just below the trap frame.\<close>

lemma x86_switch_frame:
  assumes "stack_at b" "f = b + k" "k = 16208 \<or> k = 16192" "good_frame X86_64 b m0 user pc sp f m"
  shows "\<exists>sf m'. x86_64_task_init_switch_frame trampoline f m = Some (sf, m') \<and> kstack_contains b sf \<and>
    switch_ret X86_64 m' sf = trampoline \<and> good_frame X86_64 b m0 user pc sp f m'"
proof -
  obtain g where g: "g = b + (k - 64)" by blast
  have fg: "f = g + 64" unfolding g assms(2) by simp
  have "unat (k - 64) < 16384" "(k - 64) AND 15 = 0" using assms(3) by auto
  note ga = frame_at [OF assms(1) g this]
  have eq: "f - 64 = g" unfolding fg by simp
  have gu: "load64 (memset m g c 64) b = load64 m b" "load64 (store64 m (g + 48) v) b = load64 m b" for m c v
    using frame_guard [OF g] field_guard [OF g] assms(3) by auto
  have ms: "load64 (memset m g c 64) (g + j) = load64 m (g + j)" if "64 \<le> unat j" "8 \<le> unat (- j)" for m c j
    using that by (intro load64_memset_apart) (simp_all add: apart_def)
  show ?thesis
    unfolding x86_64_task_init_switch_frame_def Let_def SWITCH_FRAME_SIZE_def arch.case eq
    using assms(4) ga
    by (simp add: frame_defs fg gu ms field_other add.assoc)
qed

lemma aarch64_switch_frame:
  assumes "stack_at b" "f = b + 16080" "good_frame AArch64 b m0 user pc sp f m"
  shows "\<exists>sf m'. aarch64_task_init_switch_frame trampoline f m = (sf, m') \<and> kstack_contains b sf \<and>
    switch_ret AArch64 m' sf = trampoline \<and> good_frame AArch64 b m0 user pc sp f m'"
proof -
  obtain g where g: "g = b + 15984" by blast
  have fg: "f = g + 96" unfolding g assms(2) by simp
  note ga = frame_at [OF assms(1) g, simplified]
  have eq: "f - 96 = g" unfolding fg by simp
  note gu = frame_guard [OF g] field_guard [OF g]
  have ms: "load64 (memset m g c 96) (g + j) = load64 m (g + j)" if "96 \<le> unat j" "8 \<le> unat (- j)" for m c j
    using that by (intro load64_memset_apart) (simp_all add: apart_def)
  show ?thesis
    unfolding aarch64_task_init_switch_frame_def Let_def SWITCH_FRAME_SIZE_def arch.case eq
    using assms(3) ga
    by (simp add: frame_defs fg gu ms field_other add.assoc)
qed



end
