(* ===== verification/Sched.thy ===== *)
theory Sched
  imports Task_Frame
begin

text \<open>
  Tasks and the scheduler: \<^verbatim>\<open>kernel/src/proc/sched.c\<close>, the task structure of
  \<^verbatim>\<open>kernel/include/proc/task.h\<close> with the checks of \<^verbatim>\<open>kernel/src/proc/task.c\<close>, the spin lock of
  \<^verbatim>\<open>kernel/src/core/spinlock.c\<close> and the tick of \<^verbatim>\<open>kernel/src/core/timer.c\<close>. Tasks are records in a store
  indexed by their address, 0 being \<^verbatim>\<open>NULL\<close>. The scheduler state extends the memory state, because
  dispatching switches the address space and checks the guard of the kernel stack. A function that
  crosses \<^verbatim>\<open>arch_task_switch_to\<close> is split there: what runs before the switch, and what runs when
  control comes back. The result \<open>None\<close> is a panic, a dangling pointer or a call that does not return.
\<close>

section \<open>State\<close>

datatype task_state = TASK_DEAD | TASK_READY | TASK_RUNNING | TASK_BLOCKED | TASK_ZOMBIE

record task =
  t_pid :: u64
  t_state :: task_state
  t_kernel_stack_base :: u64
  t_kernel_stack_top :: u64
  t_trap_frame :: u64
  t_fpu_state :: u64
  t_switch_frame :: u64
  t_vmm_context :: u64
  t_switch_count :: u64
  t_fds :: "u64 list"
  t_chan :: u64
  t_next :: u64

record sched_state = vmm_state +
  tasks :: "u64 \<Rightarrow> task option"
  run_queue_head :: u64
  current :: u64
  cursor :: u64
  scheduler_task :: u64
  scheduler_frame :: u64
  need_resched :: bool
  irq_on :: bool
  kernel_rsp :: u64
  locked :: "u64 \<Rightarrow> bool"
  tick :: u64

definition upd_task :: "u64 \<Rightarrow> (task \<Rightarrow> task) \<Rightarrow> 'a sched_state_scheme \<Rightarrow> 'a sched_state_scheme" where
  "upd_task t f s = s\<lparr>tasks := (tasks s)(t := map_option f (tasks s t))\<rparr>"

section \<open>Spin locks and ticks\<close>

text \<open>There is one processor: a lock that is held is never released while someone spins on it.\<close>

definition spinlock_lock :: "u64 \<Rightarrow> 'a sched_state_scheme \<Rightarrow> 'a sched_state_scheme option" where
  "spinlock_lock lk s = (if locked s lk then None else Some (s\<lparr>locked := (locked s)(lk := True)\<rparr>))"

definition spinlock_unlock :: "u64 \<Rightarrow> 'a sched_state_scheme \<Rightarrow> 'a sched_state_scheme" where
  "spinlock_unlock lk s = s\<lparr>locked := (locked s)(lk := False)\<rparr>"

text \<open>The flags saved and restored are the interrupt flag.\<close>

definition spinlock_lock_irqsave :: "u64 \<Rightarrow> 'a sched_state_scheme \<Rightarrow> (bool \<times> 'a sched_state_scheme) option" where
  "spinlock_lock_irqsave lk s =
     map_option (\<lambda>s'. (irq_on s, s')) (spinlock_lock lk (s\<lparr>irq_on := False\<rparr>))"

definition spinlock_unlock_irqrestore :: "u64 \<Rightarrow> bool \<Rightarrow> 'a sched_state_scheme \<Rightarrow> 'a sched_state_scheme" where
  "spinlock_unlock_irqrestore lk flags s = (spinlock_unlock lk s)\<lparr>irq_on := flags\<rparr>"

definition sched_on_timer_tick :: "'a sched_state_scheme \<Rightarrow> 'a sched_state_scheme" where
  "sched_on_timer_tick s = s\<lparr>need_resched := True\<rparr>"

definition timer_tick :: "'a sched_state_scheme \<Rightarrow> 'a sched_state_scheme" where
  "timer_tick s = sched_on_timer_tick (s\<lparr>tick := tick s + 1\<rparr>)"

definition timer_get_ticks :: "'a sched_state_scheme \<Rightarrow> u64" where
  "timer_get_ticks s = tick s"

section \<open>Checks on a task\<close>

definition task_owns_frame :: "'a sched_state_scheme \<Rightarrow> u64 \<Rightarrow> u64 \<Rightarrow> bool option" where
  "task_owns_frame s task frame =
     (if task = 0 \<or> frame = 0 then Some False
      else map_option (\<lambda>tk. t_kernel_stack_base tk = 0 \<or> kstack_contains (t_kernel_stack_base tk) frame) (tasks s task))"

definition task_stack_intact :: "'a sched_state_scheme \<Rightarrow> u64 \<Rightarrow> bool option" where
  "task_stack_intact s task =
     (if task = 0 then Some False
      else map_option (\<lambda>tk. t_kernel_stack_base tk = 0 \<or> kstack_guard_intact (kmem s) (t_kernel_stack_base tk)) (tasks s task))"

section \<open>The run queue\<close>

partial_function (option) sched_pick_loop ::
  "'a sched_state_scheme \<Rightarrow> u64 \<Rightarrow> u64 \<Rightarrow> (u64 \<times> 'a sched_state_scheme) option" where
  [code]: "sched_pick_loop s start task =
     Option.bind (tasks s task)
       (\<lambda>tk. let task' = t_next tk in
          Option.bind (tasks s task')
            (\<lambda>tk'. if t_state tk' = TASK_READY then Some (task', s\<lparr>cursor := task'\<rparr>)
                   else if task' \<noteq> start then sched_pick_loop s start task'
                   else Some (0, s)))"

definition sched_pick_next :: "'a sched_state_scheme \<Rightarrow> (u64 \<times> 'a sched_state_scheme) option" where
  "sched_pick_next s =
     (if run_queue_head s = 0 then Some (0, s)
      else let start = (if cursor s \<noteq> 0 then cursor s else run_queue_head s)
           in sched_pick_loop s start start)"

partial_function (option) sched_alive_loop :: "'a sched_state_scheme \<Rightarrow> u64 \<Rightarrow> bool option" where
  [code]: "sched_alive_loop s task =
     Option.bind (tasks s task)
       (\<lambda>tk. if t_state tk \<noteq> TASK_DEAD then Some True
             else if t_next tk \<noteq> run_queue_head s then sched_alive_loop s (t_next tk)
             else Some False)"

definition sched_any_alive :: "'a sched_state_scheme \<Rightarrow> bool option" where
  "sched_any_alive s = (if run_queue_head s = 0 then Some False else sched_alive_loop s (run_queue_head s))"

definition sched_init :: "u64 \<Rightarrow> 'a sched_state_scheme \<Rightarrow> 'a sched_state_scheme" where
  "sched_init task s = s\<lparr>run_queue_head := 0, scheduler_task := task\<rparr>"

definition sched_add_task :: "u64 \<Rightarrow> 'a sched_state_scheme \<Rightarrow> 'a sched_state_scheme option" where
  "sched_add_task task s =
     (if task = 0 then Some s
      else Option.bind
        (if run_queue_head s = 0 then Some (s\<lparr>run_queue_head := task\<rparr>)
         else map_option (\<lambda>hd. upd_task task (t_next_update (\<lambda>_. t_next hd)) s) (tasks s (run_queue_head s)))
        (\<lambda>s1. Some (upd_task (run_queue_head s1) (t_next_update (\<lambda>_. task)) s1)))"

definition sched_get_current_task :: "'a sched_state_scheme \<Rightarrow> u64" where
  "sched_get_current_task s = (if current s \<noteq> 0 then current s else scheduler_task s)"

partial_function (option) wakeup_loop :: "u64 \<Rightarrow> u64 \<Rightarrow> 'a sched_state_scheme \<Rightarrow> 'a sched_state_scheme option" where
  [code]: "wakeup_loop chan task s =
     Option.bind (tasks s task)
       (\<lambda>tk. let s1 = (if t_state tk = TASK_BLOCKED \<and> t_chan tk = chan
                       then upd_task task (t_state_update (\<lambda>_. TASK_READY)) s else s)
             in if t_next tk \<noteq> run_queue_head s then wakeup_loop chan (t_next tk) s1 else Some s1)"

definition wakeup :: "u64 \<Rightarrow> 'a sched_state_scheme \<Rightarrow> 'a sched_state_scheme option" where
  "wakeup chan s =
     (if chan = 0 \<or> run_queue_head s = 0 then Some s else wakeup_loop chan (run_queue_head s) s)"

section \<open>Leaving and entering tasks\<close>

text \<open>\<open>sp\<close> is the stack position \<^verbatim>\<open>arch_task_switch_to\<close> saves for the side that is left.\<close>

definition sched :: "u64 \<Rightarrow> 'a sched_state_scheme \<Rightarrow> 'a sched_state_scheme option" where
  "sched sp s =
     (if irq_on s then None
      else if scheduler_frame s = 0 then None
      else if tasks s (current s) = None then None
      else Some (upd_task (current s) (t_switch_frame_update (\<lambda>_. sp)) s))"

text \<open>\<^verbatim>\<open>sleep\<close> up to its switch, and from the switch on.\<close>

definition sleep :: "u64 \<Rightarrow> u64 \<Rightarrow> u64 \<Rightarrow> 'a sched_state_scheme \<Rightarrow> 'a sched_state_scheme option" where
  "sleep chan lk sp s =
     (if chan = 0 \<or> lk = 0 then None
      else if current s = 0 then None
      else sched sp (spinlock_unlock lk
             (upd_task (current s) (t_state_update (\<lambda>_. TASK_BLOCKED) \<circ> t_chan_update (\<lambda>_. chan)) s)))"

definition sleep_resume :: "u64 \<Rightarrow> u64 \<Rightarrow> 'a sched_state_scheme \<Rightarrow> 'a sched_state_scheme option" where
  "sleep_resume task lk s =
     (let s1 = upd_task task (t_chan_update (\<lambda>_. 0)) s in
      if irq_on s1 then None else spinlock_lock lk s1)"

definition sched_exit_current :: "'a sched_state_scheme \<Rightarrow> 'a sched_state_scheme option" where
  "sched_exit_current s =
     (if tasks s (current s) = None then None
      else Some ((upd_task (current s) (t_state_update (\<lambda>_. TASK_DEAD)) s)\<lparr>need_resched := True\<rparr>))"

text \<open>The result tells whether the task gave the processor back; otherwise the trap returns to the
  frame.\<close>

definition sched_on_trap_exit ::
  "arch \<Rightarrow> u64 \<Rightarrow> u64 \<Rightarrow> 'a sched_state_scheme \<Rightarrow> (bool \<times> 'a sched_state_scheme) option" where
  "sched_on_trap_exit a frame sp s =
     (if current s = 0 then Some (False, s)
      else Option.bind (task_owns_frame s (current s) frame)
        (\<lambda>owns. Option.bind (tasks s (current s))
           (\<lambda>tk. if \<not> owns then None
                 else if arch_trap_frame_from_user a frame (kmem s) \<and>
                   arch_task_user_frame a (t_kernel_stack_top tk) \<noteq> Some frame then None
                 else let s1 = upd_task (current s) (t_trap_frame_update (\<lambda>_. frame)) s in
                   if \<not> need_resched s1 then Some (False, s1)
                   else let s2 = s1\<lparr>need_resched := False\<rparr>;
                            s3 = (if t_state tk = TASK_RUNNING
                                  then upd_task (current s2) (t_state_update (\<lambda>_. TASK_READY)) s2 else s2)
                        in map_option (\<lambda>s4. (True, s4)) (sched sp s3))))"

section \<open>The scheduler thread\<close>

text \<open>On x86-64 the stack pointer for the next trap is stored; AArch64 has nothing to store.\<close>

definition arch_set_kernel_stack :: "arch \<Rightarrow> u64 \<Rightarrow> 'a sched_state_scheme \<Rightarrow> 'a sched_state_scheme" where
  "arch_set_kernel_stack a stack_top s = (case a of X86_64 \<Rightarrow> s\<lparr>kernel_rsp := stack_top\<rparr> | AArch64 \<Rightarrow> s)"

datatype verdict = Dispatch u64 | Idle | Shutdown

text \<open>One round of the loop of \<^verbatim>\<open>scheduler\<close> up to the switch, and from the switch back to its head.\<close>

definition scheduler_round :: "arch \<Rightarrow> u64 \<Rightarrow> 'a sched_state_scheme \<Rightarrow> (verdict \<times> 'a sched_state_scheme) option" where
  "scheduler_round a sp s =
     Option.bind (sched_pick_next s)
       (\<lambda>(next, s1). if next \<noteq> 0 then
            Option.bind (task_stack_intact s1 next)
              (\<lambda>ok. if \<not> ok then None
                    else Option.bind (tasks s1 next)
                      (\<lambda>tk. let s2 = upd_task next (\<lambda>tk. tk\<lparr>t_state := TASK_RUNNING, t_switch_count := t_switch_count tk + 1\<rparr>)
                                       (s1\<lparr>current := next\<rparr>);
                                s3 = vmm_switch_context (t_vmm_context tk) (arch_set_kernel_stack a (t_kernel_stack_top tk) s2)
                            in Some (Dispatch next, s3\<lparr>scheduler_frame := sp\<rparr>)))
          else map_option (\<lambda>alive. (if alive then Idle else Shutdown, s1)) (sched_any_alive s1))"

definition scheduler_back :: "u64 \<Rightarrow> 'a sched_state_scheme \<Rightarrow> 'a sched_state_scheme option" where
  "scheduler_back next s =
     (let s1 = upd_task (scheduler_task s) (t_switch_count_update (\<lambda>n. n + 1)) s in
      if current s1 \<noteq> next then None
      else let s2 = s1\<lparr>current := 0\<rparr> in
        Option.bind (task_stack_intact s2 next) (\<lambda>ok. if ok then Some s2 else None))"

end
