(* ===== verification/Sched_Ring.thy ===== *)
theory Sched_Ring
  imports Sched
begin

text \<open>
  The run queue as a ring: following \<^verbatim>\<open>next\<close> from the head visits every queued task once and comes
  back to the head. The loops over the ring return, and picking, waking and asking for a living task
  are the obvious functions of the list of tasks in ring order.
\<close>

section \<open>Rings\<close>

fun tseg :: "'a sched_state_scheme \<Rightarrow> u64 \<Rightarrow> u64 list \<Rightarrow> u64 \<Rightarrow> bool" where
  "tseg s p [] q \<longleftrightarrow> p = q"
| "tseg s p (x # xs) q \<longleftrightarrow> p = x \<and> x \<noteq> 0 \<and> (case tasks s x of None \<Rightarrow> False | Some tk \<Rightarrow> tseg s (t_next tk) xs q)"

text \<open>\<open>ring s ts\<close>: the run queue is \<open>ts\<close>, its head first.\<close>

definition ring :: "'a sched_state_scheme \<Rightarrow> u64 list \<Rightarrow> bool" where
  "ring s ts \<longleftrightarrow> distinct ts \<and> 0 \<notin> set ts \<and>
     (case ts of [] \<Rightarrow> run_queue_head s = 0 | h # _ \<Rightarrow> run_queue_head s = h \<and> tseg s h ts h)"

definition st_of :: "'a sched_state_scheme \<Rightarrow> u64 \<Rightarrow> task_state" where
  "st_of s t = (case tasks s t of None \<Rightarrow> TASK_DEAD | Some tk \<Rightarrow> t_state tk)"

abbreviation ready :: "'a sched_state_scheme \<Rightarrow> u64 \<Rightarrow> bool" where
  "ready s t \<equiv> st_of s t = TASK_READY"

lemma tseg_append: "tseg s p (xs @ ys) q \<longleftrightarrow> (\<exists>r. tseg s p xs r \<and> tseg s r ys q)"
  by (induction xs arbitrary: p) (auto split: option.splits)

lemma tseg_hd: "tseg s p (x # xs) q \<Longrightarrow> p = x"
  by simp

lemma tseg_task: "tseg s p xs q \<Longrightarrow> x \<in> set xs \<Longrightarrow> tasks s x \<noteq> None"
  by (induction xs arbitrary: p) (auto split: option.splits)

lemma tseg_cong:
  "(\<forall>x \<in> set xs. map_option t_next (tasks s' x) = map_option t_next (tasks s x)) \<Longrightarrow> tseg s' p xs q = tseg s p xs q"
  by (induction xs arbitrary: p) (force split: option.splits)+

text \<open>A ring can be entered anywhere.\<close>

lemma tseg_rotate:
  assumes "tseg s h (xs @ c # ys) h"
  shows "tseg s c (c # ys @ xs) c"
proof -
  obtain r where r: "tseg s h xs r" "tseg s r (c # ys) h" using assms by (auto simp: tseg_append)
  then have "r = c" by simp
  then show ?thesis using r by (simp add: tseg_append split: option.splits) blast
qed

lemma tseg_next:
  assumes "tseg s c (c # xs) c" "tasks s c = Some tk"
  shows "tseg s (t_next tk) (xs @ [c]) (t_next tk)"
proof -
  have "tseg s (t_next tk) xs c" "c \<noteq> 0" using assms by simp_all
  then show ?thesis using assms(2) by (auto simp: tseg_append)
qed

section \<open>Picking\<close>

text \<open>The tasks in the order the search visits them, starting behind the cursor.\<close>

definition pick_order :: "u64 list \<Rightarrow> u64 \<Rightarrow> u64 list" where
  "pick_order ts c = tl (dropWhile (\<lambda>t. t \<noteq> c) ts) @ takeWhile (\<lambda>t. t \<noteq> c) ts @ [c]"

lemma pick_order_split:
  assumes "distinct (xs @ c # ys)"
  shows "pick_order (xs @ c # ys) c = ys @ xs @ [c]"
proof -
  have "takeWhile (\<lambda>t. t \<noteq> c) (xs @ c # ys) = xs" "dropWhile (\<lambda>t. t \<noteq> c) (xs @ c # ys) = c # ys"
    using assms by (induction xs) auto
  then show ?thesis by (simp add: pick_order_def)
qed

lemma set_pick_order: "distinct ts \<Longrightarrow> c \<in> set ts \<Longrightarrow> set (pick_order ts c) = set ts"
  by (auto simp: in_set_conv_decomp pick_order_split)

lemma pick_loop:
  assumes "tasks s p = Some tk" "tseg s (t_next tk) (xs @ [c]) q" "c \<notin> set xs"
  shows "sched_pick_loop s c p =
    (case List.find (ready s) (xs @ [c]) of None \<Rightarrow> Some (0, s) | Some t \<Rightarrow> Some (t, s\<lparr>cursor := t\<rparr>))"
  using assms
proof (induction xs arbitrary: p tk)
  case Nil
  then obtain tc where "t_next tk = c" "tasks s c = Some tc" by (auto split: option.splits)
  then show ?case using Nil by (subst sched_pick_loop.simps) (simp add: st_of_def Let_def)
next
  case (Cons x xs)
  then obtain tx where x: "t_next tk = x" "tasks s x = Some tx" "tseg s (t_next tx) (xs @ [c]) q"
    by (auto split: option.splits)
  then show ?case using Cons.IH [OF x(2,3)] Cons.prems
    by (subst sched_pick_loop.simps) (auto simp: st_of_def Let_def)
qed

lemma ring_split:
  assumes "ring s ts" "c \<in> set ts"
  obtains xs ys tk where "ts = xs @ c # ys" "tasks s c = Some tk"
    "tseg s (t_next tk) ((ys @ xs) @ [c]) (t_next tk)" "c \<notin> set (ys @ xs)"
proof -
  obtain xs ys where ts: "ts = xs @ c # ys" using assms(2) by (auto simp: in_set_conv_decomp)
  have seg: "tseg s (run_queue_head s) ts (run_queue_head s)" using assms by (cases ts) (auto simp: ring_def)
  have r: "tseg s c (c # ys @ xs) c" using tseg_rotate seg ts by blast
  obtain tk where tk: "tasks s c = Some tk" using tseg_task [OF r] by auto
  show thesis using that [OF ts tk] tseg_next [OF r tk] assms(1) ts by (auto simp: ring_def)
qed

text \<open>Picking takes the first ready task behind the cursor, in ring order, the task at the cursor last.\<close>

lemma pick_next:
  assumes r: "ring s ts" and ne: "ts \<noteq> []" and c: "cursor s = 0 \<or> cursor s \<in> set ts"
  shows "sched_pick_next s =
    (case List.find (ready s) (pick_order ts (if cursor s \<noteq> 0 then cursor s else hd ts)) of
       None \<Rightarrow> Some (0, s) | Some t \<Rightarrow> Some (t, s\<lparr>cursor := t\<rparr>))"
proof -
  let ?c = "if cursor s \<noteq> 0 then cursor s else hd ts"
  have h: "run_queue_head s = hd ts" "hd ts \<noteq> 0" using r ne by (cases ts; auto simp: ring_def)+
  have in_ts: "?c \<in> set ts" using c ne by auto
  obtain xs ys tk where s: "ts = xs @ ?c # ys" "tasks s ?c = Some tk"
    "tseg s (t_next tk) ((ys @ xs) @ [?c]) (t_next tk)" "?c \<notin> set (ys @ xs)"
    by (rule ring_split [OF r in_ts])
  have "pick_order ts ?c = (ys @ xs) @ [?c]"
    using pick_order_split [of xs ?c ys] s(1) r by (simp add: ring_def)
  moreover have "sched_pick_next s = sched_pick_loop s ?c ?c" using h by (simp add: sched_pick_next_def Let_def)
  ultimately show ?thesis using pick_loop [OF s(2-4)] by simp
qed

lemma pick_empty: "ring s [] \<Longrightarrow> sched_pick_next s = Some (0, s)"
  by (simp add: ring_def sched_pick_next_def)

section \<open>Anyone alive\<close>

lemma alive_loop:
  assumes "tseg s p xs (run_queue_head s)" "xs \<noteq> []" "run_queue_head s \<notin> set (tl xs)"
  shows "sched_alive_loop s p = Some (\<exists>t \<in> set xs. st_of s t \<noteq> TASK_DEAD)"
  using assms
proof (induction xs arbitrary: p)
  case (Cons x xs)
  then obtain tx where x: "p = x" "tasks s x = Some tx" "tseg s (t_next tx) xs (run_queue_head s)"
    by (auto split: option.splits)
  show ?case
  proof (cases xs)
    case Nil
    then show ?thesis using x by (subst sched_alive_loop.simps) (simp add: st_of_def)
  next
    case (Cons y ys)
    then have "t_next tx \<noteq> run_queue_head s" using x(3) Cons.prems(3) by auto
    then show ?thesis using x Cons.IH [OF x(3)] Cons Cons.prems
      by (subst sched_alive_loop.simps) (auto simp: st_of_def)
  qed
qed simp

lemma any_alive: "ring s ts \<Longrightarrow> sched_any_alive s = Some (\<exists>t \<in> set ts. st_of s t \<noteq> TASK_DEAD)"
  using alive_loop [of s "run_queue_head s" ts] by (cases ts) (auto simp: ring_def sched_any_alive_def)

section \<open>Waking\<close>

lemma upd_task_sel [simp]:
  "tasks (upd_task t f s) u = (if u = t then map_option f (tasks s t) else tasks s u)"
  "run_queue_head (upd_task t f s) = run_queue_head s" "current (upd_task t f s) = current s"
  "cursor (upd_task t f s) = cursor s" "need_resched (upd_task t f s) = need_resched s"
  "irq_on (upd_task t f s) = irq_on s" "scheduler_task (upd_task t f s) = scheduler_task s"
  "scheduler_frame (upd_task t f s) = scheduler_frame s" "locked (upd_task t f s) = locked s" "kmem (upd_task t f s) = kmem s"
  by (simp_all add: upd_task_def)

definition woken :: "u64 \<Rightarrow> u64 set \<Rightarrow> 'a sched_state_scheme \<Rightarrow> 'a sched_state_scheme" where
  "woken chan A s = s\<lparr>tasks := \<lambda>t. map_option (\<lambda>tk. if t \<in> A \<and> t_state tk = TASK_BLOCKED \<and> t_chan tk = chan
      then tk\<lparr>t_state := TASK_READY\<rparr> else tk) (tasks s t)\<rparr>"

lemma woken_empty [simp]: "woken chan {} s = s"
  by (simp add: woken_def option.map_ident)

lemma woken_sel [simp]:
  "run_queue_head (woken chan A s) = run_queue_head s"
  by (simp add: woken_def)

lemma woken_insert:
  assumes "tasks s t = Some tk" "t \<notin> A"
  shows "woken chan A (if t_state tk = TASK_BLOCKED \<and> t_chan tk = chan
      then upd_task t (t_state_update (\<lambda>_. TASK_READY)) s else s) = woken chan (insert t A) s"
proof -
  let ?f = "\<lambda>A u. map_option (\<lambda>tk. if u \<in> A \<and> t_state tk = TASK_BLOCKED \<and> t_chan tk = chan
      then tk\<lparr>t_state := TASK_READY\<rparr> else tk)"
  have "(\<lambda>u. ?f A u (tasks (upd_task t (t_state_update (\<lambda>_. TASK_READY)) s) u)) = (\<lambda>u. ?f (insert t A) u (tasks s u))"
    if "t_state tk = TASK_BLOCKED" "t_chan tk = chan"
    using assms that by (intro ext) auto
  moreover have "(\<lambda>u. ?f A u (tasks s u)) = (\<lambda>u. ?f (insert t A) u (tasks s u))"
    if no: "\<not> (t_state tk = TASK_BLOCKED \<and> t_chan tk = chan)"
  proof
    show "?f A u (tasks s u) = ?f (insert t A) u (tasks s u)" for u
      using assms no by (cases "u = t") auto
  qed
  ultimately show ?thesis by (auto simp: woken_def upd_task_def)
qed

lemma wakeup_loop:
  assumes "tseg s p xs (run_queue_head s)" "xs \<noteq> []" "distinct xs" "run_queue_head s \<notin> set (tl xs)"
  shows "wakeup_loop chan p s = Some (woken chan (set xs) s)"
  using assms
proof (induction xs arbitrary: p s)
  case (Cons x xs)
  then obtain tx where x: "p = x" "tasks s x = Some tx" "tseg s (t_next tx) xs (run_queue_head s)"
    by (auto split: option.splits)
  let ?s = "if t_state tx = TASK_BLOCKED \<and> t_chan tx = chan then upd_task x (t_state_update (\<lambda>_. TASK_READY)) s else s"
  have "\<forall>y \<in> set xs. map_option t_next (tasks ?s y) = map_option t_next (tasks s y)" using x(2) by simp
  then have "tseg ?s (t_next tx) xs (run_queue_head s)"
    using x(3) tseg_cong [of xs ?s s "t_next tx" "run_queue_head s"] by blast
  then have seg: "tseg ?s (t_next tx) xs (run_queue_head ?s)" by (auto split: if_splits)
  show ?case
  proof (cases xs)
    case Nil
    then show ?thesis using x woken_insert [OF x(2), of "{}" chan]
      by (subst wakeup_loop.simps) (auto simp: Let_def split: if_splits)
  next
    case (Cons y ys)
    then have "t_next tx \<noteq> run_queue_head s" using x(3) Cons.prems(4) by auto
    then have "wakeup_loop chan p s = wakeup_loop chan (t_next tx) ?s"
      using x by (subst wakeup_loop.simps) (simp add: Let_def)
    also have "\<dots> = Some (woken chan (set xs) ?s)"
      using Cons.prems Cons by (intro Cons.IH [OF seg]) auto
    finally show ?thesis using woken_insert [OF x(2), of "set xs" chan] Cons.prems(3) by simp
  qed
qed simp

lemma wakeup_woken: "ring s ts \<Longrightarrow> chan \<noteq> 0 \<Longrightarrow> wakeup chan s = Some (woken chan (set ts) s)"
  using wakeup_loop [of s "run_queue_head s" ts chan] by (cases ts) (auto simp: ring_def wakeup_def)

section \<open>Adding\<close>

lemma add_task_ring:
  assumes r: "ring s ts" and t: "t \<noteq> 0" "t \<notin> set ts" "tasks s t = Some tk"
  shows "\<exists>s'. sched_add_task t s = Some s' \<and> ring s' (case ts of [] \<Rightarrow> [t] | h # xs \<Rightarrow> h # t # xs) \<and>
    (\<forall>u. map_option (t_next_update (\<lambda>_. 0)) (tasks s' u) = map_option (t_next_update (\<lambda>_. 0)) (tasks s u)) \<and>
    current s' = current s \<and> cursor s' = cursor s \<and> need_resched s' = need_resched s"
proof (cases ts)
  case Nil
  let ?s = "upd_task t (t_next_update (\<lambda>_. t)) (s\<lparr>run_queue_head := t\<rparr>)"
  have "sched_add_task t s = Some ?s" using Nil r t by (simp add: sched_add_task_def ring_def)
  then show ?thesis using Nil t by (auto simp: ring_def option.map_comp o_def intro!: option.map_cong)
next
  case (Cons h xs)
  then obtain th where h: "run_queue_head s = h" "tasks s h = Some th" "tseg s (t_next th) xs h" "h \<noteq> 0"
    using r by (auto simp: ring_def split: option.splits)
  let ?s = "upd_task h (t_next_update (\<lambda>_. t)) (upd_task t (t_next_update (\<lambda>_. t_next th)) s)"
  have run: "sched_add_task t s = Some ?s" using h t by (simp add: sched_add_task_def)
  have ne: "h \<noteq> t" "t \<notin> set xs" "h \<notin> set xs" using Cons t r by (auto simp: ring_def)
  then have "\<forall>y \<in> set xs. map_option t_next (tasks ?s y) = map_option t_next (tasks s y)" by auto
  then have "tseg ?s (t_next th) xs h" using h(3) tseg_cong [of xs ?s s "t_next th" h] by simp
  then have "ring ?s (h # t # xs)" using Cons r t h ne by (auto simp: ring_def)
  then show ?thesis using run Cons by (auto simp: option.map_comp o_def intro!: option.map_cong)
qed

end
