(* ===== verification/Sched_System.thy ===== *)
theory Sched_System
  imports Sched_Ring
begin

text \<open>
  The scheduler as a state machine. A state is the kernel's scheduling state together with the place
  where each task will resume. One event is one stretch of code between two places where tasks can
  interleave: a dispatch, a preemption at the end of a trap, a sleep, an exit, a wakeup, a tick.
\<close>

section \<open>Steps\<close>

datatype resume_point = Fresh | In_trap | In_sleep u64

record sys = sched_state +
  resume_at :: "u64 \<Rightarrow> resume_point"

definition resume_task :: "u64 \<Rightarrow> sys \<Rightarrow> sys option" where
  "resume_task t s = (case resume_at s t of In_sleep lk \<Rightarrow> sleep_resume t lk s | _ \<Rightarrow> Some s)"

definition park :: "u64 \<Rightarrow> resume_point \<Rightarrow> sys \<Rightarrow> sys" where
  "park t r s = s\<lparr>resume_at := (resume_at s)(t := r)\<rparr>"

datatype event = Ev_dispatch u64 | Ev_idle | Ev_yield | Ev_return | Ev_sleep u64 u64 | Ev_exit
  | Ev_wakeup u64 | Ev_add u64 | Ev_tick | Ev_irq bool

inductive sched_step :: "arch \<Rightarrow> event \<Rightarrow> sys \<Rightarrow> sys \<Rightarrow> bool" for a where
  dispatch: "\<lbrakk>current s = 0; scheduler_round a sp s = Some (Dispatch t, s1); resume_task t s1 = Some s2\<rbrakk> \<Longrightarrow>
    sched_step a (Ev_dispatch t) s s2"
| idle: "\<lbrakk>current s = 0; scheduler_round a sp s = Some (Idle, s1)\<rbrakk> \<Longrightarrow> sched_step a Ev_idle s s1"
| yield: "\<lbrakk>current s \<noteq> 0; sched_on_trap_exit a frame sp s = Some (True, s1); scheduler_back (current s) s1 = Some s2\<rbrakk> \<Longrightarrow>
    sched_step a Ev_yield s (park (current s) In_trap s2)"
| return: "sched_on_trap_exit a frame sp s = Some (False, s1) \<Longrightarrow> sched_step a Ev_return s s1"
| sleep: "\<lbrakk>sleep chan lk sp s = Some s1; scheduler_back (current s) s1 = Some s2\<rbrakk> \<Longrightarrow>
    sched_step a (Ev_sleep chan lk) s (park (current s) (In_sleep lk) s2)"
| exit: "\<lbrakk>current s \<noteq> 0; sched_exit_current s = Some s1; sched_on_trap_exit a frame sp s1 = Some (True, s2);
    scheduler_back (current s) s2 = Some s3\<rbrakk> \<Longrightarrow> sched_step a Ev_exit s (park (current s) In_trap s3)"
| wakeup: "wakeup chan s = Some s1 \<Longrightarrow> sched_step a (Ev_wakeup chan) s s1"
| add: "\<lbrakk>tasks s t = None; t \<noteq> 0; t_state tk = TASK_READY;
    sched_add_task t (park t Fresh (s\<lparr>tasks := (tasks s)(t := Some tk)\<rparr>)) = Some s1\<rbrakk> \<Longrightarrow> sched_step a (Ev_add t) s s1"
| tick: "sched_step a Ev_tick s (timer_tick s)"
| irq: "current s \<noteq> 0 \<Longrightarrow> sched_step a (Ev_irq b) s (s\<lparr>irq_on := b\<rparr>)"

inductive sched_run :: "arch \<Rightarrow> event list \<Rightarrow> sys \<Rightarrow> sys \<Rightarrow> bool" for a where
  run_nil: "sched_run a [] s s"
| run_cons: "sched_step a e s s1 \<Longrightarrow> sched_run a es s1 s2 \<Longrightarrow> sched_run a (e # es) s s2"

inductive_cases sched_run_ConsE: "sched_run a (e # es) s s2"
inductive_cases sched_run_NilE: "sched_run a [] s s2"

section \<open>The invariant\<close>

text \<open>\<open>ts\<close> is the run queue in ring order.\<close>

definition sys_inv :: "sys \<Rightarrow> u64 list \<Rightarrow> bool" where
  "sys_inv s ts \<longleftrightarrow> ring s ts \<and> (cursor s = 0 \<or> cursor s \<in> set ts) \<and>
     (current s \<noteq> 0 \<longrightarrow> current s \<in> set ts) \<and>
     (\<forall>t \<in> set ts. st_of s t = TASK_RUNNING \<longleftrightarrow> t = current s)"

text \<open>What an event does to the queue, to the state of a task, and to the two scheduler pointers.\<close>

definition chan_of :: "sys \<Rightarrow> u64 \<Rightarrow> u64" where
  "chan_of s t = (case tasks s t of None \<Rightarrow> 0 | Some tk \<Rightarrow> t_chan tk)"

fun queue_after :: "event \<Rightarrow> u64 list \<Rightarrow> u64 list" where
  "queue_after (Ev_add t) ts = (case ts of [] \<Rightarrow> [t] | h # xs \<Rightarrow> h # t # xs)"
| "queue_after _ ts = ts"

fun state_after :: "event \<Rightarrow> sys \<Rightarrow> u64 \<Rightarrow> task_state" where
  "state_after (Ev_dispatch u) s t = (if t = u then TASK_RUNNING else st_of s t)"
| "state_after Ev_yield s t = (if t = current s then TASK_READY else st_of s t)"
| "state_after (Ev_sleep c lk) s t = (if t = current s then TASK_BLOCKED else st_of s t)"
| "state_after Ev_exit s t = (if t = current s then TASK_DEAD else st_of s t)"
| "state_after (Ev_wakeup c) s t =
     (if c \<noteq> 0 \<and> st_of s t = TASK_BLOCKED \<and> chan_of s t = c then TASK_READY else st_of s t)"
| "state_after (Ev_add u) s t = (if t = u then TASK_READY else st_of s t)"
| "state_after _ s t = st_of s t"

fun current_after :: "event \<Rightarrow> sys \<Rightarrow> u64" where
  "current_after (Ev_dispatch u) s = u"
| "current_after Ev_yield s = 0"
| "current_after (Ev_sleep c lk) s = 0"
| "current_after Ev_exit s = 0"
| "current_after _ s = current s"

fun cursor_after :: "event \<Rightarrow> sys \<Rightarrow> u64" where
  "cursor_after (Ev_dispatch u) s = u"
| "cursor_after _ s = cursor s"

definition effect :: "event \<Rightarrow> u64 list \<Rightarrow> sys \<Rightarrow> sys \<Rightarrow> bool" where
  "effect e ts s s' \<longleftrightarrow> ring s' (queue_after e ts) \<and> current s' = current_after e s \<and> cursor s' = cursor_after e s \<and>
     (\<forall>t \<in> set (queue_after e ts). st_of s' t = state_after e s t) \<and>
     (\<forall>t \<in> set ts. st_of s t = TASK_BLOCKED \<longrightarrow> chan_of s' t = chan_of s t)"

lemma vmm_switch_sched [simp]:
  "tasks (vmm_switch_context c s) = tasks s" "run_queue_head (vmm_switch_context c s) = run_queue_head s"
  "current (vmm_switch_context c s) = current s" "cursor (vmm_switch_context c s) = cursor s"
  "scheduler_task (vmm_switch_context c s) = scheduler_task s" "locked (vmm_switch_context c s) = locked s"
  "need_resched (vmm_switch_context c s) = need_resched s" "irq_on (vmm_switch_context c s) = irq_on s"
  "resume_at (vmm_switch_context c s1) = resume_at s1"
  for s :: "'a sched_state_scheme" and s1 :: sys
  by (simp_all add: vmm_switch_context_def arch_vmm_set_user_root_def)

lemma kernel_stack_sched [simp]:
  "tasks (arch_set_kernel_stack a c s) = tasks s" "run_queue_head (arch_set_kernel_stack a c s) = run_queue_head s"
  "current (arch_set_kernel_stack a c s) = current s" "cursor (arch_set_kernel_stack a c s) = cursor s"
  "scheduler_task (arch_set_kernel_stack a c s) = scheduler_task s" "locked (arch_set_kernel_stack a c s) = locked s"
  "need_resched (arch_set_kernel_stack a c s) = need_resched s" "irq_on (arch_set_kernel_stack a c s) = irq_on s"
  "resume_at (arch_set_kernel_stack a c s1) = resume_at s1"
  for s :: "'a sched_state_scheme" and s1 :: sys
  by (cases a; simp add: arch_set_kernel_stack_def)+

lemma ring_cong:
  assumes "run_queue_head s' = run_queue_head s" "\<forall>t \<in> set ts. map_option t_next (tasks s' t) = map_option t_next (tasks s t)"
  shows "ring s' ts = ring s ts"
proof (cases ts)
  case Nil
  then show ?thesis using assms(1) by (simp add: ring_def)
next
  case (Cons h xs)
  have "tseg s' h ts h = tseg s h ts h" using assms(2) by (rule tseg_cong)
  then show ?thesis using Cons assms(1) by (simp add: ring_def)
qed

lemma st_of_upd: "st_of (upd_task t f s) u = (if u = t \<and> tasks s t \<noteq> None then t_state (f (the (tasks s t))) else st_of s u)"
  by (auto simp: st_of_def split: option.splits)

lemma upd_task_frame [simp]:
  "resume_at (upd_task t f s) = resume_at s" for s :: sys
  by (simp add: upd_task_def)

lemma park_sel [simp]:
  "tasks (park t r s) = tasks s" "run_queue_head (park t r s) = run_queue_head s" "current (park t r s) = current s"
  "cursor (park t r s) = cursor s" "kmem (park t r s) = kmem s" "need_resched (park t r s) = need_resched s"
  by (simp_all add: park_def)

lemma effectI:
  assumes "ring s ts" "queue_after e ts = ts" "run_queue_head s' = run_queue_head s"
    and "current s' = current_after e s" "cursor s' = cursor_after e s"
    and "\<forall>t \<in> set ts. map_option t_next (tasks s' t) = map_option t_next (tasks s t)"
    and "\<And>t. t \<in> set ts \<Longrightarrow> st_of s' t = state_after e s t"
    and "\<And>t. t \<in> set ts \<Longrightarrow> st_of s t = TASK_BLOCKED \<Longrightarrow> chan_of s' t = chan_of s t"
  shows "effect e ts s s'"
  using assms ring_cong [of s' s ts] by (auto simp: effect_def)

lemma ring_task: "ring s ts \<Longrightarrow> t \<in> set ts \<Longrightarrow> \<exists>tk. tasks s t = Some tk"
  using ring_split by metis

lemma sys_invD:
  assumes "sys_inv s ts"
  shows "ring s ts" "cursor s = 0 \<or> cursor s \<in> set ts" "current s \<noteq> 0 \<Longrightarrow> current s \<in> set ts"
    "t \<in> set ts \<Longrightarrow> st_of s t = TASK_RUNNING \<longleftrightarrow> t = current s"
  using assms by (auto simp: sys_inv_def)

section \<open>Every event has its effect\<close>

lemma back_sel:
  assumes "scheduler_back t s = Some s'"
  shows "current s' = 0" "cursor s' = cursor s" "run_queue_head s' = run_queue_head s"
    "map_option (t_switch_count_update (\<lambda>_. 0)) (tasks s' u) = map_option (t_switch_count_update (\<lambda>_. 0)) (tasks s u)"
proof -
  let ?s = "(upd_task (scheduler_task s) (t_switch_count_update (\<lambda>n. n + 1)) s)\<lparr>current := 0\<rparr>"
  have "s' = ?s" using assms by (auto simp: scheduler_back_def Let_def split: if_splits Option.bind_splits)
  then show "current s' = 0" "cursor s' = cursor s" "run_queue_head s' = run_queue_head s"
    "map_option (t_switch_count_update (\<lambda>_. 0)) (tasks s' u) = map_option (t_switch_count_update (\<lambda>_. 0)) (tasks s u)"
    by (auto simp: option.map_comp comp_def)
qed

lemma count_eqD:
  fixes x y :: "task option"
  assumes "map_option (t_switch_count_update (\<lambda>_. 0)) x = map_option (t_switch_count_update (\<lambda>_. 0)) y"
  shows "map_option t_next x = map_option t_next y" "map_option t_state x = map_option t_state y"
    "map_option t_chan x = map_option t_chan y"
  using arg_cong [OF assms, of "map_option t_next"] arg_cong [OF assms, of "map_option t_state"]
    arg_cong [OF assms, of "map_option t_chan"]
  by (simp_all add: option.map_comp comp_def)

lemma st_of_map: "map_option t_state (tasks s t) = map_option t_state (tasks s' t) \<Longrightarrow> st_of s t = st_of s' t"
  by (auto simp: st_of_def split: option.splits)

lemma chan_of_map: "map_option t_chan (tasks s t) = map_option t_chan (tasks s' t) \<Longrightarrow> chan_of s t = chan_of s' t"
  by (auto simp: chan_of_def split: option.splits)

text \<open>Giving the processor back: the current task gets the state it leaves with.\<close>

lemma leave_effect:
  assumes inv: "sys_inv s ts" and b: "scheduler_back t s1 = Some s2"
    and q: "queue_after e ts = ts" "current_after e s = 0" "cursor_after e s = cursor s"
    and s1: "run_queue_head s1 = run_queue_head s" "cursor s1 = cursor s"
    and tk: "tasks s (current s) = Some tk" "tasks s1 = (tasks s)(current s \<mapsto> f tk)" "t_next (f tk) = t_next tk"
    and st: "\<And>t. state_after e s t = (if t = current s then t_state (f tk) else st_of s t)"
    and cu: "current s \<in> set ts"
  shows "effect e ts s (park u r s2)"
proof (rule effectI [OF sys_invD(1) [OF inv] q(1)])
  note b4 = count_eqD [OF back_sel(4) [OF b]]
  show "run_queue_head (park u r s2) = run_queue_head s" "current (park u r s2) = current_after e s"
    "cursor (park u r s2) = cursor_after e s"
    using back_sel(1,2,3) [OF b] q s1 by simp_all
  show "\<forall>t \<in> set ts. map_option t_next (tasks (park u r s2) t) = map_option t_next (tasks s t)"
    using b4(1) tk by simp
  fix t assume t: "t \<in> set ts"
  have "st_of (park u r s2) t = st_of s1 t" using b4(2) [of t] by (intro st_of_map) simp
  then show "st_of (park u r s2) t = state_after e s t" using tk st by (simp add: st_of_def)
  assume bl: "st_of s t = TASK_BLOCKED"
  have "t \<noteq> current s" using sys_invD(4) [OF inv cu] bl by auto
  moreover have "chan_of (park u r s2) t = chan_of s1 t" using b4(3) [of t] by (intro chan_of_map) simp
  ultimately show "chan_of (park u r s2) t = chan_of s t" using tk by (simp add: chan_of_def)
qed

lemma yield_effect:
  assumes inv: "sys_inv s ts" and c: "current s \<noteq> 0" and x: "sched_on_trap_exit a frame sp s = Some (True, s1)"
    and b: "scheduler_back (current s) s1 = Some s2"
  shows "effect Ev_yield ts s (park (current s) In_trap s2)"
proof -
  obtain tk where tk: "tasks s (current s) = Some tk" using ring_task [OF sys_invD(1) [OF inv] sys_invD(3) [OF inv c]] by auto
  have run: "t_state tk = TASK_RUNNING" using tk inv c by (auto simp: st_of_def sys_inv_def)
  show ?thesis
    by (rule leave_effect [OF inv b, where f = "\<lambda>tk. tk\<lparr>t_trap_frame := frame, t_state := TASK_READY, t_switch_frame := sp\<rparr>"])
      (use x tk c run sys_invD(3) [OF inv c] in \<open>auto simp: sched_on_trap_exit_def sched_def Let_def fun_eq_iff split: if_splits Option.bind_splits\<close>)
qed

lemma exit_effect:
  assumes inv: "sys_inv s ts" and c: "current s \<noteq> 0" and e: "sched_exit_current s = Some s0"
    and x: "sched_on_trap_exit a frame sp s0 = Some (True, s1)" and b: "scheduler_back (current s) s1 = Some s2"
  shows "effect Ev_exit ts s (park (current s) In_trap s2)"
proof -
  obtain tk where tk: "tasks s (current s) = Some tk" using ring_task [OF sys_invD(1) [OF inv] sys_invD(3) [OF inv c]] by auto
  show ?thesis
    by (rule leave_effect [OF inv b, where f = "\<lambda>tk. tk\<lparr>t_state := TASK_DEAD, t_trap_frame := frame, t_switch_frame := sp\<rparr>"])
      (use e x tk c sys_invD(3) [OF inv c] in \<open>auto simp: sched_exit_current_def sched_on_trap_exit_def sched_def Let_def
         fun_eq_iff split: if_splits Option.bind_splits\<close>)
qed

lemma sleep_effect:
  assumes inv: "sys_inv s ts" and x: "sleep chan lk sp s = Some s1" and b: "scheduler_back (current s) s1 = Some s2"
  shows "effect (Ev_sleep chan lk) ts s (park (current s) (In_sleep lk) s2)"
proof -
  have c: "current s \<noteq> 0" using x by (auto simp: sleep_def split: if_splits)
  obtain tk where tk: "tasks s (current s) = Some tk" using ring_task [OF sys_invD(1) [OF inv] sys_invD(3) [OF inv c]] by auto
  show ?thesis
    by (rule leave_effect [OF inv b, where f = "\<lambda>tk. tk\<lparr>t_chan := chan, t_state := TASK_BLOCKED, t_switch_frame := sp\<rparr>"])
      (use x tk c sys_invD(3) [OF inv c] in \<open>auto simp: sleep_def sched_def spinlock_unlock_def fun_eq_iff split: if_splits\<close>)
qed

lemma return_effect:
  assumes inv: "sys_inv s ts" and x: "sched_on_trap_exit a frame sp s = Some (False, s1)"
  shows "effect Ev_return ts s s1"
  by (rule effectI [OF sys_invD(1) [OF inv]])
    (use x in \<open>auto simp: sched_on_trap_exit_def Let_def st_of_def chan_of_def option.map_comp comp_def
       split: if_splits Option.bind_splits option.splits\<close>)

text \<open>Picking, in terms of the invariant.\<close>

definition scan :: "sys \<Rightarrow> u64 list \<Rightarrow> u64 list" where
  "scan s ts = (case ts of [] \<Rightarrow> [] | h # _ \<Rightarrow> pick_order ts (if cursor s \<noteq> 0 then cursor s else h))"

lemma pick_scan:
  assumes "sys_inv s ts"
  shows "sched_pick_next s = (case List.find (ready s) (scan s ts) of
    None \<Rightarrow> Some (0, s) | Some t \<Rightarrow> Some (t, s\<lparr>cursor := t\<rparr>))"
proof (cases ts)
  case Nil
  then show ?thesis using sys_invD(1) [OF assms] by (simp add: scan_def pick_empty)
next
  case (Cons h xs)
  then show ?thesis using pick_next [OF sys_invD(1) [OF assms] _ sys_invD(2) [OF assms]] by (simp add: scan_def)
qed

lemma set_scan: "sys_inv s ts \<Longrightarrow> set (scan s ts) = set ts"
  using set_pick_order [of ts "cursor s"] set_pick_order [of ts "hd ts"]
  by (cases ts) (auto simp: scan_def sys_inv_def ring_def)

lemma resume_sel:
  assumes "resume_task t s = Some s'"
  shows "current s' = current s" "cursor s' = cursor s" "run_queue_head s' = run_queue_head s"
    "map_option t_next (tasks s' u) = map_option t_next (tasks s u)" "st_of s' u = st_of s u"
    "u \<noteq> t \<Longrightarrow> chan_of s' u = chan_of s u"
proof -
  have eq: "s' = s \<or> (\<exists>l. s' = (upd_task t (t_chan_update (\<lambda>_. 0)) s)\<lparr>locked := l\<rparr>)"
    using assms by (auto simp: resume_task_def sleep_resume_def spinlock_lock_def Let_def split: resume_point.splits if_splits)
  then show "current s' = current s" "cursor s' = cursor s" "run_queue_head s' = run_queue_head s" by auto
  show "map_option t_next (tasks s' u) = map_option t_next (tasks s u)" "st_of s' u = st_of s u"
    using eq by (cases "u = t"; cases "tasks s u"; auto simp: st_of_def)+
  show "chan_of s' u = chan_of s u" if "u \<noteq> t" using eq that by (auto simp: chan_of_def)
qed

lemma dispatch_effect:
  assumes inv: "sys_inv s ts" and x: "scheduler_round a sp s = Some (Dispatch t, s1)" and r: "resume_task t s1 = Some s2"
  shows "effect (Ev_dispatch t) ts s s2" "List.find (ready s) (scan s ts) = Some t"
proof -
  show f: "List.find (ready s) (scan s ts) = Some t"
    using x by (auto simp: scheduler_round_def pick_scan [OF inv] Let_def split: if_splits Option.bind_splits option.splits)
  then have t: "t \<in> set ts" "st_of s t = TASK_READY" using set_scan [OF inv] by (auto simp: find_Some_iff)
  have s1: "current s1 = t" "cursor s1 = t" "run_queue_head s1 = run_queue_head s"
    "tasks s1 = (tasks s)(t := map_option (\<lambda>tk. tk\<lparr>t_state := TASK_RUNNING, t_switch_count := t_switch_count tk + 1\<rparr>) (tasks s t))"
    using x f by (auto simp: scheduler_round_def pick_scan [OF inv] Let_def upd_task_def split: if_splits Option.bind_splits)
  obtain tk where tk: "tasks s t = Some tk" using ring_task [OF sys_invD(1) [OF inv] t(1)] by auto
  show "effect (Ev_dispatch t) ts s s2"
  proof (rule effectI [OF sys_invD(1) [OF inv]])
    show "\<forall>u \<in> set ts. map_option t_next (tasks s2 u) = map_option t_next (tasks s u)"
      using resume_sel(4) [OF r] s1 tk by simp
    show "st_of s2 u = state_after (Ev_dispatch t) s u" for u
      using resume_sel(5) [OF r] s1 tk by (simp add: st_of_def)
    show "chan_of s2 u = chan_of s u" if "st_of s u = TASK_BLOCKED" for u
      using that t(2) resume_sel(6) [OF r, of u] s1 by (cases "u = t") (auto simp: chan_of_def)
  qed (use resume_sel(1,2,3) [OF r] s1 in simp_all)
qed

lemma idle_effect:
  assumes inv: "sys_inv s ts" and x: "scheduler_round a sp s = Some (Idle, s1)"
  shows "effect Ev_idle ts s s1"
proof -
  have "List.find (ready s) (scan s ts) \<noteq> Some 0"
    using set_scan [OF inv] sys_invD(1) [OF inv] nth_mem [of _ "scan s ts"] by (force simp: find_Some_iff ring_def)
  then have "s1 = s" using x by (auto simp: scheduler_round_def pick_scan [OF inv] Let_def split: if_splits Option.bind_splits option.splits)
  then show ?thesis using inv by (simp add: effect_def sys_inv_def)
qed

lemma wakeup_effect:
  assumes inv: "sys_inv s ts" and x: "wakeup chan s = Some s1"
  shows "effect (Ev_wakeup chan) ts s s1"
proof (cases "chan = 0")
  case True
  then show ?thesis using x inv by (simp add: wakeup_def effect_def sys_inv_def)
next
  case False
  have "s1 = woken chan (set ts) s" using wakeup_woken [OF sys_invD(1) [OF inv] False] x by simp
  then show ?thesis
    using False ring_task [OF sys_invD(1) [OF inv]]
    by (intro effectI [OF sys_invD(1) [OF inv]])
      (fastforce simp: woken_def st_of_def chan_of_def option.map_comp comp_def)+
qed

lemma add_effect:
  assumes inv: "sys_inv s ts" and t: "tasks s t = None" "t \<noteq> 0" "t_state tk = TASK_READY"
    and x: "sched_add_task t (park t Fresh (s\<lparr>tasks := (tasks s)(t := Some tk)\<rparr>)) = Some s1"
  shows "effect (Ev_add t) ts s s1" "t \<notin> set ts"
proof -
  let ?s = "park t Fresh (s\<lparr>tasks := (tasks s)(t := Some tk)\<rparr>)"
  show nt: "t \<notin> set ts" using ring_task [OF sys_invD(1) [OF inv], of t] t(1) by auto
  have r: "ring ?s ts" using sys_invD(1) [OF inv] nt ring_cong [of ?s s ts] by auto
  obtain s' where s': "sched_add_task t ?s = Some s'" "ring s' (queue_after (Ev_add t) ts)"
    "\<And>u. map_option (t_next_update (\<lambda>_. 0)) (tasks s' u) = map_option (t_next_update (\<lambda>_. 0)) (tasks ?s u)"
    "current s' = current ?s" "cursor s' = cursor ?s"
    using add_task_ring [OF r t(2) nt, of tk] by auto
  have m: "map_option t_state (tasks s1 u) = map_option t_state (tasks ?s u)"
    "map_option t_chan (tasks s1 u) = map_option t_chan (tasks ?s u)" for u
    using arg_cong [OF s'(3) [of u], of "map_option t_state"] arg_cong [OF s'(3) [of u], of "map_option t_chan"] x s'(1)
    by (simp_all add: option.map_comp comp_def)
  have "st_of s1 u = state_after (Ev_add t) s u" for u
    using st_of_map [OF m(1) [of u]] t(3) by (simp add: st_of_def)
  moreover have "chan_of s1 u = chan_of s u" if "u \<in> set ts" for u
    using chan_of_map [OF m(2) [of u]] nt that by (auto simp: chan_of_def)
  ultimately show "effect (Ev_add t) ts s s1" using s' x by (auto simp: effect_def)
qed

lemma step_effect:
  assumes "sched_step a e s s'" "sys_inv s ts"
  shows "effect e ts s s'"
  using assms
proof (induction rule: sched_step.induct)
  case (tick s)
  then show ?case
    by (intro effectI [OF sys_invD(1)]) (auto simp: timer_tick_def sched_on_timer_tick_def st_of_def chan_of_def)
next
  case (irq s b)
  then show ?case by (intro effectI [OF sys_invD(1)]) (auto simp: st_of_def chan_of_def)
qed (blast intro: dispatch_effect idle_effect yield_effect return_effect sleep_effect exit_effect wakeup_effect add_effect)+

inductive_cases dispatchE: "sched_step a (Ev_dispatch t) s s'"
inductive_cases yieldE: "sched_step a Ev_yield s s'"
inductive_cases exitE: "sched_step a Ev_exit s s'"
inductive_cases sleepE: "sched_step a (Ev_sleep chan lk) s s'"
inductive_cases addE: "sched_step a (Ev_add t) s s'"

section \<open>The invariant holds\<close>

lemma dispatch_ready:
  assumes "sched_step a (Ev_dispatch t) s s'" "sys_inv s ts"
  shows "List.find (ready s) (scan s ts) = Some t" "t \<in> set ts" "st_of s t = TASK_READY" "current s = 0"
proof -
  show f: "List.find (ready s) (scan s ts) = Some t" using assms by (auto elim!: dispatchE dest: dispatch_effect(2))
  show "t \<in> set ts" "st_of s t = TASK_READY"
    using f set_scan [OF assms(2)] nth_mem [of _ "scan s ts"] by (auto simp: find_Some_iff)
  show "current s = 0" using assms(1) by (auto elim: dispatchE)
qed

lemma inv_from_effect:
  assumes "effect e ts s s'" "cursor_after e s = 0 \<or> cursor_after e s \<in> set (queue_after e ts)"
    and "current_after e s \<noteq> 0 \<Longrightarrow> current_after e s \<in> set (queue_after e ts)"
    and "\<And>t. t \<in> set (queue_after e ts) \<Longrightarrow> state_after e s t = TASK_RUNNING \<longleftrightarrow> t = current_after e s"
  shows "sys_inv s' (queue_after e ts)"
  using assms unfolding sys_inv_def effect_def by simp

lemma step_inv:
  assumes st: "sched_step a e s s'" and inv: "sys_inv s ts"
  shows "sys_inv s' (queue_after e ts)"
proof (rule inv_from_effect [OF step_effect [OF st inv]])
  have d: "t \<in> set ts \<and> current s = 0" if "e = Ev_dispatch t" for t using dispatch_ready st inv that by blast
  have ad: "t \<notin> set ts \<and> t \<noteq> 0 \<and> set (queue_after e ts) = insert t (set ts)" if "e = Ev_add t" for t
    using st inv that by (auto elim!: addE dest: add_effect(2) split: list.split)
  have sub: "set ts \<subseteq> set (queue_after e ts)" by (cases e) (auto split: list.split)
  show "cursor_after e s = 0 \<or> cursor_after e s \<in> set (queue_after e ts)"
    using sys_invD(2) [OF inv] d sub by (cases e) auto
  show "current_after e s \<in> set (queue_after e ts)" if "current_after e s \<noteq> 0"
    using sys_invD(3) [OF inv] d sub that by (cases e) auto
  have nz: "0 \<notin> set ts" using sys_invD(1) [OF inv] by (simp add: ring_def)
  show "state_after e s t = TASK_RUNNING \<longleftrightarrow> t = current_after e s" if q: "t \<in> set (queue_after e ts)" for t
  proof (cases "t \<in> set ts")
    case True
    then have "t \<noteq> 0" using nz by auto
    then show ?thesis using True sys_invD(4) [OF inv True] d ad by (cases e) auto
  next
    case False
    then obtain u where u: "e = Ev_add u" using q by (cases e) auto
    then have "t = u" using q False ad by auto
    then show ?thesis using u ad [OF u] sys_invD(3) [OF inv] by auto
  qed
qed

lemma run_inv: "sched_run a es s s' \<Longrightarrow> sys_inv s ts \<Longrightarrow> sys_inv s' (fold queue_after es ts)"
  by (induction arbitrary: ts rule: sched_run.induct) (auto dest: step_inv)

lemma queue_after_mono: "set ts \<subseteq> set (queue_after e ts)"
  by (cases e) (auto split: list.split)

end
