(* ===== verification/Sched_Fair.thy ===== *)
theory Sched_Fair
  imports Sched_System
begin

text \<open>
  What runs of the scheduler guarantee: one running task at a time, no way back for a dead task, sleeping
  until the matching wakeup, and round robin.
\<close>

section \<open>Single steps and runs\<close>

lemma step_states:
  assumes "sched_step a e s s'" "sys_inv s ts" "t \<in> set ts"
  shows "st_of s' t = state_after e s t" "st_of s t = TASK_BLOCKED \<Longrightarrow> chan_of s' t = chan_of s t"
    "current s' = current_after e s" "cursor s' = cursor_after e s"
proof -
  note ef = step_effect [OF assms(1,2), unfolded effect_def]
  show "current s' = current_after e s" "cursor s' = cursor_after e s" using ef by simp_all
  have "t \<in> set (queue_after e ts)" using queue_after_mono assms(3) by blast
  then show "st_of s' t = state_after e s t" using ef by simp
  show "chan_of s' t = chan_of s t" if "st_of s t = TASK_BLOCKED" using ef assms(3) that by simp
qed

lemma dead_step:
  assumes st: "sched_step a e s s'" and inv: "sys_inv s ts" and t: "t \<in> set ts" "st_of s t = TASK_DEAD"
  shows "st_of s' t = TASK_DEAD" "e \<noteq> Ev_dispatch t"
proof -
  show ne: "e \<noteq> Ev_dispatch t" using dispatch_ready(3) [of a t s s' ts] st inv t by auto
  have nc: "t \<noteq> current s" using sys_invD(4) [OF inv t(1)] t(2) by auto
  have "t \<noteq> u" if "e = Ev_add u" for u using st inv that t by (auto elim!: addE dest: add_effect(2))
  then show "st_of s' t = TASK_DEAD" using step_states(1) [OF st inv t(1)] ne nc t(2) by (cases e) auto
qed

lemma dead_run:
  assumes "sched_run a es s s'" "sys_inv s ts" "t \<in> set ts" "st_of s t = TASK_DEAD"
  shows "st_of s' t = TASK_DEAD \<and> Ev_dispatch t \<notin> set es"
  using assms
proof (induction arbitrary: ts rule: sched_run.induct)
  case (run_cons e s s1 es s2)
  have "t \<in> set (queue_after e ts)" using run_cons.prems(2) queue_after_mono by auto
  then have "st_of s2 t = TASK_DEAD \<and> Ev_dispatch t \<notin> set es"
    by (intro run_cons.IH [OF step_inv [OF run_cons.hyps(1) run_cons.prems(1)]] dead_step(1) [OF run_cons.hyps(1) run_cons.prems])
  then show ?case using dead_step(2) [OF run_cons.hyps(1) run_cons.prems] by simp
qed simp

lemma blocked_step:
  assumes st: "sched_step a e s s'" and inv: "sys_inv s ts" and t: "t \<in> set ts" "st_of s t = TASK_BLOCKED"
    and w: "e \<noteq> Ev_wakeup (chan_of s t)"
  shows "st_of s' t = TASK_BLOCKED \<and> chan_of s' t = chan_of s t \<and> e \<noteq> Ev_dispatch t"
proof -
  have ne: "e \<noteq> Ev_dispatch t" using dispatch_ready(3) [of a t s s' ts] st inv t by auto
  have nc: "t \<noteq> current s" using sys_invD(4) [OF inv t(1)] t(2) by auto
  have "t \<noteq> u" if "e = Ev_add u" for u using st inv that t by (auto elim!: addE dest: add_effect(2))
  then have "st_of s' t = TASK_BLOCKED" using step_states(1) [OF st inv t(1)] ne nc t(2) w by (cases e) auto
  then show ?thesis using ne step_states(2) [OF st inv t] by simp
qed

lemma blocked_run:
  assumes "sched_run a es s s'" "sys_inv s ts" "t \<in> set ts" "st_of s t = TASK_BLOCKED" "Ev_wakeup (chan_of s t) \<notin> set es"
  shows "st_of s' t = TASK_BLOCKED \<and> chan_of s' t = chan_of s t \<and> Ev_dispatch t \<notin> set es"
  using assms
proof (induction arbitrary: ts rule: sched_run.induct)
  case (run_cons e s s1 es s2)
  have t: "t \<in> set (queue_after e ts)" using run_cons.prems(2) queue_after_mono by auto
  have b: "st_of s1 t = TASK_BLOCKED" "chan_of s1 t = chan_of s t" "e \<noteq> Ev_dispatch t"
    using blocked_step [OF run_cons.hyps(1) run_cons.prems(1-3)] run_cons.prems(4) by auto
  then show ?case
    using run_cons.IH [OF step_inv [OF run_cons.hyps(1) run_cons.prems(1)] t] run_cons.prems(4) by auto
qed simp

section \<open>Round robin\<close>

definition place :: "sys \<Rightarrow> u64 list \<Rightarrow> u64 \<Rightarrow> nat" where
  "place s ts t = length (takeWhile (\<lambda>u. u \<noteq> t) (scan s ts))"

lemma pick_order_rotate:
  assumes d: "distinct ts" and c: "c \<in> set ts" and p: "pick_order ts c = us @ u # vs"
  shows "pick_order ts u = vs @ us @ [u]"
proof -
  obtain xs ys where ts: "ts = xs @ c # ys" using c by (auto simp: in_set_conv_decomp)
  have p': "ys @ xs @ [c] = us @ u # vs" using p pick_order_split [of xs c ys] d ts by simp
  have du: "distinct (ys @ xs @ [c])" using d ts by auto
  then have nu: "u \<notin> set us" "u \<notin> set vs" unfolding p' by auto
  have "u \<in> set (ys @ xs @ [c])" unfolding p' by simp
  then consider "u \<in> set ys" | "u \<in> set xs" | "u = c" by auto
  then show ?thesis
  proof cases
    case 1
    then obtain a b where ab: "ys = a @ u # b" by (auto simp: in_set_conv_decomp)
    then have "us = a" "vs = b @ xs @ [c]" using p' nu append_Cons_eq_iff [of u us vs a "b @ xs @ [c]"] by auto
    then show ?thesis using pick_order_split [of "xs @ c # a" u b] d ts ab by simp
  next
    case 2
    then obtain a b where ab: "xs = a @ u # b" by (auto simp: in_set_conv_decomp)
    then have "us = ys @ a" "vs = b @ [c]" using p' nu append_Cons_eq_iff [of u us vs "ys @ a" "b @ [c]"] by auto
    then show ?thesis using pick_order_split [of a u "b @ c # ys"] d ts ab by simp
  next
    case 3
    then have "us = ys @ xs" "vs = []" using p' nu append_Cons_eq_iff [of u us vs "ys @ xs" "[]"] by auto
    then show ?thesis using 3 p by simp
  qed
qed

lemma takeWhile_less: "t \<in> set xs \<Longrightarrow> length (takeWhile (\<lambda>u. u \<noteq> t) xs) < length xs"
  by (induction xs) auto

lemma place_bound: "sys_inv s ts \<Longrightarrow> t \<in> set ts \<Longrightarrow> place s ts t < length ts"
proof -
  assume inv: "sys_inv s ts" and t: "t \<in> set ts"
  define c where "c = (if cursor s \<noteq> 0 then cursor s else hd ts)"
  have ne: "ts \<noteq> []" using t by auto
  have c: "scan s ts = pick_order ts c" "c \<in> set ts" "distinct ts"
    using ne sys_invD(1,2) [OF inv] by (cases ts; auto simp: c_def scan_def ring_def)+
  obtain xs ys where "ts = xs @ c # ys" using c(2) by (auto simp: in_set_conv_decomp)
  then have "length (scan s ts) = length ts" using c pick_order_split [of xs c ys] by simp
  moreover have "length (takeWhile (\<lambda>u. u \<noteq> t) (scan s ts)) < length (scan s ts)"
    using t set_scan [OF inv] by (intro takeWhile_less) auto
  ultimately show ?thesis by (simp add: place_def)
qed

lemma find_split:
  assumes "List.find P xs = Some u"
  obtains us vs where "xs = us @ u # vs" "P u" "\<forall>x \<in> set us. \<not> P x"
  using assms
proof (induction xs arbitrary: thesis)
  case (Cons x xs)
  show ?case
  proof (cases "P x")
    case True
    then show ?thesis using Cons.prems(1) [of "[]" xs] Cons.prems(2) by simp
  next
    case False
    then have "List.find P xs = Some u" using Cons.prems(2) by simp
    then obtain us vs where "xs = us @ u # vs" "P u" "\<forall>x \<in> set us. \<not> P x" using Cons.IH by blast
    then show ?thesis using Cons.prems(1) [of "x # us" vs] False by simp
  qed
qed simp

text \<open>Whoever is dispatched instead of a ready task goes behind it.\<close>

lemma place_drops:
  assumes st: "sched_step a (Ev_dispatch u) s s'" and inv: "sys_inv s ts" and t: "t \<in> set ts" "ready s t" "t \<noteq> u"
  shows "place s' ts t < place s ts t"
proof -
  note d = dispatch_ready [OF st inv]
  obtain us vs where uv: "scan s ts = us @ u # vs" "\<forall>x \<in> set us. \<not> ready s x" using find_split [OF d(1)] by metis
  define c where "c = (if cursor s \<noteq> 0 then cursor s else hd ts)"
  have ne: "ts \<noteq> []" using t by auto
  have c: "scan s ts = pick_order ts c" "c \<in> set ts" "distinct ts"
    using ne sys_invD(1,2) [OF inv] by (cases ts; auto simp: c_def scan_def ring_def)+
  have p: "pick_order ts u = vs @ us @ [u]" using pick_order_rotate [OF c(3,2)] c(1) uv(1) by simp
  have "u \<noteq> 0" using d(2) sys_invD(1) [OF inv] by (auto simp: ring_def)
  then have s': "scan s' ts = vs @ us @ [u]"
    using step_states(4) [OF st inv t(1)] p ne by (cases ts) (auto simp: scan_def)
  have "t \<in> set (scan s ts)" using set_scan [OF inv] t(1) by simp
  then have "t \<in> set vs" "t \<notin> set us" using uv t by auto
  then show ?thesis using t(3) by (auto simp: place_def s' uv(1) takeWhile_append)
qed

lemma place_keeps:
  assumes st: "sched_step a e s s'" and inv: "sys_inv s ts" and t: "t \<in> set ts" "ready s t"
    and e: "\<And>u. e \<noteq> Ev_dispatch u" "\<And>u. e \<noteq> Ev_add u"
  shows "place s' ts t = place s ts t" "queue_after e ts = ts"
proof -
  show "queue_after e ts = ts" using e by (cases e) auto
  have "cursor s' = cursor s" using step_states(4) [OF st inv t(1)] e by (cases e) auto
  then show "place s' ts t = place s ts t" by (cases ts) (simp_all add: place_def scan_def)
qed

lemma ready_keeps:
  assumes st: "sched_step a e s s'" and inv: "sys_inv s ts" and t: "t \<in> set ts" "ready s t" and e: "e \<noteq> Ev_dispatch t"
  shows "ready s' t"
proof -
  have "t \<noteq> current s" using sys_invD(4) [OF inv t(1)] t(2) by auto
  then show ?thesis using step_states(1) [OF st inv t(1)] t(2) e by (cases e) auto
qed

fun dispatches :: "event list \<Rightarrow> nat" where
  "dispatches [] = 0"
| "dispatches (Ev_dispatch _ # es) = Suc (dispatches es)"
| "dispatches (_ # es) = dispatches es"

lemma dispatches_other: "(\<And>u. e \<noteq> Ev_dispatch u) \<Longrightarrow> dispatches (e # es) = dispatches es"
  by (cases e) auto

lemma dispatched_in_turn:
  assumes "sched_run a es s s'" "sys_inv s ts" "t \<in> set ts" "ready s t" "\<forall>u. Ev_add u \<notin> set es" "place s ts t < dispatches es"
  shows "Ev_dispatch t \<in> set es"
  using assms
proof (induction arbitrary: ts rule: sched_run.induct)
  case (run_cons e s s1 es s2)
  note st = run_cons.hyps(1) and inv = run_cons.prems(1) and t = run_cons.prems(2,3)
  show ?case
  proof (cases "e = Ev_dispatch t")
    case ne: False
    have r: "ready s1 t" by (rule ready_keeps [OF st inv t ne])
    have na: "e \<noteq> Ev_add u" for u using run_cons.prems(4) by auto
    then have q: "queue_after e ts = ts" by (cases e) auto
    have inv1: "sys_inv s1 ts" using step_inv [OF st inv] q by simp
    have "place s1 ts t < dispatches es"
    proof (cases "\<exists>u. e = Ev_dispatch u")
      case True
      then obtain u where u: "e = Ev_dispatch u" by auto
      then show ?thesis using place_drops [OF st [unfolded u] inv t] ne run_cons.prems(5) by auto
    next
      case False
      then show ?thesis using place_keeps(1) [OF st inv t _ na] run_cons.prems(5) dispatches_other [of e es] by auto
    qed
    then show ?thesis using run_cons.IH [OF inv1 t(1) r] run_cons.prems(4) by auto
  qed simp
qed simp

lemma fold_queue_mono: "set ts \<subseteq> set (fold queue_after es ts)"
proof (induction es arbitrary: ts)
  case (Cons e es)
  then show ?case using queue_after_mono [of ts e] by (simp add: subset_trans)
qed simp

lemma sleep_chan:
  assumes sl: "sched_step a (Ev_sleep chan lk) s s1"
  shows "chan_of s1 (current s) = chan"
proof -
  obtain sp s0 s2 where s0: "sleep chan lk sp s = Some s0" and s2: "scheduler_back (current s) s0 = Some s2"
    and s1: "s1 = park (current s) (In_sleep lk) s2"
    using sl by (auto elim: sleepE)
  have "tasks s (current s) \<noteq> None" using s0 by (auto simp: sleep_def sched_def spinlock_unlock_def split: if_splits)
  then have "map_option t_chan (tasks s0 (current s)) = Some chan"
    using s0 by (auto simp: sleep_def sched_def spinlock_unlock_def split: if_splits)
  then have "map_option t_chan (tasks s2 (current s)) = Some chan"
    using count_eqD(3) [OF back_sel(4) [OF s2], of "current s"] by simp
  then show ?thesis using s1 by (auto simp: chan_of_def)
qed

section \<open>Properties\<close>

text \<open>An example: two tasks, 16 sleeping on channel 7 and 32 ready.\<close>

definition example_task :: "task_state \<Rightarrow> u64 \<Rightarrow> u64 \<Rightarrow> task" where
  "example_task st chan nxt = \<lparr>t_pid = 1, t_state = st, t_kernel_stack_base = 0, t_kernel_stack_top = 0, t_trap_frame = 0,
     t_fpu_state = 0, t_switch_frame = 0, t_vmm_context = 0, t_switch_count = 0, t_fds = [], t_chan = chan, t_next = nxt\<rparr>"

definition example_sys :: "task_state \<Rightarrow> task_state \<Rightarrow> u64 \<Rightarrow> sys" where
  "example_sys st1 st2 cur = \<lparr>kmem = (\<lambda>_. 0), hhdm_offset = 0, free_list_head = 0, max_phys_addr = 0, heap_block_list = 0,
     vmm_kernel_context = 0, vmm_current_context = 0, user_root_reg = 0, kernel_root_reg = 0,
     tasks = [16 \<mapsto> example_task st1 7 32, 32 \<mapsto> example_task st2 0 16, 64 \<mapsto> example_task TASK_RUNNING 0 0],
     run_queue_head = 16, current = cur, cursor = 16, scheduler_task = 64, scheduler_frame = 1, need_resched = True,
     irq_on = False, kernel_rsp = 0, locked = (\<lambda>_. False), tick = 0, resume_at = (\<lambda>_. In_trap)\<rparr>"

lemma example_inv:
  assumes "st1 \<noteq> TASK_RUNNING" "st2 = TASK_RUNNING \<longleftrightarrow> cur = 32" "cur = 0 \<or> cur = 32"
  shows "sys_inv (example_sys st1 st2 cur) [16, 32]"
  using assms by (auto simp: sys_inv_def ring_def example_sys_def example_task_def st_of_def)

lemma example_exit:
  "\<exists>s'. sched_step X86_64 Ev_exit (example_sys st1 TASK_RUNNING 32) s'"
proof -
  let ?s = "example_sys st1 TASK_RUNNING 32"
  have s: "current ?s = 32" "tasks ?s 32 = Some (example_task TASK_RUNNING 0 16)" "irq_on ?s = False" "scheduler_frame ?s = 1"
    "scheduler_task ?s = 64" "kmem ?s = (\<lambda>_. 0)"
    by (simp_all add: example_sys_def)
  obtain s1 where s1: "sched_exit_current ?s = Some s1" "current s1 = 32" "tasks s1 32 = Some (example_task TASK_DEAD 0 16)"
    "irq_on s1 = False" "scheduler_frame s1 = 1" "kmem s1 = (\<lambda>_. 0)" "need_resched s1" "scheduler_task s1 = 64"
    using s by (simp add: sched_exit_current_def example_task_def)
  have "load64 (\<lambda>_. 0) x = 0" for x by (rule load64_zero) simp
  then have u: "\<not> arch_trap_frame_from_user X86_64 1 (\<lambda>_. 0)"
    by (simp add: arch_trap_frame_from_user_def x86_64_trap_frame_from_user_def)
  obtain s2 where s2: "sched_on_trap_exit X86_64 1 1 s1 = Some (True, s2)" "current s2 = 32" "scheduler_task s2 = 64"
    "map_option t_kernel_stack_base (tasks s2 32) = Some 0"
    using s1 u by (simp add: sched_on_trap_exit_def task_owns_frame_def example_task_def sched_def Let_def)
  have "\<exists>s3. scheduler_back 32 s2 = Some s3"
    using s2 by (auto simp: scheduler_back_def task_stack_intact_def Let_def)
  then obtain s3 where "scheduler_back 32 s2 = Some s3" by auto
  then show ?thesis using sched_step.exit [OF _ s1(1) s2(1)] s(1) by auto
qed

lemma example_sleep:
  "\<exists>s'. sched_step X86_64 (Ev_sleep 7 9) (example_sys st1 TASK_RUNNING 32) s'"
proof -
  let ?s = "example_sys st1 TASK_RUNNING 32"
  have s: "current ?s = 32" "tasks ?s 32 = Some (example_task TASK_RUNNING 0 16)" "irq_on ?s = False" "scheduler_frame ?s = 1"
    by (simp_all add: example_sys_def)
  obtain s1 where s1: "sleep 7 9 1 ?s = Some s1" "current s1 = 32" "map_option t_kernel_stack_base (tasks s1 32) = Some 0"
    using s by (simp add: sleep_def sched_def spinlock_unlock_def example_task_def)
  then have "\<exists>s2. scheduler_back 32 s1 = Some s2" by (auto simp: scheduler_back_def task_stack_intact_def Let_def)
  then obtain s2 where "scheduler_back 32 s1 = Some s2" by auto
  then show ?thesis using sched_step.sleep [OF s1(1)] s(1) by auto
qed

lemma example_dispatch:
  "\<exists>s'. sched_step X86_64 (Ev_dispatch 32) (example_sys TASK_READY TASK_READY 0) s'"
proof -
  let ?s = "example_sys TASK_READY TASK_READY 0"
  have inv: "sys_inv ?s [16, 32]" by (rule example_inv) simp_all
  have "List.find (ready ?s) (scan ?s [16, 32]) = Some 32"
    by (simp add: scan_def pick_order_def st_of_def example_sys_def example_task_def)
  then have "\<exists>s1. scheduler_round X86_64 1 ?s = Some (Dispatch 32, s1) \<and> resume_at s1 = resume_at ?s"
    using pick_scan [OF inv]
    by (simp add: scheduler_round_def task_stack_intact_def Let_def example_sys_def example_task_def)
  then obtain s1 where s1: "scheduler_round X86_64 1 ?s = Some (Dispatch 32, s1)" "resume_at s1 = resume_at ?s" by auto
  have "resume_task 32 s1 = Some s1" using s1(2) by (simp add: resume_task_def example_sys_def)
  then show ?thesis using sched_step.dispatch [OF _ s1(1)] by (auto simp: example_sys_def)
qed

text \<open>C17. However the events interleave, the run queue stays a ring of known tasks, exactly the current task is
  running, no task leaves the queue, and a task that has exited is never dispatched again and stays dead.\<close>

theorem sched_exclusive:
  assumes "sys_inv s ts" "sched_run a es s s'"
  shows "\<exists>ts'. sys_inv s' ts' \<and> set ts \<subseteq> set ts' \<and>
    (\<forall>t \<in> set ts. st_of s t = TASK_DEAD \<longrightarrow> st_of s' t = TASK_DEAD \<and> Ev_dispatch t \<notin> set es)"
proof (intro exI conjI)
  show "sys_inv s' (fold queue_after es ts)" by (rule run_inv [OF assms(2,1)])
  show "set ts \<subseteq> set (fold queue_after es ts)"
    by (rule fold_queue_mono)
  show "\<forall>t \<in> set ts. st_of s t = TASK_DEAD \<longrightarrow> st_of s' t = TASK_DEAD \<and> Ev_dispatch t \<notin> set es"
    using dead_run [OF assms(2,1)] by blast
qed

theorem sched_exclusive_witness:
  "\<exists>s' ts'. sched_run X86_64 [Ev_exit] (example_sys TASK_DEAD TASK_RUNNING 32) s' \<and> sys_inv s' ts' \<and> st_of s' 16 = TASK_DEAD"
proof -
  let ?s = "example_sys TASK_DEAD TASK_RUNNING 32"
  obtain s' where r: "sched_run X86_64 [Ev_exit] ?s s'" using example_exit run_cons run_nil by meson
  have "st_of ?s 16 = TASK_DEAD" by (simp add: st_of_def example_sys_def example_task_def)
  then show ?thesis using sched_exclusive [OF example_inv r] r by fastforce
qed



text \<open>C19. Sleep and wakeup. A task that goes to sleep on a channel is not dispatched and stays blocked through every
  event other than a wakeup on that channel, and the first such wakeup makes it ready.\<close>

theorem sleep_until_wakeup:
  assumes inv: "sys_inv s ts" and sl: "sched_step a (Ev_sleep chan lk) s s1" and run: "sched_run a es s1 s2"
    and nw: "Ev_wakeup chan \<notin> set es" and wk: "sched_step a (Ev_wakeup chan) s2 s3"
  shows "st_of s2 (current s) = TASK_BLOCKED \<and> Ev_dispatch (current s) \<notin> set es \<and> st_of s3 (current s) = TASK_READY"
proof -
  let ?t = "current s"
  have c: "?t \<noteq> 0" "chan \<noteq> 0" using sl by (auto elim!: sleepE simp: sleep_def split: if_splits)
  have t: "?t \<in> set ts" by (rule sys_invD(3) [OF inv c(1)])
  have inv1: "sys_inv s1 ts" using step_inv [OF sl inv] by simp
  have b1: "st_of s1 ?t = TASK_BLOCKED" using step_states(1) [OF sl inv t] by simp
  have ch: "chan_of s1 ?t = chan" by (rule sleep_chan [OF sl])
  have b2: "st_of s2 ?t = TASK_BLOCKED" "chan_of s2 ?t = chan" "Ev_dispatch ?t \<notin> set es"
    using blocked_run [OF run inv1 t b1] ch nw by auto
  have inv2: "sys_inv s2 (fold queue_after es ts)" by (rule run_inv [OF run inv1])
  have "?t \<in> set (fold queue_after es ts)" using t fold_queue_mono by blast
  then have "st_of s3 ?t = TASK_READY" using step_states(1) [OF wk inv2] b2 c(2) by simp
  then show ?thesis using b2 by simp
qed

theorem sleep_until_wakeup_witness:
  "\<exists>s1 s3. sched_step X86_64 (Ev_sleep 7 9) (example_sys TASK_DEAD TASK_RUNNING 32) s1 \<and>
     sched_step X86_64 (Ev_wakeup 7) s1 s3 \<and> st_of s1 32 = TASK_BLOCKED \<and> st_of s3 32 = TASK_READY"
proof -
  let ?s = "example_sys TASK_DEAD TASK_RUNNING 32"
  have inv: "sys_inv ?s [16, 32]" by (rule example_inv) simp_all
  obtain s1 where s1: "sched_step X86_64 (Ev_sleep 7 9) ?s s1" using example_sleep by auto
  obtain s3 where "wakeup 7 s1 = Some s3" using wakeup_woken [OF sys_invD(1) [OF step_inv [OF s1 inv]]] by auto
  then have s3: "sched_step X86_64 (Ev_wakeup 7) s1 s3" by (rule sched_step.wakeup)
  have "current ?s = 32" by (simp add: example_sys_def)
  then show ?thesis using sleep_until_wakeup [OF inv s1 run_nil _ s3] s1 s3 by auto
qed

text \<open>C28. The scheduler's decision. If no kernel stack is overrun, a round of the scheduler returns, and it decides
  what the specification over the list of tasks decides: dispatch the first ready task behind the cursor, idle if
  there is none but some task is alive, and shut down exactly when all tasks are dead.\<close>

theorem scheduler_decides:
  assumes inv: "sys_inv s ts" and ok: "\<forall>t \<in> set ts. task_stack_intact s t = Some True"
  shows "map_option fst (scheduler_round a sp s) = Some (case List.find (ready s) (scan s ts) of
      Some t \<Rightarrow> Dispatch t
    | None \<Rightarrow> if \<exists>t \<in> set ts. st_of s t \<noteq> TASK_DEAD then Idle else Shutdown)"
proof (cases "List.find (ready s) (scan s ts)")
  case None
  then show ?thesis
    using pick_scan [OF inv] any_alive [OF sys_invD(1) [OF inv]] by (simp add: scheduler_round_def)
next
  case (Some t)
  then have t: "t \<in> set ts" using set_scan [OF inv] nth_mem [of _ "scan s ts"] by (auto simp: find_Some_iff)
  then have "t \<noteq> 0" "tasks s t \<noteq> None" using sys_invD(1) [OF inv] ring_task [OF sys_invD(1) [OF inv] t] by (auto simp: ring_def)
  moreover have "task_stack_intact (s\<lparr>cursor := t\<rparr>) t = Some True"
    using bspec [OF ok t] by (simp add: task_stack_intact_def split: if_splits)
  ultimately show ?thesis using Some pick_scan [OF inv] by (auto simp: scheduler_round_def Let_def)
qed

theorem scheduler_decides_witness:
  "map_option fst (scheduler_round AArch64 1 (example_sys TASK_READY TASK_READY 0)) = Some (Dispatch 32) \<and>
   map_option fst (scheduler_round AArch64 1 (example_sys TASK_BLOCKED TASK_DEAD 0)) = Some Idle \<and>
   map_option fst (scheduler_round AArch64 1 (example_sys TASK_DEAD TASK_DEAD 0)) = Some Shutdown"
proof -
  have ok: "\<forall>t \<in> set [16, 32]. task_stack_intact (example_sys st1 st2 0) t = Some True" for st1 st2
    by (simp add: task_stack_intact_def example_sys_def example_task_def)
  have r: "st_of (example_sys st1 st2 0) 16 = st1" "st_of (example_sys st1 st2 0) 32 = st2"
    "scan (example_sys st1 st2 0) [16, 32] = [32, 16]" for st1 st2
    by (simp_all add: st_of_def scan_def pick_order_def example_sys_def example_task_def)
  show ?thesis
    using scheduler_decides [OF example_inv [of TASK_READY TASK_READY 0] ok, of AArch64 1]
      scheduler_decides [OF example_inv [of TASK_BLOCKED TASK_DEAD 0] ok, of AArch64 1]
      scheduler_decides [OF example_inv [of TASK_DEAD TASK_DEAD 0] ok, of AArch64 1]
    by (simp add: r)
qed

end
