(* ===== verification/Fb_Font.thy ===== *)
theory Fb_Font
  imports Kmemory
begin

text \<open>
  The font of \<^verbatim>\<open>kernel/src/core/fb.c\<close>: sixteen rows of eight pixels per character, the leftmost pixel in
  the highest bit. Characters the table does not name are blank.
\<close>

definition font_glyphs :: "(u8 \<times> u8 list) list" where
  "font_glyphs =
   [(32, [0, 0, 0, 0, 0, 0, 0, 0, 0, 0, 0, 0, 0, 0, 0, 0]),
    (33, [0, 0, 0x18, 0x3C, 0x3C, 0x3C, 0x18, 0x18, 0x18, 0, 0x18, 0x18, 0, 0, 0, 0]),
    (34, [0, 0, 0x66, 0x66, 0x66, 0x24, 0, 0, 0, 0, 0, 0, 0, 0, 0, 0]),
    (35, [0, 0, 0x6C, 0x6C, 0xFE, 0x6C, 0x6C, 0xFE, 0x6C, 0x6C, 0, 0, 0, 0, 0, 0]),
    (36, [0, 0x18, 0x3E, 0x60, 0x3C, 0x06, 0x7C, 0x18, 0, 0, 0, 0, 0, 0, 0, 0]),
    (37, [0, 0, 0, 0x62, 0x66, 0x0C, 0x18, 0x30, 0x66, 0x46, 0, 0, 0, 0, 0, 0]),
    (38, [0, 0, 0x38, 0x6C, 0x38, 0x76, 0xDC, 0xCC, 0x76, 0, 0, 0, 0, 0, 0, 0]),
    (39, [0, 0, 0x30, 0x30, 0x18, 0, 0, 0, 0, 0, 0, 0, 0, 0, 0, 0]),
    (40, [0, 0, 0x0C, 0x18, 0x30, 0x30, 0x30, 0x30, 0x18, 0x0C, 0, 0, 0, 0, 0, 0]),
    (41, [0, 0, 0x30, 0x18, 0x0C, 0x0C, 0x0C, 0x0C, 0x18, 0x30, 0, 0, 0, 0, 0, 0]),
    (42, [0, 0, 0, 0x66, 0x3C, 0xFF, 0x3C, 0x66, 0, 0, 0, 0, 0, 0, 0, 0]),
    (43, [0, 0, 0, 0x18, 0x18, 0x7E, 0x18, 0x18, 0, 0, 0, 0, 0, 0, 0, 0]),
    (44, [0, 0, 0, 0, 0, 0, 0, 0x18, 0x18, 0x18, 0x30, 0, 0, 0, 0, 0]),
    (45, [0, 0, 0, 0, 0, 0x7E, 0, 0, 0, 0, 0, 0, 0, 0, 0, 0]),
    (46, [0, 0, 0, 0, 0, 0, 0, 0x18, 0x18, 0, 0, 0, 0, 0, 0, 0]),
    (47, [0, 0, 0x06, 0x0C, 0x18, 0x30, 0x60, 0xC0, 0x80, 0, 0, 0, 0, 0, 0, 0]),
    (48, [0, 0, 0x3E, 0x63, 0x6B, 0x73, 0x63, 0x3E, 0, 0, 0, 0, 0, 0, 0, 0]),
    (49, [0, 0, 0x18, 0x38, 0x18, 0x18, 0x18, 0x7E, 0, 0, 0, 0, 0, 0, 0, 0]),
    (50, [0, 0, 0x3C, 0x66, 0x0C, 0x18, 0x30, 0x7E, 0, 0, 0, 0, 0, 0, 0, 0]),
    (51, [0, 0, 0x7E, 0x0C, 0x18, 0x0C, 0x66, 0x3C, 0, 0, 0, 0, 0, 0, 0, 0]),
    (52, [0, 0, 0x0C, 0x1C, 0x3C, 0x6C, 0xFE, 0x0C, 0, 0, 0, 0, 0, 0, 0, 0]),
    (53, [0, 0, 0x7E, 0x60, 0x7C, 0x06, 0x66, 0x3C, 0, 0, 0, 0, 0, 0, 0, 0]),
    (54, [0, 0, 0x3C, 0x60, 0x7C, 0x66, 0x66, 0x3C, 0, 0, 0, 0, 0, 0, 0, 0]),
    (55, [0, 0, 0x7E, 0x06, 0x0C, 0x18, 0x30, 0x30, 0, 0, 0, 0, 0, 0, 0, 0]),
    (56, [0, 0, 0x3C, 0x66, 0x3C, 0x66, 0x66, 0x3C, 0, 0, 0, 0, 0, 0, 0, 0]),
    (57, [0, 0, 0x3C, 0x66, 0x3E, 0x06, 0x0C, 0x38, 0, 0, 0, 0, 0, 0, 0, 0]),
    (58, [0, 0, 0, 0x18, 0x18, 0, 0x18, 0x18, 0, 0, 0, 0, 0, 0, 0, 0]),
    (59, [0, 0, 0, 0x18, 0x18, 0, 0x18, 0x18, 0x30, 0, 0, 0, 0, 0, 0, 0]),
    (60, [0, 0, 0x0C, 0x18, 0x30, 0x60, 0x30, 0x18, 0x0C, 0, 0, 0, 0, 0, 0, 0]),
    (61, [0, 0, 0, 0x7E, 0, 0x7E, 0, 0, 0, 0, 0, 0, 0, 0, 0, 0]),
    (62, [0, 0, 0x30, 0x18, 0x0C, 0x06, 0x0C, 0x18, 0x30, 0, 0, 0, 0, 0, 0, 0]),
    (63, [0, 0, 0x3C, 0x66, 0x0C, 0x18, 0x18, 0, 0x18, 0, 0, 0, 0, 0, 0, 0]),
    (64, [0, 0, 0x3C, 0x66, 0x6E, 0x6E, 0x60, 0x3E, 0, 0, 0, 0, 0, 0, 0, 0]),
    (65, [0, 0, 0x18, 0x3C, 0x66, 0x66, 0x7E, 0x66, 0x66, 0x66, 0, 0, 0, 0, 0, 0]),
    (66, [0, 0, 0x7C, 0x66, 0x66, 0x7C, 0x66, 0x66, 0x7C, 0, 0, 0, 0, 0, 0, 0]),
    (67, [0, 0, 0x3C, 0x66, 0x60, 0x60, 0x60, 0x66, 0x3C, 0, 0, 0, 0, 0, 0, 0]),
    (68, [0, 0, 0x78, 0x6C, 0x66, 0x66, 0x66, 0x6C, 0x78, 0, 0, 0, 0, 0, 0, 0]),
    (69, [0, 0, 0x7E, 0x60, 0x60, 0x7C, 0x60, 0x60, 0x7E, 0, 0, 0, 0, 0, 0, 0]),
    (70, [0, 0, 0x7E, 0x60, 0x60, 0x7C, 0x60, 0x60, 0x60, 0, 0, 0, 0, 0, 0, 0]),
    (71, [0, 0, 0x3C, 0x66, 0x60, 0x6E, 0x66, 0x66, 0x3E, 0, 0, 0, 0, 0, 0, 0]),
    (72, [0, 0, 0x66, 0x66, 0x66, 0x7E, 0x66, 0x66, 0x66, 0, 0, 0, 0, 0, 0, 0]),
    (73, [0, 0, 0x3E, 0x18, 0x18, 0x18, 0x18, 0x18, 0x3E, 0, 0, 0, 0, 0, 0, 0]),
    (74, [0, 0, 0x1E, 0x0C, 0x0C, 0x0C, 0x0C, 0x6C, 0x38, 0, 0, 0, 0, 0, 0, 0]),
    (75, [0, 0, 0x66, 0x6C, 0x78, 0x70, 0x78, 0x6C, 0x66, 0, 0, 0, 0, 0, 0, 0]),
    (76, [0, 0, 0x60, 0x60, 0x60, 0x60, 0x60, 0x60, 0x7E, 0, 0, 0, 0, 0, 0, 0]),
    (77, [0, 0, 0x63, 0x77, 0x7F, 0x6B, 0x63, 0x63, 0x63, 0, 0, 0, 0, 0, 0, 0]),
    (78, [0, 0, 0x66, 0x76, 0x7E, 0x7E, 0x6E, 0x66, 0x66, 0, 0, 0, 0, 0, 0, 0]),
    (79, [0, 0, 0x3C, 0x66, 0x66, 0x66, 0x66, 0x66, 0x3C, 0, 0, 0, 0, 0, 0, 0]),
    (80, [0, 0, 0x7C, 0x66, 0x66, 0x7C, 0x60, 0x60, 0x60, 0, 0, 0, 0, 0, 0, 0]),
    (81, [0, 0, 0x3C, 0x66, 0x66, 0x66, 0x66, 0x3C, 0x0E, 0, 0, 0, 0, 0, 0, 0]),
    (82, [0, 0, 0x7C, 0x66, 0x66, 0x7C, 0x78, 0x6C, 0x66, 0, 0, 0, 0, 0, 0, 0]),
    (83, [0, 0, 0x3C, 0x66, 0x30, 0x1C, 0x06, 0x66, 0x3C, 0, 0, 0, 0, 0, 0, 0]),
    (84, [0, 0, 0x7E, 0x18, 0x18, 0x18, 0x18, 0x18, 0x18, 0, 0, 0, 0, 0, 0, 0]),
    (85, [0, 0, 0x66, 0x66, 0x66, 0x66, 0x66, 0x66, 0x3C, 0, 0, 0, 0, 0, 0, 0]),
    (86, [0, 0, 0x66, 0x66, 0x66, 0x66, 0x66, 0x3C, 0x18, 0, 0, 0, 0, 0, 0, 0]),
    (87, [0, 0, 0x63, 0x63, 0x63, 0x6B, 0x7F, 0x77, 0x63, 0, 0, 0, 0, 0, 0, 0]),
    (88, [0, 0, 0x66, 0x66, 0x3C, 0x18, 0x3C, 0x66, 0x66, 0, 0, 0, 0, 0, 0, 0]),
    (89, [0, 0, 0x66, 0x66, 0x66, 0x3C, 0x18, 0x18, 0x18, 0, 0, 0, 0, 0, 0, 0]),
    (90, [0, 0, 0x7E, 0x06, 0x0C, 0x18, 0x30, 0x60, 0x7E, 0, 0, 0, 0, 0, 0, 0]),
    (91, [0, 0, 0x3C, 0x30, 0x30, 0x30, 0x30, 0x30, 0x3C, 0, 0, 0, 0, 0, 0, 0]),
    (92, [0, 0, 0x60, 0x30, 0x18, 0x0C, 0x06, 0x03, 0x01, 0, 0, 0, 0, 0, 0, 0]),
    (93, [0, 0, 0x3C, 0x0C, 0x0C, 0x0C, 0x0C, 0x0C, 0x3C, 0, 0, 0, 0, 0, 0, 0]),
    (94, [0, 0x18, 0x3C, 0x66, 0, 0, 0, 0, 0, 0, 0, 0, 0, 0, 0, 0]),
    (95, [0, 0, 0, 0, 0, 0, 0, 0, 0, 0xFF, 0, 0, 0, 0, 0, 0]),
    (96, [0, 0, 0x30, 0x18, 0x0C, 0, 0, 0, 0, 0, 0, 0, 0, 0, 0, 0]),
    (97, [0, 0, 0, 0, 0x3C, 0x06, 0x3E, 0x66, 0x3B, 0, 0, 0, 0, 0, 0, 0]),
    (98, [0, 0, 0x60, 0x60, 0x7C, 0x66, 0x66, 0x66, 0x7C, 0, 0, 0, 0, 0, 0, 0]),
    (99, [0, 0, 0, 0, 0x3C, 0x66, 0x60, 0x66, 0x3C, 0, 0, 0, 0, 0, 0, 0]),
    (100, [0, 0, 0x06, 0x06, 0x3E, 0x66, 0x66, 0x66, 0x3E, 0, 0, 0, 0, 0, 0, 0]),
    (101, [0, 0, 0, 0, 0x3C, 0x66, 0x7E, 0x60, 0x3C, 0, 0, 0, 0, 0, 0, 0]),
    (102, [0, 0, 0x1C, 0x30, 0x7C, 0x30, 0x30, 0x30, 0x30, 0, 0, 0, 0, 0, 0, 0]),
    (103, [0, 0, 0, 0, 0x3E, 0x66, 0x66, 0x3E, 0x06, 0x3C, 0, 0, 0, 0, 0, 0]),
    (104, [0, 0, 0x60, 0x60, 0x6C, 0x76, 0x66, 0x66, 0x66, 0, 0, 0, 0, 0, 0, 0]),
    (105, [0, 0, 0x18, 0, 0x38, 0x18, 0x18, 0x18, 0x3E, 0, 0, 0, 0, 0, 0, 0]),
    (106, [0, 0, 0x0C, 0, 0x1C, 0x0C, 0x0C, 0x0C, 0x0C, 0x6C, 0x38, 0, 0, 0, 0, 0]),
    (107, [0, 0, 0x60, 0x60, 0x66, 0x6C, 0x78, 0x6C, 0x66, 0, 0, 0, 0, 0, 0, 0]),
    (108, [0, 0, 0x38, 0x18, 0x18, 0x18, 0x18, 0x18, 0x3E, 0, 0, 0, 0, 0, 0, 0]),
    (109, [0, 0, 0, 0, 0x66, 0x7F, 0x7F, 0x6B, 0x63, 0, 0, 0, 0, 0, 0, 0]),
    (110, [0, 0, 0, 0, 0x7C, 0x66, 0x66, 0x66, 0x66, 0, 0, 0, 0, 0, 0, 0]),
    (111, [0, 0, 0, 0, 0x3C, 0x66, 0x66, 0x66, 0x3C, 0, 0, 0, 0, 0, 0, 0]),
    (112, [0, 0, 0, 0, 0x7C, 0x66, 0x66, 0x7C, 0x60, 0x60, 0, 0, 0, 0, 0, 0]),
    (113, [0, 0, 0, 0, 0x3E, 0x66, 0x66, 0x3E, 0x06, 0x06, 0, 0, 0, 0, 0, 0]),
    (114, [0, 0, 0, 0, 0x6E, 0x72, 0x60, 0x60, 0x60, 0, 0, 0, 0, 0, 0, 0]),
    (115, [0, 0, 0, 0, 0x3E, 0x60, 0x3C, 0x06, 0x7C, 0, 0, 0, 0, 0, 0, 0]),
    (116, [0, 0, 0x18, 0x18, 0x7E, 0x18, 0x18, 0x18, 0x0E, 0, 0, 0, 0, 0, 0, 0]),
    (117, [0, 0, 0, 0, 0x66, 0x66, 0x66, 0x66, 0x3E, 0, 0, 0, 0, 0, 0, 0]),
    (118, [0, 0, 0, 0, 0x66, 0x66, 0x66, 0x3C, 0x18, 0, 0, 0, 0, 0, 0, 0]),
    (119, [0, 0, 0, 0, 0x63, 0x6B, 0x7F, 0x3E, 0x36, 0, 0, 0, 0, 0, 0, 0]),
    (120, [0, 0, 0, 0, 0x66, 0x3C, 0x18, 0x3C, 0x66, 0, 0, 0, 0, 0, 0, 0]),
    (121, [0, 0, 0, 0, 0x66, 0x66, 0x66, 0x3E, 0x06, 0x3C, 0, 0, 0, 0, 0, 0]),
    (122, [0, 0, 0, 0, 0x7E, 0x0C, 0x18, 0x30, 0x7E, 0, 0, 0, 0, 0, 0, 0]),
    (123, [0, 0, 0x0E, 0x18, 0x18, 0x70, 0x18, 0x18, 0x0E, 0, 0, 0, 0, 0, 0, 0]),
    (124, [0, 0, 0x18, 0x18, 0x18, 0, 0x18, 0x18, 0x18, 0, 0, 0, 0, 0, 0, 0]),
    (125, [0, 0, 0x70, 0x18, 0x18, 0x0E, 0x18, 0x18, 0x70, 0, 0, 0, 0, 0, 0, 0]),
    (126, [0, 0, 0x3B, 0x6E, 0, 0, 0, 0, 0, 0, 0, 0, 0, 0, 0, 0])]"

definition font_8x16 :: "u8 \<Rightarrow> u8 list" where
  "font_8x16 c = (case map_of font_glyphs c of None \<Rightarrow> replicate 16 0 | Some glyph \<Rightarrow> glyph)"

lemma font_rows: "length (font_8x16 c) = 16"
proof -
  have "\<forall>p \<in> set font_glyphs. length (snd p) = 16" unfolding font_glyphs_def by simp
  then show ?thesis by (auto simp: font_8x16_def split: option.split dest!: map_of_SomeD)
qed

end
