(* ===== verification/Fb.thy ===== *)
theory Fb
  imports Fb_Font
begin

text \<open>
  The framebuffer terminal of \<^verbatim>\<open>kernel/src/core/fb.c\<close>: glyphs drawn pixel by pixel into the memory of the
  screen, colours set by ANSI escape sequences, lines scrolled by moving the memory. The framebuffer
  Limine describes is a parameter; the terminal's static variables are a record.
\<close>

section \<open>State\<close>

text \<open>The fields of \<^verbatim>\<open>struct limine_framebuffer\<close> the code uses.\<close>

record limine_framebuffer =
  fb_address :: u64
  fb_width :: u64
  fb_height :: u64
  fb_pitch :: u64

datatype fb_ansi_state = FB_ANSI_NORMAL | FB_ANSI_ESC | FB_ANSI_CSI

text \<open>\<^verbatim>\<open>ansi_param\<close> is a C \<^verbatim>\<open>int\<close>, kept as the 32-bit word it is stored in.\<close>

record fb_term =
  ansi_state :: fb_ansi_state
  ansi_param :: u32
  fg_color :: u32
  bg_color :: u32
  cursor_x :: u64
  cursor_y :: u64

definition fb_term_start :: fb_term where
  "fb_term_start = \<lparr>ansi_state = FB_ANSI_NORMAL, ansi_param = 0, fg_color = 0x00FFFFFF, bg_color = 0, cursor_x = 0, cursor_y = 0\<rparr>"

definition FONT_WIDTH :: u64 where "FONT_WIDTH = 8"
definition FONT_HEIGHT :: u64 where "FONT_HEIGHT = 16"

section \<open>Colours\<close>

definition fb_ansi_color :: "int \<Rightarrow> u32" where
  "fb_ansi_color code =
     (if code = 30 \<or> code = 40 then 0x00000000
      else if code = 31 \<or> code = 41 then 0x00AA0000
      else if code = 32 \<or> code = 42 then 0x0000AA00
      else if code = 33 \<or> code = 43 then 0x00AA5500
      else if code = 34 \<or> code = 44 then 0x000000AA
      else if code = 35 \<or> code = 45 then 0x00AA00AA
      else if code = 36 \<or> code = 46 then 0x0000AAAA
      else if code = 37 \<or> code = 47 then 0x00AAAAAA
      else if code = 90 \<or> code = 100 then 0x00555555
      else if code = 91 \<or> code = 101 then 0x00FF5555
      else if code = 92 \<or> code = 102 then 0x0055FF55
      else if code = 93 \<or> code = 103 then 0x00FFFF55
      else if code = 94 \<or> code = 104 then 0x005555FF
      else if code = 95 \<or> code = 105 then 0x00FF55FF
      else if code = 96 \<or> code = 106 then 0x0055FFFF
      else if code = 97 \<or> code = 107 then 0x00FFFFFF
      else 0x00FFFFFF)"

definition fb_ansi_apply :: "int \<Rightarrow> fb_term \<Rightarrow> fb_term" where
  "fb_ansi_apply code t =
     (if code = 0 then t\<lparr>fg_color := 0x00FFFFFF, bg_color := 0x00000000\<rparr>
      else if code \<ge> 30 \<and> code \<le> 37 then t\<lparr>fg_color := fb_ansi_color code\<rparr>
      else if code \<ge> 90 \<and> code \<le> 97 then t\<lparr>fg_color := fb_ansi_color code\<rparr>
      else if code \<ge> 40 \<and> code \<le> 47 then t\<lparr>bg_color := fb_ansi_color code\<rparr>
      else if code \<ge> 100 \<and> code \<le> 107 then t\<lparr>bg_color := fb_ansi_color code\<rparr>
      else t)"

section \<open>Pixels\<close>

text \<open>The \<open>i\<close>th 32-bit pixel of the screen.\<close>

definition set_pixel :: "limine_framebuffer \<Rightarrow> u64 \<Rightarrow> u32 \<Rightarrow> mem \<Rightarrow> mem" where
  "set_pixel fb i color m = store_bytes m (fb_address fb + 4 * i) (le_bytes 4 (ucast color))"

definition fb_put_pixel :: "limine_framebuffer \<Rightarrow> u64 \<Rightarrow> u64 \<Rightarrow> u32 \<Rightarrow> mem \<Rightarrow> mem" where
  "fb_put_pixel fb x y color m =
     (if x \<ge> fb_width fb \<or> y \<ge> fb_height fb then m
      else set_pixel fb (y * (fb_pitch fb div 4) + x) color m)"

definition fb_draw_dot :: "limine_framebuffer \<Rightarrow> u64 \<Rightarrow> u64 \<Rightarrow> u8 \<Rightarrow> u32 \<Rightarrow> u32 \<Rightarrow> nat \<Rightarrow> nat \<Rightarrow> mem \<Rightarrow> mem" where
  "fb_draw_dot fb x y byte fg bg row col m =
     (if drop_bit (7 - col) byte AND 1 \<noteq> 0 then fb_put_pixel fb (x + of_nat col) (y + of_nat row) fg m
      else if bg \<noteq> 0 then fb_put_pixel fb (x + of_nat col) (y + of_nat row) bg m
      else m)"

definition fb_draw_char :: "limine_framebuffer \<Rightarrow> u64 \<Rightarrow> u64 \<Rightarrow> u8 \<Rightarrow> u32 \<Rightarrow> u32 \<Rightarrow> mem \<Rightarrow> mem" where
  "fb_draw_char fb x y c fg bg m =
     (if c \<ge> 128 then m
      else fold (\<lambda>row. fold (fb_draw_dot fb x y (font_8x16 c ! row) fg bg row) [0..<8]) [0..<16] m)"

definition fb_clear :: "limine_framebuffer option \<Rightarrow> u32 \<Rightarrow> mem \<Rightarrow> mem" where
  "fb_clear fbo color m =
     (case fbo of
        None \<Rightarrow> m
      | Some fb \<Rightarrow> fold (\<lambda>i. set_pixel fb (of_nat i) color) [0..<unat (fb_pitch fb div 4 * fb_height fb)] m)"

text \<open>The argument is the first framebuffer of the boot loader's answer.\<close>

definition fb_init :: "limine_framebuffer \<Rightarrow> mem \<Rightarrow> limine_framebuffer option \<times> mem" where
  "fb_init fb m = (Some fb, fb_clear (Some fb) 0 m)"

section \<open>The terminal\<close>

definition terminal_scroll :: "limine_framebuffer \<Rightarrow> fb_term \<Rightarrow> mem \<Rightarrow> fb_term \<times> mem" where
  "terminal_scroll fb t m =
     (let line_bytes = FONT_HEIGHT * fb_pitch fb;
          bytes_to_copy = (fb_height fb - FONT_HEIGHT) * fb_pitch fb;
          m1 = memmove m (fb_address fb) (fb_address fb + line_bytes) bytes_to_copy;
          start_byte_offset = (fb_height fb - FONT_HEIGHT) * fb_pitch fb;
          bottom_strip_bytes = FONT_HEIGHT * fb_pitch fb;
          m2 = memset m1 (fb_address fb + start_byte_offset) 0 bottom_strip_bytes
      in (t\<lparr>cursor_y := fb_height fb - FONT_HEIGHT\<rparr>, m2))"

text \<open>Drawing, for a character that is not part of an escape sequence.\<close>

definition fb_terminal_draw :: "limine_framebuffer \<Rightarrow> u8 \<Rightarrow> fb_term \<Rightarrow> mem \<Rightarrow> fb_term \<times> mem" where
  "fb_terminal_draw fb c t m =
     (let (t1, m1) =
        (if c = 10 then (t\<lparr>cursor_x := 0, cursor_y := cursor_y t + FONT_HEIGHT\<rparr>, m)
         else let m1 = fb_draw_char fb (cursor_x t) (cursor_y t) c (fg_color t) (bg_color t) m;
                  t1 = t\<lparr>cursor_x := cursor_x t + FONT_WIDTH\<rparr>
              in (if cursor_x t1 + FONT_WIDTH > fb_width fb
                  then t1\<lparr>cursor_x := 0, cursor_y := cursor_y t1 + FONT_HEIGHT\<rparr> else t1, m1))
      in if cursor_y t1 + FONT_HEIGHT > fb_height fb then terminal_scroll fb t1 m1 else (t1, m1))"

definition fb_terminal_print_char :: "limine_framebuffer \<Rightarrow> u8 \<Rightarrow> fb_term \<times> mem \<Rightarrow> fb_term \<times> mem" where
  "fb_terminal_print_char fb c st =
     (case st of (t, m) \<Rightarrow>
      case ansi_state t of
        FB_ANSI_NORMAL \<Rightarrow>
          if c = 0x1B then (t\<lparr>ansi_state := FB_ANSI_ESC\<rparr>, m) else fb_terminal_draw fb c t m
      | FB_ANSI_ESC \<Rightarrow>
          if c = 91 then (t\<lparr>ansi_state := FB_ANSI_CSI, ansi_param := 0\<rparr>, m)
          else (t\<lparr>ansi_state := FB_ANSI_NORMAL\<rparr>, m)
      | FB_ANSI_CSI \<Rightarrow>
          if c \<ge> 48 \<and> c \<le> 57 then (t\<lparr>ansi_param := ansi_param t * 10 + (ucast c - 48)\<rparr>, m)
          else if c = 59 then ((fb_ansi_apply (sint (ansi_param t)) t)\<lparr>ansi_param := 0\<rparr>, m)
          else if c = 109 then ((fb_ansi_apply (sint (ansi_param t)) t)\<lparr>ansi_state := FB_ANSI_NORMAL\<rparr>, m)
          else (t\<lparr>ansi_state := FB_ANSI_NORMAL\<rparr>, m))"

definition fb_is_active :: "limine_framebuffer option \<Rightarrow> bool" where
  "fb_is_active fbo = (fbo \<noteq> None)"

section \<open>The console\<close>

text \<open>The serial port is a device; what is written to it is the list of its bytes.\<close>

record console =
  con_fb :: "limine_framebuffer option"
  con_term :: fb_term
  con_serial :: "u8 list"

definition serial_putc :: "u8 \<Rightarrow> console \<Rightarrow> console" where
  "serial_putc c k = k\<lparr>con_serial := con_serial k @ [c]\<rparr>"

definition console_putc :: "u8 \<Rightarrow> console \<times> mem \<Rightarrow> console \<times> mem" where
  "console_putc c st =
     (case st of (k, m) \<Rightarrow>
      let k1 = serial_putc c k in
      case con_fb k1 of
        None \<Rightarrow> (k1, m)
      | Some fb \<Rightarrow> case fb_terminal_print_char fb c (con_term k1, m) of (t, m1) \<Rightarrow> (k1\<lparr>con_term := t\<rparr>, m1))"

definition console_init :: "console \<times> mem \<Rightarrow> console \<times> mem" where
  "console_init st = console_putc 10 (console_putc 10 st)"

end
