(* ===== verification/Fb_Correct.thy ===== *)
theory Fb_Correct
  imports Fb
begin

text \<open>
  The terminal writes only to the screen, keeps its cursor where a whole character is visible, and draws
  the glyphs of the font.
\<close>

section \<open>Screens\<close>

text \<open>A framebuffer with 32-bit pixels that holds at least one character.\<close>

definition fb_ok :: "limine_framebuffer \<Rightarrow> bool" where
  "fb_ok fb \<longleftrightarrow> unat (fb_width fb) \<le> unat (fb_pitch fb) div 4 \<and> unat (fb_pitch fb) mod 4 = 0 \<and>
     16 \<le> unat (fb_height fb) \<and> 8 \<le> unat (fb_width fb) \<and>
     unat (fb_address fb) + unat (fb_pitch fb) * unat (fb_height fb) < 2 ^ 64"

definition screen :: "limine_framebuffer \<Rightarrow> u64 set" where
  "screen fb = extent (fb_address fb) (unat (fb_pitch fb) * unat (fb_height fb))"

definition cursor_ok :: "limine_framebuffer \<Rightarrow> fb_term \<Rightarrow> bool" where
  "cursor_ok fb t \<longleftrightarrow> unat (cursor_x t) + 8 \<le> unat (fb_width fb) \<and> unat (cursor_y t) + 16 \<le> unat (fb_height fb)"

text \<open>The pixel in column \<open>x\<close> of row \<open>y\<close>.\<close>

definition pixel_no :: "limine_framebuffer \<Rightarrow> nat \<Rightarrow> nat \<Rightarrow> nat" where
  "pixel_no fb x y = y * (unat (fb_pitch fb) div 4) + x"

definition px :: "limine_framebuffer \<Rightarrow> mem \<Rightarrow> nat \<Rightarrow> nat \<Rightarrow> u32" where
  "px fb m x y = ucast (le_word (load_bytes m (fb_address fb + of_nat (4 * pixel_no fb x y)) 4))"

lemma pixel_no_bound:
  assumes "fb_ok fb" "x < unat (fb_width fb)" "y < unat (fb_height fb)"
  shows "4 * pixel_no fb x y + 4 \<le> unat (fb_pitch fb) * unat (fb_height fb)"
proof -
  let ?p = "unat (fb_pitch fb) div 4"
  have "pixel_no fb x y + 1 \<le> y * ?p + ?p" using assms by (simp add: pixel_no_def fb_ok_def)
  also have "\<dots> = (y + 1) * ?p" by simp
  also have "\<dots> \<le> unat (fb_height fb) * ?p" using assms(3) by (intro mult_right_mono) simp_all
  finally have "4 * (pixel_no fb x y + 1) \<le> 4 * ?p * unat (fb_height fb)" by (simp add: algebra_simps)
  also have "\<dots> \<le> unat (fb_pitch fb) * unat (fb_height fb)" by (intro mult_right_mono) simp_all
  finally show ?thesis by simp
qed

lemma pixel_no_inject:
  assumes "x < p" "x' < (p :: nat)" "y * p + x = y' * p + x'"
  shows "x = x' \<and> y = y'"
proof -
  have "(y * p + x) mod p = x" "(y' * p + x') mod p = x'" "(y * p + x) div p = y" "(y' * p + x') div p = y'"
    using assms(1,2) by simp_all
  then show ?thesis using assms(3) by metis
qed

lemma set_pixel_word:
  assumes "fb_ok fb" "X < fb_width fb" "Y < fb_height fb"
  shows "set_pixel fb (Y * (fb_pitch fb div 4) + X) c m =
    store_bytes m (fb_address fb + of_nat (4 * pixel_no fb (unat X) (unat Y))) (le_bytes 4 (ucast c))"
proof -
  have p: "unat (fb_pitch fb div 4) = unat (fb_pitch fb) div 4" by (simp add: unat_div)
  have "4 * (Y * (fb_pitch fb div 4) + X) = of_nat (4 * pixel_no fb (unat X) (unat Y))"
    by (simp add: pixel_no_def p [symmetric])
  then show ?thesis by (simp add: set_pixel_def)
qed

lemma unat_offsets:
  assumes "i < 2 ^ 64" "j < 2 ^ 64"
  shows "unat ((a + of_nat j) - (a + of_nat i) :: u64) = (if i \<le> j then j - i else j + 2 ^ 64 - i)"
  using unat_shift [OF assms(1), of "a + of_nat j" a] assms(2) by (simp add: unat_of_nat_small)

lemma apart_offsets:
  assumes "i + n \<le> 2 ^ 64" "j + k \<le> 2 ^ 64" "i < 2 ^ 64" "j < 2 ^ 64" "i + n \<le> j \<or> j + k \<le> i" "0 < n" "0 < k"
  shows "apart (a + of_nat i) n (a + of_nat j) k"
  unfolding apart_def unat_offsets [OF assms(3,4)] unat_offsets [OF assms(4,3)] using assms by auto

lemma pixel_store:
  assumes "fb_ok fb" "X < unat (fb_width fb)" "Y < unat (fb_height fb)" "x < unat (fb_width fb)" "y < unat (fb_height fb)"
  shows "px fb (store_bytes m (fb_address fb + of_nat (4 * pixel_no fb X Y)) (le_bytes 4 (ucast c))) x y =
    (if x = X \<and> y = Y then c else px fb m x y)"
proof (cases "x = X \<and> y = Y")
  case True
  have "load_bytes (store_bytes m a (le_bytes 4 v)) a 4 = le_bytes 4 v" for a v
    using load_bytes_store_bytes_same [of "le_bytes 4 v"] by simp
  then have "px fb (store_bytes m (fb_address fb + of_nat (4 * pixel_no fb X Y)) (le_bytes 4 (ucast c))) x y =
    ucast (take_bit 32 (ucast c :: u64))" using True by (simp add: px_def le_word_le_bytes)
  also have "\<dots> = c" by (rule bit_eqI) (auto simp: bit_simps)
  finally show ?thesis using True by simp
next
  case False
  let ?p = "unat (fb_pitch fb) div 4" and ?i = "pixel_no fb X Y" and ?j = "pixel_no fb x y"
  have w: "x < ?p" "X < ?p" using assms by (auto simp: fb_ok_def)
  have ne: "?i \<noteq> ?j" using pixel_no_inject [OF w(2,1), of Y y] False unfolding pixel_no_def by blast
  have "unat (fb_pitch fb) * unat (fb_height fb) < 2 ^ 64" using assms(1) unfolding fb_ok_def by linarith
  then have b: "4 * ?i + 4 < 2 ^ 64" "4 * ?j + 4 < 2 ^ 64"
    using pixel_no_bound [OF assms(1,2,3)] pixel_no_bound [OF assms(1,4,5)] by linarith+
  have "apart (fb_address fb + of_nat (4 * ?i)) 4 (fb_address fb + of_nat (4 * ?j)) 4"
    using b ne by (intro apart_offsets) linarith+
  then have "load_bytes (store_bytes m (fb_address fb + of_nat (4 * ?i)) (le_bytes 4 (ucast c))) (fb_address fb + of_nat (4 * ?j)) 4 =
    load_bytes m (fb_address fb + of_nat (4 * ?j)) 4" by (intro load_bytes_store_bytes_apart) simp_all
  then show ?thesis using False unfolding px_def by (simp only: if_False)
qed

lemma put_pixel_px:
  assumes "fb_ok fb" "x < unat (fb_width fb)" "y < unat (fb_height fb)"
  shows "px fb (fb_put_pixel fb X Y c m) x y = (if x = unat X \<and> y = unat Y then c else px fb m x y)"
proof (cases "X < fb_width fb \<and> Y < fb_height fb")
  case True
  then show ?thesis using set_pixel_word [OF assms(1)] pixel_store [OF assms(1) _ _ assms(2,3)]
    by (simp add: fb_put_pixel_def word_less_nat_alt word_le_nat_alt not_le)
next
  case False
  then show ?thesis using assms by (auto simp: fb_put_pixel_def word_less_nat_alt word_le_nat_alt)
qed

lemma put_pixel_screen:
  assumes "fb_ok fb" "a \<notin> screen fb"
  shows "fb_put_pixel fb X Y c m a = m a"
proof (cases "X < fb_width fb \<and> Y < fb_height fb")
  case True
  let ?i = "pixel_no fb (unat X) (unat Y)"
  have b: "4 * ?i + 4 \<le> unat (fb_pitch fb) * unat (fb_height fb)" using pixel_no_bound [OF assms(1)] True by (simp add: word_less_nat_alt)
  then have "extent (fb_address fb + of_nat (4 * ?i)) 4 \<subseteq> screen fb"
    using assms(1) unfolding screen_def fb_ok_def by (intro extent_sub) auto
  then have "\<not> unat (a - (fb_address fb + of_nat (4 * ?i))) < 4" using assms(2) by (auto simp: extent_def)
  then show ?thesis using True set_pixel_word [OF assms(1)] by (simp add: fb_put_pixel_def store_bytes_apply word_less_nat_alt word_le_nat_alt not_le)
next
  case False
  then show ?thesis by (auto simp: fb_put_pixel_def not_less)
qed

section \<open>Glyphs\<close>

text \<open>The colour of a dot, drawn over the colour that was there.\<close>

definition dot_color :: "u8 \<Rightarrow> u32 \<Rightarrow> u32 \<Rightarrow> nat \<Rightarrow> u32 \<Rightarrow> u32" where
  "dot_color byte fg bg col old = (if bit byte (7 - col) then fg else if bg \<noteq> 0 then bg else old)"

lemma bit_and_1: "(drop_bit n (w :: 'a::len word) AND 1 \<noteq> 0) = bit w n"
  by (simp add: and_one_eq bit_iff_odd_drop_bit odd_iff_mod_2_eq_one)

lemma draw_dot_px:
  assumes "fb_ok fb" "x < unat (fb_width fb)" "y < unat (fb_height fb)"
    and "unat X + col < 2 ^ 64" "unat Y + row < 2 ^ 64"
  shows "px fb (fb_draw_dot fb X Y byte fg bg row col m) x y =
    (if x = unat X + col \<and> y = unat Y + row then dot_color byte fg bg col (px fb m x y) else px fb m x y)"
proof -
  have p: "px fb (fb_put_pixel fb (X + of_nat col) (Y + of_nat row) c m) x y =
    (if x = unat X + col \<and> y = unat Y + row then c else px fb m x y)" for c
    using put_pixel_px [OF assms(1-3), of "X + of_nat col" "Y + of_nat row" c m]
      unat_add_of_nat [OF assms(4)] unat_add_of_nat [OF assms(5)] by simp
  show ?thesis unfolding fb_draw_dot_def bit_and_1 if_distrib [of "\<lambda>m. px fb m x y"] p dot_color_def by simp
qed

lemma draw_row_px:
  assumes "fb_ok fb" "x < unat (fb_width fb)" "y < unat (fb_height fb)" "unat X + n < 2 ^ 64" "unat Y + row < 2 ^ 64"
  shows "px fb (fold (fb_draw_dot fb X Y byte fg bg row) [0..<n] m) x y =
    (if unat X \<le> x \<and> x < unat X + n \<and> y = unat Y + row then dot_color byte fg bg (x - unat X) (px fb m x y) else px fb m x y)"
  using assms(4)
proof (induction n)
  case (Suc n)
  then show ?case using draw_dot_px [OF assms(1-3) _ assms(5), of X n] by auto
qed auto

lemma draw_rows_px:
  assumes "fb_ok fb" "x < unat (fb_width fb)" "y < unat (fb_height fb)" "unat X + 8 < 2 ^ 64" "unat Y + n < 2 ^ 64"
  shows "px fb (fold (\<lambda>row. fold (fb_draw_dot fb X Y (glyph ! row) fg bg row) [0..<8]) [0..<n] m) x y =
    (if unat X \<le> x \<and> x < unat X + 8 \<and> unat Y \<le> y \<and> y < unat Y + n
     then dot_color (glyph ! (y - unat Y)) fg bg (x - unat X) (px fb m x y) else px fb m x y)"
  using assms(5)
proof (induction n)
  case (Suc n)
  let ?m = "fold (\<lambda>row. fold (fb_draw_dot fb X Y (glyph ! row) fg bg row) [0..<8]) [0..<n] m"
  have "px fb (fold (fb_draw_dot fb X Y (glyph ! n) fg bg n) [0..<8] ?m) x y =
    (if unat X \<le> x \<and> x < unat X + 8 \<and> y = unat Y + n then dot_color (glyph ! n) fg bg (x - unat X) (px fb ?m x y) else px fb ?m x y)"
    using Suc.prems by (intro draw_row_px [OF assms(1-4)]) simp
  then show ?case using Suc by (auto simp del: upt.simps simp: upt_Suc_append)
qed auto

text \<open>The cell of a character after drawing it.\<close>

lemma draw_char_px:
  assumes "fb_ok fb" "x < unat (fb_width fb)" "y < unat (fb_height fb)" "c < 128"
    and "unat X + 8 \<le> unat (fb_width fb)" "unat Y + 16 \<le> unat (fb_height fb)"
  shows "px fb (fb_draw_char fb X Y c fg bg m) x y =
    (if unat X \<le> x \<and> x < unat X + 8 \<and> unat Y \<le> y \<and> y < unat Y + 16
     then dot_color (font_8x16 c ! (y - unat Y)) fg bg (x - unat X) (px fb m x y) else px fb m x y)"
proof -
  have "unat X + 8 < 2 ^ 64" "unat Y + 16 < 2 ^ 64"
    using assms(5,6) unat_lt_u64 [of "fb_width fb"] unat_lt_u64 [of "fb_height fb"] by simp_all
  from draw_rows_px [OF assms(1-3) this, of "font_8x16 c"] show ?thesis
    using assms(4) by (simp add: fb_draw_char_def not_le [symmetric] del: upt.simps)
qed

lemma fold_keeps: "(\<And>x m. f x m a = m a) \<Longrightarrow> fold f xs m a = (m a :: u8)"
  by (induction xs arbitrary: m) simp_all

lemma draw_char_screen:
  assumes "fb_ok fb" "a \<notin> screen fb"
  shows "fb_draw_char fb X Y c fg bg m a = m a"
proof -
  have "fb_draw_dot fb X Y byte fg bg row col m a = m a" for byte row col m
    by (simp add: fb_draw_dot_def put_pixel_screen [OF assms])
  then have d: "fold (fb_draw_dot fb X Y byte fg bg row) cols m a = m a" for byte row cols m by (rule fold_keeps)
  have "fold (\<lambda>row. fold (fb_draw_dot fb X Y (font_8x16 c ! row) fg bg row) [0..<8]) rows m a = m a" for rows m
    by (rule fold_keeps) (rule d)
  then show ?thesis by (simp add: fb_draw_char_def)
qed

section \<open>Scrolling\<close>

lemma scroll_sizes:
  assumes "fb_ok fb"
  shows "unat (FONT_HEIGHT * fb_pitch fb) = 16 * unat (fb_pitch fb)"
    "unat ((fb_height fb - FONT_HEIGHT) * fb_pitch fb) = (unat (fb_height fb) - 16) * unat (fb_pitch fb)"
    "unat (fb_height fb - FONT_HEIGHT) = unat (fb_height fb) - 16"
    "unat (fb_address fb + FONT_HEIGHT * fb_pitch fb) = unat (fb_address fb) + 16 * unat (fb_pitch fb)"
    "16 * unat (fb_pitch fb) + (unat (fb_height fb) - 16) * unat (fb_pitch fb) = unat (fb_pitch fb) * unat (fb_height fb)"
proof -
  let ?p = "unat (fb_pitch fb)" and ?h = "unat (fb_height fb)"
  have ok: "16 \<le> ?h" "unat (fb_address fb) + ?p * ?h < 2 ^ 64" using assms by (simp_all add: fb_ok_def)
  show h: "unat (fb_height fb - FONT_HEIGHT) = ?h - 16"
    using ok(1) by (simp add: FONT_HEIGHT_def unat_sub word_le_nat_alt)
  show sum: "16 * ?p + (?h - 16) * ?p = ?p * ?h"
  proof -
    have "16 * ?p + (?h - 16) * ?p = (16 + (?h - 16)) * ?p" by (simp only: distrib_right)
    then show ?thesis using ok(1) by (simp add: mult.commute)
  qed
  then show f: "unat (FONT_HEIGHT * fb_pitch fb) = 16 * ?p"
    using ok(2) by (simp add: FONT_HEIGHT_def unat_word_ariths)
  show "unat ((fb_height fb - FONT_HEIGHT) * fb_pitch fb) = (?h - 16) * ?p"
    using ok(2) sum h by (simp add: unat_word_ariths(2))
  show "unat (fb_address fb + FONT_HEIGHT * fb_pitch fb) = unat (fb_address fb) + 16 * ?p"
    using ok(2) sum f unat_add_u64 [of "fb_address fb" "FONT_HEIGHT * fb_pitch fb"] by simp
qed

text \<open>Scrolling moves the screen up by one line of text and blanks the last one.\<close>

lemma scroll_apply:
  assumes ok: "fb_ok fb"
  shows "snd (terminal_scroll fb t m) a =
    (let k = unat (a - fb_address fb); p = unat (fb_pitch fb); h = unat (fb_height fb)
     in if k < (h - 16) * p then m (fb_address fb + FONT_HEIGHT * fb_pitch fb + (a - fb_address fb))
        else if k < p * h then 0 else m a)"
proof -
  note sz = scroll_sizes [OF ok]
  let ?p = "unat (fb_pitch fb)" and ?h = "unat (fb_height fb)" and ?k = "unat (a - fb_address fb)"
  let ?o = "(fb_height fb - FONT_HEIGHT) * fb_pitch fb"
  have lim: "unat (fb_address fb) + ?p * ?h < 2 ^ 64" using ok by (simp add: fb_ok_def)
  have mv: "memmove m (fb_address fb) (fb_address fb + FONT_HEIGHT * fb_pitch fb) ?o x =
    (if unat (x - fb_address fb) < (?h - 16) * ?p then m (fb_address fb + FONT_HEIGHT * fb_pitch fb + (x - fb_address fb)) else m x)" for x
    using lim sz by (subst memmove_apply) simp_all
  have o: "fb_address fb + ?o = fb_address fb + of_nat ((?h - 16) * ?p)" unfolding sz(2) [symmetric] by simp
  have lo: "(?h - 16) * ?p < 2 ^ 64" using lim sz(5) by linarith
  have "unat (a - (fb_address fb + ?o)) < 16 * ?p \<longleftrightarrow> (?h - 16) * ?p \<le> ?k \<and> ?k < ?p * ?h"
    unfolding o unat_shift [OF lo] using lim sz(5) unat_lt_u64 [of "a - fb_address fb"] by auto
  then show ?thesis using mv by (auto simp: terminal_scroll_def Let_def memset_apply sz(1))
qed

lemma scroll_screen: "fb_ok fb \<Longrightarrow> a \<notin> screen fb \<Longrightarrow> snd (terminal_scroll fb t m) a = m a"
proof -
  assume ok: "fb_ok fb" and a: "a \<notin> screen fb"
  have "(unat (fb_height fb) - 16) * unat (fb_pitch fb) \<le> unat (fb_pitch fb) * unat (fb_height fb)"
    using scroll_sizes(5) [OF ok] by linarith
  moreover have "\<not> unat (a - fb_address fb) < unat (fb_pitch fb) * unat (fb_height fb)"
    using a by (simp add: screen_def extent_def)
  ultimately have "\<not> unat (a - fb_address fb) < (unat (fb_height fb) - 16) * unat (fb_pitch fb)" by linarith
  with \<open>\<not> unat (a - fb_address fb) < unat (fb_pitch fb) * unat (fb_height fb)\<close> show ?thesis
    by (simp add: scroll_apply [OF ok] Let_def)
qed

lemma scroll_cursor:
  "fb_ok fb \<Longrightarrow> fst (terminal_scroll fb t m) = t\<lparr>cursor_y := fb_height fb - FONT_HEIGHT\<rparr>"
  by (simp add: terminal_scroll_def Let_def)

section \<open>The terminal\<close>

lemma fb_small:
  assumes "fb_ok fb"
  shows "unat (fb_width fb) < 2 ^ 62" "unat (fb_height fb) < 2 ^ 62"
proof -
  let ?p = "unat (fb_pitch fb)" and ?h = "unat (fb_height fb)"
  have ok: "unat (fb_width fb) \<le> ?p div 4" "8 \<le> unat (fb_width fb)" "?p * ?h < 2 ^ 64"
    using assms unfolding fb_ok_def by linarith+
  have "?p div 4 < 2 ^ 62" using unat_lt_u64 [of "fb_pitch fb"] by simp
  then show "unat (fb_width fb) < 2 ^ 62" using ok(1) by simp
  have "4 * ?h \<le> ?p * ?h" using ok(1,2) by (intro mult_right_mono) simp_all
  then have "4 * ?h < 2 ^ 64" using ok(3) by (rule le_less_trans)
  then show "?h < 2 ^ 62" by simp
qed

lemma draw_step:
  assumes ok: "fb_ok fb" and t: "cursor_ok fb t"
  shows "cursor_ok fb (fst (fb_terminal_draw fb c t m))" "a \<notin> screen fb \<Longrightarrow> snd (fb_terminal_draw fb c t m) a = m a"
proof -
  note sm = fb_small [OF ok]
  have wh: "8 \<le> unat (fb_width fb)" "16 \<le> unat (fb_height fb)" using ok by (simp_all add: fb_ok_def)
  have x: "unat (cursor_x t) + 8 \<le> unat (fb_width fb)" and y: "unat (cursor_y t) + 16 \<le> unat (fb_height fb)"
    using t by (simp_all add: cursor_ok_def)
  have u: "unat (cursor_x t + FONT_WIDTH) = unat (cursor_x t) + 8"
    "unat (cursor_x t + FONT_WIDTH + FONT_WIDTH) = unat (cursor_x t) + 16"
    "unat (cursor_y t + FONT_HEIGHT) = unat (cursor_y t) + 16"
    "unat (cursor_y t + FONT_HEIGHT + FONT_HEIGHT) = unat (cursor_y t) + 32"
    using x y sm by (simp_all add: FONT_WIDTH_def FONT_HEIGHT_def unat_add_u64)
  have h: "unat (fb_height fb - FONT_HEIGHT) = unat (fb_height fb) - 16" by (rule scroll_sizes(3) [OF ok])
  show "cursor_ok fb (fst (fb_terminal_draw fb c t m))"
    using x y wh u h by (auto simp: fb_terminal_draw_def Let_def cursor_ok_def scroll_cursor [OF ok] word_less_nat_alt
        split: prod.split)
  show "snd (fb_terminal_draw fb c t m) a = m a" if "a \<notin> screen fb"
    using scroll_screen [OF ok that] draw_char_screen [OF ok that] by (auto simp: fb_terminal_draw_def Let_def)
qed

lemma print_step:
  assumes ok: "fb_ok fb" and t: "cursor_ok fb t" and st: "st = (t, m)"
  shows "cursor_ok fb (fst (fb_terminal_print_char fb c st))"
    "a \<notin> screen fb \<Longrightarrow> snd (fb_terminal_print_char fb c st) a = m a"
proof -
  have ap: "cursor_x (fb_ansi_apply code t) = cursor_x t" "cursor_y (fb_ansi_apply code t) = cursor_y t" for code
    by (simp_all add: fb_ansi_apply_def)
  show "cursor_ok fb (fst (fb_terminal_print_char fb c st))"
    using t draw_step(1) [OF ok t] by (simp add: st fb_terminal_print_char_def cursor_ok_def ap split: fb_ansi_state.split)
  show "snd (fb_terminal_print_char fb c st) a = m a" if "a \<notin> screen fb"
    using draw_step(2) [OF ok t that] by (simp add: st fb_terminal_print_char_def split: fb_ansi_state.split)
qed

lemma print_string:
  assumes ok: "fb_ok fb"
  shows "cursor_ok fb t \<Longrightarrow> cursor_ok fb (fst (fold (fb_terminal_print_char fb) cs (t, m))) \<and>
    (\<forall>a. a \<notin> screen fb \<longrightarrow> snd (fold (fb_terminal_print_char fb) cs (t, m)) a = m a)"
proof (induction cs arbitrary: t m)
  case (Cons c cs)
  obtain t1 m1 where tm: "fb_terminal_print_char fb c (t, m) = (t1, m1)" by (cases "fb_terminal_print_char fb c (t, m)")
  have "cursor_ok fb t1" "\<And>a. a \<notin> screen fb \<Longrightarrow> m1 a = m a"
    using print_step [OF ok Cons.prems refl, where m = m and c = c] by (simp_all add: tm)
  then show ?case using Cons.IH [of t1 m1] by (simp add: tm)
qed simp

lemma print_glyph:
  assumes ok: "fb_ok fb" and t: "cursor_ok fb t" "ansi_state t = FB_ANSI_NORMAL"
    and c: "32 \<le> c" "c < 128" and room: "unat (cursor_x t) + 16 \<le> unat (fb_width fb)"
  shows "fb_terminal_print_char fb c (t, m) =
    (t\<lparr>cursor_x := cursor_x t + 8\<rparr>, fb_draw_char fb (cursor_x t) (cursor_y t) c (fg_color t) (bg_color t) m)"
proof -
  note sm = fb_small [OF ok]
  have "c \<noteq> 10" "c \<noteq> 0x1B" using c by (auto simp: word_le_nat_alt)
  moreover have "unat (16 + cursor_x t) = unat (cursor_x t) + 16" using room sm by (simp add: unat_add_u64)
  moreover have "unat (16 + cursor_y t) = unat (cursor_y t) + 16" using t(1) sm by (simp add: unat_add_u64 cursor_ok_def)
  ultimately show ?thesis using t room
    by (simp add: fb_terminal_print_char_def fb_terminal_draw_def Let_def FONT_WIDTH_def FONT_HEIGHT_def word_less_nat_alt cursor_ok_def
        add.commute)
qed

text \<open>C29. Whatever is printed, the terminal writes only to the memory of the screen and leaves the cursor where a
  whole character fits. A printable character that does not end the line appears in the cell at the cursor as the
  font draws it, every other pixel keeps its colour, and the cursor moves by one character.\<close>

theorem fb_terminal_sound:
  assumes "fb_ok fb" "cursor_ok fb t"
  shows "cursor_ok fb (fst (fold (fb_terminal_print_char fb) cs (t, m))) \<and>
    (\<forall>a. a \<notin> screen fb \<longrightarrow> snd (fold (fb_terminal_print_char fb) cs (t, m)) a = m a) \<and>
    (ansi_state t = FB_ANSI_NORMAL \<and> 32 \<le> c \<and> c < 128 \<and> unat (cursor_x t) + 16 \<le> unat (fb_width fb) \<longrightarrow>
      (\<exists>m'. fb_terminal_print_char fb c (t, m) = (t\<lparr>cursor_x := cursor_x t + 8\<rparr>, m') \<and>
        (\<forall>x < unat (fb_width fb). \<forall>y < unat (fb_height fb). px fb m' x y =
          (if unat (cursor_x t) \<le> x \<and> x < unat (cursor_x t) + 8 \<and> unat (cursor_y t) \<le> y \<and> y < unat (cursor_y t) + 16
           then dot_color (font_8x16 c ! (y - unat (cursor_y t))) (fg_color t) (bg_color t) (x - unat (cursor_x t)) (px fb m x y)
           else px fb m x y))))"
proof (intro conjI impI)
  show "cursor_ok fb (fst (fold (fb_terminal_print_char fb) cs (t, m)))"
    "\<forall>a. a \<notin> screen fb \<longrightarrow> snd (fold (fb_terminal_print_char fb) cs (t, m)) a = m a"
    using print_string [OF assms] by blast+
  assume n: "ansi_state t = FB_ANSI_NORMAL \<and> 32 \<le> c \<and> c < 128 \<and> unat (cursor_x t) + 16 \<le> unat (fb_width fb)"
  then have p: "fb_terminal_print_char fb c (t, m) =
    (t\<lparr>cursor_x := cursor_x t + 8\<rparr>, fb_draw_char fb (cursor_x t) (cursor_y t) c (fg_color t) (bg_color t) m)"
    by (intro print_glyph [OF assms]) auto
  have cu: "unat (cursor_x t) + 8 \<le> unat (fb_width fb)" "unat (cursor_y t) + 16 \<le> unat (fb_height fb)"
    using assms(2) by (simp_all add: cursor_ok_def)
  show "\<exists>m'. fb_terminal_print_char fb c (t, m) = (t\<lparr>cursor_x := cursor_x t + 8\<rparr>, m') \<and>
    (\<forall>x < unat (fb_width fb). \<forall>y < unat (fb_height fb). px fb m' x y =
      (if unat (cursor_x t) \<le> x \<and> x < unat (cursor_x t) + 8 \<and> unat (cursor_y t) \<le> y \<and> y < unat (cursor_y t) + 16
       then dot_color (font_8x16 c ! (y - unat (cursor_y t))) (fg_color t) (bg_color t) (x - unat (cursor_x t)) (px fb m x y)
       else px fb m x y))"
    unfolding p using draw_char_px [OF assms(1) _ _ _ cu] n by blast
qed

definition fb_example :: limine_framebuffer where
  "fb_example = \<lparr>fb_address = 4096, fb_width = 16, fb_height = 16, fb_pitch = 64\<rparr>"

theorem fb_terminal_sound_witness:
  "cursor_ok fb_example (fst (fold (fb_terminal_print_char fb_example) [27, 91, 51, 49, 109, 65, 10] (fb_term_start, \<lambda>_. 0))) \<and>
   (\<exists>m'. fb_terminal_print_char fb_example 65 (fb_term_start, \<lambda>_. 0) = (fb_term_start\<lparr>cursor_x := 8\<rparr>, m') \<and>
      px fb_example m' 3 2 = 0xFFFFFF)"
proof -
  have ok: "fb_ok fb_example" "cursor_ok fb_example fb_term_start"
    by (simp_all add: fb_ok_def cursor_ok_def fb_example_def fb_term_start_def)
  have f: "font_8x16 65 ! 2 = 0x18" by (simp add: font_8x16_def font_glyphs_def)
  have b: "bit (0x18 :: u8) 4" by simp
  show ?thesis
    using fb_terminal_sound [OF ok, of "[27, 91, 51, 49, 109, 65, 10]" "\<lambda>_. 0" 65] f b
    by (fastforce simp: fb_term_start_def fb_example_def dot_color_def)
qed

end
