(* ===== verification/Kernel_State.thy ===== *)
theory Kernel_State
  imports Sched Vfs Fb Ldisc
begin

text \<open>
  The state of the whole kernel, and the console device of \<^verbatim>\<open>kernel/src/drivers/console_dev.c\<close>. The state
  adds to memory and scheduling the file systems, the open files as records in a store indexed by
  their address, and the console. A read from the console may put the task to sleep: the call then
  stops at the switch, and a second definition continues it when the task is resumed.
\<close>

section \<open>State\<close>

record open_file =
  f_node :: "nat option"
  f_offset :: u64
  f_flags :: u32
  f_ref_count :: int

text \<open>\<open>con_node\<close> is the \<^verbatim>\<open>priv_data\<close> of a console node, \<open>con_data\<close> what it points to; its lock is known by
  its address.\<close>

record kernel_state = sched_state +
  k_fs :: fs_state
  files :: "u64 \<Rightarrow> open_file option"
  the_console :: u64
  con_node :: "nat \<Rightarrow> u64"
  con_data :: "u64 \<Rightarrow> ldisc option"
  k_console :: console

text \<open>A call that returned a value, or one that sleeps, the interrupt flag it will restore being kept.\<close>

datatype 's io = Io_done int 's | Io_sleep bool 's

section \<open>The console device\<close>

text \<open>In \<^verbatim>\<open>struct console_dev_node_data\<close> the line discipline comes first, 288 bytes, then the lock.\<close>

definition CONSOLE_DATA_SIZE :: u64 where "CONSOLE_DATA_SIZE = 296"
definition VFS_NODE_SIZE :: u64 where "VFS_NODE_SIZE = 168"
definition con_lock :: "u64 \<Rightarrow> u64" where "con_lock data = data + 288"

definition console_put :: "u8 list \<Rightarrow> 'a kernel_state_scheme \<Rightarrow> 'a kernel_state_scheme" where
  "console_put bs s =
     (case fold console_putc bs (k_console s, kmem s) of (k, m) \<Rightarrow> s\<lparr>k_console := k, kmem := m\<rparr>)"

text \<open>The node comes from the store of nodes, its memory from the heap.\<close>

definition console_dev_create :: "'a kernel_state_scheme \<Rightarrow> (nat option \<times> 'a kernel_state_scheme) option" where
  "console_dev_create s =
     Option.bind (kcalloc 1 VFS_NODE_SIZE s)
       (\<lambda>(node, s1). if node = 0 then Some (None, s1)
          else Option.bind (kcalloc 1 CONSOLE_DATA_SIZE s1)
            (\<lambda>(data, s2). if data = 0 then map_option (\<lambda>s3. (None, s3)) (kfree node s2)
               else let n = next_node (k_fs s2);
                        v = \<lparr>node_name = snprintf_s VFS_NAME_SIZE (map of_char ''console''), node_flags = VFS_CHARDEVICE,
                             node_inode = 0, node_size = 0, node_ops = Some Console_dev_ops, priv_data = None\<rparr>;
                        ld = ldisc_init (Some \<lparr>ld_buf = replicate LDISC_BUF_SIZE 0, ld_len = 0, ld_consumed = 0,
                               ld_complete = False, ld_echo_set = False\<rparr>) True
                    in Some (Some n, s2\<lparr>k_fs := set_node n v ((k_fs s2)\<lparr>next_node := Suc n\<rparr>),
                                        con_node := (con_node s2)(n := data),
                                        con_data := (con_data s2)(data := ld), the_console := data\<rparr>)))"

text \<open>The byte 0x10 asks for a dump of the tasks, which only prints.\<close>

definition console_dev_feed :: "u8 \<Rightarrow> 'a kernel_state_scheme \<Rightarrow> 'a kernel_state_scheme option" where
  "console_dev_feed byte s =
     (let data = the_console s in
      if data = 0 \<or> byte = 0x10 then Some s
      else Option.bind (spinlock_lock (con_lock data) s)
        (\<lambda>s1. case ldisc_feed (con_data s1 data) byte of (_, ld, echoed) \<Rightarrow>
           let s2 = console_put echoed (s1\<lparr>con_data := (con_data s1)(data := ld)\<rparr>);
               ready = ldisc_ready (con_data s2 data);
               s3 = spinlock_unlock (con_lock data) s2
           in if ready then wakeup data s3 else Some s3))"

text \<open>The loop of the read, entered with the lock held. \<open>sp\<close> is where the task's registers go if it
  sleeps.\<close>

definition console_read_locked ::
  "u64 \<Rightarrow> bool \<Rightarrow> u64 \<Rightarrow> u64 \<Rightarrow> u64 \<Rightarrow> 'a kernel_state_scheme \<Rightarrow> 'a kernel_state_scheme io option" where
  "console_read_locked data flags sz buffer sp s =
     (if \<not> ldisc_ready (con_data s data) then map_option (Io_sleep flags) (sleep data (con_lock data) sp s)
      else case ldisc_drain (con_data s data) (Some (load_bytes (kmem s) buffer (unat sz))) sz of
        (n, ld, out) \<Rightarrow>
          let s1 = s\<lparr>con_data := (con_data s)(data := ld),
                     kmem := (case out of None \<Rightarrow> kmem s | Some bs \<Rightarrow> store_bytes (kmem s) buffer bs)\<rparr>
          in Some (Io_done (sint n) (spinlock_unlock_irqrestore (con_lock data) flags s1)))"

definition console_dev_ops_read ::
  "nat option \<Rightarrow> u64 \<Rightarrow> u64 \<Rightarrow> u64 \<Rightarrow> u64 \<Rightarrow> 'a kernel_state_scheme \<Rightarrow> 'a kernel_state_scheme io option" where
  "console_dev_ops_read node offset sz buffer sp s =
     (case node of
        None \<Rightarrow> Some (Io_done (- EINVAL) s)
      | Some n \<Rightarrow>
          if buffer = 0 then Some (Io_done (- EINVAL) s)
          else if sz = 0 then Some (Io_done 0 s)
          else let data = con_node s n in
            if data = 0 then Some (Io_done (- EIO) s)
            else Option.bind (spinlock_lock_irqsave (con_lock data) s)
              (\<lambda>(flags, s1). console_read_locked data flags sz buffer sp s1))"

text \<open>The same read when the task runs again.\<close>

definition console_dev_read_resume ::
  "u64 \<Rightarrow> u64 \<Rightarrow> bool \<Rightarrow> u64 \<Rightarrow> u64 \<Rightarrow> u64 \<Rightarrow> 'a kernel_state_scheme \<Rightarrow> 'a kernel_state_scheme io option" where
  "console_dev_read_resume task data flags sz buffer sp s =
     Option.bind (sleep_resume task (con_lock data) s) (console_read_locked data flags sz buffer sp)"

definition console_dev_ops_write :: "nat option \<Rightarrow> u64 \<Rightarrow> u64 \<Rightarrow> u64 \<Rightarrow> 'a kernel_state_scheme \<Rightarrow> int \<times> 'a kernel_state_scheme" where
  "console_dev_ops_write node offset sz buffer s =
     (if node = None \<or> buffer = 0 then (- EINVAL, s)
      else case fold (\<lambda>i (k, m). console_putc (m (buffer + of_nat i)) (k, m)) [0..<unat sz] (k_console s, kmem s) of
        (k, m) \<Rightarrow> (sint sz, s\<lparr>k_console := k, kmem := m\<rparr>))"

end
