(* ===== verification/Files.thy ===== *)
theory Files
  imports Kernel_State "HOL-Library.Monad_Syntax"
begin

text \<open>
  Open files and their system calls: \<^verbatim>\<open>kernel/src/fs/vfs/file.c\<close>. Data moves between file system and user
  memory through a buffer on the kernel stack, whose address \<open>chunk\<close> is a parameter; \<open>sp\<close> is where the
  registers go if a read from the console sleeps. \<open>None\<close> is a panic, a dangling pointer or a call that
  does not return.
\<close>

section \<open>Constants\<close>

definition MAX_OPEN_FILES :: int where "MAX_OPEN_FILES = 256"
definition COPY_BUFFER_SIZE :: u64 where "COPY_BUFFER_SIZE = 512"
definition AT_FDCWD :: int where "AT_FDCWD = -100"
definition O_RDONLY :: u32 where "O_RDONLY = 0x0000"
definition O_WRONLY :: u32 where "O_WRONLY = 0x0001"
definition O_RDWR :: u32 where "O_RDWR = 0x0002"
definition O_CREAT :: u32 where "O_CREAT = 0x0040"
definition SEEK_SET :: int where "SEEK_SET = 0"
definition SEEK_CUR :: int where "SEEK_CUR = 1"
definition SEEK_END :: int where "SEEK_END = 2"
definition DT_REG :: u8 where "DT_REG = 8"
definition DT_DIR :: u8 where "DT_DIR = 4"
definition DT_CHR :: u8 where "DT_CHR = 2"
definition DT_UNKNOWN :: u8 where "DT_UNKNOWN = 0"
definition DIRENT_NAME_OFFSET :: u64 where "DIRENT_NAME_OFFSET = 19"
definition DIRENT_RECLEN_ROUND_UP :: "u64 \<Rightarrow> u64" where "DIRENT_RECLEN_ROUND_UP x = (x + 7) AND NOT 7"

text \<open>\<^verbatim>\<open>sizeof(struct file)\<close>.\<close>

definition FILE_SIZE :: u64 where "FILE_SIZE = 24"

section \<open>Operations of a node\<close>

text \<open>The callbacks of the two tables of operations; none has \<^verbatim>\<open>open\<close> or \<^verbatim>\<open>close\<close>.\<close>

definition ops_open :: "vfs_ops \<Rightarrow> (nat \<Rightarrow> 'a kernel_state_scheme \<Rightarrow> (int \<times> 'a kernel_state_scheme) option) option" where
  "ops_open ops = (case ops of Ramfs_ops \<Rightarrow> None | Console_dev_ops \<Rightarrow> None)"

definition ops_close :: "vfs_ops \<Rightarrow> (nat \<Rightarrow> 'a kernel_state_scheme \<Rightarrow> (int \<times> 'a kernel_state_scheme) option) option" where
  "ops_close ops = (case ops of Ramfs_ops \<Rightarrow> None | Console_dev_ops \<Rightarrow> None)"

definition ops_read ::
  "vfs_ops \<Rightarrow> (nat \<Rightarrow> u64 \<Rightarrow> u64 \<Rightarrow> u64 \<Rightarrow> u64 \<Rightarrow> 'a kernel_state_scheme \<Rightarrow> 'a kernel_state_scheme io option) option" where
  "ops_read ops = (case ops of
      Ramfs_ops \<Rightarrow> Some (\<lambda>n offset sz buffer sp s.
        map_option (\<lambda>(r, bs). Io_done r (s\<lparr>kmem := store_bytes (kmem s) buffer bs\<rparr>))
          (ramfs_ops_read (Some n) offset sz (buffer \<noteq> 0) (k_fs s)))
    | Console_dev_ops \<Rightarrow> Some (\<lambda>n. console_dev_ops_read (Some n)))"

definition ops_write ::
  "vfs_ops \<Rightarrow> (nat \<Rightarrow> u64 \<Rightarrow> u64 \<Rightarrow> u64 \<Rightarrow> 'a kernel_state_scheme \<Rightarrow> (int \<times> 'a kernel_state_scheme) option) option" where
  "ops_write ops = (case ops of
      Ramfs_ops \<Rightarrow> Some (\<lambda>n offset sz buffer s.
        map_option (\<lambda>(r, fs). (r, s\<lparr>k_fs := fs\<rparr>))
          (ramfs_ops_write (Some n) offset sz
             (if buffer = 0 then None else Some (\<lambda>i. kmem s (buffer + of_nat i))) (k_fs s)))
    | Console_dev_ops \<Rightarrow> Some (\<lambda>n offset sz buffer s. Some (console_dev_ops_write (Some n) offset sz buffer s)))"

definition ops_readdir :: "vfs_ops \<Rightarrow> (nat \<Rightarrow> u32 \<Rightarrow> fs_state \<Rightarrow> (int \<times> vfs_dirent option) option) option" where
  "ops_readdir ops = (case ops of
      Ramfs_ops \<Rightarrow> Some (\<lambda>n index. ramfs_ops_readdir (Some n) index True)
    | Console_dev_ops \<Rightarrow> None)"

section \<open>Open files\<close>

definition upd_file :: "u64 \<Rightarrow> (open_file \<Rightarrow> open_file) \<Rightarrow> 'a kernel_state_scheme \<Rightarrow> 'a kernel_state_scheme" where
  "upd_file f g s = s\<lparr>files := (files s)(f := map_option g (files s f))\<rparr>"

definition file_ops :: "open_file \<Rightarrow> 'a kernel_state_scheme \<Rightarrow> vfs_ops option option" where
  "file_ops fl s = (case f_node fl of None \<Rightarrow> Some None | Some n \<Rightarrow> map_option node_ops (nodes (k_fs s) n))"

text \<open>\<^verbatim>\<open>NULL\<close> if there is no current task.\<close>

definition current_task_fds :: "'a kernel_state_scheme \<Rightarrow> u64 list option option" where
  "current_task_fds s =
     (let task = sched_get_current_task s in
      if task = 0 then Some None else map_option (\<lambda>tk. Some (t_fds tk)) (tasks s task))"

definition set_current_fd :: "nat \<Rightarrow> u64 \<Rightarrow> 'a kernel_state_scheme \<Rightarrow> 'a kernel_state_scheme" where
  "set_current_fd fd f s = upd_task (sched_get_current_task s) (t_fds_update (\<lambda>fds. fds[fd := f])) s"

definition file_ref :: "u64 \<Rightarrow> 'a kernel_state_scheme \<Rightarrow> (u64 \<times> 'a kernel_state_scheme) option" where
  "file_ref f s =
     (if f = 0 then Some (0, s)
      else do {
        fl \<leftarrow> files s f;
        ops \<leftarrow> file_ops fl s;
        (r, s1) \<leftarrow> (case (f_ref_count fl = 0, f_node fl, Option.bind ops ops_open) of
            (True, Some n, Some open) \<Rightarrow> open n s
          | _ \<Rightarrow> Some (0, s));
        if r \<noteq> 0 then Some (0, s1)
        else Some (f, upd_file f (f_ref_count_update (\<lambda>n. n + 1)) s1)
      })"

definition file_unref :: "u64 \<Rightarrow> 'a kernel_state_scheme \<Rightarrow> 'a kernel_state_scheme option" where
  "file_unref f s =
     (if f = 0 then Some s
      else do {
        fl \<leftarrow> files s f;
        let s1 = upd_file f (f_ref_count_update (\<lambda>n. n - 1)) s;
        if f_ref_count fl - 1 > 0 then Some s1
        else do {
          ops \<leftarrow> file_ops fl s1;
          s2 \<leftarrow> (case (f_node fl, Option.bind ops ops_close) of
              (Some n, Some close) \<Rightarrow> map_option snd (close n s1)
            | _ \<Rightarrow> Some s1);
          s3 \<leftarrow> kfree f s2;
          Some (s3\<lparr>files := (files s3)(f := None)\<rparr>)
        }
      })"

definition file_open_node :: "nat option \<Rightarrow> u32 \<Rightarrow> 'a kernel_state_scheme \<Rightarrow> (u64 \<times> 'a kernel_state_scheme) option" where
  "file_open_node node flags s =
     (case node of
        None \<Rightarrow> Some (0, s)
      | Some n \<Rightarrow> do {
          (f, s1) \<leftarrow> kmalloc FILE_SIZE s;
          if f = 0 then Some (0, s1)
          else do {
            let s2 = s1\<lparr>files := (files s1)(f \<mapsto> \<lparr>f_node = Some n, f_offset = 0, f_flags = flags, f_ref_count = 0\<rparr>)\<rparr>;
            (r, s3) \<leftarrow> file_ref f s2;
            if r = 0 then map_option (\<lambda>s4. (0, s4\<lparr>files := (files s4)(f := None)\<rparr>)) (kfree f s3)
            else Some (f, s3)
          }
        })"

section \<open>Opening and closing\<close>

text \<open>The string a pointer leads to.\<close>

definition c_string :: "mem \<Rightarrow> u64 \<Rightarrow> u8 list option" where
  "c_string m p = map_option (\<lambda>n. load_bytes m p (unat n)) (strlen m p)"

text \<open>The first unused slot after the three standard ones.\<close>

definition find_free_fd :: "u64 list \<Rightarrow> nat option" where
  "find_free_fd fds = List.find (\<lambda>i. fds ! i = 0) [3..<nat MAX_OPEN_FILES]"

definition sys_openat :: "int \<Rightarrow> u64 \<Rightarrow> u32 \<Rightarrow> int \<Rightarrow> 'a kernel_state_scheme \<Rightarrow> (int \<times> 'a kernel_state_scheme) option" where
  "sys_openat dirfd path flags mode s =
     (if dirfd \<noteq> AT_FDCWD then Some (- ENOSYS, s)
      else if path = 0 then Some (- ENOENT, s)
      else do {
        str \<leftarrow> c_string (kmem s) path;
        (target, fs) \<leftarrow> vfs_lookup (Some str) (k_fs s);
        let s1 = s\<lparr>k_fs := fs\<rparr>;
        if target = None then Some (- ENOENT, s1)
        else do {
          fdso \<leftarrow> current_task_fds s1;
          case fdso of
            None \<Rightarrow> Some (- EBADF, s1)
          | Some fds \<Rightarrow>
              (case find_free_fd fds of
                 None \<Rightarrow> Some (- EAGAIN, s1)
               | Some fd \<Rightarrow> do {
                   (f, s2) \<leftarrow> file_open_node target flags s1;
                   let s3 = set_current_fd fd f s2;
                   if f = 0 then Some (- ENOMEM, s3) else Some (int fd, s3)
                 })
        }
      })"

definition sys_open :: "u64 \<Rightarrow> u32 \<Rightarrow> 'a kernel_state_scheme \<Rightarrow> (int \<times> 'a kernel_state_scheme) option" where
  "sys_open path flags s = sys_openat AT_FDCWD path flags 0 s"

text \<open>The check of the descriptor every call starts with, and the file behind it. The inner \<open>None\<close> is
  \<^verbatim>\<open>-EBADF\<close>.\<close>

definition bad_fd :: "int \<Rightarrow> bool" where
  "bad_fd fd \<longleftrightarrow> fd < 0 \<or> fd \<ge> MAX_OPEN_FILES"

definition fd_file :: "int \<Rightarrow> 'a kernel_state_scheme \<Rightarrow> u64 option option" where
  "fd_file fd s = do {
     fdso \<leftarrow> current_task_fds s;
     Some (case fdso of None \<Rightarrow> None | Some fds \<Rightarrow> if fds ! nat fd = 0 then None else Some (fds ! nat fd))
   }"

definition sys_close :: "int \<Rightarrow> 'a kernel_state_scheme \<Rightarrow> (int \<times> 'a kernel_state_scheme) option" where
  "sys_close fd s =
     (if bad_fd fd then Some (- EBADF, s)
      else do {
        fo \<leftarrow> fd_file fd s;
        case fo of
          None \<Rightarrow> Some (- EBADF, s)
        | Some f \<Rightarrow> do {
            s1 \<leftarrow> file_unref f s;
            Some (0, set_current_fd (nat fd) 0 s1)
          }
      })"

section \<open>Directories\<close>

definition dirent_type :: "u32 \<Rightarrow> u8" where
  "dirent_type flags =
     (if flags AND VFS_FILE \<noteq> 0 then DT_REG
      else if flags AND VFS_DIRECTORY \<noteq> 0 then DT_DIR
      else if flags AND VFS_CHARDEVICE \<noteq> 0 then DT_CHR
      else DT_UNKNOWN)"

text \<open>\<^verbatim>\<open>struct linux_dirent64\<close> with the name behind it, padded with zeros to \<open>reclen\<close> bytes.\<close>

definition dirent_chunk :: "vfs_dirent \<Rightarrow> u64 \<Rightarrow> u64 \<Rightarrow> u8 list" where
  "dirent_chunk d offset reclen =
     (let hdr = le_bytes 8 (dirent_inode d) @ le_bytes 8 (offset + 1) @ le_bytes 2 reclen @ [dirent_type (dirent_flags d)];
          used = hdr @ dirent_name d @ [0]
      in used @ replicate (unat reclen - length used) 0)"

partial_function (option) getdents_loop ::
  "u64 \<Rightarrow> (u32 \<Rightarrow> fs_state \<Rightarrow> (int \<times> vfs_dirent option) option) \<Rightarrow> u64 \<Rightarrow> u64 \<Rightarrow> u64 \<Rightarrow> u64 \<Rightarrow> 'a kernel_state_scheme \<Rightarrow>
   (int \<times> 'a kernel_state_scheme) option" where
  [code]: "getdents_loop f readdir dirp count chunk actual_count s =
     do {
       fl \<leftarrow> files s f;
       (res, out) \<leftarrow> readdir (ucast (f_offset fl)) (k_fs s);
       if res \<noteq> 1 then
         if res = 0 then Some (sint actual_count, s)
         else if actual_count = 0 then Some (- EIO, s)
         else Some (sint actual_count, s)
       else do {
         d \<leftarrow> out;
         let name_len = of_nat (length (dirent_name d)) + 1;
         let reclen = DIRENT_RECLEN_ROUND_UP (DIRENT_NAME_OFFSET + name_len);
         if actual_count + reclen > count then
           if actual_count = 0 then Some (- EINVAL, s) else Some (sint actual_count, s)
         else do {
           let s1 = s\<lparr>kmem := store_bytes (kmem s) chunk (dirent_chunk d (f_offset fl) reclen)\<rparr>;
           let (r, m) = copy_to_user (dirp + actual_count) chunk reclen (kmem s1);
           let s2 = s1\<lparr>kmem := m\<rparr>;
           if r \<noteq> 0 then
             if actual_count = 0 then Some (r, s2) else Some (sint actual_count, s2)
           else getdents_loop f readdir dirp count chunk (actual_count + reclen)
                  (upd_file f (f_offset_update (\<lambda>x. x + 1)) s2)
         }
       }
     }"

definition sys_getdents64 :: "u64 \<Rightarrow> int \<Rightarrow> u64 \<Rightarrow> u64 \<Rightarrow> 'a kernel_state_scheme \<Rightarrow> (int \<times> 'a kernel_state_scheme) option" where
  "sys_getdents64 chunk fd dirp count s =
     (if bad_fd fd then Some (- EBADF, s)
      else if dirp = 0 then Some (- EFAULT, s)
      else do {
        fo \<leftarrow> fd_file fd s;
        case fo of
          None \<Rightarrow> Some (- EBADF, s)
        | Some f \<Rightarrow> do {
            fl \<leftarrow> files s f;
            case f_node fl of
              None \<Rightarrow> Some (- EBADF, s)
            | Some n \<Rightarrow> do {
                v \<leftarrow> nodes (k_fs s) n;
                if node_flags v AND VFS_DIRECTORY = 0 then Some (- ENOTDIR, s)
                else case Option.bind (node_ops v) ops_readdir of
                    None \<Rightarrow> Some (- ENOSYS, s)
                  | Some readdir \<Rightarrow> getdents_loop f (readdir n) dirp count chunk 0 s
              }
          }
      })"

section \<open>Reading and writing\<close>

text \<open>One turn of the loops of \<^verbatim>\<open>sys_read\<close> and \<^verbatim>\<open>sys_write\<close> ends the call or goes on with a new
  \<^verbatim>\<open>total_count\<close>.\<close>

datatype 's turn = Return int 's | Go_on u64 's

definition chunk_len :: "u64 \<Rightarrow> u64 \<Rightarrow> u64" where
  "chunk_len count total_count =
     (if count - total_count < COPY_BUFFER_SIZE then count - total_count else COPY_BUFFER_SIZE)"

text \<open>After the chunk was handled: a character device ends the call, another file moves its position.\<close>

definition advance :: "u64 \<Rightarrow> nat \<Rightarrow> u64 \<Rightarrow> int \<Rightarrow> 'a kernel_state_scheme \<Rightarrow> 'a kernel_state_scheme turn option" where
  "advance f n total_count actual s =
     map_option (\<lambda>v. if node_flags v AND VFS_CHARDEVICE \<noteq> 0 then Return (sint (total_count + of_int actual)) s
                     else Go_on (total_count + of_int actual) (upd_file f (f_offset_update (\<lambda>x. x + of_int actual)) s))
       (nodes (k_fs s) n)"

text \<open>The part of the turn of \<^verbatim>\<open>sys_read\<close> behind the read of the node, which returned \<open>actual\<close>.\<close>

definition read_deliver ::
  "u64 \<Rightarrow> nat \<Rightarrow> u64 \<Rightarrow> u64 \<Rightarrow> u64 \<Rightarrow> int \<Rightarrow> 'a kernel_state_scheme \<Rightarrow> 'a kernel_state_scheme turn option" where
  "read_deliver f n buf chunk total_count actual s =
     (if actual > 0 then
        (case copy_to_user (buf + total_count) chunk (of_int actual) (kmem s) of (r, m) \<Rightarrow>
           if r \<noteq> 0 then Some (Return (if sint total_count > 0 then sint total_count else - EFAULT) (s\<lparr>kmem := m\<rparr>))
           else advance f n total_count actual (s\<lparr>kmem := m\<rparr>))
      else if actual < 0 \<and> total_count = 0 then Some (Return actual s)
      else Some (Return (sint total_count) s))"

partial_function (option) sys_read_loop ::
  "u64 \<Rightarrow> nat \<Rightarrow> (u64 \<Rightarrow> u64 \<Rightarrow> u64 \<Rightarrow> 'a kernel_state_scheme \<Rightarrow> 'a kernel_state_scheme io option) \<Rightarrow> u64 \<Rightarrow> u64 \<Rightarrow> u64 \<Rightarrow> u64 \<Rightarrow>
   'a kernel_state_scheme \<Rightarrow> 'a kernel_state_scheme io option" where
  [code]: "sys_read_loop f n read buf count chunk total_count s =
     (if total_count \<ge> count then Some (Io_done (sint total_count) s)
      else do {
        fl \<leftarrow> files s f;
        res \<leftarrow> read (f_offset fl) (chunk_len count total_count) chunk s;
        case res of
          Io_sleep flags s1 \<Rightarrow> Some (Io_sleep flags s1)
        | Io_done actual s1 \<Rightarrow> do {
            t \<leftarrow> read_deliver f n buf chunk total_count actual s1;
            case t of
              Return r s2 \<Rightarrow> Some (Io_done r s2)
            | Go_on total_count1 s2 \<Rightarrow> sys_read_loop f n read buf count chunk total_count1 s2
          }
      })"

definition sys_read :: "u64 \<Rightarrow> u64 \<Rightarrow> int \<Rightarrow> u64 \<Rightarrow> u64 \<Rightarrow> 'a kernel_state_scheme \<Rightarrow> 'a kernel_state_scheme io option" where
  "sys_read chunk sp fd buf count s =
     (if bad_fd fd then Some (Io_done (- EBADF) s)
      else if buf = 0 then Some (Io_done (- EFAULT) s)
      else do {
        fo \<leftarrow> fd_file fd s;
        case fo of
          None \<Rightarrow> Some (Io_done (- EBADF) s)
        | Some f \<Rightarrow> do {
            fl \<leftarrow> files s f;
            n \<leftarrow> f_node fl;
            v \<leftarrow> nodes (k_fs s) n;
            case Option.bind (node_ops v) ops_read of
              None \<Rightarrow> Some (Io_done (- ENOSYS) s)
            | Some read \<Rightarrow> sys_read_loop f n (\<lambda>offset sz buffer. read n offset sz buffer sp) buf count chunk 0 s
          }
      })"

text \<open>The same call when a task that slept in a read from the console runs again: nothing had been read
  before, and the first chunk of a character device is the last.\<close>

definition sys_read_resume ::
  "u64 \<Rightarrow> u64 \<Rightarrow> u64 \<Rightarrow> bool \<Rightarrow> u64 \<Rightarrow> nat \<Rightarrow> u64 \<Rightarrow> u64 \<Rightarrow> 'a kernel_state_scheme \<Rightarrow> 'a kernel_state_scheme io option" where
  "sys_read_resume chunk sp task flags f n buf count s = do {
     res \<leftarrow> console_dev_read_resume task (con_node s n) flags (chunk_len count 0) chunk sp s;
     case res of
       Io_sleep flags s1 \<Rightarrow> Some (Io_sleep flags s1)
     | Io_done actual s1 \<Rightarrow> do {
         t \<leftarrow> read_deliver f n buf chunk 0 actual s1;
         case t of Return r s2 \<Rightarrow> Some (Io_done r s2) | Go_on total_count s2 \<Rightarrow> None
       }
   }"

partial_function (option) sys_write_loop ::
  "u64 \<Rightarrow> nat \<Rightarrow> (u64 \<Rightarrow> u64 \<Rightarrow> u64 \<Rightarrow> 'a kernel_state_scheme \<Rightarrow> (int \<times> 'a kernel_state_scheme) option) \<Rightarrow> u64 \<Rightarrow> u64 \<Rightarrow> u64 \<Rightarrow> u64 \<Rightarrow>
   'a kernel_state_scheme \<Rightarrow> (int \<times> 'a kernel_state_scheme) option" where
  [code]: "sys_write_loop f n write buf count chunk total_count s =
     (if total_count \<ge> count then Some (sint total_count, s)
      else (case copy_from_user chunk (buf + total_count) (chunk_len count total_count) (kmem s) of (r, m) \<Rightarrow>
        if r \<noteq> 0 then Some (if sint total_count > 0 then sint total_count else - EFAULT, s\<lparr>kmem := m\<rparr>)
        else do {
          fl \<leftarrow> files s f;
          (actual, s1) \<leftarrow> write (f_offset fl) (chunk_len count total_count) chunk (s\<lparr>kmem := m\<rparr>);
          if actual > 0 then do {
            t \<leftarrow> advance f n total_count actual s1;
            case t of
              Return r s2 \<Rightarrow> Some (r, s2)
            | Go_on total_count1 s2 \<Rightarrow> sys_write_loop f n write buf count chunk total_count1 s2
          }
          else if actual < 0 \<and> total_count = 0 then Some (actual, s1)
          else Some (sint total_count, s1)
        }))"

definition sys_write :: "u64 \<Rightarrow> int \<Rightarrow> u64 \<Rightarrow> u64 \<Rightarrow> 'a kernel_state_scheme \<Rightarrow> (int \<times> 'a kernel_state_scheme) option" where
  "sys_write chunk fd buf count s =
     (if bad_fd fd then Some (- EBADF, s)
      else if buf = 0 then Some (- EFAULT, s)
      else do {
        fo \<leftarrow> fd_file fd s;
        case fo of
          None \<Rightarrow> Some (- EBADF, s)
        | Some f \<Rightarrow> do {
            fl \<leftarrow> files s f;
            if f_flags fl AND O_WRONLY = 0 \<and> f_flags fl AND O_RDWR = 0 then Some (- EACCES, s)
            else do {
              n \<leftarrow> f_node fl;
              v \<leftarrow> nodes (k_fs s) n;
              case Option.bind (node_ops v) ops_write of
                None \<Rightarrow> Some (- ENOSYS, s)
              | Some write \<Rightarrow> sys_write_loop f n (write n) buf count chunk 0 s
            }
          }
      })"

text \<open>\<open>offset\<close> is an \<^verbatim>\<open>int64_t\<close>, the position a \<^verbatim>\<open>uint64_t\<close>; the sum wraps.\<close>

definition sys_lseek :: "int \<Rightarrow> int \<Rightarrow> int \<Rightarrow> 'a kernel_state_scheme \<Rightarrow> (int \<times> 'a kernel_state_scheme) option" where
  "sys_lseek fd offset whence s =
     (if bad_fd fd then Some (- EBADF, s)
      else do {
        fo \<leftarrow> fd_file fd s;
        case fo of
          None \<Rightarrow> Some (- EBADF, s)
        | Some f \<Rightarrow> do {
            fl \<leftarrow> files s f;
            n \<leftarrow> f_node fl;
            v \<leftarrow> nodes (k_fs s) n;
            if node_flags v AND VFS_CHARDEVICE \<noteq> 0 then Some (- ESPIPE, s)
            else if whence = SEEK_SET \<or> whence = SEEK_CUR \<or> whence = SEEK_END then
              let pos = (if whence = SEEK_SET then of_int offset
                         else if whence = SEEK_CUR then f_offset fl + of_int offset
                         else node_size v + of_int offset)
              in Some (sint pos, upd_file f (f_offset_update (\<lambda>_. pos)) s)
            else Some (- EINVAL, s)
          }
      })"

end
