(* ===== verification/File_Io.thy ===== *)
theory File_Io
  imports Files Ramfs_File
begin

text \<open>
  Reading and writing regular files through the system calls: descriptor, open file, file system, stack
  buffer and user memory together.
\<close>

section \<open>A regular file behind a descriptor\<close>

text \<open>The open file at \<open>f\<close> leads to the regular file \<open>n\<close> of the in-memory file system with contents \<open>xs\<close>.\<close>

definition regular :: "'a kernel_state_scheme \<Rightarrow> u64 \<Rightarrow> open_file \<Rightarrow> nat \<Rightarrow> u8 list \<Rightarrow> bool" where
  "regular s f fl n xs \<longleftrightarrow> files s f = Some fl \<and> f_node fl = Some n \<and> file_contents n (k_fs s) = Some xs \<and>
     (\<exists>v. nodes (k_fs s) n = Some v \<and> node_flags v AND VFS_CHARDEVICE = 0 \<and> node_ops v = Some Ramfs_ops)"

definition kernel_buffer :: "u64 \<Rightarrow> bool" where
  "kernel_buffer chunk \<longleftrightarrow> 2 ^ 47 \<le> unat chunk \<and> unat chunk + 512 \<le> 2 ^ 64"

text \<open>The state after the memory and the position changed.\<close>

definition repos :: "u64 \<Rightarrow> open_file \<Rightarrow> mem \<Rightarrow> u64 \<Rightarrow> 'a kernel_state_scheme \<Rightarrow> 'a kernel_state_scheme" where
  "repos f fl m off s = s\<lparr>kmem := m, files := (files s)(f \<mapsto> fl\<lparr>f_offset := off\<rparr>)\<rparr>"

lemma repos_sel [simp]:
  "kmem (repos f fl m off s) = m" "k_fs (repos f fl m off s) = k_fs s"
  "files (repos f fl m off s) = (files s)(f \<mapsto> fl\<lparr>f_offset := off\<rparr>)"
  by (simp_all add: repos_def)

lemma repos_repos [simp]: "repos f (fl\<lparr>f_offset := x\<rparr>) m' off' (repos f fl m off s) = repos f fl m' off' s"
  by (simp add: repos_def)

lemma repos_same: "files s f = Some fl \<Longrightarrow> repos f fl (kmem s) (f_offset fl) s = s"
  by (simp add: repos_def map_upd_triv)

lemma upd_file_repos:
  assumes "files s f = Some fl"
  shows "upd_file f (f_offset_update (\<lambda>x. x + d)) (s\<lparr>kmem := m\<rparr>) = repos f fl m (f_offset fl + d) s"
  using assms by (cases fl) (simp add: upd_file_def repos_def)

lemma regular_repos: "regular s f fl n xs \<Longrightarrow> regular (repos f fl m off s) f (fl\<lparr>f_offset := off\<rparr>) n xs"
  by (simp add: regular_def)

section \<open>Reading\<close>

abbreviation ramfs_read ::
  "nat \<Rightarrow> u64 \<Rightarrow> u64 \<Rightarrow> u64 \<Rightarrow> 'a kernel_state_scheme \<Rightarrow> 'a kernel_state_scheme io option" where
  "ramfs_read n offset sz buffer s \<equiv>
     map_option (\<lambda>(r, bs). Io_done r (s\<lparr>kmem := store_bytes (kmem s) buffer bs\<rparr>))
       (ramfs_ops_read (Some n) offset sz (buffer \<noteq> 0) (k_fs s))"

lemma chunk_len_unat:
  assumes "unat tc < unat count"
  shows "unat (chunk_len count tc) = min 512 (unat count - unat tc)"
proof -
  have "unat (count - tc) = unat count - unat tc" using assms by (intro unat_sub) (simp add: word_le_nat_alt)
  then show ?thesis by (auto simp: chunk_len_def COPY_BUFFER_SIZE_def word_less_nat_alt)
qed

lemma user_kernel_apart:
  assumes d: "unat d + n \<le> 2 ^ 47" and c: "kernel_buffer chunk" and l: "n \<le> 512"
  shows "apart d n chunk n"
proof (cases "n = 0")
  case False
  then have lt: "unat d < unat chunk" using d c unfolding kernel_buffer_def by linarith
  then have "unat (chunk - d) = unat chunk - unat d" "unat (d - chunk) = unat d + 2 ^ 64 - unat chunk"
    by (simp_all add: unat_diff_u64)
  then show ?thesis using d c l lt unfolding apart_def kernel_buffer_def by linarith
qed (simp add: apart_def)

lemma user_copy:
  assumes d: "unat d + length bs \<le> 2 ^ 47" and c: "kernel_buffer chunk" and l: "length bs \<le> 512"
  shows "\<exists>m'. copy_to_user d chunk (of_nat (length bs)) (store_bytes m chunk bs) = (0, m') \<and>
    load_bytes m' d (length bs) = bs \<and> (\<forall>x. x \<notin> extent d (length bs) \<and> x \<notin> extent chunk 512 \<longrightarrow> m' x = m x)"
proof -
  let ?n = "of_nat (length bs) :: u64" and ?m = "store_bytes m chunk bs"
  have n: "unat ?n = length bs" using l by (intro unat_of_nat_small) simp
  have ap: "apart d (unat ?n) chunk (unat ?n)" unfolding n by (rule user_kernel_apart [OF d c l])
  have cp: "copy_to_user d chunk ?n ?m = (0, memcpy ?m d chunk ?n)"
    using user_range [of d ?n] d n by (simp add: copy_to_user_def Let_def)
  have "load_bytes (memcpy ?m d chunk ?n) d (length bs) = bs"
    using memcpy_copies [OF ap, of ?m] l n load_bytes_store_bytes_same [of bs "length bs" m chunk] by simp
  moreover have "memcpy ?m d chunk ?n x = m x" if "x \<notin> extent d (length bs)" "x \<notin> extent chunk 512" for x
  proof -
    have "memcpy ?m d chunk ?n x = ?m x" using that(1) n by (intro memcpy_outside) simp
    also have "\<dots> = m x" using that(2) l by (simp add: store_bytes_apply extent_def)
    finally show ?thesis .
  qed
  ultimately show ?thesis using cp by blast
qed

lemma advance_regular:
  assumes "regular s f fl n xs"
  shows "advance f n tc actual (s\<lparr>kmem := m\<rparr>) = Some (Go_on (tc + of_int actual) (repos f fl m (f_offset fl + of_int actual) s))"
proof -
  obtain v where v: "nodes (k_fs s) n = Some v" "node_flags v AND VFS_CHARDEVICE = 0" using assms by (auto simp: regular_def)
  have "files s f = Some fl" using assms by (simp add: regular_def)
  from upd_file_repos [OF this] v show ?thesis by (simp add: advance_def)
qed

text \<open>One turn of the loop that finds bytes to read.\<close>

lemma read_turn:
  assumes r: "regular s f fl n xs" and u: "unat buf + unat count \<le> 2 ^ 47" and k: "kernel_buffer chunk"
    and tc: "unat tc < unat count" and bs: "bs = take (unat (chunk_len count tc)) (drop (unat (f_offset fl)) xs)" "bs \<noteq> []"
  shows "\<exists>m'. sys_read_loop f n (ramfs_read n) buf count chunk tc s =
      sys_read_loop f n (ramfs_read n) buf count chunk (tc + of_nat (length bs))
        (repos f fl m' (f_offset fl + of_nat (length bs)) s) \<and>
    load_bytes m' (buf + tc) (length bs) = bs \<and>
    (\<forall>x. x \<notin> extent (buf + tc) (length bs) \<and> x \<notin> extent chunk 512 \<longrightarrow> m' x = kmem s x)"
proof -
  let ?c = "chunk_len count tc"
  have fl: "files s f = Some fl" "file_contents n (k_fs s) = Some xs" using r by (simp_all add: regular_def)
  have c: "unat ?c = min 512 (unat count - unat tc)" by (rule chunk_len_unat [OF tc])
  have len: "length bs \<le> unat ?c" unfolding bs(1) by simp
  have ad: "unat (buf + tc) = unat buf + unat tc" using u tc by (intro unat_add_u64) simp
  have rd: "ramfs_ops_read (Some n) (f_offset fl) ?c (chunk \<noteq> 0) (k_fs s) = Some (int (length bs), bs)"
  proof -
    have "chunk \<noteq> 0" "unat ?c < 2 ^ 63" using k c by (auto simp: kernel_buffer_def)
    then show ?thesis using file_read_ok [OF fl(2), of ?c "f_offset fl"] unfolding bs(1) file_read_def by simp
  qed
  have d: "unat (buf + tc) + length bs \<le> 2 ^ 47" and l: "length bs \<le> 512" using ad c len u tc by linarith+
  obtain m' where m': "copy_to_user (buf + tc) chunk (of_nat (length bs)) (store_bytes (kmem s) chunk bs) = (0, m')"
    "load_bytes m' (buf + tc) (length bs) = bs"
    "\<forall>x. x \<notin> extent (buf + tc) (length bs) \<and> x \<notin> extent chunk 512 \<longrightarrow> m' x = kmem s x"
    using user_copy [OF d k l, of "kmem s"] by blast
  have pos: "0 < int (length bs)" using bs(2) by simp
  have dl: "read_deliver f n buf chunk tc (int (length bs)) (s\<lparr>kmem := store_bytes (kmem s) chunk bs\<rparr>) =
    Some (Go_on (tc + of_nat (length bs)) (repos f fl m' (f_offset fl + of_nat (length bs)) s))"
    using pos m'(1) advance_regular [OF r, of tc "int (length bs)" m'] by (simp add: read_deliver_def)
  have "sys_read_loop f n (ramfs_read n) buf count chunk tc s =
    sys_read_loop f n (ramfs_read n) buf count chunk (tc + of_nat (length bs))
      (repos f fl m' (f_offset fl + of_nat (length bs)) s)"
    using tc fl(1) rd dl by (subst sys_read_loop.simps) (simp add: word_le_nat_alt)
  then show ?thesis using m' by blast
qed

lemma take_chunks:
  assumes "c \<le> k" "bs = take c ys"
  shows "take k ys = bs @ take (k - length bs) (drop (length bs) ys)"
proof (cases "c \<le> length ys")
  case True
  then have "length bs = c" using assms(2) by simp
  then show ?thesis using assms take_add [of c "k - c" ys] by simp
next
  case False
  then show ?thesis using assms by simp
qed

lemma file_contents_length: "file_contents n fs = Some xs \<Longrightarrow> length xs < 2 ^ 63"
  by (auto elim: file_contents_SomeE)

lemma load_bytes_cong: "(\<And>i. i < n \<Longrightarrow> m (a + of_nat i) = m' (a + of_nat i)) \<Longrightarrow> load_bytes m a n = load_bytes m' a n"
  by (simp add: load_bytes_def)

lemma load_bytes_append: "load_bytes m a (n + k) = load_bytes m a n @ load_bytes m (a + of_nat n) k"
  by (intro nth_equalityI) (auto simp: load_bytes_nth nth_append add.assoc)

text \<open>Two pieces of a user range, written one after the other.\<close>

lemma pieces:
  assumes u: "unat d + (n + k) \<le> 2 ^ 47" and c: "kernel_buffer chunk"
    and m1: "load_bytes m1 d n = bs" "\<forall>x. x \<notin> extent d n \<and> x \<notin> extent chunk 512 \<longrightarrow> m1 x = m x"
    and m2: "load_bytes m2 (d + of_nat n) k = cs" "\<forall>x. x \<notin> extent (d + of_nat n) k \<and> x \<notin> extent chunk 512 \<longrightarrow> m2 x = m1 x"
  shows "load_bytes m2 d (n + k) = bs @ cs \<and> (\<forall>x. x \<notin> extent d (n + k) \<and> x \<notin> extent chunk 512 \<longrightarrow> m2 x = m x)"
proof
  have sp: "extent d (n + k) = extent d n \<union> extent (d + of_nat n) k" "extent d n \<inter> extent (d + of_nat n) k = {}"
    using extent_split [of n k d] extent_disj [of n k d] u by simp_all
  have "m2 (d + of_nat i) = m1 (d + of_nat i)" if "i < n" for i
  proof -
    have a: "d + of_nat i \<in> extent d n" using that u by (intro extent_cell) simp_all
    have "unat (d + of_nat i) = unat d + i" using u that unat_add_u64 [of d "of_nat i"] by (simp add: unat_of_nat_small)
    then have lt: "unat (d + of_nat i) < unat chunk" using u c that unfolding kernel_buffer_def by linarith
    then have "\<not> unat (d + of_nat i - chunk) < 512"
      using c unfolding kernel_buffer_def unat_diff_u64 by auto
    then have "d + of_nat i \<notin> extent chunk 512" by (simp add: extent_def)
    then show ?thesis using m2(2) sp(2) a by blast
  qed
  then have "load_bytes m2 d n = bs" using m1(1) load_bytes_cong [of n m2 d m1] by simp
  then show "load_bytes m2 d (n + k) = bs @ cs" using m2(1) by (simp add: load_bytes_append)
  show "\<forall>x. x \<notin> extent d (n + k) \<and> x \<notin> extent chunk 512 \<longrightarrow> m2 x = m x" using m1(2) m2(2) sp(1) by simp
qed

lemma read_loop_end:
  assumes r: "regular s f fl n xs" and k: "kernel_buffer chunk" and tc: "unat tc < unat count" "unat tc < 2 ^ 63"
    and e: "drop (unat (f_offset fl)) xs = []"
  shows "sys_read_loop f n (ramfs_read n) buf count chunk tc s = Some (Io_done (int (unat tc)) s)"
proof -
  have fl: "files s f = Some fl" "file_contents n (k_fs s) = Some xs" using r by (simp_all add: regular_def)
  have c: "chunk \<noteq> 0" "unat (chunk_len count tc) < 2 ^ 63" using k chunk_len_unat [OF tc(1)] by (auto simp: kernel_buffer_def)
  have rd: "ramfs_ops_read (Some n) (f_offset fl) (chunk_len count tc) (chunk \<noteq> 0) (k_fs s) = Some (0, [])"
    using file_read_ok [OF fl(2) c(2), of "f_offset fl"] c(1) e by (simp add: file_read_def)
  have st: "sint tc = int (unat tc)" by (rule sint_small [OF tc(2)])
  show ?thesis using tc(1) fl(1) rd st by (subst sys_read_loop.simps) (simp add: read_deliver_def word_le_nat_alt)
qed

lemma read_loop_file:
  assumes "regular s f fl n xs" "unat buf + unat count \<le> 2 ^ 47" "kernel_buffer chunk" "unat tc \<le> unat count"
    and "bs = take (unat count - unat tc) (drop (unat (f_offset fl)) xs)"
  shows "\<exists>m'. sys_read_loop f n (ramfs_read n) buf count chunk tc s =
      Some (Io_done (int (unat tc + length bs)) (repos f fl m' (f_offset fl + of_nat (length bs)) s)) \<and>
    load_bytes m' (buf + tc) (length bs) = bs \<and>
    (\<forall>x. x \<notin> extent (buf + tc) (length bs) \<and> x \<notin> extent chunk 512 \<longrightarrow> m' x = kmem s x)"
  using assms
proof (induction "unat count - unat tc" arbitrary: s fl tc bs rule: less_induct)
  case less
  note r = less.prems(1) and u = less.prems(2) and k = less.prems(3)
  have fl: "files s f = Some fl" "file_contents n (k_fs s) = Some xs" using r by (simp_all add: regular_def)
  have u63: "unat tc < 2 ^ 63" using less.prems(2,4) by simp
  have dn: "repos f fl (kmem s) (f_offset fl + 0) s = s" using repos_same [OF fl(1)] by simp
  consider "unat tc = unat count" | "unat tc < unat count" "drop (unat (f_offset fl)) xs = []"
    | "unat tc < unat count" "drop (unat (f_offset fl)) xs \<noteq> []" using less.prems(4) by linarith
  then show ?case
  proof cases
    case 1
    then have bs: "bs = []" using less.prems(5) by simp
    have "sys_read_loop f n (ramfs_read n) buf count chunk tc s = Some (Io_done (int (unat tc)) s)"
      using 1 sint_small [OF u63] by (subst sys_read_loop.simps) (simp add: word_le_nat_alt)
    then show ?thesis using bs dn by (intro exI [of _ "kmem s"]) (simp add: load_bytes_def)
  next
    case 2
    then have bs: "bs = []" using less.prems(5) by simp
    show ?thesis using read_loop_end [OF r k 2(1) u63 2(2)] bs dn by (intro exI [of _ "kmem s"]) (simp add: load_bytes_def)
  next
    case 3
    define b where "b = take (unat (chunk_len count tc)) (drop (unat (f_offset fl)) xs)"
    define l where "l = length b"
    define tc' where "tc' = tc + of_nat l"
    define off where "off = f_offset fl + of_nat l"
    define b' where "b' = take (unat count - unat tc') (drop (unat off) xs)"
    have c: "unat (chunk_len count tc) = min 512 (unat count - unat tc)" by (rule chunk_len_unat [OF 3(1)])
    then have ne: "b \<noteq> []" using 3 by (simp add: b_def)
    have l: "0 < l" "l \<le> unat count - unat tc" "l \<le> length xs - unat (f_offset fl)" using 3 c by (simp_all add: l_def b_def)
    have tc': "unat tc' = unat tc + l"
      unfolding tc'_def using l(2) 3(1) unat_lt_u64 [of count] by (intro unat_add_of_nat) simp
    have off: "unat off = unat (f_offset fl) + l"
      unfolding off_def
    proof (rule unat_add_of_nat)
      have "unat (f_offset fl) < length xs" using 3(2) by simp
      then have "unat (f_offset fl) + l \<le> length xs" using l(3) by linarith
      also have "\<dots> < 2 ^ 64" using file_contents_length [OF fl(2)] by simp
      finally show "unat (f_offset fl) + l < 2 ^ 64" .
    qed
    obtain m1 where m1: "sys_read_loop f n (ramfs_read n) buf count chunk tc s =
        sys_read_loop f n (ramfs_read n) buf count chunk tc' (repos f fl m1 off s)"
      "load_bytes m1 (buf + tc) l = b"
      "\<forall>x. x \<notin> extent (buf + tc) l \<and> x \<notin> extent chunk 512 \<longrightarrow> m1 x = kmem s x"
      using read_turn [OF r u k 3(1) b_def ne] unfolding tc'_def off_def l_def by blast
    have "unat count - unat tc' < unat count - unat tc" "unat tc' \<le> unat count" using tc' l 3(1) by linarith+
    from less.hyps [OF this(1) regular_repos [OF r, of m1 off] u k this(2), of b'] obtain m2 where
      m2: "sys_read_loop f n (ramfs_read n) buf count chunk tc' (repos f fl m1 off s) =
        Some (Io_done (int (unat tc' + length b')) (repos f fl m2 (off + of_nat (length b')) s))"
      "load_bytes m2 (buf + tc') (length b') = b'"
      "\<forall>x. x \<notin> extent (buf + tc') (length b') \<and> x \<notin> extent chunk 512 \<longrightarrow> m2 x = m1 x"
      by (auto simp: b'_def)
    have "unat (chunk_len count tc) \<le> unat count - unat tc" using c by simp
    from take_chunks [OF this b_def] have bs: "bs = b @ b'"
      unfolding less.prems(5) b'_def tc' off by (simp add: l_def add.commute)
    have "length b' \<le> unat count - unat tc'" by (simp add: b'_def)
    moreover have "unat (buf + tc) = unat buf + unat tc" using u 3(1) by (intro unat_add_u64) simp
    ultimately have w: "unat (buf + tc) + (l + length b') \<le> 2 ^ 47" using tc' l(2) 3(1) u by linarith
    have q: "buf + tc' = buf + tc + of_nat l" by (simp add: tc'_def)
    show ?thesis
      using pieces [OF w k m1(2,3) m2(2,3) [unfolded q]] m1(1) m2(1) tc'
      by (intro exI [of _ m2]) (simp add: bs l_def off_def add.assoc)
  qed
qed

text \<open>The descriptor \<open>fd\<close> of the current task names the open file at \<open>f\<close>.\<close>

definition fd_names :: "'a kernel_state_scheme \<Rightarrow> int \<Rightarrow> u64 \<Rightarrow> bool" where
  "fd_names s fd f \<longleftrightarrow> \<not> bad_fd fd \<and> f \<noteq> 0 \<and> sched_get_current_task s \<noteq> 0 \<and>
     (\<exists>tk. tasks s (sched_get_current_task s) = Some tk \<and> t_fds tk ! nat fd = f)"

lemma fd_file_names: "fd_names s fd f \<Longrightarrow> fd_file fd s = Some (Some f) \<and> \<not> bad_fd fd"
  by (auto simp: fd_names_def fd_file_def current_task_fds_def Let_def)

lemma fd_names_repos [simp]: "fd_names (repos f fl m off s) fd g = fd_names s fd g"
  by (simp add: fd_names_def repos_def sched_get_current_task_def)

lemma ops_read_ramfs: "ops_read Ramfs_ops = Some (\<lambda>n offset sz buffer sp. ramfs_read n offset sz buffer)"
  by (simp add: ops_read_def)

lemma sys_read_file:
  assumes fd: "fd_names s fd f" and r: "regular s f fl n xs" and u: "buf \<noteq> 0" "unat buf + unat count \<le> 2 ^ 47"
    and k: "kernel_buffer chunk" and bs: "bs = take (unat count) (drop (unat (f_offset fl)) xs)"
  shows "\<exists>m'. sys_read chunk sp fd buf count s =
      Some (Io_done (int (length bs)) (repos f fl m' (f_offset fl + of_nat (length bs)) s)) \<and>
    load_bytes m' buf (length bs) = bs \<and>
    (\<forall>x. x \<notin> extent buf (length bs) \<and> x \<notin> extent chunk 512 \<longrightarrow> m' x = kmem s x)"
proof -
  obtain v where v: "files s f = Some fl" "f_node fl = Some n" "nodes (k_fs s) n = Some v" "node_ops v = Some Ramfs_ops"
    using r by (auto simp: regular_def)
  have "sys_read chunk sp fd buf count s = sys_read_loop f n (ramfs_read n) buf count chunk 0 s"
    using fd_file_names [OF fd] u(1) v by (simp add: sys_read_def ops_read_ramfs)
  then show ?thesis using read_loop_file [OF r u(2) k, of 0 bs] bs by simp
qed

end
