(* ===== verification/File_Write.thy ===== *)
theory File_Write
  imports File_Io
begin

text \<open>
  Writing regular files through the system call, and reading back what was written.
\<close>

section \<open>What a write depends on\<close>

lemma page_write_cong: "(\<And>i. i < sz \<Longrightarrow> buf i = buf' i) \<Longrightarrow> page_write pg off sz buf = page_write pg off sz buf'"
  by (rule ext) (auto simp: page_write_def)

lemma set_page_bytes_cong:
  "(\<And>i. i < unat sz \<Longrightarrow> buf i = buf' i) \<Longrightarrow> set_page_bytes n ix po sz buf s = set_page_bytes n ix po sz buf' s"
  by (simp add: set_page_bytes_def page_write_cong [of "unat sz" buf buf'])

lemma write_loop_cong:
  assumes "\<And>i. i < unat remaining \<Longrightarrow> buf i = buf' i"
  shows "ramfs_write_loop n offset remaining buf actual s = ramfs_write_loop n offset remaining buf' actual s"
  using assms
proof (induction "unat remaining" arbitrary: offset remaining buf buf' actual s rule: less_induct)
  case less
  show ?case
  proof (cases "remaining = 0")
    case False
    obtain ix po c where g: "ramfs_get_chunk_info offset remaining = (ix, po, c)"
      by (cases "ramfs_get_chunk_info offset remaining") auto
    have lt: "unat (remaining - c) < unat remaining" by (rule chunk_rest_less [OF g [symmetric] False])
    have "c \<le> remaining" using chunk_size_pos [OF g] False by (simp add: word_gt_0)
    then have le: "unat c \<le> unat remaining" "unat (remaining - c) = unat remaining - unat c"
      by (simp_all add: word_le_nat_alt unat_sub)
    have sp: "set_page_bytes n ix po c buf s1 = set_page_bytes n ix po c buf' s1" for s1
      using less.prems le by (intro set_page_bytes_cong) simp
    have ih: "ramfs_write_loop n (offset + c) (remaining - c) (\<lambda>i. buf (unat c + i)) (actual + c) =
        ramfs_write_loop n (offset + c) (remaining - c) (\<lambda>i. buf' (unat c + i)) (actual + c)"
      using less.prems le by (intro ext less.hyps [OF lt]) simp
    show ?thesis
      using False by (subst (1 2) ramfs_write_loop.simps) (simp add: g sp ih cong: if_cong)
  qed (simp add: ramfs_write_loop.simps)
qed

lemma ops_write_cong:
  assumes "\<And>i. i < unat sz \<Longrightarrow> buf i = buf' i"
  shows "ramfs_ops_write node off sz (Some buf) s = ramfs_ops_write node off sz (Some buf') s"
proof -
  have "ramfs_write_loop n off sz buf a s = ramfs_write_loop n off sz buf' a s" for n a s
    using assms by (rule write_loop_cong)
  then show ?thesis by (cases node) (simp_all add: ramfs_ops_write_def cong: if_cong)
qed

section \<open>Overwriting in pieces\<close>

lemma overwrite_append: "overwrite (off + length a) b (overwrite off a xs) = overwrite off (a @ b) xs"
proof (cases "a = [] \<or> b = []")
  case False
  have "length (take off (xs @ replicate (off - length xs) 0)) = off" by simp
  then show ?thesis using False by (simp add: overwrite_def ac_simps)
qed (auto simp: overwrite_def)

section \<open>Writing\<close>

abbreviation ramfs_write ::
  "nat \<Rightarrow> u64 \<Rightarrow> u64 \<Rightarrow> u64 \<Rightarrow> 'a kernel_state_scheme \<Rightarrow> (int \<times> 'a kernel_state_scheme) option" where
  "ramfs_write n offset sz buffer s \<equiv>
     map_option (\<lambda>(r, fs). (r, s\<lparr>k_fs := fs\<rparr>))
       (ramfs_ops_write (Some n) offset sz (if buffer = 0 then None else Some (\<lambda>i. kmem s (buffer + of_nat i))) (k_fs s))"

lemma user_fetch:
  assumes d: "unat d + n \<le> 2 ^ 47" and c: "kernel_buffer chunk" and l: "n \<le> 512"
  shows "\<exists>m'. copy_from_user chunk d (of_nat n) m = (0, m') \<and> load_bytes m' chunk n = load_bytes m d n \<and>
    (\<forall>x. x \<notin> extent chunk 512 \<longrightarrow> m' x = m x)"
proof -
  let ?n = "of_nat n :: u64"
  have n: "unat ?n = n" using l by (intro unat_of_nat_small) simp
  have ap: "apart chunk (unat ?n) d (unat ?n)"
    unfolding n using user_kernel_apart [OF d c l] by (simp add: apart_sym)
  have cp: "copy_from_user chunk d ?n m = (0, memcpy m chunk d ?n)"
    using user_range [of d ?n] d n by (simp add: copy_from_user_def Let_def)
  have "memcpy m chunk d ?n x = m x" if "x \<notin> extent chunk 512" for x
    using that l n extent_mono [of n 512 chunk] by (intro memcpy_outside) auto
  then show ?thesis using cp memcpy_copies [OF ap, of m] n by auto
qed

text \<open>The state after a write: the file system changed too.\<close>

definition stored :: "u64 \<Rightarrow> open_file \<Rightarrow> mem \<Rightarrow> u64 \<Rightarrow> fs_state \<Rightarrow> 'a kernel_state_scheme \<Rightarrow> 'a kernel_state_scheme" where
  "stored f fl m off fs s = (repos f fl m off s)\<lparr>k_fs := fs\<rparr>"

lemma stored_sel [simp]:
  "kmem (stored f fl m off fs s) = m" "k_fs (stored f fl m off fs s) = fs"
  "files (stored f fl m off fs s) = (files s)(f \<mapsto> fl\<lparr>f_offset := off\<rparr>)"
  by (simp_all add: stored_def)

lemma stored_stored [simp]:
  "stored f (fl\<lparr>f_offset := x\<rparr>) m' off' fs' (stored f fl m off fs s) = stored f fl m' off' fs' s"
  by (simp add: stored_def repos_def)

lemma stored_same: "files s f = Some fl \<Longrightarrow> stored f fl (kmem s) (f_offset fl) (k_fs s) s = s"
  by (simp add: stored_def repos_same)

lemma fd_names_stored [simp]: "fd_names (stored f fl m off fs s) fd g = fd_names s fd g"
  by (simp add: fd_names_def stored_def repos_def sched_get_current_task_def)

lemma regular_stored:
  assumes r: "regular s f fl n xs" and c: "file_contents n fs = Some ys" and o: "file_others n fs = file_others n (k_fs s)"
  shows "regular (stored f fl m off fs s) f (fl\<lparr>f_offset := off\<rparr>) n ys"
proof -
  obtain v where v: "nodes (k_fs s) n = Some v" "node_flags v AND VFS_CHARDEVICE = 0" "node_ops v = Some Ramfs_ops"
    using r by (auto simp: regular_def)
  obtain w where w: "nodes fs n = Some w" using c by (auto elim: file_contents_SomeE)
  have "node_flags w = node_flags v" "node_ops w = node_ops v" using o v w by (simp_all add: file_others_def)
  then show ?thesis using r c v w by (simp add: regular_def)
qed

lemma advance_stored:
  assumes r: "regular s f fl n xs" and c: "file_contents n fs = Some ys" and o: "file_others n fs = file_others n (k_fs s)"
  shows "advance f n tc actual (s\<lparr>kmem := m, k_fs := fs\<rparr>) =
    Some (Go_on (tc + of_int actual) (stored f fl m (f_offset fl + of_int actual) fs s))"
proof -
  obtain v where v: "nodes fs n = Some v" "node_flags v AND VFS_CHARDEVICE = 0"
    using regular_stored [OF r c o] by (auto simp: regular_def)
  have fl: "files s f = Some fl" using r by (simp add: regular_def)
  have "upd_file f (f_offset_update (\<lambda>x. x + d)) (s\<lparr>kmem := m, k_fs := fs\<rparr>) = stored f fl m (f_offset fl + d) fs s" for d
    using fl by (cases fl) (simp add: upd_file_def stored_def repos_def)
  then show ?thesis using v by (simp add: advance_def)
qed

lemma write_turn:
  assumes r: "regular s f fl n xs" and u: "unat buf + unat count \<le> 2 ^ 47" and k: "kernel_buffer chunk"
    and tc: "unat tc < unat count" and al: "\<forall>i. alloc_ok (k_fs s) i"
    and c: "c = unat (chunk_len count tc)" and off: "unat (f_offset fl) + c < 2 ^ 63"
    and bs: "bs = load_bytes (kmem s) (buf + tc) c"
  shows "\<exists>m' fs'. sys_write_loop f n (ramfs_write n) buf count chunk tc s =
      sys_write_loop f n (ramfs_write n) buf count chunk (tc + of_nat c) (stored f fl m' (f_offset fl + of_nat c) fs' s) \<and>
    file_contents n fs' = Some (overwrite (unat (f_offset fl)) bs xs) \<and> file_others n fs' = file_others n (k_fs s) \<and>
    (\<forall>i. alloc_ok fs' i) \<and> (\<forall>x. x \<notin> extent chunk 512 \<longrightarrow> m' x = kmem s x)"
proof -
  have fl: "files s f = Some fl" "file_contents n (k_fs s) = Some xs" using r by (simp_all add: regular_def)
  have cl: "c = min 512 (unat count - unat tc)" unfolding c by (rule chunk_len_unat [OF tc])
  have cw: "chunk_len count tc = of_nat c" by (simp add: c)
  have ad: "unat (buf + tc) = unat buf + unat tc" using u tc by (intro unat_add_u64) simp
  have d: "unat (buf + tc) + c \<le> 2 ^ 47" and l: "c \<le> 512" using ad cl u tc by linarith+
  obtain m' where m': "copy_from_user chunk (buf + tc) (of_nat c) (kmem s) = (0, m')" "load_bytes m' chunk c = bs"
    "\<forall>x. x \<notin> extent chunk 512 \<longrightarrow> m' x = kmem s x"
    using user_fetch [OF d k l, of "kmem s"] unfolding bs by blast
  have len: "length bs = c" by (simp add: bs)
  have "unat (f_offset fl) + length bs < 2 ^ 63" using off len by simp
  from file_write_ok [OF fl(2) this] obtain fs' where fs': "file_write n (f_offset fl) bs (k_fs s) = Some (int c, fs')"
    "file_contents n fs' = Some (overwrite (unat (f_offset fl)) bs xs)" "file_others n fs' = file_others n (k_fs s)"
    "\<forall>i. alloc_ok fs' i" using al len by auto
  have "bs ! i = m' (chunk + of_nat i)" if "i < c" for i using that unfolding m'(2) [symmetric] by (simp add: load_bytes_nth)
  then have "ramfs_ops_write (Some n) (f_offset fl) (of_nat c) (Some (\<lambda>i. m' (chunk + of_nat i))) (k_fs s) = Some (int c, fs')"
    using fs'(1) ops_write_cong [of "of_nat c" "(!) bs" "\<lambda>i. m' (chunk + of_nat i)" "Some n" "f_offset fl" "k_fs s"] len l
    by (simp add: file_write_def unat_of_nat_small)
  moreover have "chunk \<noteq> 0" using k by (auto simp: kernel_buffer_def)
  moreover have "0 < c" using cl tc by simp
  ultimately have "sys_write_loop f n (ramfs_write n) buf count chunk tc s =
      sys_write_loop f n (ramfs_write n) buf count chunk (tc + of_nat c) (stored f fl m' (f_offset fl + of_nat c) fs' s)"
    using tc fl(1) m'(1) cw advance_stored [OF r fs'(2,3), of tc "int c" m']
    by (subst sys_write_loop.simps) (simp add: word_le_nat_alt)
  then show ?thesis using fs' m'(3) by blast
qed

lemma load_user:
  assumes d: "unat d + n \<le> 2 ^ 47" and c: "kernel_buffer chunk" and m: "\<forall>x. x \<notin> extent chunk 512 \<longrightarrow> m' x = m x"
  shows "load_bytes m' d n = load_bytes m d n"
proof (rule load_bytes_cong)
  fix i assume i: "i < n"
  have "unat (d + of_nat i) = unat d + i" using d i by (intro unat_add_of_nat) simp
  then have "unat (d + of_nat i) < unat chunk" using d i c unfolding kernel_buffer_def by linarith
  then have "\<not> unat (d + of_nat i - chunk) < 512" using c unfolding kernel_buffer_def unat_diff_u64 by auto
  then show "m' (d + of_nat i) = m (d + of_nat i)" using m by (simp add: extent_def)
qed

lemma write_loop_file:
  assumes "regular s f fl n xs" "unat buf + unat count \<le> 2 ^ 47" "kernel_buffer chunk" "unat tc \<le> unat count"
    and "\<forall>i. alloc_ok (k_fs s) i" "unat (f_offset fl) + (unat count - unat tc) < 2 ^ 63"
    and "bs = load_bytes (kmem s) (buf + tc) (unat count - unat tc)"
  shows "\<exists>m' fs'. sys_write_loop f n (ramfs_write n) buf count chunk tc s =
      Some (int (unat count), stored f fl m' (f_offset fl + of_nat (length bs)) fs' s) \<and>
    file_contents n fs' = Some (overwrite (unat (f_offset fl)) bs xs) \<and> file_others n fs' = file_others n (k_fs s) \<and>
    (\<forall>i. alloc_ok fs' i) \<and> (\<forall>x. x \<notin> extent chunk 512 \<longrightarrow> m' x = kmem s x)"
  using assms
proof (induction "unat count - unat tc" arbitrary: s fl xs tc bs rule: less_induct)
  case less
  note r = less.prems(1) and u = less.prems(2) and k = less.prems(3) and al = less.prems(5)
  have fl: "files s f = Some fl" "file_contents n (k_fs s) = Some xs" using r by (simp_all add: regular_def)
  show ?case
  proof (cases "unat tc = unat count")
    case True
    then have bs: "bs = []" using less.prems(7) by (simp add: load_bytes_def)
    have "unat tc < 2 ^ 63" using True u by simp
    then have "sys_write_loop f n (ramfs_write n) buf count chunk tc s = Some (int (unat count), s)"
      using True sint_small [of tc] by (subst sys_write_loop.simps) (simp add: word_le_nat_alt)
    then show ?thesis using bs al fl stored_same [OF fl(1)]
      by (intro exI [of _ "kmem s"] exI [of _ "k_fs s"]) (simp add: overwrite_def)
  next
    case False
    then have lt: "unat tc < unat count" using less.prems(4) by simp
    define c where "c = unat (chunk_len count tc)"
    define b where "b = load_bytes (kmem s) (buf + tc) c"
    define tc' where "tc' = tc + of_nat c"
    define off where "off = f_offset fl + of_nat c"
    have c: "0 < c" "c \<le> unat count - unat tc" using chunk_len_unat [OF lt] lt by (simp_all add: c_def)
    have tc': "unat tc' = unat tc + c" unfolding tc'_def using c(2) lt unat_lt_u64 [of count] by (intro unat_add_of_nat) simp
    have off: "unat off = unat (f_offset fl) + c"
      unfolding off_def using c(2) less.prems(6) by (intro unat_add_of_nat) simp
    have oc: "unat (f_offset fl) + c < 2 ^ 63" using c(2) less.prems(6) by linarith
    obtain m1 fs1 where m1: "sys_write_loop f n (ramfs_write n) buf count chunk tc s =
        sys_write_loop f n (ramfs_write n) buf count chunk tc' (stored f fl m1 off fs1 s)"
      "file_contents n fs1 = Some (overwrite (unat (f_offset fl)) b xs)" "file_others n fs1 = file_others n (k_fs s)"
      "\<forall>i. alloc_ok fs1 i" "\<forall>x. x \<notin> extent chunk 512 \<longrightarrow> m1 x = kmem s x"
      using write_turn [OF r u k lt al c_def oc b_def] unfolding tc'_def off_def by blast
    define b' where "b' = load_bytes m1 (buf + tc') (unat count - unat tc')"
    have "unat count - unat tc' < unat count - unat tc" "unat tc' \<le> unat count"
      "unat (f_offset (fl\<lparr>f_offset := off\<rparr>)) + (unat count - unat tc') < 2 ^ 63"
      using tc' c lt off less.prems(6) by simp_all
    from less.hyps [OF this(1) regular_stored [OF r m1(2,3)] u k this(2) _ this(3), of m1 b'] m1(4) obtain m2 fs2 where
      m2: "sys_write_loop f n (ramfs_write n) buf count chunk tc' (stored f fl m1 off fs1 s) =
        Some (int (unat count), stored f fl m2 (off + of_nat (length b')) fs2 s)"
      "file_contents n fs2 = Some (overwrite (unat off) b' (overwrite (unat (f_offset fl)) b xs))"
      "file_others n fs2 = file_others n fs1" "\<forall>i. alloc_ok fs2 i" "\<forall>x. x \<notin> extent chunk 512 \<longrightarrow> m2 x = m1 x"
      by (auto simp: b'_def)
    have q: "buf + tc' = buf + tc + of_nat c" by (simp add: tc'_def)
    have a2: "unat (buf + tc') = unat buf + unat tc'" using u tc' c(2) lt by (intro unat_add_u64) simp
    have "unat (buf + tc') + (unat count - unat tc') \<le> 2 ^ 47" using a2 u tc' c(2) lt by linarith
    from load_user [OF this k m1(5)] have b': "b' = load_bytes (kmem s) (buf + tc + of_nat c) (unat count - unat tc - c)"
      unfolding b'_def q tc' by simp
    have bs: "bs = b @ b'"
      unfolding less.prems(7) b_def b'
      using load_bytes_append [of "kmem s" "buf + tc" c "unat count - unat tc - c"] le_add_diff_inverse [OF c(2)] by simp
    have lb: "length b = c" by (simp add: b_def)
    have "overwrite (unat off) b' (overwrite (unat (f_offset fl)) b xs) = overwrite (unat (f_offset fl)) bs xs"
      unfolding bs off using overwrite_append [of "unat (f_offset fl)" b b' xs] lb by simp
    then show ?thesis using m1 m2 bs lb by (intro exI [of _ m2] exI [of _ fs2]) (simp add: off_def add.assoc)
  qed
qed

lemma ops_write_ramfs: "ops_write Ramfs_ops = Some ramfs_write"
  by (simp add: ops_write_def fun_eq_iff)

lemma sys_write_file:
  assumes fd: "fd_names s fd f" and r: "regular s f fl n xs" and w: "f_flags fl AND O_RDWR \<noteq> 0"
    and u: "buf \<noteq> 0" "unat buf + unat count \<le> 2 ^ 47" and k: "kernel_buffer chunk"
    and al: "\<forall>i. alloc_ok (k_fs s) i" and off: "unat (f_offset fl) + unat count < 2 ^ 63"
    and bs: "bs = load_bytes (kmem s) buf (unat count)"
  shows "\<exists>m' fs'. sys_write chunk fd buf count s =
      Some (int (unat count), stored f fl m' (f_offset fl + of_nat (unat count)) fs' s) \<and>
    file_contents n fs' = Some (overwrite (unat (f_offset fl)) bs xs) \<and> file_others n fs' = file_others n (k_fs s) \<and>
    (\<forall>x. x \<notin> extent chunk 512 \<longrightarrow> m' x = kmem s x)"
proof -
  obtain v where v: "files s f = Some fl" "f_node fl = Some n" "nodes (k_fs s) n = Some v" "node_ops v = Some Ramfs_ops"
    using r by (auto simp: regular_def)
  have "sys_write chunk fd buf count s = sys_write_loop f n (ramfs_write n) buf count chunk 0 s"
    using fd_file_names [OF fd] u(1) v w by (simp add: sys_write_def ops_write_ramfs)
  moreover have "length bs = unat count" by (simp add: bs)
  ultimately show ?thesis using write_loop_file [OF r u(2) k, of 0 bs] al off bs by auto
qed

lemma sys_lseek_set:
  assumes fd: "fd_names s fd f" and r: "regular s f fl n xs"
  shows "sys_lseek fd off SEEK_SET s = Some (sint (of_int off :: u64), repos f fl (kmem s) (of_int off) s)"
proof -
  obtain v where v: "files s f = Some fl" "f_node fl = Some n" "nodes (k_fs s) n = Some v" "node_flags v AND VFS_CHARDEVICE = 0"
    using r by (auto simp: regular_def)
  show ?thesis using fd_file_names [OF fd] v
    by (simp add: sys_lseek_def SEEK_SET_def SEEK_CUR_def SEEK_END_def Let_def upd_file_def repos_def)
qed

section \<open>Properties\<close>

text \<open>C13. Reading a regular file through its descriptor: for a user buffer below the kernel half, the call returns the
  number of bytes between the position of the file and its end, at most as many as asked for; the buffer then holds
  exactly these bytes, the position has moved behind them, and nothing else of the kernel state changed but the
  stack buffer of the call.\<close>

theorem sys_read_delivers:
  assumes "fd_names s fd f" "regular s f fl n xs" "buf \<noteq> 0" "unat buf + unat count \<le> 2 ^ 47" "kernel_buffer chunk"
    and "bs = take (unat count) (drop (unat (f_offset fl)) xs)"
  shows "\<exists>m'. sys_read chunk sp fd buf count s =
      Some (Io_done (int (length bs))
        (s\<lparr>kmem := m', files := (files s)(f \<mapsto> fl\<lparr>f_offset := f_offset fl + of_nat (length bs)\<rparr>)\<rparr>)) \<and>
    load_bytes m' buf (length bs) = bs \<and>
    (\<forall>x. x \<notin> extent buf (length bs) \<and> x \<notin> extent chunk 512 \<longrightarrow> m' x = kmem s x)"
  using sys_read_file [OF assms] unfolding repos_def .

text \<open>A kernel with one task, whose descriptor 3 is open on a file that holds \<open>hi\<close>.\<close>

definition hi_fs :: fs_state where
  "hi_fs = \<lparr>nodes = [0 \<mapsto> \<lparr>node_name = [97], node_flags = VFS_FILE, node_inode = 0, node_size = 2, node_ops = Some Ramfs_ops,
       priv_data = Some \<lparr>first_child = None, next_sibling = None, pages = [Some (\<lambda>i. if i = 0 then 104 else if i = 1 then 105 else 0)]\<rparr>\<rparr>],
     next_node = 1, alloc_ok = (\<lambda>_. True), alloc_no = 0, vfs_mount_list = []\<rparr>"

definition hi_file :: open_file where
  "hi_file = \<lparr>f_node = Some 0, f_offset = 0, f_flags = O_RDWR, f_ref_count = 1\<rparr>"

definition hi_task :: task where
  "hi_task = \<lparr>t_pid = 1, t_state = TASK_RUNNING, t_kernel_stack_base = 0, t_kernel_stack_top = 0, t_trap_frame = 0,
     t_fpu_state = 0, t_switch_frame = 0, t_vmm_context = 0, t_switch_count = 0,
     t_fds = (replicate 256 0)[3 := 4096], t_chan = 0, t_next = 64\<rparr>"

definition hi_kernel :: kernel_state where
  "hi_kernel = \<lparr>kmem = (\<lambda>_. 7), hhdm_offset = 0, free_list_head = 0, max_phys_addr = 0, heap_block_list = 0,
     vmm_kernel_context = 0, vmm_current_context = 0, user_root_reg = 0, kernel_root_reg = 0,
     tasks = [64 \<mapsto> hi_task], run_queue_head = 64, current = 64, cursor = 64, scheduler_task = 0, scheduler_frame = 1,
     need_resched = False, irq_on = False, kernel_rsp = 0, locked = (\<lambda>_. False), tick = 0,
     k_fs = hi_fs, files = [4096 \<mapsto> hi_file], the_console = 0, con_node = (\<lambda>_. 0), con_data = Map.empty,
     k_console = \<lparr>con_fb = None, con_term = fb_term_start, con_serial = []\<rparr>\<rparr>"

lemma hi_kernel_ok:
  "fd_names hi_kernel 3 4096" "regular hi_kernel 4096 hi_file 0 [104, 105]" "kernel_buffer 0xFFFF800000000000"
  "\<forall>i. alloc_ok (k_fs hi_kernel) i"
proof -
  show "fd_names hi_kernel 3 4096"
    by (simp add: fd_names_def bad_fd_def MAX_OPEN_FILES_def sched_get_current_task_def hi_kernel_def hi_task_def nth_list_update)
  have "file_contents 0 hi_fs = Some [104, 105]"
    by (auto simp: file_contents_def file_ok_def hi_fs_def VFS_FILE_def pages_fit_def pages_byte_def upt_rec)
  then show "regular hi_kernel 4096 hi_file 0 [104, 105]"
    by (simp add: regular_def hi_kernel_def hi_file_def hi_fs_def VFS_FILE_def VFS_CHARDEVICE_def)
  show "kernel_buffer 0xFFFF800000000000" by (simp add: kernel_buffer_def)
  show "\<forall>i. alloc_ok (k_fs hi_kernel) i" by (simp add: hi_kernel_def hi_fs_def)
qed

theorem sys_read_delivers_witness:
  "\<exists>m' s'. sys_read 0xFFFF800000000000 0 3 0x1000 10 hi_kernel = Some (Io_done 2 s') \<and>
     kmem s' = m' \<and> load_bytes m' 0x1000 2 = [104, 105]"
proof -
  have l: "length [104, 105 :: u8] = 2" by simp
  have t: "take (unat (10 :: u64)) (drop (unat (f_offset hi_file)) [104, 105 :: u8]) = [104, 105]" by (simp add: hi_file_def)
  show ?thesis
    using sys_read_delivers [OF hi_kernel_ok(1,2) _ _ hi_kernel_ok(3) refl, of "0x1000" 10 0] unfolding t l by auto
qed

text \<open>C14. Writing and reading back. When every allocation succeeds, writing from a user buffer to a regular file opened
  for writing stores all of it; seeking back to the old position and reading the same number of bytes delivers the
  same bytes to a second user buffer. In between, the file holds its old contents overwritten at the position.\<close>

theorem file_write_read:
  assumes fd: "fd_names s fd f" and r: "regular s f fl n xs" and w: "f_flags fl AND O_RDWR \<noteq> 0"
    and src: "src \<noteq> 0" "unat src + unat count \<le> 2 ^ 47" and dst: "dst \<noteq> 0" "unat dst + unat count \<le> 2 ^ 47"
    and k: "kernel_buffer chunk" and al: "\<forall>i. alloc_ok (k_fs s) i" and off: "unat (f_offset fl) + unat count < 2 ^ 63"
    and bs: "bs = load_bytes (kmem s) src (unat count)"
  shows "\<exists>s1 s2 s3. sys_write chunk fd src count s = Some (int (unat count), s1) \<and>
    file_contents n (k_fs s1) = Some (overwrite (unat (f_offset fl)) bs xs) \<and>
    sys_lseek fd (int (unat (f_offset fl))) SEEK_SET s1 = Some (int (unat (f_offset fl)), s2) \<and>
    sys_read chunk sp fd dst count s2 = Some (Io_done (int (unat count)) s3) \<and> load_bytes (kmem s3) dst (unat count) = bs"
proof -
  define o' where "o' = f_offset fl + of_nat (unat count)"
  obtain m1 fs1 where s1: "sys_write chunk fd src count s = Some (int (unat count), stored f fl m1 o' fs1 s)"
    "file_contents n fs1 = Some (overwrite (unat (f_offset fl)) bs xs)" "file_others n fs1 = file_others n (k_fs s)"
    using sys_write_file [OF fd r w src k al off bs] unfolding o'_def by blast
  let ?s1 = "stored f fl m1 o' fs1 s"
  let ?fl = "fl\<lparr>f_offset := o'\<rparr>"
  have r1: "regular ?s1 f ?fl n (overwrite (unat (f_offset fl)) bs xs)" by (rule regular_stored [OF r s1(2,3)])
  have fd1: "fd_names ?s1 fd f" using fd by simp
  let ?s2 = "repos f ?fl m1 (f_offset fl) ?s1"
  have "sint (f_offset fl) = int (unat (f_offset fl))" using off by (intro sint_small) linarith
  then have sk: "sys_lseek fd (int (unat (f_offset fl))) SEEK_SET ?s1 = Some (int (unat (f_offset fl)), ?s2)"
    using sys_lseek_set [OF fd1 r1, of "int (unat (f_offset fl))"] by simp
  have r2: "regular ?s2 f (?fl\<lparr>f_offset := f_offset fl\<rparr>) n (overwrite (unat (f_offset fl)) bs xs)" by (rule regular_repos [OF r1])
  have fd2: "fd_names ?s2 fd f" using fd1 by simp
  have len: "length bs = unat count" by (simp add: bs)
  have tk: "take (unat count) (drop (unat (f_offset fl)) (overwrite (unat (f_offset fl)) bs xs)) = bs"
    using len by (auto simp: overwrite_def)
  obtain m3 where "sys_read chunk sp fd dst count ?s2 = Some (Io_done (int (unat count)) (repos f (?fl\<lparr>f_offset := f_offset fl\<rparr>) m3
      (f_offset fl + of_nat (unat count)) ?s2))" "load_bytes m3 dst (unat count) = bs"
    using sys_read_file [OF fd2 r2 dst k refl, of sp] tk len by auto
  then obtain s3 where "sys_read chunk sp fd dst count ?s2 = Some (Io_done (int (unat count)) s3)"
    "load_bytes (kmem s3) dst (unat count) = bs" by simp
  moreover have "file_contents n (k_fs ?s1) = Some (overwrite (unat (f_offset fl)) bs xs)" using s1(2) by simp
  ultimately show ?thesis using s1(1) sk by blast
qed

theorem file_write_read_witness:
  "\<exists>s1 s2 s3. sys_write 0xFFFF800000000000 3 0x1000 600 hi_kernel = Some (600, s1) \<and>
     sys_lseek 3 0 SEEK_SET s1 = Some (0, s2) \<and>
     sys_read 0xFFFF800000000000 0 3 0x9000 600 s2 = Some (Io_done 600 s3) \<and>
     load_bytes (kmem s3) 0x9000 600 = load_bytes (kmem hi_kernel) 0x1000 600"
  using file_write_read [OF hi_kernel_ok(1,2) _ _ _ _ _ hi_kernel_ok(3,4) _ refl, of "0x1000" 600 "0x9000" 0]
  by (auto simp: hi_file_def O_RDWR_def)

end
