(* ===== verification/Task.thy ===== *)
theory Task
  imports Files
begin

text \<open>
  Making and destroying tasks: \<^verbatim>\<open>kernel/src/proc/task.c\<close>, with the area for the floating-point registers of
  \<^verbatim>\<open>fpu_state.c\<close> on both architectures. The addresses of \<^verbatim>\<open>task_exit_guard\<close> and \<^verbatim>\<open>task_trampoline\<close> and the
  value of the stack pointer are parameters. \<open>None\<close> is a panic or a dangling pointer.
\<close>

section \<open>State\<close>

record proc_state = kernel_state +
  next_pid :: u64

text \<open>\<^verbatim>\<open>sizeof(struct task)\<close>, and a zeroed task.\<close>

definition TASK_SIZE :: u64 where "TASK_SIZE = 2160"

definition zero_task :: task where
  "zero_task = \<lparr>t_pid = 0, t_state = TASK_DEAD, t_kernel_stack_base = 0, t_kernel_stack_top = 0, t_trap_frame = 0,
     t_fpu_state = 0, t_switch_frame = 0, t_vmm_context = 0, t_switch_count = 0,
     t_fds = replicate (nat MAX_OPEN_FILES) 0, t_chan = 0, t_next = 0\<rparr>"

section \<open>Floating-point state\<close>

definition FPU_STATE_SIZE :: "arch \<Rightarrow> u64" where
  "FPU_STATE_SIZE a = (case a of X86_64 \<Rightarrow> 512 | AArch64 \<Rightarrow> 528)"

definition X86_64_FCW_DEFAULT :: u64 where "X86_64_FCW_DEFAULT = 0x37F"
definition X86_64_MXCSR_DEFAULT :: u64 where "X86_64_MXCSR_DEFAULT = 0x1F80"

definition x86_64_fpu_defaults :: "u64 \<Rightarrow> mem \<Rightarrow> mem" where
  "x86_64_fpu_defaults fpu m =
     store_bytes (store_bytes m fpu (le_bytes 2 X86_64_FCW_DEFAULT)) (fpu + 24) (le_bytes 4 X86_64_MXCSR_DEFAULT)"

definition arch_fpu_init :: "arch \<Rightarrow> u64 \<Rightarrow> 'a sched_state_scheme \<Rightarrow> (int \<times> 'a sched_state_scheme) option" where
  "arch_fpu_init a task s = do {
     (fpu, s) \<leftarrow> kcalloc 1 (FPU_STATE_SIZE a) s;
     if fpu = 0 then Some (- ENOMEM, s)
     else do {
       let s = s\<lparr>kmem := (case a of X86_64 \<Rightarrow> x86_64_fpu_defaults fpu (kmem s) | AArch64 \<Rightarrow> kmem s)\<rparr>;
       Some (0, upd_task task (t_fpu_state_update (\<lambda>_. fpu)) s)
     }
   }"

definition arch_fpu_free :: "u64 \<Rightarrow> 'a sched_state_scheme \<Rightarrow> 'a sched_state_scheme option" where
  "arch_fpu_free task s = do {
     tk \<leftarrow> tasks s task;
     if t_fpu_state tk = 0 then Some s
     else do {
       s \<leftarrow> kfree (t_fpu_state tk) s;
       Some (upd_task task (t_fpu_state_update (\<lambda>_. 0)) s)
     }
   }"

definition arch_fpu_copy :: "arch \<Rightarrow> u64 \<Rightarrow> u64 \<Rightarrow> 'a sched_state_scheme \<Rightarrow> 'a sched_state_scheme option" where
  "arch_fpu_copy a dst src s = do {
     d \<leftarrow> tasks s dst;
     t \<leftarrow> tasks s src;
     Some (s\<lparr>kmem := memcpy (kmem s) (t_fpu_state d) (t_fpu_state t) (FPU_STATE_SIZE a)\<rparr>)
   }"

section \<open>Destroying a task\<close>

definition set_fd :: "u64 \<Rightarrow> nat \<Rightarrow> u64 \<Rightarrow> 'a sched_state_scheme \<Rightarrow> 'a sched_state_scheme" where
  "set_fd task fd f s = upd_task task (t_fds_update (\<lambda>fds. fds[fd := f])) s"

fun task_close_fds :: "u64 \<Rightarrow> nat list \<Rightarrow> 'a kernel_state_scheme \<Rightarrow> 'a kernel_state_scheme option" where
  "task_close_fds task [] s = Some s"
| "task_close_fds task (fd # fds) s = do {
     tk \<leftarrow> tasks s task;
     s \<leftarrow> (if t_fds tk ! fd \<noteq> 0 then map_option (set_fd task fd 0) (file_unref (t_fds tk ! fd) s) else Some s);
     task_close_fds task fds s
   }"

definition task_destroy :: "arch \<Rightarrow> u64 \<Rightarrow> 'a kernel_state_scheme \<Rightarrow> 'a kernel_state_scheme option" where
  "task_destroy a task s =
     (if task = 0 then Some s
      else do {
        s \<leftarrow> task_close_fds task [0..<nat MAX_OPEN_FILES] s;
        tk \<leftarrow> tasks s task;
        s \<leftarrow> (if t_vmm_context tk \<noteq> 0 \<and> t_vmm_context tk \<noteq> vmm_kernel_context s
              then vmm_destroy_context a (t_vmm_context tk) s else Some s);
        let s = (if t_kernel_stack_base tk \<noteq> 0 then kstack_free (t_kernel_stack_base tk) s else s);
        s \<leftarrow> arch_fpu_free task s;
        s \<leftarrow> kfree task s;
        Some (s\<lparr>tasks := (tasks s)(task := None)\<rparr>)
      })"

section \<open>Making a task\<close>

definition DEV_CONSOLE :: cstring where "DEV_CONSOLE = map of_char ''/dev/console''"

definition task_open_std_fds :: "u64 \<Rightarrow> 'a kernel_state_scheme \<Rightarrow> (int \<times> 'a kernel_state_scheme) option" where
  "task_open_std_fds task s = do {
     (console, fs) \<leftarrow> vfs_lookup (Some DEV_CONSOLE) (k_fs s);
     let s = s\<lparr>k_fs := fs\<rparr>;
     if console = None then Some (- ENOENT, s)
     else do {
       (f, s) \<leftarrow> file_open_node console O_RDWR s;
       if f = 0 then Some (- ENOMEM, s)
       else do {
         let s = set_fd task 0 f s;
         (f1, s) \<leftarrow> file_ref f s;
         let s = set_fd task 1 f1 s;
         if f1 = 0 then Some (- EBADF, s)
         else do {
           (f2, s) \<leftarrow> file_ref f s;
           let s = set_fd task 2 f2 s;
           Some (if f2 = 0 then - EBADF else 0, s)
         }
       }
     }
   }"

text \<open>Every failure destroys the task made so far.\<close>

definition task_fail :: "arch \<Rightarrow> u64 \<Rightarrow> 'a kernel_state_scheme \<Rightarrow> (u64 \<times> 'a kernel_state_scheme) option" where
  "task_fail a task s = map_option (\<lambda>s. (0, s)) (task_destroy a task s)"

text \<open>A stack and a context of its own unless one is given: the value tells whether there is one.\<close>

definition task_give_stack :: "u64 \<Rightarrow> u64 \<Rightarrow> 'a sched_state_scheme \<Rightarrow> (bool \<times> 'a sched_state_scheme) option" where
  "task_give_stack task kernel_stack_top s =
     (if kernel_stack_top \<noteq> 0 then Some (True, upd_task task (t_kernel_stack_top_update (\<lambda>_. kernel_stack_top)) s)
      else do {
        (base, s) \<leftarrow> kstack_alloc s;
        let s = upd_task task (t_kernel_stack_base_update (\<lambda>_. base)) s;
        if base = 0 then Some (False, s)
        else Some (True, upd_task task (t_kernel_stack_top_update (\<lambda>_. kstack_get_top base)) s)
      })"

definition task_give_context :: "arch \<Rightarrow> u64 \<Rightarrow> u64 \<Rightarrow> 'a sched_state_scheme \<Rightarrow> (bool \<times> 'a sched_state_scheme) option" where
  "task_give_context a task ctx s =
     (if ctx \<noteq> 0 then Some (True, upd_task task (t_vmm_context_update (\<lambda>_. ctx)) s)
      else do {
        (new, s) \<leftarrow> vmm_create_context a s;
        Some (new \<noteq> 0, upd_task task (t_vmm_context_update (\<lambda>_. new)) s)
      })"

definition task_inner_create :: "arch \<Rightarrow> u64 \<Rightarrow> u64 \<Rightarrow> 'a proc_state_scheme \<Rightarrow> (u64 \<times> 'a proc_state_scheme) option" where
  "task_inner_create a kernel_stack_top ctx s = do {
     (task, s) \<leftarrow> kcalloc 1 TASK_SIZE s;
     if task = 0 then Some (0, s)
     else do {
       let s = s\<lparr>tasks := (tasks s)(task \<mapsto> zero_task\<lparr>t_pid := next_pid s, t_state := TASK_READY\<rparr>),
                 next_pid := next_pid s + 1\<rparr>;
       (r, s) \<leftarrow> arch_fpu_init a task s;
       if r \<noteq> 0 then task_fail a task s
       else do {
         (ok, s) \<leftarrow> task_give_stack task kernel_stack_top s;
         if \<not> ok then task_fail a task s
         else do {
           (ok, s) \<leftarrow> task_give_context a task ctx s;
           if \<not> ok then task_fail a task s
           else do {
             (r, s) \<leftarrow> task_open_std_fds task s;
             if r \<noteq> 0 then task_fail a task s else Some (task, s)
           }
         }
       }
     }
   }"

definition task_init_boot :: "arch \<Rightarrow> u64 \<Rightarrow> 'a proc_state_scheme \<Rightarrow> (u64 \<times> 'a proc_state_scheme) option" where
  "task_init_boot a sp s = task_inner_create a sp (vmm_kernel_context s) s"

text \<open>The frames of a new task.\<close>

definition task_set_frames ::
  "arch \<Rightarrow> u64 \<Rightarrow> u64 \<Rightarrow> u64 \<Rightarrow> mem \<Rightarrow> 'a sched_state_scheme \<Rightarrow> (u64 \<times> 'a sched_state_scheme) option" where
  "task_set_frames a trampoline task frame m s = do {
     (sframe, m) \<leftarrow> arch_task_init_switch_frame a trampoline frame m;
     Some (task, upd_task task (\<lambda>tk. tk\<lparr>t_trap_frame := frame, t_switch_frame := sframe\<rparr>) (s\<lparr>kmem := m\<rparr>))
   }"

definition task_create ::
  "arch \<Rightarrow> u64 \<Rightarrow> u64 \<Rightarrow> u64 \<Rightarrow> 'a proc_state_scheme \<Rightarrow> (u64 \<times> 'a proc_state_scheme) option" where
  "task_create a exit_guard trampoline entry s = do {
     (task, s) \<leftarrow> task_inner_create a 0 (vmm_kernel_context s) s;
     if task = 0 then Some (0, s)
     else do {
       tk \<leftarrow> tasks s task;
       let (frame, m) = arch_task_init_frame a exit_guard (t_kernel_stack_top tk) entry (kmem s);
       task_set_frames a trampoline task frame m s
     }
   }"

definition task_create_user ::
  "arch \<Rightarrow> u64 \<Rightarrow> u64 \<Rightarrow> u64 \<Rightarrow> u64 \<Rightarrow> 'a proc_state_scheme \<Rightarrow> (u64 \<times> 'a proc_state_scheme) option" where
  "task_create_user a trampoline ctx user_entry user_stack_top s = do {
     (task, s) \<leftarrow> task_inner_create a 0 ctx s;
     if task = 0 then Some (0, s)
     else do {
       tk \<leftarrow> tasks s task;
       (frame, m) \<leftarrow> arch_task_init_user_frame a (t_kernel_stack_top tk) user_entry user_stack_top (kmem s);
       task_set_frames a trampoline task frame m s
     }
   }"

section \<open>Entering and leaving\<close>

definition task_exit_guard :: "'a sched_state_scheme \<Rightarrow> 'a sched_state_scheme option" where
  "task_exit_guard s = None"

text \<open>The value is the frame the processor returns to.\<close>

definition task_trampoline :: "'a sched_state_scheme \<Rightarrow> u64 option" where
  "task_trampoline s =
     (let task = sched_get_current_task s in if task = 0 then None else map_option t_trap_frame (tasks s task))"

section \<open>System calls\<close>

definition SIGCHLD :: u64 where "SIGCHLD = 17"

definition sys_getpid :: "'a sched_state_scheme \<Rightarrow> (int \<times> 'a sched_state_scheme) option" where
  "sys_getpid s = map_option (\<lambda>tk. (sint (t_pid tk), s)) (tasks s (sched_get_current_task s))"

definition sys_exit :: "int \<Rightarrow> 'a sched_state_scheme \<Rightarrow> (int \<times> 'a sched_state_scheme) option" where
  "sys_exit status s = map_option (\<lambda>s. (0, s)) (sched_exit_current s)"

definition sys_clone ::
  "u64 \<Rightarrow> u64 \<Rightarrow> u64 \<Rightarrow> u64 \<Rightarrow> u64 \<Rightarrow> 'a sched_state_scheme \<Rightarrow> (int \<times> 'a sched_state_scheme) option" where
  "sys_clone flags stack parent_tid child_tid tls s = Some (- ENOSYS, s)"

definition sys_fork :: "'a sched_state_scheme \<Rightarrow> (int \<times> 'a sched_state_scheme) option" where
  "sys_fork s = sys_clone SIGCHLD 0 0 0 0 s"

definition sys_wait4 :: "int \<Rightarrow> u64 \<Rightarrow> int \<Rightarrow> u64 \<Rightarrow> 'a sched_state_scheme \<Rightarrow> (int \<times> 'a sched_state_scheme) option" where
  "sys_wait4 pid status options rusage s = Some (- ENOSYS, s)"

end
