(* ===== verification/Fd_Refs.thy ===== *)
theory Fd_Refs
  imports Task Kheap_Client
begin

text \<open>
  Descriptors and open files. A file is shared: every descriptor of every task that names it counts
  once. The invariant \<open>fd_inv\<close> says that no descriptor dangles, that the count of every file is the
  number of descriptors naming it, and that every file is a live block of the heap.
\<close>

section \<open>Frames\<close>

lemma pmm_alloc_frame: "pmm_alloc n s = Some (p, s') \<Longrightarrow> \<exists>m h. s' = s\<lparr>kmem := m, free_list_head := h\<rparr>"
proof -
  assume "pmm_alloc n s = Some (p, s')"
  then consider "s' = s" | h where "s' = s\<lparr>free_list_head := h\<rparr>" | m where "s' = s\<lparr>kmem := m\<rparr>"
    by (auto simp: pmm_alloc_def bind_eq_Some_conv Let_def split: if_splits)
  then show ?thesis
  proof cases
    case 1
    then show ?thesis by (intro exI [of _ "kmem s"] exI [of _ "free_list_head s"]) simp
  next
    case 2
    then show ?thesis by (intro exI [of _ "kmem s"] exI [of _ h]) simp
  next
    case 3
    then show ?thesis by (intro exI [of _ m] exI [of _ "free_list_head s"]) simp
  qed
qed

lemma kmalloc_frame:
  "kmalloc req s = Some (p, s') \<Longrightarrow> \<exists>m h b. s' = s\<lparr>kmem := m, free_list_head := h, heap_block_list := b\<rparr>"
proof -
  assume a: "kmalloc req s = Some (p, s')"
  have take: "\<exists>m. s2 = s1\<lparr>kmem := m\<rparr>" if "kmalloc_take k sz s1 = Some (p, s2)" for k sz s1 s2
    using that by (auto simp: kmalloc_take_def bind_eq_Some_conv)
  have same: "s = s\<lparr>kmem := kmem s, free_list_head := free_list_head s, heap_block_list := heap_block_list s\<rparr>" by simp
  from a consider "s' = s" | m where "s' = s\<lparr>kmem := m\<rparr>" | r s1 n where "pmm_alloc n s = Some (r, s1)" "s' = s1"
    | r s1 n m b where "pmm_alloc n s = Some (r, s1)" "s' = s1\<lparr>heap_block_list := b, kmem := m\<rparr>"
    unfolding kmalloc_def Let_def by (auto simp: bind_eq_Some_conv split: if_splits prod.splits dest!: take)
  then show ?thesis
  proof cases
    case 1
    then show ?thesis using same by metis
  next
    case (2 m)
    then have "s' = s\<lparr>kmem := m, free_list_head := free_list_head s, heap_block_list := heap_block_list s\<rparr>" by simp
    then show ?thesis by blast
  next
    case 3
    then obtain m h where "s' = s\<lparr>kmem := m, free_list_head := h\<rparr>" using pmm_alloc_frame by blast
    then have "s' = s\<lparr>kmem := m, free_list_head := h, heap_block_list := heap_block_list s\<rparr>" by simp
    then show ?thesis by blast
  next
    case (4 r s1 n m b)
    then obtain m1 h where "s1 = s\<lparr>kmem := m1, free_list_head := h\<rparr>" using pmm_alloc_frame by blast
    then have "s' = s\<lparr>kmem := m, free_list_head := h, heap_block_list := b\<rparr>" using 4(2) by simp
    then show ?thesis by blast
  qed
qed

lemma kfree_frame: "kfree p s = Some s' \<Longrightarrow> \<exists>m. s' = s\<lparr>kmem := m\<rparr>"
  by (auto simp: kfree_def Let_def split: if_splits intro: exI [of _ "kmem s"])

text \<open>Looking a path up changes nothing.\<close>

lemma walk_cases:
  assumes "vfs_walk_loop False 0 (Some tok) save d s = Some (r, s')" "strtokr_next save = (nt, save')"
  shows "s' = s \<or> (\<exists>c. vfs_walk_loop False 0 nt save' c s = Some (r, s'))"
proof -
  obtain v where v: "nodes s d = Some v" using assms by (cases "nodes s d") (simp_all add: vfs_walk_loop.simps)
  note e = assms(1) [unfolded vfs_walk_loop.simps [of False 0 "Some tok"]] and nx = assms(2)
  show ?thesis
  proof (cases "node_flags v AND VFS_DIRECTORY = 0 \<or> Option.bind (node_ops v) ops_finddir = None")
    case True
    then show ?thesis using e v nx by (cases "node_ops v") (auto split: if_splits)
  next
    case False
    then obtain ops fd where o: "node_flags v AND VFS_DIRECTORY \<noteq> 0" "node_ops v = Some ops" "ops_finddir ops = Some fd"
      by (auto simp: bind_eq_Some_conv)
    obtain found where "fd d tok s = Some found" using e v nx o by (cases "fd d tok s") simp_all
    then show ?thesis using e v nx o by (cases found) (auto simp: vfs_create_missing_def)
  qed
qed

lemma walk_same: "vfs_walk_loop False 0 token save d s = Some (r, s') \<Longrightarrow> s' = s"
proof (induction "case token of None \<Rightarrow> 0 | Some _ \<Rightarrow> Suc (case save of None \<Rightarrow> 0 | Some r \<Rightarrow> length r)"
    arbitrary: token save d rule: less_induct)
  case less
  show ?case
  proof (cases token)
    case None
    then show ?thesis using less.prems by (simp add: vfs_walk_loop.simps)
  next
    case (Some tok)
    obtain nt save' where nx: "strtokr_next save = (nt, save')" by fastforce
    from walk_cases [OF less.prems [unfolded Some] nx] show ?thesis
    proof (elim disjE exE)
      fix c assume c: "vfs_walk_loop False 0 nt save' c s = Some (r, s')"
      show "s' = s"
        by (rule less.hyps [OF _ c]) (use nx strtokr_next_shorter [of save _ save'] Some in \<open>auto split: option.splits\<close>)
    qed
  qed
qed

lemma lookup_same: "vfs_lookup p s = Some (r, s') \<Longrightarrow> s' = s"
  by (auto simp: vfs_lookup_def vfs_inner_find_and_create_def split: option.splits if_splits prod.splits dest: walk_same)

section \<open>The invariant\<close>

definition fd_slots :: "'a sched_state_scheme \<Rightarrow> u64 \<Rightarrow> (u64 \<times> nat) set" where
  "fd_slots s f = {(t, i). \<exists>tk. tasks s t = Some tk \<and> i < length (t_fds tk) \<and> t_fds tk ! i = f}"

text \<open>\<open>h\<close> counts the references held in variables of the running call; \<open>U\<close> are the payloads of the heap.\<close>

definition fd_inv :: "'a kernel_state_scheme \<Rightarrow> (u64 \<times> u64) set \<Rightarrow> (u64 \<Rightarrow> nat) \<Rightarrow> bool" where
  "fd_inv s U h \<longleftrightarrow>
     heap_payloads s U \<and> finite (dom (tasks s)) \<and>
     (\<forall>t tk. tasks s t = Some tk \<longrightarrow> length (t_fds tk) = nat MAX_OPEN_FILES) \<and>
     (\<forall>f. f \<noteq> 0 \<and> (fd_slots s f \<noteq> {} \<or> h f \<noteq> 0) \<longrightarrow> files s f \<noteq> None) \<and>
     (\<forall>f fl. files s f = Some fl \<longrightarrow> f \<noteq> 0 \<and> f \<in> fst ` U \<and> 0 < f_ref_count fl \<and>
        f_ref_count fl = int (card (fd_slots s f) + h f) \<and> (\<exists>n. f_node fl = Some n \<and> nodes (k_fs s) n \<noteq> None))"

definition fd_ok :: "'a kernel_state_scheme \<Rightarrow> bool" where
  "fd_ok s \<longleftrightarrow> (\<exists>U. fd_inv s U (\<lambda>_. 0))"

lemma max_files: "nat MAX_OPEN_FILES = 256"
  by (simp add: MAX_OPEN_FILES_def)

lemma fd_invD:
  assumes "fd_inv s U h"
  shows "heap_payloads s U" "finite (dom (tasks s))" "tasks s t = Some tk \<Longrightarrow> length (t_fds tk) = 256"
    "f \<noteq> 0 \<Longrightarrow> fd_slots s f \<noteq> {} \<or> h f \<noteq> 0 \<Longrightarrow> files s f \<noteq> None"
    "files s f = Some fl \<Longrightarrow> f \<noteq> 0 \<and> f \<in> fst ` U \<and> 0 < f_ref_count fl \<and> f_ref_count fl = int (card (fd_slots s f) + h f) \<and>
       (\<exists>n. f_node fl = Some n \<and> nodes (k_fs s) n \<noteq> None)"
  using assms unfolding fd_inv_def max_files by blast+

lemma fd_invI:
  assumes "heap_payloads s U" "finite (dom (tasks s))" "\<And>t tk. tasks s t = Some tk \<Longrightarrow> length (t_fds tk) = 256"
    "\<And>f. f \<noteq> 0 \<Longrightarrow> fd_slots s f \<noteq> {} \<or> h f \<noteq> 0 \<Longrightarrow> files s f \<noteq> None"
    "\<And>f fl. files s f = Some fl \<Longrightarrow> f \<noteq> 0 \<and> f \<in> fst ` U \<and> 0 < f_ref_count fl \<and> f_ref_count fl = int (card (fd_slots s f) + h f) \<and>
       (\<exists>n. f_node fl = Some n \<and> nodes (k_fs s) n \<noteq> None)"
  shows "fd_inv s U h"
  using assms unfolding fd_inv_def max_files by blast

lemma slots_finite: "fd_inv s U h \<Longrightarrow> finite (fd_slots s f)"
proof -
  assume inv: "fd_inv s U h"
  have "fd_slots s f \<subseteq> dom (tasks s) \<times> {..<256}" using fd_invD(3) [OF inv] by (auto simp: fd_slots_def)
  then show ?thesis using fd_invD(2) [OF inv] by (auto intro: finite_subset)
qed

lemma fd_slots_iff:
  "(a, b) \<in> fd_slots s f \<longleftrightarrow> (case tasks s a of None \<Rightarrow> False | Some tk \<Rightarrow> b < length (t_fds tk) \<and> t_fds tk ! b = f)"
  by (auto simp: fd_slots_def split: option.splits)

lemma slots_set:
  assumes "tasks s t = Some tk" "i < length (t_fds tk)"
  shows "fd_slots (set_fd t i f s) g = (if g = f then insert (t, i) (fd_slots s g) else fd_slots s g - {(t, i)})"
proof (rule set_eqI)
  fix x :: "u64 \<times> nat"
  obtain a b where x: "x = (a, b)" by fastforce
  show "x \<in> fd_slots (set_fd t i f s) g \<longleftrightarrow> x \<in> (if g = f then insert (t, i) (fd_slots s g) else fd_slots s g - {(t, i)})"
  proof (cases "a = t")
    case True
    then show ?thesis using assms by (auto simp: x fd_slots_iff set_fd_def upd_task_def nth_list_update)
  next
    case False
    then show ?thesis by (cases "g = f") (simp_all add: x fd_slots_iff set_fd_def upd_task_def)
  qed
qed

lemma slots_cong: "tasks s' = tasks s \<Longrightarrow> fd_slots s' f = fd_slots s f"
  by (simp add: fd_slots_def)

lemma payloads_cong [simp]:
  "heap_payloads (s\<lparr>files := x\<rparr>) U = heap_payloads s U" "heap_payloads (s\<lparr>k_fs := y\<rparr>) U = heap_payloads s U"
  "heap_payloads (s\<lparr>tasks := z\<rparr>) U = heap_payloads s U" for s :: "'a kernel_state_scheme"
  by (simp_all add: heap_payloads_def heap_inv_def pmm_rel_def pmm_inv_def)

section \<open>Operations on files\<close>

definition fd_frame :: "'a kernel_state_scheme \<Rightarrow> 'a kernel_state_scheme \<Rightarrow> bool" where
  "fd_frame s s' \<longleftrightarrow> tasks s' = tasks s \<and> k_fs s' = k_fs s \<and> current s' = current s \<and> scheduler_task s' = scheduler_task s"

lemma fd_frame_simps [simp]: "fd_frame s s" "fd_frame s (s\<lparr>files := x\<rparr>)" "fd_frame s (upd_file f g s)"
  by (simp_all add: fd_frame_def upd_file_def)

lemma fd_frame_trans: "fd_frame s s1 \<Longrightarrow> fd_frame s1 s2 \<Longrightarrow> fd_frame s s2"
  by (simp add: fd_frame_def)

lemma kmalloc_keeps:
  assumes "kmalloc n s = Some (p, s')"
  shows "fd_frame s s'" "files s' = files s"
  using kmalloc_frame [OF assms] by (auto simp: fd_frame_def)

lemma kfree_keeps:
  assumes "kfree p s = Some s'"
  shows "fd_frame s s'" "files s' = files s"
  using kfree_frame [OF assms] by (auto simp: fd_frame_def)

text \<open>A node that an open file has is there, so its operations can be asked for.\<close>

lemma file_ops_ok: "fd_inv s U h \<Longrightarrow> files s f = Some fl \<Longrightarrow> \<exists>ops. file_ops fl s = Some ops"
  using fd_invD(5) by (fastforce simp: file_ops_def)

lemma no_open: "Option.bind ops ops_open = None" "Option.bind ops ops_close = None"
  by (cases ops; auto simp: ops_open_def ops_close_def split: vfs_ops.splits)+

lemma file_ref_run:
  assumes "fd_inv s U h" "files s f = Some fl"
  shows "file_ref f s = Some (f, upd_file f (f_ref_count_update (\<lambda>n. n + 1)) s)"
proof -
  obtain ops where "file_ops fl s = Some ops" using file_ops_ok [OF assms] by blast
  then show ?thesis using fd_invD(5) [OF assms] assms(2)
    by (simp add: file_ref_def no_open split: bool.splits option.splits)
qed

lemma file_ref_inv:
  assumes inv: "fd_inv s U h" and f: "files s f = Some fl"
  shows "fd_inv (upd_file f (f_ref_count_update (\<lambda>n. n + 1)) s) U (h(f := Suc (h f)))"
proof (rule fd_invI)
  let ?s = "upd_file f (f_ref_count_update (\<lambda>n. n + 1)) s"
  have sl: "fd_slots ?s g = fd_slots s g" for g by (rule slots_cong) (simp add: upd_file_def)
  show "heap_payloads ?s U" using fd_invD(1) [OF inv] by (simp add: upd_file_def)
  show "finite (dom (tasks ?s))" using fd_invD(2) [OF inv] by (simp add: upd_file_def)
  show "length (t_fds tk) = 256" if "tasks ?s t = Some tk" for t tk using that fd_invD(3) [OF inv] by (simp add: upd_file_def)
  show "files ?s g \<noteq> None" if "g \<noteq> 0" "fd_slots ?s g \<noteq> {} \<or> (h(f := Suc (h f))) g \<noteq> 0" for g
    using that fd_invD(4) [OF inv, of g] f unfolding sl by (auto simp: upd_file_def split: if_splits)
  show "g \<noteq> 0 \<and> g \<in> fst ` U \<and> 0 < f_ref_count gl \<and> f_ref_count gl = int (card (fd_slots ?s g) + (h(f := Suc (h f))) g) \<and>
      (\<exists>n. f_node gl = Some n \<and> nodes (k_fs ?s) n \<noteq> None)" if g: "files ?s g = Some gl" for g gl
  proof (cases "g = f")
    case True
    then have "gl = f_ref_count_update (\<lambda>n. n + 1) fl" using g f by (simp add: upd_file_def)
    then show ?thesis unfolding sl using fd_invD(5) [OF inv f] True by (simp add: upd_file_def)
  next
    case False
    then have "files s g = Some gl" using g by (simp add: upd_file_def)
    from fd_invD(5) [OF inv this] show ?thesis unfolding sl using False by (simp add: upd_file_def)
  qed
qed

text \<open>Giving up a reference.\<close>

definition dropped :: "u64 \<Rightarrow> open_file \<Rightarrow> (u64 \<Rightarrow> open_file option) \<Rightarrow> (u64 \<Rightarrow> open_file option)" where
  "dropped f fl F = (if f_ref_count fl - 1 > 0 then F(f \<mapsto> f_ref_count_update (\<lambda>n. n - 1) fl) else F(f := None))"

lemma file_unref_run:
  assumes inv: "fd_inv s U h" and f: "files s f = Some fl"
  shows "\<exists>s' U'. file_unref f s = Some s' \<and> fd_frame s s' \<and> files s' = dropped f fl (files s) \<and> heap_payloads s' U' \<and>
    (\<forall>g. g \<noteq> f \<longrightarrow> g \<in> fst ` U \<longrightarrow> g \<in> fst ` U') \<and> (f_ref_count fl - 1 > 0 \<longrightarrow> U' = U)"
proof -
  define s1 where "s1 = upd_file f (f_ref_count_update (\<lambda>n. n - 1)) s"
  have f0: "f \<noteq> 0" and fU: "f \<in> fst ` U" using fd_invD(5) [OF inv f] by auto
  have p1: "heap_payloads s1 U" using fd_invD(1) [OF inv] by (simp add: s1_def upd_file_def)
  show ?thesis
  proof (cases "f_ref_count fl - 1 > 0")
    case True
    then have "file_unref f s = Some s1" using f f0 by (simp add: file_unref_def s1_def)
    moreover have "files s1 = dropped f fl (files s)" using True f by (simp add: s1_def upd_file_def dropped_def)
    ultimately show ?thesis using p1 True by (intro exI [of _ s1] exI [of _ U]) (simp add: s1_def)
  next
    case False
    obtain n where n: "(f, n) \<in> U" using fU by auto
    obtain s2 where s2: "kfree f s1 = Some s2" "heap_payloads s2 (U - {(f, n)})"
      using kh.release_spec [OF p1 n] by blast
    have "file_ops fl s1 = file_ops fl s" by (cases "f_node fl") (simp_all add: file_ops_def s1_def upd_file_def)
    then obtain ops where "file_ops fl s1 = Some ops" using file_ops_ok [OF inv f] by auto
    then have run: "file_unref f s = Some (s2\<lparr>files := (files s2)(f := None)\<rparr>)"
      using f f0 False s2(1) by (cases "f_node fl") (simp_all add: file_unref_def s1_def no_open Let_def)
    have "fd_frame s s2" using fd_frame_trans [OF _ kfree_keeps(1) [OF s2(1)]] by (simp add: s1_def)
    then have fr: "fd_frame s (s2\<lparr>files := (files s2)(f := None)\<rparr>)" by (rule fd_frame_trans) simp
    have "(files s2)(f := None) = dropped f fl (files s)"
      using False kfree_keeps(2) [OF s2(1)] by (auto simp: s1_def upd_file_def dropped_def)
    moreover have "\<forall>g. g \<noteq> f \<longrightarrow> g \<in> fst ` U \<longrightarrow> g \<in> fst ` (U - {(f, n)})" by force
    ultimately show ?thesis using run fr s2(2) False by (intro exI [of _ "s2\<lparr>files := (files s2)(f := None)\<rparr>"] exI [of _ "U - {(f, n)}"]) simp
  qed
qed

section \<open>Operations on descriptors\<close>

lemma set_fd_simps [simp]:
  "heap_payloads (set_fd t i f s) U = heap_payloads s U" "files (set_fd t i f s) = files s" "k_fs (set_fd t i f s) = k_fs s"
  for s :: "'a kernel_state_scheme"
  by (simp_all add: set_fd_def upd_task_def)

lemma set_fd_tasks:
  assumes "fd_inv s U h" "tasks s' = tasks s"
  shows "finite (dom (tasks (set_fd t i f s')))" "tasks (set_fd t i f s') u = Some tk \<Longrightarrow> length (t_fds tk) = 256"
proof -
  have "dom (tasks (set_fd t i f s')) = dom (tasks s)" using assms(2) by (auto simp: set_fd_def upd_task_def dom_def)
  then show "finite (dom (tasks (set_fd t i f s')))" using fd_invD(2) [OF assms(1)] by simp
  show "length (t_fds tk) = 256" if "tasks (set_fd t i f s') u = Some tk"
    using that fd_invD(3) [OF assms(1)] assms(2) by (auto simp: set_fd_def upd_task_def split: if_splits)
qed

lemma set_fd_fill:
  assumes inv: "fd_inv s U h" and t: "tasks s t = Some tk" "i < 256" "t_fds tk ! i = 0" and f: "f \<noteq> 0" "h f = Suc k"
  shows "fd_inv (set_fd t i f s) U (h(f := k))"
proof (rule fd_invI)
  have i: "i < length (t_fds tk)" using fd_invD(3) [OF inv t(1)] t(2) by simp
  have sl: "fd_slots (set_fd t i f s) g = (if g = f then insert (t, i) (fd_slots s g) else fd_slots s g)" if "g \<noteq> 0" for g
    using slots_set [OF t(1) i, of f g] t that by (auto simp: fd_slots_iff)
  have new: "(t, i) \<notin> fd_slots s f" using t f by (simp add: fd_slots_iff)
  have ff: "files s f \<noteq> None" using fd_invD(4) [OF inv f(1)] f(2) by simp
  show "files (set_fd t i f s) g \<noteq> None" if "g \<noteq> 0" "fd_slots (set_fd t i f s) g \<noteq> {} \<or> (h(f := k)) g \<noteq> 0" for g
    using that(2) sl [OF that(1)] fd_invD(4) [OF inv that(1)] ff by (cases "g = f") simp_all
  show "g \<noteq> 0 \<and> g \<in> fst ` U \<and> 0 < f_ref_count gl \<and> f_ref_count gl = int (card (fd_slots (set_fd t i f s) g) + (h(f := k)) g) \<and>
      (\<exists>n. f_node gl = Some n \<and> nodes (k_fs (set_fd t i f s)) n \<noteq> None)" if g: "files (set_fd t i f s) g = Some gl" for g gl
  proof -
    have g': "files s g = Some gl" using g by simp
    show ?thesis using fd_invD(5) [OF inv g'] sl [of g] new slots_finite [OF inv, of g] f(2) by (cases "g = f") simp_all
  qed
qed (use fd_invD(1) [OF inv] set_fd_tasks [OF inv refl] in auto)

lemma set_fd_none:
  assumes "tasks s t = Some tk" "t_fds tk ! i = 0"
  shows "set_fd t i 0 s = s"
proof -
  have "(t_fds tk)[i := 0] = t_fds tk" using assms(2) by (metis list_update_id)
  then have "t_fds_update (\<lambda>fds. fds[i := 0]) tk = tk" by (cases tk) simp
  then have "(tasks s)(t := map_option (t_fds_update (\<lambda>fds. fds[i := 0])) (tasks s t)) = tasks s" using assms(1) by auto
  then show ?thesis by (simp add: set_fd_def upd_task_def)
qed

lemma unref_clear:
  assumes inv: "fd_inv s U h" and t: "tasks s t = Some tk" "i < 256" "t_fds tk ! i = f" and f: "f \<noteq> 0"
  shows "\<exists>s' U'. file_unref f s = Some s' \<and> fd_frame s s' \<and> fd_inv (set_fd t i 0 s') U' h"
proof -
  have i: "i < length (t_fds tk)" using fd_invD(3) [OF inv t(1)] t(2) by simp
  have mem: "(t, i) \<in> fd_slots s f" using t i by (simp add: fd_slots_iff)
  then obtain fl where fl: "files s f = Some fl" using fd_invD(4) [OF inv f] by blast
  obtain s' U' where r: "file_unref f s = Some s'" "fd_frame s s'" "files s' = dropped f fl (files s)" "heap_payloads s' U'"
    "\<forall>g. g \<noteq> f \<longrightarrow> g \<in> fst ` U \<longrightarrow> g \<in> fst ` U'" "f_ref_count fl - 1 > 0 \<longrightarrow> U' = U"
    using file_unref_run [OF inv fl] by blast
  have ts: "tasks s' = tasks s" and fs: "k_fs s' = k_fs s" using r(2) by (simp_all add: fd_frame_def)
  define s2 where "s2 = set_fd t i 0 s'"
  have sl: "fd_slots s2 g = fd_slots s g - {(t, i)}" if "g \<noteq> 0" for g
    using slots_set [of s' t tk i 0 g] t i that ts slots_cong [OF ts] by (simp add: s2_def)
  have other: "fd_slots s2 g = fd_slots s g" if "g \<noteq> 0" "g \<noteq> f" for g
    using sl [OF that(1)] that(2) t by (auto simp: fd_slots_iff)
  have card: "card (fd_slots s f) = Suc (card (fd_slots s2 f))"
    using card.remove [OF slots_finite [OF inv] mem] sl [OF f] by simp
  have one: "f_ref_count fl = int (card (fd_slots s2 f) + h f) + 1" using fd_invD(5) [OF inv fl] card by simp
  have "fd_inv s2 U' h"
  proof (rule fd_invI)
    show "files s2 g \<noteq> None" if g: "g \<noteq> 0" "fd_slots s2 g \<noteq> {} \<or> h g \<noteq> 0" for g
    proof (cases "g = f")
      case True
      have "finite (fd_slots s2 f)" using slots_finite [OF inv] sl [OF f] by simp
      then have "card (fd_slots s2 f) + h f \<noteq> 0" using g True by (auto simp: card_eq_0_iff)
      then have "f_ref_count fl - 1 > 0" using one by linarith
      then show ?thesis using True r(3) by (simp add: s2_def dropped_def)
    next
      case False
      then show ?thesis using fd_invD(4) [OF inv g(1)] g other r(3) by (auto simp: s2_def dropped_def)
    qed
    show "g \<noteq> 0 \<and> g \<in> fst ` U' \<and> 0 < f_ref_count gl \<and> f_ref_count gl = int (card (fd_slots s2 g) + h g) \<and>
        (\<exists>n. f_node gl = Some n \<and> nodes (k_fs s2) n \<noteq> None)" if g: "files s2 g = Some gl" for g gl
    proof (cases "g = f")
      case True
      then have "f_ref_count fl - 1 > 0" "gl = f_ref_count_update (\<lambda>n. n - 1) fl" "U' = U"
        using g r(3,6) by (auto simp: s2_def dropped_def split: if_splits)
      then show ?thesis using fd_invD(5) [OF inv fl] one True fs by (simp add: s2_def)
    next
      case False
      then have g': "files s g = Some gl" using g r(3) by (auto simp: s2_def dropped_def split: if_splits)
      then show ?thesis using fd_invD(5) [OF inv g'] other [of g] False r(5) fs by (simp add: s2_def)
    qed
  qed (use r(4) set_fd_tasks [OF inv ts] in \<open>auto simp: s2_def\<close>)
  then show ?thesis using r(1,2) by (auto simp: s2_def)
qed

lemma file_open_ok:
  assumes inv: "fd_inv s U h" and n: "nodes (k_fs s) n \<noteq> None"
  shows "\<exists>f s' U' h'. file_open_node (Some n) flags s = Some (f, s') \<and> fd_frame s s' \<and> fd_inv s' U' h' \<and>
    (if f = 0 then h' = h else h f = 0 \<and> h' = h(f := 1))"
proof -
  obtain f s1 where m: "kmalloc FILE_SIZE s = Some (f, s1)"
    "if f = 0 then s1 = s else \<exists>k. heap_payloads s1 (insert (f, k) U) \<and> (f, k) \<notin> U"
    using kh.malloc_spec [OF fd_invD(1) [OF inv], of FILE_SIZE] by (metis (no_types, lifting))
  show ?thesis
  proof (cases "f = 0")
    case True
    then show ?thesis using m inv
      by (intro exI [of _ "0 :: u64"] exI [of _ s] exI [of _ U] exI [of _ h]) (simp add: file_open_node_def)
  next
    case False
    then obtain k where k: "heap_payloads s1 (insert (f, k) U)" "(f, k) \<notin> U" using m(2) by auto
    have fU: "f \<notin> fst ` U"
    proof
      assume "f \<in> fst ` U"
      then obtain j where "(f, j) \<in> U" by auto
      then show False using kh.payloads_apart [OF k(1), of f j f k] k(2) by auto
    qed
    have fN: "files s f = None" using fd_invD(5) [OF inv, of f] fU by (cases "files s f") auto
    have f0: "fd_slots s f = {}" "h f = 0" using fd_invD(4) [OF inv False] fN by blast+
    define fl where "fl = \<lparr>f_node = Some n, f_offset = 0, f_flags = flags, f_ref_count = 1\<rparr>"
    define s2 where "s2 = s1\<lparr>files := (files s1)(f \<mapsto> fl)\<rparr>"
    have fr: "fd_frame s s2" using kmalloc_keeps(1) [OF m(1)] by (simp add: s2_def fd_frame_def)
    have fs: "files s2 = (files s)(f \<mapsto> fl)" using kmalloc_keeps(2) [OF m(1)] by (simp add: s2_def)
    have nn: "nodes (k_fs s1) n \<noteq> None" using n kmalloc_keeps(1) [OF m(1)] by (simp add: fd_frame_def)
    have "file_open_node (Some n) flags s = Some (f, s2)"
      using m(1) False nn
      by (auto simp: file_open_node_def file_ref_def file_ops_def upd_file_def no_open fl_def s2_def split: bool.splits option.splits)
    moreover have "fd_inv s2 (insert (f, k) U) (h(f := 1))"
    proof (rule fd_invI)
      have sl: "fd_slots s2 g = fd_slots s g" for g using fr by (intro slots_cong) (simp add: fd_frame_def)
      show "heap_payloads s2 (insert (f, k) U)" using k(1) by (simp add: s2_def)
      show "finite (dom (tasks s2))" using fd_invD(2) [OF inv] fr by (simp add: fd_frame_def)
      show "length (t_fds tk) = 256" if "tasks s2 t = Some tk" for t tk using that fd_invD(3) [OF inv] fr by (simp add: fd_frame_def)
      show "files s2 g \<noteq> None" if "g \<noteq> 0" "fd_slots s2 g \<noteq> {} \<or> (h(f := 1)) g \<noteq> 0" for g
        using that fd_invD(4) [OF inv that(1)] unfolding sl fs by (cases "g = f") simp_all
      show "g \<noteq> 0 \<and> g \<in> fst ` insert (f, k) U \<and> 0 < f_ref_count gl \<and>
          f_ref_count gl = int (card (fd_slots s2 g) + (h(f := 1)) g) \<and>
          (\<exists>n. f_node gl = Some n \<and> nodes (k_fs s2) n \<noteq> None)" if g: "files s2 g = Some gl" for g gl
      proof (cases "g = f")
        case True
        then have "gl = fl" using g fs by simp
        then show ?thesis unfolding sl using True False f0 n fr by (simp add: fl_def fd_frame_def)
      next
        case False
        then have "files s g = Some gl" using g fs by simp
        from fd_invD(5) [OF inv this] show ?thesis unfolding sl using False fr by (simp add: fd_frame_def)
      qed
    qed
    ultimately show ?thesis using fr False f0(2) by auto
  qed
qed

section \<open>System calls\<close>

lemma current_fd: "set_current_fd i f s = set_fd (sched_get_current_task s) i f s"
  by (simp add: set_current_fd_def set_fd_def)

lemma frame_current: "fd_frame s s' \<Longrightarrow> sched_get_current_task s' = sched_get_current_task s \<and> tasks s' = tasks s"
  by (simp add: fd_frame_def sched_get_current_task_def)

text \<open>Closing a descriptor always returns, if there is a task to close it for.\<close>

lemma sys_close_ok:
  assumes inv: "fd_inv s U h" and t: "tasks s (sched_get_current_task s) = Some tk"
  shows "\<exists>r s' U'. sys_close fd s = Some (r, s') \<and> fd_inv s' U' h"
proof (cases "bad_fd fd \<or> sched_get_current_task s = 0 \<or> t_fds tk ! nat fd = 0")
  case True
  then have "sys_close fd s = Some (- EBADF, s)"
    using t by (auto simp: sys_close_def fd_file_def current_task_fds_def Let_def)
  then show ?thesis using inv by blast
next
  case False
  define f where "f = t_fds tk ! nat fd"
  have fd: "nat fd < 256" using False by (simp add: bad_fd_def MAX_OPEN_FILES_def nat_less_iff)
  have f: "f \<noteq> 0" using False by (simp add: f_def)
  obtain s1 U' where u: "file_unref f s = Some s1" "fd_frame s s1"
    "fd_inv (set_fd (sched_get_current_task s) (nat fd) 0 s1) U' h"
    using unref_clear [OF inv t fd f_def [symmetric] f] by blast
  have "fd_file fd s = Some (Some f)" using False t by (simp add: fd_file_def current_task_fds_def f_def Let_def)
  then have "sys_close fd s = Some (0, set_fd (sched_get_current_task s) (nat fd) 0 s1)"
    using False u(1) frame_current [OF u(2)] by (simp add: sys_close_def current_fd)
  then show ?thesis using u(3) by blast
qed

lemma find_SomeD: "List.find P xs = Some x \<Longrightarrow> x \<in> set xs \<and> P x"
  by (induction xs) (auto split: if_splits)

lemma find_free_fd:
  assumes "find_free_fd fds = Some fd"
  shows "fd < 256" "fds ! fd = 0"
proof -
  have "fd \<in> set [3..<nat MAX_OPEN_FILES] \<and> fds ! fd = 0"
    using assms unfolding find_free_fd_def by (rule find_SomeD)
  then show "fd < 256" "fds ! fd = 0" by (simp_all only: set_upt max_files atLeastLessThan_iff)
qed

lemma open_fill:
  assumes inv: "fd_inv s U h" and o: "file_open_node node flags s = Some (f, s1)"
    and t: "tasks s t = Some tk" "i < 256" "t_fds tk ! i = 0"
  shows "\<exists>U'. fd_inv (set_fd t i f s1) U' h \<and> fd_frame s s1 \<and> (f \<noteq> 0 \<longrightarrow> files s1 f \<noteq> None)"
proof -
  have "fd_frame s s1 \<and> (\<exists>U' h'. fd_inv s1 U' h' \<and> (if f = 0 then h' = h else h f = 0 \<and> h' = h(f := 1)))"
  proof (cases "\<exists>n. node = Some n \<and> nodes (k_fs s) n \<noteq> None")
    case True
    then obtain n where n: "node = Some n" "nodes (k_fs s) n \<noteq> None" by blast
    obtain f' s2 U' h' where "file_open_node (Some n) flags s = Some (f', s2)" "fd_frame s s2" "fd_inv s2 U' h'"
      "if f' = 0 then h' = h else h f' = 0 \<and> h' = h(f' := 1)"
      using file_open_ok [OF inv n(2), of flags] by blast
    moreover from this(1) have "f' = f" "s2 = s1" using o n(1) by simp_all
    ultimately show ?thesis by blast
  next
    case False
    have "f = 0 \<and> s1 = s"
    proof (cases node)
      case None
      then show ?thesis using o by (simp add: file_open_node_def)
    next
      case (Some n)
      obtain p s2 where m: "kmalloc FILE_SIZE s = Some (p, s2)" "p = 0 \<longrightarrow> s2 = s"
        using kh.malloc_spec [OF fd_invD(1) [OF inv], of FILE_SIZE] by (metis (no_types, lifting))
      have "nodes (k_fs s2) n = None" using False Some kmalloc_keeps(1) [OF m(1)] by (simp add: fd_frame_def)
      then show ?thesis using o Some m
        by (cases "p = 0") (simp_all add: file_open_node_def file_ref_def file_ops_def)
    qed
    then show ?thesis using inv by auto
  qed
  then obtain U' h' where fr: "fd_frame s s1" and i': "fd_inv s1 U' h'" "if f = 0 then h' = h else h f = 0 \<and> h' = h(f := 1)" by blast
  have t1: "tasks s1 t = Some tk" using t(1) fr by (simp add: fd_frame_def)
  show ?thesis
  proof (cases "f = 0")
    case True
    then show ?thesis using i' set_fd_none [OF t1 t(3)] fr by auto
  next
    case False
    then have "fd_inv (set_fd t i f s1) U' ((h(f := 1))(f := 0))"
      using i' by (intro set_fd_fill [OF _ t1 t(2,3) False]) simp_all
    moreover have "(h(f := 1))(f := 0) = h" using i'(2) False by auto
    moreover have "files s1 f \<noteq> None" using fd_invD(4) [OF i'(1) False] i'(2) False by simp
    ultimately show ?thesis using fr by auto
  qed
qed

lemma sys_openat_inv:
  assumes inv: "fd_inv s U h" and r: "sys_openat d p fl mode s = Some (r, s')"
  shows "\<exists>U'. fd_inv s' U' h"
proof (cases "s' = s")
  case True
  then show ?thesis using inv by blast
next
  case False
  have d: "d = AT_FDCWD" "p \<noteq> 0" using r False by (auto simp: sys_openat_def split: if_splits)
  obtain str where str: "c_string (kmem s) p = Some str" using r d by (cases "c_string (kmem s) p") (simp_all add: sys_openat_def)
  obtain target fs where l: "vfs_lookup (Some str) (k_fs s) = Some (target, fs)"
    using r d str by (cases "vfs_lookup (Some str) (k_fs s)") (auto simp: sys_openat_def)
  have same: "s\<lparr>k_fs := fs\<rparr> = s" using lookup_same [OF l] by simp
  define task where "task = sched_get_current_task s"
  have r1: "Option.bind (current_task_fds s) (\<lambda>fdso. case fdso of None \<Rightarrow> Some (- EBADF, s)
      | Some fds \<Rightarrow> (case find_free_fd fds of None \<Rightarrow> Some (- EAGAIN, s)
          | Some fd \<Rightarrow> Option.bind (file_open_node target fl s) (\<lambda>(f, s2).
              if f = 0 then Some (- ENOMEM, set_current_fd fd f s2) else Some (int fd, set_current_fd fd f s2)))) = Some (r, s')"
    using r [unfolded sys_openat_def Let_def str bind.bind_lunit l prod.case same] d False by (simp split: if_splits)
  obtain fds where fds: "current_task_fds s = Some (Some fds)"
    using r1 False by (cases "current_task_fds s") (auto split: option.splits)
  obtain fd where fd: "find_free_fd fds = Some fd" using r1 fds False by (cases "find_free_fd fds") simp_all
  obtain f s1 where o: "file_open_node target fl s = Some (f, s1)" "s' = set_current_fd fd f s1"
    using r1 fds fd by (cases "file_open_node target fl s") (auto split: if_splits)
  obtain tk where tk: "tasks s task = Some tk" "fds = t_fds tk"
    using fds by (auto simp: current_task_fds_def Let_def task_def split: if_splits)
  from open_fill [OF inv o(1) tk(1) find_free_fd(1) [OF fd] find_free_fd(2) [OF fd, unfolded tk(2)]]
  obtain U' where "fd_inv (set_fd task fd f s1) U' h" "fd_frame s s1" by blast
  then show ?thesis using o(2) frame_current [of s s1] by (auto simp: current_fd task_def)
qed

text \<open>The loop of \<^verbatim>\<open>task_destroy\<close>.\<close>

lemma task_close_inv:
  assumes "fd_inv s U h" "tasks s t \<noteq> None" "\<forall>i \<in> set js. i < 256"
  shows "\<exists>s' U'. task_close_fds t js s = Some s' \<and> fd_inv s' U' h \<and> tasks s' t \<noteq> None"
  using assms
proof (induction js arbitrary: s U)
  case (Cons i js)
  obtain tk where tk: "tasks s t = Some tk" using Cons.prems(2) by blast
  show ?case
  proof (cases "t_fds tk ! i = 0")
    case True
    then show ?thesis using Cons tk by simp
  next
    case False
    obtain s1 U1 where u: "file_unref (t_fds tk ! i) s = Some s1" "fd_frame s s1" "fd_inv (set_fd t i 0 s1) U1 h"
      using unref_clear [OF Cons.prems(1) tk _ refl False] Cons.prems(3) by auto
    have "tasks (set_fd t i 0 s1) t \<noteq> None" using u(2) tk by (simp add: fd_frame_def set_fd_def upd_task_def)
    then show ?thesis using Cons.IH [OF u(3)] Cons.prems(3) tk False u(1) by simp
  qed
qed auto

lemma ref_fill:
  assumes inv: "fd_inv s U h" and f: "f \<noteq> 0" "files s f \<noteq> None" and t: "tasks s t = Some tk" "i < 256" "t_fds tk ! i = 0"
  shows "\<exists>s'. file_ref f s = Some (f, s') \<and> fd_inv (set_fd t i f s') U h \<and> tasks s' = tasks s \<and> files (set_fd t i f s') f \<noteq> None"
proof -
  obtain fl where fl: "files s f = Some fl" using f by blast
  define s' where "s' = upd_file f (f_ref_count_update (\<lambda>n. n + 1)) s"
  have "fd_inv s' U (h(f := Suc (h f)))" using file_ref_inv [OF inv fl] by (simp add: s'_def)
  moreover have ts: "tasks s' = tasks s" by (simp add: s'_def upd_file_def)
  ultimately have "fd_inv (set_fd t i f s') U ((h(f := Suc (h f)))(f := h f))"
    using t by (intro set_fd_fill [OF _ _ t(2,3) f(1)]) simp_all
  then show ?thesis using file_ref_run [OF inv fl] ts fl by (auto simp: s'_def upd_file_def)
qed

lemma task_open_std_run:
  assumes inv: "fd_inv s U h" and t: "tasks s t = Some tk" "t_fds tk ! 0 = 0" "t_fds tk ! 1 = 0" "t_fds tk ! 2 = 0"
    and l: "vfs_lookup (Some DEV_CONSOLE) (k_fs s) = Some (Some n, fs)" and o: "file_open_node (Some n) O_RDWR s = Some (f, s1)"
  shows "\<exists>r s' U'. task_open_std_fds t s = Some (r, s') \<and> fd_inv s' U' h"
proof -
  have same: "s\<lparr>k_fs := fs\<rparr> = s" using lookup_same [OF l] by simp
  note run = task_open_std_fds_def [of t s, unfolded l Let_def bind.bind_lunit prod.case same o]
  obtain U1 where i1: "fd_inv (set_fd t 0 f s1) U1 h" "fd_frame s s1" "f \<noteq> 0 \<longrightarrow> files s1 f \<noteq> None"
    using open_fill [OF inv o t(1) _ t(2)] by auto
  show ?thesis
  proof (cases "f = 0")
    case True
    then have "set_fd t 0 f s1 = s1" using i1(2) t set_fd_none [of s1 t tk 0] by (simp add: fd_frame_def)
    then show ?thesis using i1(1) run True by auto
  next
    case f: False
    define s2 where "s2 = set_fd t 0 f s1"
    have t2: "tasks s2 t = Some (t_fds_update (\<lambda>fds. fds[0 := f]) tk)"
      using i1(2) t(1) by (simp add: s2_def set_fd_def upd_task_def fd_frame_def)
    obtain U2 s3 where i2: "file_ref f s2 = Some (f, s3)" "fd_inv (set_fd t 1 f s3) U2 h" "tasks s3 = tasks s2" "files (set_fd t 1 f s3) f \<noteq> None"
      using ref_fill [OF i1(1) [folded s2_def] f _ t2, of 1] i1(3) f t(3) by (auto simp: s2_def)
    define s4 where "s4 = set_fd t 1 f s3"
    have t4: "tasks s4 t = Some (t_fds_update (\<lambda>fds. fds[0 := f, 1 := f]) tk)"
      using i2(3) t2 by (simp add: s4_def set_fd_def upd_task_def)
    obtain U3 s5 where i3: "file_ref f s4 = Some (f, s5)" "fd_inv (set_fd t 2 f s5) U3 h"
      using ref_fill [OF i2(2) [folded s4_def] f _ t4, of 2] i2(4) t(4) by (auto simp: s4_def)
    have "task_open_std_fds t s = Some (0, set_fd t 2 f s5)"
      using run [folded s2_def, unfolded i2(1) bind.bind_lunit prod.case, folded s4_def, unfolded i3(1) bind.bind_lunit prod.case] f
      by simp
    then show ?thesis using i3(2) by blast
  qed
qed

lemma task_open_std_inv:
  assumes inv: "fd_inv s U h" and t: "tasks s t = Some tk" "t_fds tk ! 0 = 0" "t_fds tk ! 1 = 0" "t_fds tk ! 2 = 0"
    and r: "task_open_std_fds t s = Some (r, s')"
  shows "\<exists>U'. fd_inv s' U' h"
proof (cases "s' = s")
  case True
  then show ?thesis using inv by blast
next
  case False
  obtain console fs where l: "vfs_lookup (Some DEV_CONSOLE) (k_fs s) = Some (console, fs)"
    using r by (cases "vfs_lookup (Some DEV_CONSOLE) (k_fs s)") (auto simp: task_open_std_fds_def)
  have same: "s\<lparr>k_fs := fs\<rparr> = s" using lookup_same [OF l] by simp
  note r1 = r [unfolded task_open_std_fds_def l Let_def bind.bind_lunit prod.case same]
  obtain n where n: "console = Some n" using r1 False by (cases console) auto
  obtain f s1 where "file_open_node (Some n) O_RDWR s = Some (f, s1)"
    using r1 n by (cases "file_open_node (Some n) O_RDWR s") auto
  from task_open_std_run [OF inv t l [unfolded n] this] r show ?thesis by auto
qed

lemma sys_lseek_cases:
  assumes r: "sys_lseek fd off wh s = Some (r, s')"
  shows "s' = s \<or> (\<exists>f fl pos. files s f = Some fl \<and> s' = upd_file f (f_offset_update (\<lambda>_. pos)) s)"
proof (cases "bad_fd fd \<or> fd_file fd s = Some None")
  case True
  then show ?thesis using r by (cases "bad_fd fd") (simp_all add: sys_lseek_def)
next
  case False
  then obtain f where f: "\<not> bad_fd fd" "fd_file fd s = Some (Some f)" using r by (cases "fd_file fd s") (auto simp: sys_lseek_def)
  obtain fl where fl: "files s f = Some fl" using r f by (cases "files s f") (simp_all add: sys_lseek_def)
  obtain n where n: "f_node fl = Some n" using r f fl by (cases "f_node fl") (simp_all add: sys_lseek_def)
  obtain v where v: "nodes (k_fs s) n = Some v" using r f fl n by (cases "nodes (k_fs s) n") (simp_all add: sys_lseek_def)
  show ?thesis using r [unfolded sys_lseek_def f(2) bind.bind_lunit option.case fl n v Let_def] f(1) fl
    by (simp split: if_split_asm) blast+
qed

lemma sys_lseek_inv:
  assumes inv: "fd_inv s U h" and r: "sys_lseek fd off wh s = Some (r, s')"
  shows "fd_inv s' U h"
proof -
  from sys_lseek_cases [OF r] consider "s' = s"
    | f fl pos where "files s f = Some fl" "s' = upd_file f (f_offset_update (\<lambda>_. pos)) s" by blast
  then show ?thesis
  proof cases
    case (2 f fl pos)
    have ts: "tasks s' = tasks s" "k_fs s' = k_fs s" by (simp_all add: 2 upd_file_def)
    show ?thesis
    proof (rule fd_invI)
      show "heap_payloads s' U" using fd_invD(1) [OF inv] by (simp add: 2 upd_file_def)
      show "files s' g \<noteq> None" if "g \<noteq> 0" "fd_slots s' g \<noteq> {} \<or> h g \<noteq> 0" for g
        using that fd_invD(4) [OF inv, of g] 2 unfolding slots_cong [OF ts(1)] by (auto simp: upd_file_def)
      show "g \<noteq> 0 \<and> g \<in> fst ` U \<and> 0 < f_ref_count gl \<and> f_ref_count gl = int (card (fd_slots s' g) + h g) \<and>
          (\<exists>n. f_node gl = Some n \<and> nodes (k_fs s') n \<noteq> None)" if g: "files s' g = Some gl" for g gl
      proof -
        obtain gl' where "files s g = Some gl'" "f_ref_count gl = f_ref_count gl'" "f_node gl = f_node gl'"
          using g 2 by (cases "g = f") (auto simp: upd_file_def)
        then show ?thesis unfolding slots_cong [OF ts(1)] ts(2) using fd_invD(5) [OF inv] by metis
      qed
    qed (use fd_invD(2,3) [OF inv] ts in auto)
  qed (use inv in simp)
qed

section \<open>The invariant is kept\<close>

text \<open>What changes descriptors: the system calls, the standard descriptors of a new task, and the end of
  a task.\<close>

inductive fd_step :: "'a kernel_state_scheme \<Rightarrow> 'a kernel_state_scheme \<Rightarrow> bool" where
  step_open: "sys_openat d p fl mode s = Some (r, s') \<Longrightarrow> fd_step s s'"
| step_close: "sys_close fd s = Some (r, s') \<Longrightarrow> fd_step s s'"
| step_seek: "sys_lseek fd off wh s = Some (r, s') \<Longrightarrow> fd_step s s'"
| step_std: "tasks s t = Some tk \<Longrightarrow> t_fds tk ! 0 = 0 \<Longrightarrow> t_fds tk ! 1 = 0 \<Longrightarrow> t_fds tk ! 2 = 0 \<Longrightarrow>
    task_open_std_fds t s = Some (r, s') \<Longrightarrow> fd_step s s'"
| step_end: "tasks s t \<noteq> None \<Longrightarrow> task_close_fds t [0..<nat MAX_OPEN_FILES] s = Some s' \<Longrightarrow> fd_step s s'"

lemma sys_close_None: "tasks s (sched_get_current_task s) = None \<Longrightarrow> sys_close fd s = Some (r, s') \<Longrightarrow> s' = s"
  by (auto simp: sys_close_def fd_file_def current_task_fds_def Let_def split: if_splits)

lemma fd_step_ok: "fd_step s s' \<Longrightarrow> fd_inv s U h \<Longrightarrow> \<exists>U'. fd_inv s' U' h"
proof (induction rule: fd_step.induct)
  case (step_close fd s r s')
  then show ?case
    using sys_close_ok [of s U h _ fd] sys_close_None [of s fd r s']
    by (cases "tasks s (sched_get_current_task s)") auto
next
  case (step_end s t s')
  have "\<forall>i \<in> set [0..<nat MAX_OPEN_FILES]. i < 256" unfolding max_files by simp
  then show ?case using task_close_inv [OF step_end(3,1)] step_end(2) by fastforce
qed (blast intro: sys_openat_inv sys_lseek_inv task_open_std_inv)+

text \<open>C15. Descriptors are well typed in every state the kernel reaches by opening, closing and seeking files, by
  giving a new task its standard descriptors and by ending a task: every descriptor that is not null
  names a live open file on an existing node, and the reference count of every open file is positive and
  equal to the number of descriptors, of all tasks, that name it. In such a state closing a descriptor
  of the current task always returns.\<close>

theorem fd_refs_kept:
  assumes "fd_ok s" "fd_step\<^sup>*\<^sup>* s s'"
  shows "fd_ok s' \<and> (\<forall>fd. tasks s' (sched_get_current_task s') \<noteq> None \<longrightarrow> (\<exists>r s''. sys_close fd s' = Some (r, s'')))"
proof -
  obtain U where U: "fd_inv s U (\<lambda>_. 0)" using assms(1) by (auto simp: fd_ok_def)
  from assms(2) have "\<exists>U'. fd_inv s' U' (\<lambda>_. 0)"
    by (induction rule: rtranclp_induct) (use U fd_step_ok in blast)+
  then show ?thesis using sys_close_ok [of s'] unfolding fd_ok_def by blast
qed

text \<open>A kernel with one task without descriptors on a fresh heap, and the console at \<^verbatim>\<open>/dev/console\<close>.\<close>

definition fd_example_fs :: fs_state where
  "fd_example_fs = \<lparr>nodes = [0 \<mapsto> \<lparr>node_name = [], node_flags = VFS_CHARDEVICE, node_inode = 0, node_size = 0,
       node_ops = Some Console_dev_ops, priv_data = None\<rparr>],
     next_node = 1, alloc_ok = (\<lambda>_. True), alloc_no = 0, vfs_mount_list = [(DEV_CONSOLE, 0)]\<rparr>"

definition fd_example :: "heap_state \<Rightarrow> kernel_state" where
  "fd_example h = \<lparr>kmem = kmem h, hhdm_offset = hhdm_offset h, free_list_head = free_list_head h,
     max_phys_addr = max_phys_addr h, heap_block_list = heap_block_list h,
     vmm_kernel_context = 0, vmm_current_context = 0, user_root_reg = 0, kernel_root_reg = 0,
     tasks = [64 \<mapsto> zero_task], run_queue_head = 64, current = 64, cursor = 64, scheduler_task = 0, scheduler_frame = 1,
     need_resched = False, irq_on = False, kernel_rsp = 0, locked = (\<lambda>_. False), tick = 0,
     k_fs = fd_example_fs, files = Map.empty, the_console = 0, con_node = (\<lambda>_. 0), con_data = Map.empty,
     k_console = \<lparr>con_fb = None, con_term = fb_term_start, con_serial = []\<rparr>\<rparr>"

lemma fd_example_ok: "heap_init heap_example = Some h \<Longrightarrow> fd_ok (fd_example h)"
proof -
  assume "heap_init heap_example = Some h"
  then have "heap_payloads h {}" using heap_init_inv [OF heap_example_rel(1) _ heap_example_rel(2)] by auto
  then have p: "heap_payloads (fd_example h) {}"
    by (simp add: fd_example_def heap_payloads_def heap_inv_def pmm_rel_def pmm_inv_def)
  have "t_fds zero_task ! i = 0" if "i < 256" for i using that by (simp add: zero_task_def max_files)
  then have "fd_slots (fd_example h) f = {}" if "f \<noteq> 0" for f
    using that by (auto simp: fd_slots_def fd_example_def zero_task_def max_files split: if_splits)
  then have "fd_inv (fd_example h) {} (\<lambda>_. 0)"
    using p by (intro fd_invI) (auto simp: fd_example_def zero_task_def max_files split: if_splits)
  then show ?thesis by (auto simp: fd_ok_def)
qed

lemma fd_example_task:
  "tasks (fd_example h) 64 = Some zero_task" "t_fds zero_task ! 0 = 0" "t_fds zero_task ! 1 = 0" "t_fds zero_task ! 2 = 0"
  by (simp_all add: fd_example_def zero_task_def MAX_OPEN_FILES_def)

lemma fd_example_std:
  assumes "heap_init heap_example = Some h"
  shows "\<exists>r s'. task_open_std_fds 64 (fd_example h) = Some (r, s')"
proof -
  obtain U where inv: "fd_inv (fd_example h) U (\<lambda>_. 0)" using fd_example_ok [OF assms] by (auto simp: fd_ok_def)
  have "vfs_get_mountpoint (Some DEV_CONSOLE) fd_example_fs = Some (0, [])" by code_simp
  then have "vfs_lookup (Some DEV_CONSOLE) fd_example_fs = Some (Some 0, fd_example_fs)"
    by (simp add: vfs_lookup_def vfs_inner_find_and_create_def DEV_CONSOLE_def VFS_PATH_MAX_def snprintf_s_def vfs_walk_loop.simps)
  then have l: "vfs_lookup (Some DEV_CONSOLE) (k_fs (fd_example h)) = Some (Some 0, fd_example_fs)" by (simp add: fd_example_def)
  have "nodes (k_fs (fd_example h)) 0 \<noteq> None" by (simp add: fd_example_def fd_example_fs_def)
  then obtain f s1 where o: "file_open_node (Some 0) O_RDWR (fd_example h) = Some (f, s1)" using file_open_ok [OF inv] by blast
  from task_open_std_run [OF inv fd_example_task l o] show ?thesis by blast
qed

theorem fd_refs_kept_witness:
  "\<exists>h r s'. heap_init heap_example = Some h \<and> fd_ok (fd_example h) \<and>
     task_open_std_fds 64 (fd_example h) = Some (r, s') \<and> fd_ok s'"
proof -
  obtain h where h: "heap_init heap_example = Some h"
    using heap_init_inv [OF heap_example_rel(1) _ heap_example_rel(2)] by auto
  obtain r s' where s': "task_open_std_fds 64 (fd_example h) = Some (r, s')" using fd_example_std [OF h] by blast
  have "fd_step (fd_example h) s'"
    by (rule step_std [OF fd_example_task s'])
  then show ?thesis using fd_refs_kept [OF fd_example_ok [OF h], of s'] fd_example_ok [OF h] h s' by blast
qed

end
