(* ===== verification/Tar.thy ===== *)
theory Tar
  imports Files
begin

text \<open>
  The loader of the initial file system, \<^verbatim>\<open>kernel/src/fs/tar/tar.c\<close>: it walks the 512-byte blocks of a ustar
  archive in memory and creates every directory and regular file of it through the virtual file
  system.
\<close>

section \<open>The header\<close>

definition TAR_NAME_SIZE :: nat where "TAR_NAME_SIZE = 100"
definition TAR_MODE_SIZE :: nat where "TAR_MODE_SIZE = 8"
definition TAR_UID_SIZE :: nat where "TAR_UID_SIZE = 8"
definition TAR_GID_SIZE :: nat where "TAR_GID_SIZE = 8"
definition TAR_SIZE_SIZE :: nat where "TAR_SIZE_SIZE = 12"
definition TAR_MTIME_SIZE :: nat where "TAR_MTIME_SIZE = 12"
definition TAR_CHKSUM_SIZE :: nat where "TAR_CHKSUM_SIZE = 8"
definition TAR_LINKNAME_SIZE :: nat where "TAR_LINKNAME_SIZE = 100"
definition TAR_MAGIC_SIZE :: nat where "TAR_MAGIC_SIZE = 6"
definition TAR_VERSION_SIZE :: nat where "TAR_VERSION_SIZE = 2"

definition TAR_TYPE_REG :: u8 where "TAR_TYPE_REG = 48"
definition TAR_TYPE_REG_ALT :: u8 where "TAR_TYPE_REG_ALT = 0"
definition TAR_TYPE_DIR :: u8 where "TAR_TYPE_DIR = 53"

definition TMAGIC :: "u8 list" where "TMAGIC = map of_char ''ustar'' @ [0]"
definition TVERSION :: "u8 list" where "TVERSION = map of_char ''00''"

definition TAR_BLOCK_SIZE :: u64 where "TAR_BLOCK_SIZE = 512"
definition TAR_PATH_BUF_SIZE :: nat where "TAR_PATH_BUF_SIZE = TAR_NAME_SIZE + 1"

text \<open>The fields of \<^verbatim>\<open>struct ustar_header\<close> the loader reads, each at the sum of the sizes before it.\<close>

definition tar_size_offset :: nat where
  "tar_size_offset = TAR_NAME_SIZE + TAR_MODE_SIZE + TAR_UID_SIZE + TAR_GID_SIZE"

definition tar_typeflag_offset :: nat where
  "tar_typeflag_offset = tar_size_offset + TAR_SIZE_SIZE + TAR_MTIME_SIZE + TAR_CHKSUM_SIZE"

definition tar_magic_offset :: nat where
  "tar_magic_offset = tar_typeflag_offset + 1 + TAR_LINKNAME_SIZE"

definition tar_name :: "mem \<Rightarrow> u64 \<Rightarrow> u8 list" where
  "tar_name m header = load_bytes m header TAR_NAME_SIZE"

definition tar_size_field :: "mem \<Rightarrow> u64 \<Rightarrow> u8 list" where
  "tar_size_field m header = load_bytes m (header + of_nat tar_size_offset) TAR_SIZE_SIZE"

definition tar_typeflag :: "mem \<Rightarrow> u64 \<Rightarrow> u8" where
  "tar_typeflag m header = m (header + of_nat tar_typeflag_offset)"

definition tar_magic :: "mem \<Rightarrow> u64 \<Rightarrow> u8 list" where
  "tar_magic m header = load_bytes m (header + of_nat tar_magic_offset) TAR_MAGIC_SIZE"

definition tar_version :: "mem \<Rightarrow> u64 \<Rightarrow> u8 list" where
  "tar_version m header = load_bytes m (header + of_nat (tar_magic_offset + TAR_MAGIC_SIZE)) TAR_VERSION_SIZE"

fun tar_octal_loop :: "u64 \<Rightarrow> u8 list \<Rightarrow> u64" where
  "tar_octal_loop value [] = value"
| "tar_octal_loop value (c # cs) =
     (if c \<ge> 48 \<and> c \<le> 55 then tar_octal_loop (value * 8 + (ucast c - 48)) cs else value)"

definition tar_parse_octal :: "u8 list \<Rightarrow> u64" where
  "tar_parse_octal field = tar_octal_loop 0 field"

text \<open>The format of the path is \<^verbatim>\<open>"/%.*s"\<close>, with the size of the name field as the precision.\<close>

definition tar_path :: "mem \<Rightarrow> u64 \<Rightarrow> cstring" where
  "tar_path m header = snprintf_s TAR_PATH_BUF_SIZE (47 # takeWhile (\<lambda>c. c \<noteq> 0) (tar_name m header))"

section \<open>Loading\<close>

text \<open>One entry: the value is whether the loader goes on.\<close>

definition tar_make_file :: "cstring \<Rightarrow> u64 \<Rightarrow> u64 \<Rightarrow> 'a kernel_state_scheme \<Rightarrow> (bool \<times> 'a kernel_state_scheme) option" where
  "tar_make_file path data sz s = do {
     (node, fs) \<leftarrow> vfs_create (Some path) VFS_FILE (k_fs s);
     let s = s\<lparr>k_fs := fs\<rparr>;
     case node of
       None \<Rightarrow> Some (False, s)
     | Some n \<Rightarrow> do {
         v \<leftarrow> nodes fs n;
         case Option.bind (node_ops v) ops_write of
           None \<Rightarrow> Some (False, s)
         | Some write \<Rightarrow> do {
             (r, s) \<leftarrow> (case Option.bind (node_ops v) ops_open of None \<Rightarrow> Some (0, s) | Some open \<Rightarrow> open n s);
             if r \<noteq> 0 then Some (False, s)
             else do {
               (count, s) \<leftarrow> write n 0 sz data s;
               (r, s) \<leftarrow> (case Option.bind (node_ops v) ops_close of None \<Rightarrow> Some (0, s) | Some close \<Rightarrow> close n s);
               Some (r = 0 \<and> \<not> (count < 0 \<or> count \<noteq> uint sz), s)
             }
           }
       }
   }"

definition tar_entry :: "u64 \<Rightarrow> 'a kernel_state_scheme \<Rightarrow> (bool \<times> 'a kernel_state_scheme) option" where
  "tar_entry addr s = do {
     let m = kmem s;
     let typeflag = tar_typeflag m addr;
     if tar_magic m addr \<noteq> TMAGIC \<or> tar_version m addr \<noteq> TVERSION then Some (False, s)
     else if typeflag = TAR_TYPE_REG \<or> typeflag = TAR_TYPE_REG_ALT \<or> typeflag = TAR_TYPE_DIR
     then do {
       let path = tar_path m addr;
       (parent, fs) \<leftarrow> vfs_mkdir_parents (Some path) (k_fs s);
       let s = s\<lparr>k_fs := fs\<rparr>;
       if parent = None then Some (False, s)
       else if typeflag = TAR_TYPE_DIR
       then do {
         (dir, fs) \<leftarrow> vfs_create (Some path) VFS_DIRECTORY (k_fs s);
         Some (dir \<noteq> None, s\<lparr>k_fs := fs\<rparr>)
       }
       else tar_make_file path (addr + TAR_BLOCK_SIZE) (tar_parse_octal (tar_size_field m addr)) s
     }
     else Some (True, s)
   }"

definition tar_next :: "mem \<Rightarrow> u64 \<Rightarrow> u64" where
  "tar_next m addr =
     (let sz = tar_parse_octal (tar_size_field m addr)
      in addr + (TAR_BLOCK_SIZE + (sz + TAR_BLOCK_SIZE - 1) div TAR_BLOCK_SIZE * TAR_BLOCK_SIZE))"

text \<open>The size field is read before the file is written, from memory that the file systems do not share.\<close>

partial_function (option) tar_load_loop ::
  "u64 \<Rightarrow> u64 \<Rightarrow> 'a kernel_state_scheme \<Rightarrow> (int \<times> 'a kernel_state_scheme) option" where
  [code]: "tar_load_loop addr limit s =
     (if \<not> addr < limit \<or> kmem s addr = 0 then Some (0, s)
      else Option.bind (tar_entry addr s)
        (\<lambda>(ok, s1). if ok then tar_load_loop (tar_next (kmem s) addr) limit s1 else Some (-1, s1)))"

definition tar_load :: "u64 \<Rightarrow> u64 \<Rightarrow> 'a kernel_state_scheme \<Rightarrow> (int \<times> 'a kernel_state_scheme) option" where
  "tar_load tar_addr tar_size s =
     (if tar_size < TAR_BLOCK_SIZE then Some (-1, s) else tar_load_loop tar_addr (tar_addr + tar_size) s)"

end
