(* ===== verification/Tar_Correct.thy ===== *)
theory Tar_Correct
  imports Tar Vfs_Correct File_Write
begin

text \<open>
  What the loader makes of an archive: the octal numbers of a header are read back, and every regular
  file becomes a file of the virtual file system with the contents that follow its header.
\<close>

section \<open>Octal numbers\<close>

fun octal :: "nat \<Rightarrow> nat \<Rightarrow> u8 list" where
  "octal 0 n = []"
| "octal (Suc k) n = octal k (n div 8) @ [48 + of_nat (n mod 8)]"

lemma length_octal [simp]: "length (octal k n) = k"
  by (induction k arbitrary: n) simp_all

lemma octal_digit: "d < 8 \<Longrightarrow> (48 + of_nat d :: u8) \<ge> 48 \<and> (48 + of_nat d :: u8) \<le> 55 \<and> ucast (48 + of_nat d :: u8) - (48 :: u64) = of_nat d"
proof -
  assume "d < 8"
  then consider "d = 0" | "d = 1" | "d = 2" | "d = 3" | "d = 4" | "d = 5" | "d = 6" | "d = 7" by linarith
  then show ?thesis by cases simp_all
qed

lemma octal_loop: "tar_octal_loop v (octal k n @ cs) = tar_octal_loop (v * 8 ^ k + of_nat (n mod 8 ^ k)) cs"
proof (induction k arbitrary: n cs)
  case (Suc k)
  have "n mod 8 ^ Suc k = n div 8 mod 8 ^ k * 8 + n mod 8"
    by (simp add: mod_mult2_eq mult.commute)
  then show ?case using octal_digit [of "n mod 8"] by (simp add: Suc algebra_simps)
qed simp

lemma parse_octal: "n < 8 ^ k \<Longrightarrow> tar_parse_octal (octal k n @ [0]) = of_nat n"
  by (simp add: tar_parse_octal_def octal_loop)

section \<open>Files and the tree\<close>

lemma new_file_empty:
  assumes "is_new s n VFS_FILE"
  shows "file_contents n s = Some []"
proof -
  obtain v nm where v: "nodes s n = Some v" "node_view v = node_view (fresh_node nm VFS_FILE)"
    using assms unfolding is_new_def by (cases "nodes s n") auto
  then obtain d where "node_flags v = VFS_FILE" "node_size v = 0" "priv_data v = Some d" "pages d = []"
    by (cases "priv_data v") (simp_all add: node_view_def fresh_node_def)
  then show ?thesis using v(1)
    by (simp add: file_contents_def file_ok_def pages_byte_def pages_fit_def VFS_FILE_def)
qed

lemma new_file_ops: "is_new s n k \<Longrightarrow> \<exists>v. nodes s n = Some v \<and> node_ops v = Some Ramfs_ops"
  unfolding is_new_def by (cases "nodes s n") (auto simp: node_view_def fresh_node_def)

lemma contents_view:
  assumes "map_option node_view (nodes s' m) = map_option node_view (nodes s m)"
  shows "file_contents m s' = file_contents m s"
proof (cases "nodes s m")
  case None
  then show ?thesis using assms by (simp add: file_contents_def file_ok_def)
next
  case (Some v)
  then obtain v' where v': "nodes s' m = Some v'" "node_view v' = node_view v" using assms by auto
  then show ?thesis using Some
    by (cases "priv_data v"; cases "priv_data v'") (simp_all add: node_view_def file_contents_def file_ok_def)
qed

lemma contents_others:
  assumes "file_others n s' = file_others n s" "m \<noteq> n"
  shows "file_contents m s' = file_contents m s"
proof -
  have "((nodes s')(n := None)) m = ((nodes s)(n := None)) m" using assms(1) by (simp add: file_others_def)
  then show ?thesis using assms(2) by (intro contents_view) simp
qed

text \<open>Writing a file changes neither names nor links.\<close>

definition node_links :: "vfs_node \<Rightarrow> cstring \<times> u32 \<times> vfs_ops option \<times> nat option option \<times> nat option option" where
  "node_links v = (node_name v, node_flags v, node_ops v, map_option first_child (priv_data v), map_option next_sibling (priv_data v))"

definition same_tree :: "fs_state \<Rightarrow> fs_state \<Rightarrow> bool" where
  "same_tree s s' \<longleftrightarrow> (\<forall>m. map_option node_links (nodes s' m) = map_option node_links (nodes s m)) \<and>
     next_node s' = next_node s \<and> vfs_mount_list s' = vfs_mount_list s"

lemma others_same_tree:
  assumes "file_others n s' = file_others n s"
  shows "same_tree s s'"
proof -
  have "map_option node_links (nodes s' m) = map_option node_links (nodes s m)" for m
  proof (cases "m = n")
    case True
    then show ?thesis using assms by (simp add: file_others_def node_links_def [abs_def])
  next
    case False
    have "((nodes s')(n := None)) m = ((nodes s)(n := None)) m" using assms by (simp add: file_others_def)
    then show ?thesis using False by simp
  qed
  then show ?thesis using assms by (simp add: same_tree_def file_others_def)
qed

lemma same_tree_node:
  assumes "same_tree s s'" "nodes s' n = Some v'"
  obtains v where "nodes s n = Some v" "node_name v' = node_name v" "node_flags v' = node_flags v" "node_ops v' = node_ops v"
    "map_option first_child (priv_data v') = map_option first_child (priv_data v)"
    "map_option next_sibling (priv_data v') = map_option next_sibling (priv_data v)"
proof -
  have "map_option node_links (nodes s' n) = map_option node_links (nodes s n)" using assms(1) by (simp add: same_tree_def)
  then show thesis using assms(2) that by (cases "nodes s n") (simp_all add: node_links_def)
qed

lemma same_tree_None: "same_tree s s' \<Longrightarrow> nodes s' n = None \<longleftrightarrow> nodes s n = None"
  unfolding same_tree_def by (metis map_option_is_None)

lemma same_tree_data:
  assumes t: "same_tree s s'"
  shows "map_option first_child (node_data s' n) = map_option first_child (node_data s n)"
    and "map_option next_sibling (node_data s' n) = map_option next_sibling (node_data s n)"
proof -
  have "map_option first_child (node_data s' n) = map_option first_child (node_data s n) \<and>
      map_option next_sibling (node_data s' n) = map_option next_sibling (node_data s n)"
  proof (cases "nodes s' n")
    case None
    then show ?thesis using same_tree_None [OF t, of n] by (simp add: node_data_def)
  next
    case (Some v)
    then show ?thesis by (rule same_tree_node [OF t]) (simp add: Some node_data_def)
  qed
  then show "map_option first_child (node_data s' n) = map_option first_child (node_data s n)"
    and "map_option next_sibling (node_data s' n) = map_option next_sibling (node_data s n)" by simp_all
qed

lemma same_tree_sib: "same_tree s s' \<Longrightarrow> sib_chain s' p xs = sib_chain s p xs"
proof (induction xs arbitrary: p)
  case (Cons x xs)
  then show ?case using same_tree_data(2) [OF Cons.prems, of x]
    by (cases "node_data s x"; cases "node_data s' x") simp_all
qed simp

lemma same_tree_nm:
  assumes t: "same_tree s s'"
  shows "node_nm s' n = node_nm s n"
proof (cases "nodes s' n")
  case None
  then show ?thesis using same_tree_None [OF t, of n] by (simp add: node_nm_def)
next
  case (Some v)
  then show ?thesis by (rule same_tree_node [OF t]) (simp add: Some node_nm_def)
qed

lemma same_tree_dir:
  assumes t: "same_tree s s'"
  shows "is_dir s' n = is_dir s n"
proof (cases "nodes s' n")
  case None
  then show ?thesis using same_tree_None [OF t, of n] by (simp add: is_dir_def)
next
  case (Some v)
  then show ?thesis by (rule same_tree_node [OF t]) (simp add: Some is_dir_def)
qed

lemma same_tree_inv:
  assumes t: "same_tree s s'" and inv: "vfs_inv s ch"
  shows "vfs_inv s' ch"
proof -
  have i: "fs_inv s ch" using inv by (simp add: vfs_inv_def)
  note nm = same_tree_nm [OF t] and none = same_tree_None [OF t]
  have nx: "next_node s' = next_node s" "vfs_mount_list s' = vfs_mount_list s" using t by (simp_all add: same_tree_def)
  have "sib_chain s' (first_child d') (ch n)" if d: "node_data s' n = Some d'" for n d'
    using same_tree_data(1) [OF t, of n] d fs_invD(2) [OF i, of n]
    by (cases "node_data s n") (simp_all add: same_tree_sib [OF t])
  moreover have "ch n = []" if "node_data s' n = None" for n
    using same_tree_data(1) [OF t, of n] that fs_invD(3) [OF i, of n] by simp
  moreover have "node_ops v = Some Ramfs_ops \<and> priv_data v \<noteq> None"
    if v: "nodes s' n = Some v" "node_flags v AND VFS_DIRECTORY \<noteq> 0" for n v
  proof -
    obtain w where "nodes s n = Some w" "node_flags v = node_flags w" "node_ops v = node_ops w"
      "map_option first_child (priv_data v) = map_option first_child (priv_data w)"
      by (rule same_tree_node [OF t v(1)])
    then show ?thesis using i v(2) unfolding fs_inv_def by (metis map_option_is_None)
  qed
  moreover have "\<forall>n. nodes s' n \<noteq> None \<longrightarrow> n < next_node s'" using fs_invD(1) [OF i] none nx by simp
  moreover have "\<forall>n. distinct (ch n) \<and> distinct (map (node_nm s') (ch n)) \<and> (\<forall>c \<in> set (ch n). good_name (node_nm s' c))"
    using fs_invD(4-6) [OF i] unfolding nm by simp
  moreover have "\<forall>m n. m \<noteq> n \<longrightarrow> set (ch m) \<inter> set (ch n) = {}" using fs_invD(7) [OF i] by simp
  ultimately have "fs_inv s' ch" unfolding fs_inv_def by blast
  then show ?thesis using inv none nx by (simp add: vfs_inv_def)
qed

lemma same_tree_child: "same_tree s s' \<Longrightarrow> child s' ch d x = child s ch d x"
  by (simp add: child_def same_tree_nm)

lemma same_tree_resolve: "same_tree s s' \<Longrightarrow> resolve s' ch d ts = resolve s ch d ts"
  by (induction ts arbitrary: d) (auto simp: same_tree_child same_tree_dir)

lemma same_tree_target:
  assumes t: "same_tree s s'"
  shows "vfs_target s' ch p = vfs_target s ch p"
proof -
  have "vfs_get_mountpoint (Some p) s' = vfs_get_mountpoint (Some p) s"
    using t by (intro mountpoint_cong) (simp add: same_tree_def)
  then show ?thesis unfolding vfs_target_def same_tree_resolve [OF t] by simp
qed

section \<open>A file of the archive\<close>

text \<open>A regular file with its header at \<open>addr\<close> and its contents after it, as the ustar format has it.\<close>

definition tar_file_at :: "mem \<Rightarrow> u64 \<Rightarrow> u8 list \<Rightarrow> u8 list \<Rightarrow> bool" where
  "tar_file_at m addr nm data \<longleftrightarrow>
     nm \<noteq> [] \<and> length nm < TAR_NAME_SIZE \<and> 0 \<notin> set nm \<and> length data < 8 ^ 11 \<and>
     tar_name m addr = nm @ replicate (TAR_NAME_SIZE - length nm) 0 \<and>
     tar_size_field m addr = octal 11 (length data) @ [0] \<and>
     (tar_typeflag m addr = TAR_TYPE_REG \<or> tar_typeflag m addr = TAR_TYPE_REG_ALT) \<and>
     tar_magic m addr = TMAGIC \<and> tar_version m addr = TVERSION \<and>
     load_bytes m (addr + TAR_BLOCK_SIZE) (length data) = data"

lemma tar_file_path: "tar_file_at m addr nm data \<Longrightarrow> tar_path m addr = 47 # nm"
  by (simp add: tar_file_at_def tar_path_def takeWhile_append takeWhile_replicate snprintf_s_def TAR_PATH_BUF_SIZE_def TAR_NAME_SIZE_def)

lemma tar_file_first:
  assumes "tar_file_at m addr nm data"
  shows "m addr \<noteq> 0"
proof -
  have "m addr = tar_name m addr ! 0" by (simp add: tar_name_def TAR_NAME_SIZE_def load_bytes_nth)
  also have "\<dots> = nm ! 0" using assms by (simp add: tar_file_at_def nth_append)
  also have "\<dots> \<in> set nm" using assms by (simp add: tar_file_at_def)
  finally show ?thesis using assms by (auto simp: tar_file_at_def)
qed

lemma tar_file_size: "tar_file_at m addr nm data \<Longrightarrow> tar_parse_octal (tar_size_field m addr) = of_nat (length data)"
  by (simp add: tar_file_at_def parse_octal)

lemma of_nat_blocks: "x < 2 ^ 64 \<Longrightarrow> (of_nat x :: u64) div 512 = of_nat (x div 512)"
proof (rule word_unat_eq_iff [THEN iffD2])
  assume x: "x < 2 ^ 64"
  then have "x div 512 < 2 ^ 64" by (rule le_less_trans [OF div_le_dividend])
  then show "unat ((of_nat x :: u64) div 512) = unat (of_nat (x div 512) :: u64)"
    using x by (simp add: unat_div unat_of_nat_small)
qed

lemma tar_file_next:
  assumes "tar_file_at m addr nm data"
  shows "tar_next m addr = addr + 512 + of_nat ((length data + 511) div 512 * 512)"
proof -
  have "length data + 511 < 2 ^ 64" using assms by (simp add: tar_file_at_def)
  from of_nat_blocks [OF this] show ?thesis
    by (simp add: tar_next_def tar_file_size [OF assms] TAR_BLOCK_SIZE_def Let_def add.commute)
qed

lemma tar_make_file_ok:
  assumes c: "vfs_create (Some p) VFS_FILE (k_fs s) = Some (Some n, fs)" and new: "is_new fs n VFS_FILE"
    and ok: "\<forall>k. alloc_ok fs k" and len: "length data < 2 ^ 63" and b: "addr \<noteq> 0" "load_bytes (kmem s) addr (length data) = data"
  shows "\<exists>fs'. tar_make_file p addr (of_nat (length data)) s = Some (True, s\<lparr>k_fs := fs'\<rparr>) \<and>
    file_contents n fs' = Some data \<and> file_others n fs' = file_others n fs"
proof -
  obtain v where v: "nodes fs n = Some v" "node_ops v = Some Ramfs_ops" using new_file_ops [OF new] by blast
  from file_write_ok [OF new_file_empty [OF new], of 0 data] len ok obtain fs' where
    fs': "file_write n 0 data fs = Some (int (length data), fs')" "file_contents n fs' = Some (overwrite 0 data [])"
      "file_others n fs' = file_others n fs" by auto
  have sz: "unat (of_nat (length data) :: u64) = length data" using len by (simp add: unat_of_nat_small)
  have buf: "kmem s (addr + of_nat i) = data ! i" if "i < unat (of_nat (length data) :: u64)" for i
    using load_bytes_nth [of i "length data" "kmem s" addr] that b(2) sz by simp
  have "ramfs_ops_write (Some n) 0 (of_nat (length data)) (Some (\<lambda>i. kmem s (addr + of_nat i))) fs = Some (int (length data), fs')"
    using fs'(1) ops_write_cong [OF buf] unfolding file_write_def by simp
  then have "tar_make_file p addr (of_nat (length data)) s = Some (True, s\<lparr>k_fs := fs'\<rparr>)"
    using c v b(1) sz by (simp add: tar_make_file_def ops_write_def ops_open_def ops_close_def uint_nat)
  moreover have "overwrite 0 data [] = data" by (simp add: overwrite_def)
  ultimately show ?thesis using fs'(2,3) by auto
qed

lemma tokens_len: "t \<in> set (tokens_l ds r) \<Longrightarrow> length t \<le> length r"
proof (induction ds r rule: tokens_l.induct)
  case (1 ds s)
  obtain a b where ab: "strtokr_l ds s = (a, b)" by fastforce
  with "1.prems" obtain u r where u: "a = Some u" "b = Some r" "t = u \<or> t \<in> set (tokens_l ds r)"
    by (auto simp: tokens_l.simps [of ds s] split: option.splits)
  have "u = takeWhile (\<lambda>c. c \<notin> set ds) (dropWhile (\<lambda>c. c \<in> set ds) s)"
    using ab u by (auto simp: strtokr_l_def Let_def split: if_splits)
  then have "length u \<le> length s"
    using order_trans [OF length_takeWhile_le length_dropWhile_le] by blast
  moreover have "length t \<le> length r" if "t \<in> set (tokens_l ds r)" using "1.IH" [OF ab [symmetric] u(1,2) that] .
  ultimately show ?case using u strtokr_l_shorter [of ds s u r] ab by auto
qed


text \<open>An archive at 0x1000 with the one file \<^verbatim>\<open>a\<close> of two bytes.\<close>

definition tar_example_mem :: mem where
  "tar_example_mem =
     store_bytes (store_bytes (store_bytes (store_bytes (store_bytes (\<lambda>_. 0) 0x1000 [97])
       0x107C (octal 11 2)) 0x109C [48]) 0x1101 (TMAGIC @ TVERSION)) 0x1200 [104, 105]"

definition tar_example :: kernel_state where
  "tar_example = hi_kernel\<lparr>kmem := tar_example_mem, k_fs := fs_root\<rparr>"

lemma tar_example_file: "tar_file_at tar_example_mem 0x1000 [97] [104, 105]"
proof -
  have "tar_name tar_example_mem 0x1000 = [97] @ replicate (TAR_NAME_SIZE - length [97 :: u8]) 0" by code_simp
  moreover have "tar_size_field tar_example_mem 0x1000 = octal 11 (length [104, 105 :: u8]) @ [0]" by code_simp
  moreover have "tar_typeflag tar_example_mem 0x1000 = TAR_TYPE_REG" by code_simp
  moreover have "tar_magic tar_example_mem 0x1000 = TMAGIC" "tar_version tar_example_mem 0x1000 = TVERSION" by code_simp+
  moreover have "load_bytes tar_example_mem (0x1000 + TAR_BLOCK_SIZE) (length [104, 105 :: u8]) = [104, 105]" by code_simp
  ultimately show ?thesis by (simp add: tar_file_at_def TAR_NAME_SIZE_def)
qed


end
