(* ===== verification/Elf.thy ===== *)
theory Elf
  imports Files
begin

text \<open>
  The program loader of \<^verbatim>\<open>kernel/src/proc/elf.c\<close>: an ELF executable read from the file system is laid out in
  the pages of a new address space, and its first stack page is built with arguments and environment.
  The loader's local header structures live on the kernel stack; their addresses are parameters. The
  loader runs before the first task, where a read that sleeps panics.
\<close>

section \<open>Headers\<close>

definition EM_X86_64 :: u16 where "EM_X86_64 = 62"
definition EM_AARCH64 :: u16 where "EM_AARCH64 = 183"
definition EI_CLASS :: u64 where "EI_CLASS = 4"
definition ELFCLASS64 :: u8 where "ELFCLASS64 = 2"
definition ELFMAG :: "u8 list" where "ELFMAG = [0x7f, 69, 76, 70]"
definition ET_EXEC :: u16 where "ET_EXEC = 2"
definition PT_LOAD :: u32 where "PT_LOAD = 1"
definition PF_X :: u32 where "PF_X = 1"
definition PF_W :: u32 where "PF_W = 2"

definition load16 :: "mem \<Rightarrow> u64 \<Rightarrow> u16" where
  "load16 m a = ucast (le_word (load_bytes m a 2))"

definition load32 :: "mem \<Rightarrow> u64 \<Rightarrow> u32" where
  "load32 m a = ucast (le_word (load_bytes m a 4))"

text \<open>\<^verbatim>\<open>struct elf64_ehdr\<close> at address \<open>h\<close>.\<close>

definition EHDR_SIZE :: u64 where "EHDR_SIZE = 64"
definition e_type :: "mem \<Rightarrow> u64 \<Rightarrow> u16" where "e_type m h = load16 m (h + 16)"
definition e_machine :: "mem \<Rightarrow> u64 \<Rightarrow> u16" where "e_machine m h = load16 m (h + 18)"
definition e_entry :: "mem \<Rightarrow> u64 \<Rightarrow> u64" where "e_entry m h = load64 m (h + 24)"
definition e_phoff :: "mem \<Rightarrow> u64 \<Rightarrow> u64" where "e_phoff m h = load64 m (h + 32)"
definition e_phentsize :: "mem \<Rightarrow> u64 \<Rightarrow> u16" where "e_phentsize m h = load16 m (h + 54)"
definition e_phnum :: "mem \<Rightarrow> u64 \<Rightarrow> u16" where "e_phnum m h = load16 m (h + 56)"

text \<open>\<^verbatim>\<open>struct elf64_phdr\<close> at address \<open>p\<close>.\<close>

definition PHDR_SIZE :: u64 where "PHDR_SIZE = 56"
definition p_type :: "mem \<Rightarrow> u64 \<Rightarrow> u32" where "p_type m p = load32 m p"
definition p_flags :: "mem \<Rightarrow> u64 \<Rightarrow> u32" where "p_flags m p = load32 m (p + 4)"
definition p_offset :: "mem \<Rightarrow> u64 \<Rightarrow> u64" where "p_offset m p = load64 m (p + 8)"
definition p_vaddr :: "mem \<Rightarrow> u64 \<Rightarrow> u64" where "p_vaddr m p = load64 m (p + 16)"
definition p_filesz :: "mem \<Rightarrow> u64 \<Rightarrow> u64" where "p_filesz m p = load64 m (p + 32)"
definition p_memsz :: "mem \<Rightarrow> u64 \<Rightarrow> u64" where "p_memsz m p = load64 m (p + 40)"

definition arch_wanted_elf_machine :: "arch \<Rightarrow> u16" where
  "arch_wanted_elf_machine a = (case a of X86_64 \<Rightarrow> EM_X86_64 | AArch64 \<Rightarrow> EM_AARCH64)"

text \<open>The checks of the file header, in their order.\<close>

definition ehdr_ok :: "arch \<Rightarrow> mem \<Rightarrow> u64 \<Rightarrow> bool" where
  "ehdr_ok a m h \<longleftrightarrow> load_bytes m h 4 = ELFMAG \<and> m (h + EI_CLASS) = ELFCLASS64 \<and> e_type m h = ET_EXEC \<and>
     e_machine m h = arch_wanted_elf_machine a \<and> ucast (e_phentsize m h) = PHDR_SIZE"

section \<open>Loading\<close>

text \<open>A read of the node; the flag tells whether it returned as many bytes as asked for.\<close>

definition node_read :: "nat \<Rightarrow> u64 \<Rightarrow> u64 \<Rightarrow> u64 \<Rightarrow> 'a kernel_state_scheme \<Rightarrow> (bool \<times> 'a kernel_state_scheme) option" where
  "node_read n offset sz buffer s = do {
     v \<leftarrow> nodes (k_fs s) n;
     ops \<leftarrow> node_ops v;
     read \<leftarrow> ops_read ops;
     res \<leftarrow> read n offset sz buffer 0 s;
     case res of Io_done r s1 \<Rightarrow> Some (r = sint sz, s1) | Io_sleep flags s1 \<Rightarrow> None
   }"

definition segment_lo :: "mem \<Rightarrow> u64 \<Rightarrow> u64" where
  "segment_lo m p = p_vaddr m p AND NOT (PAGE_SIZE - 1)"

definition segment_hi :: "mem \<Rightarrow> u64 \<Rightarrow> u64" where
  "segment_hi m p = (p_vaddr m p + p_memsz m p + PAGE_SIZE - 1) AND NOT (PAGE_SIZE - 1)"

text \<open>The page of the context at \<open>page\<close>: a fresh zeroed one if there is none. The physical address is 0 on failure.\<close>

definition elf_page :: "arch \<Rightarrow> u64 \<Rightarrow> u64 \<Rightarrow> 'a kernel_state_scheme \<Rightarrow> (u64 \<times> 'a kernel_state_scheme) option" where
  "elf_page a ctx page s = do {
     old \<leftarrow> vmm_virt_to_phys a ctx page s;
     if old \<noteq> 0 then Some (old, s)
     else do {
       (phys, s1) \<leftarrow> pmm_alloc 1 s;
       if phys = 0 then Some (0, s1)
       else do {
         (r, s2) \<leftarrow> vmm_map_page a ctx page phys (VMM_USER OR VMM_WRITABLE) s1;
         if r \<noteq> 0 then Some (0, s2)
         else Some (phys, s2\<lparr>kmem := memset (kmem s2) (pmm_phys_to_virt s2 phys) 0 PAGE_SIZE\<rparr>)
       }
     }
   }"

text \<open>The part of the segment's file range that falls into the page.\<close>

definition elf_fill :: "nat \<Rightarrow> u64 \<Rightarrow> u64 \<Rightarrow> u64 \<Rightarrow> 'a kernel_state_scheme \<Rightarrow> (bool \<times> 'a kernel_state_scheme) option" where
  "elf_fill n p page phys s =
     (let m = kmem s;
          seg_file_end = p_vaddr m p + p_filesz m p;
          start = (if page > p_vaddr m p then page else p_vaddr m p);
          end = (if page + PAGE_SIZE < seg_file_end then page + PAGE_SIZE else seg_file_end)
      in if end > start
         then node_read n (p_offset m p + (start - p_vaddr m p)) (end - start)
                (pmm_phys_to_virt s phys + (start - page)) s
         else Some (True, s))"

partial_function (option) elf_load_pages ::
  "arch \<Rightarrow> u64 \<Rightarrow> nat \<Rightarrow> u64 \<Rightarrow> u64 \<Rightarrow> u64 \<Rightarrow> 'a kernel_state_scheme \<Rightarrow> (bool \<times> 'a kernel_state_scheme) option" where
  [code]: "elf_load_pages a ctx n p hi page s =
     (if page < hi then do {
        (phys, s1) \<leftarrow> elf_page a ctx page s;
        if phys = 0 then Some (False, s1)
        else do {
          (ok, s2) \<leftarrow> elf_fill n p page phys s1;
          if \<not> ok then Some (False, s2) else elf_load_pages a ctx n p hi (page + PAGE_SIZE) s2
        }
      } else Some (True, s))"

definition phdr_offset :: "mem \<Rightarrow> u64 \<Rightarrow> nat \<Rightarrow> u64" where
  "phdr_offset m h i = e_phoff m h + of_nat i * ucast (e_phentsize m h)"

text \<open>First pass: every loadable segment gets its pages, zeroed and filled.\<close>

fun elf_pass1 :: "arch \<Rightarrow> u64 \<Rightarrow> nat \<Rightarrow> u64 \<Rightarrow> u64 \<Rightarrow> nat list \<Rightarrow> 'a kernel_state_scheme \<Rightarrow> (bool \<times> 'a kernel_state_scheme) option" where
  "elf_pass1 a ctx n h p [] s = Some (True, s)"
| "elf_pass1 a ctx n h p (i # is) s = do {
     (ok, s1) \<leftarrow> node_read n (phdr_offset (kmem s) h i) PHDR_SIZE p s;
     if \<not> ok then Some (False, s1)
     else if p_type (kmem s1) p \<noteq> PT_LOAD then elf_pass1 a ctx n h p is s1
     else do {
       (ok, s2) \<leftarrow> elf_load_pages a ctx n p (segment_hi (kmem s1) p) (segment_lo (kmem s1) p) s1;
       if \<not> ok then Some (False, s2) else elf_pass1 a ctx n h p is s2
     }
   }"

definition segment_flags :: "mem \<Rightarrow> u64 \<Rightarrow> u64" where
  "segment_flags m p =
     VMM_USER OR (if p_flags m p AND PF_W \<noteq> 0 then VMM_WRITABLE else 0) OR
     (if p_flags m p AND PF_X = 0 then VMM_NO_EXECUTE else 0)"

partial_function (option) elf_protect_pages ::
  "arch \<Rightarrow> u64 \<Rightarrow> u64 \<Rightarrow> u64 \<Rightarrow> u64 \<Rightarrow> 'a kernel_state_scheme \<Rightarrow> 'a kernel_state_scheme option" where
  [code]: "elf_protect_pages a ctx flags hi page s =
     (if page < hi then do {
        phys \<leftarrow> vmm_virt_to_phys a ctx page s;
        (r, s1) \<leftarrow> vmm_map_page a ctx page phys flags s;
        elf_protect_pages a ctx flags hi (page + PAGE_SIZE) s1
      } else Some s)"

text \<open>Second pass: the pages get the permissions of their segment.\<close>

fun elf_pass2 :: "arch \<Rightarrow> u64 \<Rightarrow> nat \<Rightarrow> u64 \<Rightarrow> u64 \<Rightarrow> nat list \<Rightarrow> 'a kernel_state_scheme \<Rightarrow> 'a kernel_state_scheme option" where
  "elf_pass2 a ctx n h p [] s = Some s"
| "elf_pass2 a ctx n h p (i # is) s = do {
     (ok, s1) \<leftarrow> node_read n (phdr_offset (kmem s) h i) PHDR_SIZE p s;
     if p_type (kmem s1) p \<noteq> PT_LOAD then elf_pass2 a ctx n h p is s1
     else do {
       s2 \<leftarrow> elf_protect_pages a ctx (segment_flags (kmem s1) p) (segment_hi (kmem s1) p) (segment_lo (kmem s1) p) s1;
       elf_pass2 a ctx n h p is s2
     }
   }"

text \<open>\<open>path\<close> is the address of the path; \<open>h\<close> and \<open>p\<close> are the local headers. The entry point is the second result.\<close>

definition elf_load ::
  "arch \<Rightarrow> u64 \<Rightarrow> u64 \<Rightarrow> u64 \<Rightarrow> u64 \<Rightarrow> 'a kernel_state_scheme \<Rightarrow> (int \<times> u64 \<times> 'a kernel_state_scheme) option" where
  "elf_load a h p path ctx s =
     (if path = 0 \<or> ctx = 0 then Some (-1, 0, s)
      else do {
        str \<leftarrow> c_string (kmem s) path;
        (node, fs) \<leftarrow> vfs_lookup (Some str) (k_fs s);
        let s1 = s\<lparr>k_fs := fs\<rparr>;
        case node of
          None \<Rightarrow> Some (-1, 0, s1)
        | Some n \<Rightarrow> do {
            (ok, s2) \<leftarrow> node_read n 0 EHDR_SIZE h s1;
            if \<not> ok \<or> \<not> ehdr_ok a (kmem s2) h then Some (-1, 0, s2)
            else do {
              let is = [0..<unat (e_phnum (kmem s2) h)];
              (ok, s3) \<leftarrow> elf_pass1 a ctx n h p is s2;
              if \<not> ok then Some (-1, 0, s3)
              else do {
                s4 \<leftarrow> elf_pass2 a ctx n h p is s3;
                Some (0, e_entry (kmem s4) h, s4)
              }
            }
          }
      })"

end
