(* ===== verification/Elf_Stack.thy ===== *)
theory Elf_Stack
  imports Elf
begin

text \<open>
  The first stack page of a program: \<^verbatim>\<open>elf_build_user_stack\<close> of \<^verbatim>\<open>kernel/src/proc/elf.c\<close>. From the top of
  the page down there are the strings, then the vectors of pointers to them, each ended by a null
  pointer, and the argument count, as the ABI of both architectures wants it.
\<close>

section \<open>Building the page\<close>

text \<open>\<^verbatim>\<open>arr\<close> is an array of string pointers, \<open>base\<close> the page as the kernel sees it and \<open>page_vaddr\<close> its user
  address. The results are the user addresses of the strings, the memory and the offset reached.\<close>

fun push_strings :: "u64 \<Rightarrow> u64 \<Rightarrow> u64 \<Rightarrow> nat list \<Rightarrow> mem \<Rightarrow> u64 \<Rightarrow> (u64 list \<times> mem \<times> u64) option" where
  "push_strings base page_vaddr arr [] m cur = Some ([], m, cur)"
| "push_strings base page_vaddr arr (i # is) m cur = do {
     let str = load64 m (arr + 8 * of_nat i);
     n \<leftarrow> strlen m str;
     let len = n + 1;
     let cur = cur - len;
     let m = memcpy m (base + cur) str len;
     (vaddrs, m, cur') \<leftarrow> push_strings base page_vaddr arr is m cur;
     Some ((page_vaddr + cur) # vaddrs, m, cur')
   }"

text \<open>The words are written from the last to the first.\<close>

fun push_words :: "u64 \<Rightarrow> u64 list \<Rightarrow> mem \<Rightarrow> u64 \<Rightarrow> mem \<times> u64" where
  "push_words base [] m cur = (m, cur)"
| "push_words base (w # ws) m cur =
     (let (m, cur) = push_words base ws m cur; cur = cur - 8
      in (store64 m (base + cur) w, cur))"

partial_function (option) count_strings :: "mem \<Rightarrow> u64 \<Rightarrow> nat \<Rightarrow> nat option" where
  [code]: "count_strings m arr n =
     (if arr \<noteq> 0 \<and> load64 m (arr + 8 * of_nat n) \<noteq> 0 then count_strings m arr (Suc n) else Some n)"

definition elf_fill_stack ::
  "u64 \<Rightarrow> u64 \<Rightarrow> nat \<Rightarrow> u64 \<Rightarrow> nat \<Rightarrow> u64 \<Rightarrow> mem \<Rightarrow> (u64 \<times> mem) option" where
  "elf_fill_stack base page_vaddr argc argv envc envp m = do {
     let m = memset m base 0 PAGE_SIZE;
     (argv_vaddrs, m, cur) \<leftarrow> push_strings base page_vaddr argv [0..<argc] m PAGE_SIZE;
     (envp_vaddrs, m, cur) \<leftarrow> push_strings base page_vaddr envp [0..<envc] m cur;
     let cur = cur AND NOT 7;
     let slots = 1 + (of_nat argc + 1) + (of_nat envc + 1) + 2;
     let cur = (if (cur - slots * 8) mod 16 \<noteq> 0 then cur - 8 else cur);
     let cur = cur - 16;
     let cur = cur - 8;
     let (m, cur) = push_words base envp_vaddrs m cur;
     let cur = cur - 8;
     let (m, cur) = push_words base argv_vaddrs m cur;
     let cur = cur - 8;
     Some (cur, store64 m (base + cur) (of_nat argc))
   }"

text \<open>\<open>argc\<close> is a C \<^verbatim>\<open>int\<close>; the stack pointer is 0 on failure.\<close>

definition elf_build_user_stack ::
  "arch \<Rightarrow> u64 \<Rightarrow> u64 \<Rightarrow> nat \<Rightarrow> u64 \<Rightarrow> u64 \<Rightarrow> 'a vmm_state_scheme \<Rightarrow> (u64 \<times> 'a vmm_state_scheme) option" where
  "elf_build_user_stack a ctx stack_top argc argv envp s = do {
     envc \<leftarrow> count_strings (kmem s) envp 0;
     (phys, s1) \<leftarrow> pmm_alloc 1 s;
     if phys = 0 then Some (0, s1)
     else do {
       let base = pmm_phys_to_virt s1 phys;
       let page_vaddr = stack_top - PAGE_SIZE;
       (cur, m) \<leftarrow> elf_fill_stack base page_vaddr argc argv envc envp (kmem s1);
       (r, s2) \<leftarrow> vmm_map_page a ctx page_vaddr phys (VMM_USER OR VMM_WRITABLE OR VMM_NO_EXECUTE) (s1\<lparr>kmem := m\<rparr>);
       if r \<noteq> 0 then Some (0, s2) else Some (page_vaddr + cur, s2)
     }
   }"

section \<open>Changes inside the page\<close>

text \<open>Only the bytes from offset \<open>lo\<close> to offset \<open>hi\<close> of the page may differ.\<close>

definition within :: "u64 \<Rightarrow> nat \<Rightarrow> nat \<Rightarrow> mem \<Rightarrow> mem \<Rightarrow> bool" where
  "within base lo hi m m' \<longleftrightarrow> (\<forall>x. unat (x - base) < lo \<or> hi \<le> unat (x - base) \<longrightarrow> m' x = m x)"

lemma within_refl [simp]: "within base lo hi m m"
  by (simp add: within_def)

lemma within_trans: "within base lo hi m m1 \<Longrightarrow> within base lo hi m1 m2 \<Longrightarrow> within base lo hi m m2"
  by (simp add: within_def)

lemma within_mono: "within base lo hi m m' \<Longrightarrow> lo' \<le> lo \<Longrightarrow> hi \<le> hi' \<Longrightarrow> within base lo' hi' m m'"
  by (auto simp: within_def)

lemma within_cell:
  assumes "within base lo hi m m'" "i < lo \<or> hi \<le> i" "i < 2 ^ 64"
  shows "m' (base + of_nat i) = m (base + of_nat i)"
proof -
  have "unat (base + of_nat i - base) = i" using assms(3) by (simp add: unat_of_nat_small)
  then show ?thesis using assms(1,2) by (simp only: within_def)
qed

lemma within_load64:
  assumes "within base lo hi m m'" "i + 8 \<le> lo \<or> hi \<le> i" "i + 8 \<le> 2 ^ 64"
  shows "load64 m' (base + of_nat i) = load64 m (base + of_nat i)"
proof (rule load64_cong)
  fix j :: nat assume "j < 8"
  then show "m' (base + of_nat i + of_nat j) = m (base + of_nat i + of_nat j)"
    using within_cell [OF assms(1), of "i + j"] assms(2,3) by (auto simp: add.assoc)
qed

lemma cstr_cong: "(\<And>i. i \<le> length s \<Longrightarrow> m' (p + of_nat i) = m (p + of_nat i)) \<Longrightarrow> cstr m p s \<Longrightarrow> cstr m' p s"
  by (simp add: cstr_iff)

lemma within_cstr:
  assumes w: "within base lo hi m m'" and i: "i + length s < lo \<or> hi \<le> i" "i + length s < 2 ^ 64"
    and c: "cstr m (base + of_nat i) s"
  shows "cstr m' (base + of_nat i) s"
proof (rule cstr_cong [OF _ c])
  fix j assume "j \<le> length s"
  then show "m' (base + of_nat i + of_nat j) = m (base + of_nat i + of_nat j)"
    using within_cell [OF w, of "i + j"] i by (auto simp: add.assoc)
qed

text \<open>What lies outside the page is not changed.\<close>

lemma within_outside: "within base lo 4096 m m' \<Longrightarrow> x \<notin> extent base 4096 \<Longrightarrow> m' x = m x"
  by (simp add: within_def extent_def)

lemma store64_within:
  assumes "c + 8 \<le> 4096"
  shows "within base c (c + 8) m (store64 m (base + of_nat c) v)"
  unfolding within_def
proof (intro allI impI)
  fix x assume x: "unat (x - base) < c \<or> c + 8 \<le> unat (x - base)"
  have "8 \<le> unat (x - (base + of_nat c))"
    using x assms unat_shift [of c x base] unat_lt_u64 [of "x - base"] by auto
  then show "store64 m (base + of_nat c) v x = m x" by (rule store64_apply_far)
qed

lemma memset_within: "n \<le> 4096 \<Longrightarrow> within base 0 n m (memset m base c (of_nat n))"
  by (simp add: within_def memset_apply unat_of_nat_small)

section \<open>Pushing the strings\<close>

text \<open>Entry \<open>i\<close> of the array points to the string \<open>s\<close>, and neither lies in the page.\<close>

definition arg_ok :: "mem \<Rightarrow> u64 \<Rightarrow> u64 \<Rightarrow> nat \<Rightarrow> u8 list \<Rightarrow> bool" where
  "arg_ok m base arr i s \<longleftrightarrow>
     (let str = load64 m (arr + 8 * of_nat i)
      in cstr m str s \<and> extent (arr + 8 * of_nat i) 8 \<inter> extent base 4096 = {} \<and>
         extent str (Suc (length s)) \<inter> extent base 4096 = {})"

lemma arg_ok_within:
  assumes w: "within base lo hi m m'" "hi \<le> 4096" and a: "arg_ok m base arr i s"
  shows "arg_ok m' base arr i s"
proof -
  define q where "q = arr + 8 * of_nat i"
  have out: "x \<notin> extent base 4096 \<Longrightarrow> m' x = m x" for x
    using within_outside [OF within_mono [OF w(1) le0 w(2)]] .
  have ext: "extent q 8 \<inter> extent base 4096 = {}" "cstr m (load64 m q) s"
    "extent (load64 m q) (Suc (length s)) \<inter> extent base 4096 = {}"
    using a by (simp_all add: arg_ok_def q_def Let_def)
  have q: "load64 m' q = load64 m q" using ext(1) by (intro load64_agree out) blast
  have "cstr m' (load64 m q) s"
  proof (rule cstr_cong [OF _ ext(2)])
    fix j assume "j \<le> length s"
    then have "load64 m q + of_nat j \<in> extent (load64 m q) (Suc (length s))"
      using cstr_length [OF ext(2)] by (intro extent_cell) auto
    then show "m' (load64 m q + of_nat j) = m (load64 m q + of_nat j)" using ext(3) by (intro out) blast
  qed
  then show ?thesis using ext q by (simp add: arg_ok_def q_def Let_def)
qed

abbreviation bytes_of :: "u8 list list \<Rightarrow> nat" where
  "bytes_of ss \<equiv> sum_list (map (\<lambda>s. Suc (length s)) ss)"

lemma memcpy_string:
  assumes a: "cstr m str s" "extent str (Suc (length s)) \<inter> extent base 4096 = {}"
    and c: "c + Suc (length s) \<le> 4096"
  shows "within base c (c + Suc (length s)) m (memcpy m (base + of_nat c) str (1 + of_nat (length s)))"
    and "cstr (memcpy m (base + of_nat c) str (1 + of_nat (length s))) (base + of_nat c) s"
proof -
  define n where "n = Suc (length s)"
  have n: "1 + of_nat (length s) = (of_nat n :: u64)" "unat (of_nat n :: u64) = n" "c + n \<le> 4096" "0 < n"
    using c by (simp_all add: n_def unat_of_nat_small del: of_nat_Suc) simp
  have "extent (base + of_nat c) n \<inter> extent str n = {}"
    using a(2) extent_sub [of c n 4096 base] n(3) unfolding n_def [symmetric] by auto
  then have ap: "apart (base + of_nat c) (unat (of_nat n :: u64)) str (unat (of_nat n :: u64))"
    using n by (intro extent_disjoint_apart) simp_all
  have mc: "memcpy m (base + of_nat c) str (of_nat n) x =
      (if unat (x - (base + of_nat c)) < n then m (str + (x - (base + of_nat c))) else m x)" for x
    using memcpy_apply [OF ap] n(2) by simp
  show "within base c (c + Suc (length s)) m (memcpy m (base + of_nat c) str (1 + of_nat (length s)))"
    unfolding n(1) n_def [symmetric] within_def using n(3) unat_lt_u64
    by (auto simp: mc unat_shift split: if_splits)
  show "cstr (memcpy m (base + of_nat c) str (1 + of_nat (length s))) (base + of_nat c) s"
    unfolding n(1) using a(1) n(3) unfolding cstr_iff mc by (simp add: unat_of_nat_small n_def del: of_nat_Suc)
qed

lemma push_strings_spec:
  assumes "list_all2 (arg_ok m base arr) js ss" "bytes_of ss \<le> c" "c \<le> 4096"
  shows "\<exists>os m'. push_strings base pv arr js m (of_nat c) =
        Some (map (\<lambda>k. pv + of_nat k) os, m', of_nat (c - bytes_of ss)) \<and>
      within base (c - bytes_of ss) c m m' \<and>
      list_all2 (\<lambda>k s. c - bytes_of ss \<le> k \<and> k + length s < c \<and> cstr m' (base + of_nat k) s) os ss"
  using assms
proof (induction ss arbitrary: js m c rule: list.induct)
  case (Nil js m c)
  then show ?case by simp
next
  case (Cons s ss js m c)
  obtain i qs where qs: "js = i # qs" "arg_ok m base arr i s" "list_all2 (arg_ok m base arr) qs ss"
    using Cons.prems(1) by (auto simp: list_all2_Cons2)
  define str where "str = load64 m (arr + 8 * of_nat i)"
  define c1 where "c1 = c - Suc (length s)"
  define m1 where "m1 = memcpy m (base + of_nat c1) str (1 + of_nat (length s))"
  have str: "cstr m str s" "extent str (Suc (length s)) \<inter> extent base 4096 = {}"
    using qs(2) by (simp_all add: arg_ok_def str_def Let_def)
  have c: "c1 + Suc (length s) = c" "bytes_of ss \<le> c1" "c \<le> 4096" using Cons.prems by (simp_all add: c1_def)
  have cur: "(of_nat c :: u64) - (1 + of_nat (length s)) = of_nat c1"
    unfolding c(1) [symmetric] by simp
  have m1: "within base c1 c m m1" "cstr m1 (base + of_nat c1) s"
    using memcpy_string [OF str, of c1] c by (simp_all add: m1_def)
  have ok: "list_all2 (arg_ok m1 base arr) qs ss"
    using qs(3) by (rule list_all2_mono) (rule arg_ok_within [OF m1(1) c(3)])
  obtain os m' where r: "push_strings base pv arr qs m1 (of_nat c1) =
        Some (map (\<lambda>k. pv + of_nat k) os, m', of_nat (c1 - bytes_of ss))"
      "within base (c1 - bytes_of ss) c1 m1 m'"
      "list_all2 (\<lambda>k s. c1 - bytes_of ss \<le> k \<and> k + length s < c1 \<and> cstr m' (base + of_nat k) s) os ss"
    using Cons.IH [OF ok c(2)] c by auto
  have last: "c1 - bytes_of ss = c - bytes_of (s # ss)" by (simp add: c1_def)
  have s: "cstr m' (base + of_nat c1) s"
    by (rule within_cstr [OF r(2) _ _ m1(2)]) (use c in auto)
  have eq: "push_strings base pv arr js m (of_nat c) =
      Some (map (\<lambda>k. pv + of_nat k) (c1 # os), m', of_nat (c - bytes_of (s # ss)))"
    using r(1) unfolding m1_def last
    by (simp add: qs(1) str_def [symmetric] strlen_cstr [OF str(1)] cur Let_def add.commute)
  have w: "within base (c - bytes_of (s # ss)) c m m'"
    using within_trans [OF within_mono [OF m1(1)] within_mono [OF r(2)]] c by (simp add: last)
  have os: "list_all2 (\<lambda>k t. c - bytes_of (s # ss) \<le> k \<and> k + length t < c \<and> cstr m' (base + of_nat k) t) os ss"
    using r(3) by (rule list_all2_mono) (use c last in auto)
  have "c - bytes_of (s # ss) \<le> c1" "c1 + length s < c" using c by (simp_all add: c1_def)
  with os s have "list_all2 (\<lambda>k t. c - bytes_of (s # ss) \<le> k \<and> k + length t < c \<and> cstr m' (base + of_nat k) t)
      (c1 # os) (s # ss)" by simp
  with eq w show ?case by blast
qed

section \<open>Pushing the words\<close>

lemma push_words_spec:
  assumes "8 * length ws \<le> c" "c \<le> 4096"
  shows "\<exists>m'. push_words base ws m (of_nat c) = (m', of_nat (c - 8 * length ws)) \<and>
      within base (c - 8 * length ws) c m m' \<and>
      (\<forall>i < length ws. load64 m' (base + of_nat (c - 8 * length ws + 8 * i)) = ws ! i)"
  using assms(1)
proof (induction ws)
  case Nil
  then show ?case by simp
next
  case (Cons w ws)
  define k where "k = c - 8 * length (w # ws)"
  have k: "c - 8 * length ws = k + 8" "k + 8 \<le> c" using Cons.prems by (simp_all add: k_def)
  obtain m1 where m1: "push_words base ws m (of_nat c) = (m1, of_nat (k + 8))" "within base (k + 8) c m m1"
      "\<forall>i < length ws. load64 m1 (base + of_nat (k + 8 + 8 * i)) = ws ! i"
    using Cons k by auto
  define m' where "m' = store64 m1 (base + of_nat k) w"
  have w: "within base k (k + 8) m1 m'" unfolding m'_def using k assms by (intro store64_within) simp
  have "push_words base (w # ws) m (of_nat c) = (m', of_nat k)" using m1(1) by (simp add: m'_def Let_def)
  moreover have "within base k c m m'"
    using within_trans [OF within_mono [OF m1(2)] within_mono [OF w]] k by simp
  moreover have "load64 m' (base + of_nat (k + 8 * i)) = (w # ws) ! i" if i: "i < length (w # ws)" for i
  proof (cases i)
    case 0
    then show ?thesis by (simp add: m'_def)
  next
    case (Suc j)
    then have "load64 m' (base + of_nat (k + 8 * i)) = load64 m1 (base + of_nat (k + 8 * i))"
      using i assms Cons.prems by (intro within_load64 [OF w]) (auto simp: k_def)
    then show ?thesis using m1(3) i Suc by (simp add: add.assoc)
  qed
  ultimately show ?case unfolding k_def [symmetric] by blast
qed

section \<open>The layout\<close>

text \<open>At offset \<open>pos\<close> of the page there is a vector of user pointers to the given strings, which lie in the
  page too, above offset \<open>lo\<close>; a null pointer ends it.\<close>

definition vector_at :: "mem \<Rightarrow> u64 \<Rightarrow> u64 \<Rightarrow> nat \<Rightarrow> nat \<Rightarrow> u8 list list \<Rightarrow> bool" where
  "vector_at m base pv lo pos ss \<longleftrightarrow>
     (\<exists>os. list_all2 (\<lambda>k s. lo \<le> k \<and> k + length s < 4096 \<and> cstr m (base + of_nat k) s) os ss \<and>
        (\<forall>i < length ss. load64 m (base + of_nat (pos + 8 * i)) = pv + of_nat (os ! i))) \<and>
     load64 m (base + of_nat (pos + 8 * length ss)) = 0"

lemma and_not_7: "c < 2 ^ 64 \<Longrightarrow> of_nat c AND NOT 7 = (of_nat (c div 8 * 8) :: u64)"
proof (rule word_unat_eq_iff [THEN iffD2])
  assume c: "c < 2 ^ 64"
  have m: "(7 :: u64) = mask 3" by (simp add: mask_eq_exp_minus_1)
  have "c div 8 * 8 < 2 ^ 64" using c by (intro le_less_trans [OF div_times_less_eq_dividend]) simp
  then show "unat (of_nat c AND NOT 7 :: u64) = unat (of_nat (c div 8 * 8) :: u64)"
    using c unfolding m unat_and_not_mask by (simp add: unat_of_nat_small minus_mod_eq_div_mult del: of_nat_mult)
qed

lemma of_nat_mod_16: "c < 2 ^ 64 \<Longrightarrow> (of_nat c :: u64) mod 16 \<noteq> 0 \<longleftrightarrow> \<not> 16 dvd c"
proof -
  assume c: "c < 2 ^ 64"
  have "unat ((of_nat c :: u64) mod 16) = c mod 16" using c by (simp add: unat_mod unat_of_nat_small)
  then show ?thesis by (metis dvd_eq_mod_eq_0 unat_eq_zero)
qed

lemma vector_at_within:
  assumes v: "vector_at m base pv lo pos ss" and w: "within base a b m m'"
    and b: "b \<le> lo" "b \<le> pos" and p: "pos + 8 * length ss + 8 \<le> 4096"
  shows "vector_at m' base pv lo pos ss"
proof -
  have l: "load64 m' (base + of_nat (pos + 8 * i)) = load64 m (base + of_nat (pos + 8 * i))" if "i \<le> length ss" for i
    by (rule within_load64 [OF w]) (use b p that in auto)
  obtain os where os: "list_all2 (\<lambda>k s. lo \<le> k \<and> k + length s < 4096 \<and> cstr m (base + of_nat k) s) os ss"
      "\<forall>i < length ss. load64 m (base + of_nat (pos + 8 * i)) = pv + of_nat (os ! i)"
    using v unfolding vector_at_def by blast
  have "list_all2 (\<lambda>k s. lo \<le> k \<and> k + length s < 4096 \<and> cstr m' (base + of_nat k) s) os ss"
    using os(1) by (rule list_all2_mono) (use b in \<open>auto intro: within_cstr [OF w]\<close>)
  moreover have "\<forall>i < length ss. load64 m' (base + of_nat (pos + 8 * i)) = pv + of_nat (os ! i)"
    using os(2) l by simp
  moreover have "load64 m' (base + of_nat (pos + 8 * length ss)) = 0"
    using v l [of "length ss"] unfolding vector_at_def by simp
  ultimately show ?thesis unfolding vector_at_def by blast
qed

text \<open>A vector pushed below its null pointer.\<close>

lemma push_vector:
  assumes os: "list_all2 (\<lambda>k s. lo \<le> k \<and> k + length s < 4096 \<and> cstr m (base + of_nat k) s) os ss"
    and p: "8 * length ss \<le> c" "c + 8 \<le> lo" "lo \<le> 4096" and z: "load64 m (base + of_nat c) = 0"
  shows "\<exists>m'. push_words base (map (\<lambda>k. pv + of_nat k) os) m (of_nat c) = (m', of_nat (c - 8 * length ss)) \<and>
      within base (c - 8 * length ss) c m m' \<and> vector_at m' base pv lo (c - 8 * length ss) ss"
proof -
  have len: "length os = length ss" using os by (rule list_all2_lengthD)
  define pos where "pos = c - 8 * length ss"
  have pos: "pos + 8 * length ss = c" using p by (simp add: pos_def)
  obtain m' where m': "push_words base (map (\<lambda>k. pv + of_nat k) os) m (of_nat c) = (m', of_nat pos)"
      "within base pos c m m'"
      "\<forall>i < length ss. load64 m' (base + of_nat (pos + 8 * i)) = map (\<lambda>k. pv + of_nat k) os ! i"
    using push_words_spec [of "map (\<lambda>k. pv + of_nat k) os" c base m] p len by (auto simp: pos_def)
  have "list_all2 (\<lambda>k s. lo \<le> k \<and> k + length s < 4096 \<and> cstr m' (base + of_nat k) s) os ss"
    using os by (rule list_all2_mono) (use p in \<open>auto intro: within_cstr [OF m'(2)]\<close>)
  moreover have "load64 m' (base + of_nat c) = 0"
    using within_load64 [OF m'(2), of c] z p by simp
  ultimately have "vector_at m' base pv lo pos ss"
    using m'(3) len unfolding vector_at_def pos by (auto intro!: exI [of _ os])
  with m' show ?thesis unfolding pos_def by blast
qed

text \<open>The strings of both vectors are in place, and below them the page is still zero.\<close>

lemma stack_strings:
  assumes args: "list_all2 (arg_ok m base argv) [0..<length args] args"
    and env: "list_all2 (arg_ok m base envp) [0..<length env] env"
    and fit: "bytes_of args + bytes_of env \<le> 4096"
  shows "\<exists>as m1 es m2. push_strings base pv argv [0..<length args] (memset m base 0 PAGE_SIZE) PAGE_SIZE =
        Some (map (\<lambda>k. pv + of_nat k) as, m1, of_nat (4096 - bytes_of args)) \<and>
      push_strings base pv envp [0..<length env] m1 (of_nat (4096 - bytes_of args)) =
        Some (map (\<lambda>k. pv + of_nat k) es, m2, of_nat (4096 - bytes_of args - bytes_of env)) \<and>
      within base 0 4096 m m2 \<and>
      (\<forall>i. i + 8 \<le> 4096 - bytes_of args - bytes_of env \<longrightarrow> load64 m2 (base + of_nat i) = 0) \<and>
      (\<forall>lo \<le> 4096 - bytes_of args - bytes_of env.
        list_all2 (\<lambda>k s. lo \<le> k \<and> k + length s < 4096 \<and> cstr m2 (base + of_nat k) s) as args \<and>
        list_all2 (\<lambda>k s. lo \<le> k \<and> k + length s < 4096 \<and> cstr m2 (base + of_nat k) s) es env)"
proof -
  define m0 where "m0 = memset m base 0 (of_nat 4096)"
  define c1 where "c1 = 4096 - bytes_of args"
  define c2 where "c2 = c1 - bytes_of env"
  have c: "c2 \<le> c1" "c1 \<le> 4096" "bytes_of env \<le> c1" using fit by (simp_all add: c1_def c2_def)
  have w0: "within base 0 4096 m m0" unfolding m0_def by (rule memset_within) simp
  have a0: "list_all2 (arg_ok m0 base argv) [0..<length args] args"
    using args by (rule list_all2_mono) (rule arg_ok_within [OF w0 order.refl])
  obtain as m1 where r1: "push_strings base pv argv [0..<length args] m0 (of_nat 4096) =
        Some (map (\<lambda>k. pv + of_nat k) as, m1, of_nat c1)" "within base c1 4096 m0 m1"
      "list_all2 (\<lambda>k s. c1 \<le> k \<and> k + length s < 4096 \<and> cstr m1 (base + of_nat k) s) as args"
    using push_strings_spec [OF a0, of 4096 pv] fit by (auto simp: c1_def)
  have w1: "within base 0 4096 m m1" using within_trans [OF w0 within_mono [OF r1(2)]] by simp
  have e1: "list_all2 (arg_ok m1 base envp) [0..<length env] env"
    using env by (rule list_all2_mono) (rule arg_ok_within [OF w1 order.refl])
  obtain es m2 where r2: "push_strings base pv envp [0..<length env] m1 (of_nat c1) =
        Some (map (\<lambda>k. pv + of_nat k) es, m2, of_nat c2)" "within base c2 c1 m1 m2"
      "list_all2 (\<lambda>k s. c2 \<le> k \<and> k + length s < c1 \<and> cstr m2 (base + of_nat k) s) es env"
    using push_strings_spec [OF e1 c(3) c(2), of pv] unfolding c2_def by blast
  have w2: "within base 0 4096 m m2" using within_trans [OF w1 within_mono [OF r2(2)]] c by simp
  have z: "load64 m2 (base + of_nat i) = 0" if "i + 8 \<le> c2" for i
  proof -
    have "load64 m2 (base + of_nat i) = load64 m1 (base + of_nat i)"
      by (rule within_load64 [OF r2(2)]) (use that c in auto)
    also have "\<dots> = load64 m0 (base + of_nat i)"
      by (rule within_load64 [OF r1(2)]) (use that c in auto)
    also have "\<dots> = 0"
      unfolding m0_def using that c by (intro load64_zero) (simp add: memset_apply unat_of_nat_small flip: of_nat_add)
    finally show ?thesis .
  qed
  have "list_all2 (\<lambda>k s. lo \<le> k \<and> k + length s < 4096 \<and> cstr m2 (base + of_nat k) s) as args" if "lo \<le> c2" for lo
    using r1(3) by (rule list_all2_mono) (use that c in \<open>auto intro: within_cstr [OF r2(2)]\<close>)
  moreover have "list_all2 (\<lambda>k s. lo \<le> k \<and> k + length s < 4096 \<and> cstr m2 (base + of_nat k) s) es env" if "lo \<le> c2" for lo
    using r2(3) by (rule list_all2_mono) (use that c in auto)
  ultimately show ?thesis using r1(1) r2(1) w2 z unfolding m0_def c1_def c2_def by (auto simp: PAGE_SIZE_def)
qed

text \<open>The tables below the strings, for a stack pointer at offset \<open>sp\<close>.\<close>

lemma stack_tables:
  assumes as: "list_all2 (\<lambda>k s. aux + 16 \<le> k \<and> k + length s < 4096 \<and> cstr m (base + of_nat k) s) as args"
    and es: "list_all2 (\<lambda>k s. aux + 16 \<le> k \<and> k + length s < 4096 \<and> cstr m (base + of_nat k) s) es env"
    and z: "\<And>i. i + 8 \<le> aux + 16 \<Longrightarrow> load64 m (base + of_nat i) = 0"
    and aux: "aux = sp + 8 * length args + 8 * length env + 24" "aux + 16 \<le> 4096"
  shows "\<exists>m1 m2. push_words base (map (\<lambda>k. pv + of_nat k) es) m (of_nat (aux - 8)) =
        (m1, of_nat (sp + 8 * length args + 16)) \<and>
      push_words base (map (\<lambda>k. pv + of_nat k) as) m1 (of_nat (sp + 8 * length args + 8)) = (m2, of_nat (sp + 8)) \<and>
      within base (sp + 8) (aux - 8) m m2 \<and>
      vector_at m2 base pv (aux + 16) (sp + 8) args \<and>
      vector_at m2 base pv (aux + 16) (sp + 8 * length args + 16) env"
proof -
  define q where "q = sp + 8 * length args + 8"
  have q: "aux - 8 - 8 * length env = q + 8" "q - 8 * length args = sp + 8" "q + 16 \<le> aux" "q + 8 \<le> aux - 8"
    using aux by (simp_all add: q_def)
  have ze: "load64 m (base + of_nat (aux - 8)) = 0" "load64 m (base + of_nat q) = 0"
    using z [of "aux - 8"] z [of q] q(3) by simp_all
  obtain m1 where m1: "push_words base (map (\<lambda>k. pv + of_nat k) es) m (of_nat (aux - 8)) = (m1, of_nat (q + 8))"
      "within base (q + 8) (aux - 8) m m1" "vector_at m1 base pv (aux + 16) (q + 8) env"
    using push_vector [OF es _ _ _ ze(1), of pv] aux q(1) by auto
  have as1: "list_all2 (\<lambda>k s. aux + 16 \<le> k \<and> k + length s < 4096 \<and> cstr m1 (base + of_nat k) s) as args"
    using as by (rule list_all2_mono) (auto intro: within_cstr [OF m1(2)])
  have "load64 m1 (base + of_nat q) = load64 m (base + of_nat q)"
    by (rule within_load64 [OF m1(2)]) (use q aux in auto)
  with ze have zq: "load64 m1 (base + of_nat q) = 0" by simp
  obtain m2 where m2: "push_words base (map (\<lambda>k. pv + of_nat k) as) m1 (of_nat q) = (m2, of_nat (sp + 8))"
      "within base (sp + 8) q m1 m2" "vector_at m2 base pv (aux + 16) (sp + 8) args"
    using push_vector [OF as1 _ _ _ zq, of pv] aux q by (auto simp: q_def)
  have "vector_at m2 base pv (aux + 16) (q + 8) env"
    by (rule vector_at_within [OF m1(3) m2(2)]) (use q aux in \<open>auto simp: q_def\<close>)
  moreover have "within base (sp + 8) (aux - 8) m m2"
    using within_trans [OF within_mono [OF m1(2)] within_mono [OF m2(2)]] q by (simp add: q_def)
  ultimately show ?thesis using m1(1) m2(1,3) by (auto simp: q_def add.commute add.left_commute)
qed

text \<open>The padding: the stack pointer below tables of \<open>n\<close> words is a multiple of 16.\<close>

definition stack_offset :: "nat \<Rightarrow> nat \<Rightarrow> nat" where
  "stack_offset c n = (if 16 dvd c - 8 * n then c else c - 8) - 8 * n"

lemma stack_offset:
  assumes "8 dvd c" "8 * n + 8 \<le> c"
  shows "16 dvd stack_offset c n" "stack_offset c n + 8 * n \<le> c"
  using assms by (auto simp: stack_offset_def elim!: dvdE) presburger+

lemma stack_padding:
  assumes "8 dvd c" "8 * n + 8 \<le> c" "c < 2 ^ 64"
  shows "(if (of_nat c - of_nat n * 8 :: u64) mod 16 \<noteq> 0 then of_nat c - 8 else of_nat c) =
    (of_nat (stack_offset c n + 8 * n) :: u64)"
proof -
  have "of_nat c - of_nat n * 8 = (of_nat (c - 8 * n) :: u64)" using assms by (simp add: of_nat_diff)
  moreover have "(of_nat (c - 8 * n) :: u64) mod 16 \<noteq> 0 \<longleftrightarrow> \<not> 16 dvd c - 8 * n"
    using assms by (intro of_nat_mod_16) simp
  ultimately have "(of_nat c - of_nat n * 8 :: u64) mod 16 \<noteq> 0 \<longleftrightarrow> \<not> 16 dvd c - 8 * n" by (simp only:)
  then show ?thesis using assms by (simp only:) (auto simp: stack_offset_def of_nat_diff)
qed

lemma elf_fill_stack_run:
  assumes args: "list_all2 (arg_ok m base argv) [0..<length args] args"
    and env: "list_all2 (arg_ok m base envp) [0..<length env] env"
    and fit: "bytes_of args + bytes_of env + 8 * (length args + length env + 5) + 15 \<le> 4096"
  shows "\<exists>sp aux m2 m4. elf_fill_stack base page_vaddr (length args) argv (length env) envp m =
        Some (of_nat sp, store64 m4 (base + of_nat sp) (of_nat (length args))) \<and>
      16 dvd sp \<and> aux = sp + 8 * length args + 8 * length env + 24 \<and> aux + 16 \<le> 4096 \<and>
      within base 0 4096 m m2 \<and> (\<forall>i. i + 8 \<le> aux + 16 \<longrightarrow> load64 m2 (base + of_nat i) = 0) \<and>
      within base (sp + 8) (aux - 8) m2 m4 \<and>
      vector_at m4 base page_vaddr (aux + 16) (sp + 8) args \<and>
      vector_at m4 base page_vaddr (aux + 16) (sp + 8 * length args + 16) env"
proof -
  define A where "A = length args"
  define E where "E = length env"
  define c2 where "c2 = 4096 - bytes_of args - bytes_of env"
  obtain as m1 es m2 where s: "push_strings base page_vaddr argv [0..<A] (memset m base 0 PAGE_SIZE) PAGE_SIZE =
        Some (map (\<lambda>k. page_vaddr + of_nat k) as, m1, of_nat (4096 - bytes_of args))"
      "push_strings base page_vaddr envp [0..<E] m1 (of_nat (4096 - bytes_of args)) =
        Some (map (\<lambda>k. page_vaddr + of_nat k) es, m2, of_nat c2)"
    and w: "within base 0 4096 m m2" and z: "\<forall>i. i + 8 \<le> c2 \<longrightarrow> load64 m2 (base + of_nat i) = 0"
    and v: "\<forall>lo \<le> c2. list_all2 (\<lambda>k s. lo \<le> k \<and> k + length s < 4096 \<and> cstr m2 (base + of_nat k) s) as args \<and>
        list_all2 (\<lambda>k s. lo \<le> k \<and> k + length s < 4096 \<and> cstr m2 (base + of_nat k) s) es env"
    using stack_strings [OF args env, of page_vaddr] fit unfolding c2_def A_def E_def by auto
  define c3 where "c3 = c2 div 8 * 8"
  define n where "n = A + E + 5"
  define sp where "sp = stack_offset c3 n"
  define aux where "aux = sp + 8 * A + 8 * E + 24"
  have c2: "8 * n + 15 \<le> c2" "c2 \<le> 4096" using fit by (simp_all add: c2_def A_def E_def n_def)
  have c3: "c3 \<le> c2" "8 * n + 8 \<le> c3" "8 dvd c3" using c2(1) by (simp_all add: c3_def)
  have sp: "16 dvd sp" "aux + 16 \<le> c2"
    using stack_offset [OF c3(3,2)] c3(1) by (simp_all add: sp_def aux_def n_def)
  have slots: "1 + (of_nat A + 1) + (of_nat E + 1) + 2 = (of_nat n :: u64)" by (simp add: n_def)
  have cur: "(if (of_nat c3 - of_nat n * 8 :: u64) mod 16 \<noteq> 0 then of_nat c3 - 8 else of_nat c3) =
      (of_nat (aux + 16) :: u64)"
    using stack_padding [OF c3(3,2)] c3(1) c2(2) by (simp add: sp_def aux_def n_def)
  obtain m3 m4 where t: "push_words base (map (\<lambda>k. page_vaddr + of_nat k) es) m2 (of_nat (aux - 8)) =
        (m3, of_nat (sp + 8 * A + 16))"
      "push_words base (map (\<lambda>k. page_vaddr + of_nat k) as) m3 (of_nat (sp + 8 * A + 8)) = (m4, of_nat (sp + 8))"
    and w4: "within base (sp + 8) (aux - 8) m2 m4"
    and vs: "vector_at m4 base page_vaddr (aux + 16) (sp + 8) args"
      "vector_at m4 base page_vaddr (aux + 16) (sp + 8 * A + 16) env"
    using stack_tables [of aux m2 base as args es env sp page_vaddr] v z sp(2) c2(2) by (auto simp: A_def E_def aux_def)
  have steps: "of_nat (aux + 16) - 16 - 8 = (of_nat (aux - 8) :: u64)"
      "of_nat (sp + 8 * A + 16) - 8 = (of_nat (sp + 8 * A + 8) :: u64)" "of_nat (sp + 8) - 8 = (of_nat sp :: u64)"
    by (simp_all add: aux_def)
  have "c2 < 2 ^ 64" using c2(2) by simp
  then have c3': "of_nat c2 AND NOT 7 = (of_nat c3 :: u64)" unfolding c3_def by (rule and_not_7)
  have run: "elf_fill_stack base page_vaddr A argv E envp m =
      Some (of_nat sp, store64 m4 (base + of_nat sp) (of_nat A))"
    unfolding elf_fill_stack_def Let_def s bind.bind_lunit prod.case c3' slots cur steps t ..
  have "aux + 16 \<le> 4096" "\<forall>i. i + 8 \<le> aux + 16 \<longrightarrow> load64 m2 (base + of_nat i) = 0"
    using sp(2) c2(2) z by auto
  then show ?thesis using run sp(1) aux_def w w4 vs unfolding A_def E_def by blast
qed


text \<open>The page at 0x20000, to be mapped at 0x7000, for a program with the one argument "ab".\<close>

definition argv_mem :: mem where
  "argv_mem = store_bytes (store64 (\<lambda>_. 0) 0x11000 0x10000) 0x10000 [97, 98]"

lemma argv_mem_arg: "arg_ok argv_mem 0x20000 0x11000 0 [97, 98]"
proof -
  have "extent (0x11000 :: u64) 8 \<inter> extent (0x11000 + of_nat 0xF000) 4096 = {}"
    "extent (0x10000 :: u64) (Suc (Suc (Suc 0))) \<inter> extent (0x10000 + of_nat 0x10000) 4096 = {}"
    using extent_disj [of "0xF000" 4096 "0x11000"] extent_mono [of 8 "0xF000" "0x11000"]
      extent_disj [of "0x10000" 4096 "0x10000"] extent_mono [of "Suc (Suc (Suc 0))" "0x10000" "0x10000"] by auto
  moreover have "load64 argv_mem 0x11000 = 0x10000"
    by code_simp
  moreover have "cstr argv_mem 0x10000 [97, 98]"
    by code_simp
  ultimately show ?thesis by (simp add: arg_ok_def)
qed


end
