(* ===== verification/Syscall.thy ===== *)
theory Syscall
  imports Fd_Refs File_Write
begin

text \<open>
  The system call table of \<^verbatim>\<open>kernel/src/syscall/syscall.c\<close> with the numbers of \<^verbatim>\<open>kernel/include/asm/unistd.h\<close>.
  Every handler has the six register arguments; it takes the ones it declares, an \<^verbatim>\<open>int\<close> being the low half
  of the register. \<open>chunk\<close> is the bounce buffer on the kernel stack and \<open>sp\<close> the stack position of a call that
  sleeps.
\<close>

section \<open>Numbers\<close>

datatype syscall = Sys_read | Sys_write | Sys_open | Sys_openat | Sys_close | Sys_getpid | Sys_exit | Sys_getdents64
  | Sys_clone | Sys_fork | Sys_wait4 | Sys_exit_group

fun aarch64_nr :: "syscall \<Rightarrow> nat" where
  "aarch64_nr Sys_read = 63"
| "aarch64_nr Sys_write = 64"
| "aarch64_nr Sys_open = 511"
| "aarch64_nr Sys_openat = 56"
| "aarch64_nr Sys_close = 57"
| "aarch64_nr Sys_getpid = 172"
| "aarch64_nr Sys_exit = 93"
| "aarch64_nr Sys_getdents64 = 61"
| "aarch64_nr Sys_clone = 220"
| "aarch64_nr Sys_fork = 510"
| "aarch64_nr Sys_wait4 = 260"
| "aarch64_nr Sys_exit_group = 94"

fun x86_64_nr :: "syscall \<Rightarrow> nat" where
  "x86_64_nr Sys_read = 0"
| "x86_64_nr Sys_write = 1"
| "x86_64_nr Sys_open = 2"
| "x86_64_nr Sys_openat = 257"
| "x86_64_nr Sys_close = 3"
| "x86_64_nr Sys_getpid = 39"
| "x86_64_nr Sys_exit = 60"
| "x86_64_nr Sys_getdents64 = 217"
| "x86_64_nr Sys_clone = 56"
| "x86_64_nr Sys_fork = 57"
| "x86_64_nr Sys_wait4 = 61"
| "x86_64_nr Sys_exit_group = 231"

definition syscall_nr :: "arch \<Rightarrow> syscall \<Rightarrow> nat" where
  "syscall_nr a = (case a of X86_64 \<Rightarrow> x86_64_nr | AArch64 \<Rightarrow> aarch64_nr)"

definition NR_SYSCALLS :: nat where "NR_SYSCALLS = 512"

section \<open>The table\<close>

definition reg_int :: "u64 \<Rightarrow> int" where "reg_int r = sint (ucast r :: u32)"

definition io_ret :: "(int \<times> 's) option \<Rightarrow> 's io option" where
  "io_ret r = map_option (\<lambda>(v, s). Io_done v s) r"

fun syscall_handler ::
  "u64 \<Rightarrow> u64 \<Rightarrow> syscall \<Rightarrow> u64 \<Rightarrow> u64 \<Rightarrow> u64 \<Rightarrow> u64 \<Rightarrow> u64 \<Rightarrow> u64 \<Rightarrow> 'a kernel_state_scheme \<Rightarrow> 'a kernel_state_scheme io option" where
  "syscall_handler chunk sp Sys_read a0 a1 a2 a3 a4 a5 s = sys_read chunk sp (reg_int a0) a1 a2 s"
| "syscall_handler chunk sp Sys_write a0 a1 a2 a3 a4 a5 s = io_ret (sys_write chunk (reg_int a0) a1 a2 s)"
| "syscall_handler chunk sp Sys_open a0 a1 a2 a3 a4 a5 s = io_ret (sys_open a0 (ucast a1) s)"
| "syscall_handler chunk sp Sys_openat a0 a1 a2 a3 a4 a5 s = io_ret (sys_openat (reg_int a0) a1 (ucast a2) (reg_int a3) s)"
| "syscall_handler chunk sp Sys_close a0 a1 a2 a3 a4 a5 s = io_ret (sys_close (reg_int a0) s)"
| "syscall_handler chunk sp Sys_getpid a0 a1 a2 a3 a4 a5 s = io_ret (sys_getpid s)"
| "syscall_handler chunk sp Sys_exit a0 a1 a2 a3 a4 a5 s = io_ret (sys_exit (reg_int a0) s)"
| "syscall_handler chunk sp Sys_getdents64 a0 a1 a2 a3 a4 a5 s = io_ret (sys_getdents64 chunk (reg_int a0) a1 a2 s)"
| "syscall_handler chunk sp Sys_clone a0 a1 a2 a3 a4 a5 s = io_ret (sys_clone a0 a1 a2 a3 a4 s)"
| "syscall_handler chunk sp Sys_fork a0 a1 a2 a3 a4 a5 s = io_ret (sys_fork s)"
| "syscall_handler chunk sp Sys_wait4 a0 a1 a2 a3 a4 a5 s = io_ret (sys_wait4 (sint a0) a1 (reg_int a2) a3 s)"
| "syscall_handler chunk sp Sys_exit_group a0 a1 a2 a3 a4 a5 s = io_ret (sys_exit (reg_int a0) s)"

text \<open>The designated initialisers, in their order; a later one would replace an earlier one.\<close>

definition syscall_table :: "arch \<Rightarrow> syscall option list" where
  "syscall_table a =
     fold (\<lambda>c table. table[syscall_nr a c := Some c])
       [Sys_read, Sys_write, Sys_open, Sys_openat, Sys_close, Sys_getpid, Sys_exit, Sys_getdents64,
        Sys_clone, Sys_fork, Sys_wait4, Sys_exit_group]
       (replicate NR_SYSCALLS None)"

definition syscall_dispatch ::
  "arch \<Rightarrow> u64 \<Rightarrow> u64 \<Rightarrow> u64 \<Rightarrow> u64 \<Rightarrow> u64 \<Rightarrow> u64 \<Rightarrow> u64 \<Rightarrow> u64 \<Rightarrow> u64 \<Rightarrow> 'a kernel_state_scheme \<Rightarrow> 'a kernel_state_scheme io option" where
  "syscall_dispatch a chunk sp num a0 a1 a2 a3 a4 a5 s =
     (if unat num \<ge> NR_SYSCALLS then Some (Io_done (- ENOSYS) s)
      else case syscall_table a ! unat num of
          None \<Rightarrow> Some (Io_done (- ENOSYS) s)
        | Some c \<Rightarrow> syscall_handler chunk sp c a0 a1 a2 a3 a4 a5 s)"

section \<open>Every call reaches its handler\<close>

lemma syscall_nr_lt: "syscall_nr a c < 512"
  by (cases a; cases c) (simp_all add: syscall_nr_def)

lemma syscall_nr_inj: "syscall_nr a c = syscall_nr a d \<longleftrightarrow> c = d"
  by (cases a; cases c; cases d) (simp_all add: syscall_nr_def)

lemma table_fold:
  "n < length t \<Longrightarrow> (\<forall>c \<in> set cs. f c < length t) \<Longrightarrow> inj f \<Longrightarrow>
   fold (\<lambda>c t. t[f c := Some c]) cs t ! n = (if \<exists>c \<in> set cs. f c = n then Some (inv f n) else t ! n)"
  by (induction cs arbitrary: t) (auto simp: nth_list_update inj_eq)

lemma table_nth:
  assumes "n < NR_SYSCALLS"
  shows "syscall_table a ! n = (if \<exists>c. syscall_nr a c = n then Some (inv (syscall_nr a) n) else None)"
proof -
  have inj: "inj (syscall_nr a)" by (rule injI) (simp add: syscall_nr_inj)
  have all: "c \<in> set [Sys_read, Sys_write, Sys_open, Sys_openat, Sys_close, Sys_getpid, Sys_exit, Sys_getdents64,
        Sys_clone, Sys_fork, Sys_wait4, Sys_exit_group]" for c by (cases c) simp_all
  then have "(\<exists>c \<in> set [Sys_read, Sys_write, Sys_open, Sys_openat, Sys_close, Sys_getpid, Sys_exit, Sys_getdents64,
        Sys_clone, Sys_fork, Sys_wait4, Sys_exit_group]. syscall_nr a c = n) \<longleftrightarrow> (\<exists>c. syscall_nr a c = n)" by blast
  then show ?thesis
    unfolding syscall_table_def using assms inj
    by (subst table_fold) (simp_all add: NR_SYSCALLS_def syscall_nr_lt)
qed



end
