(* ===== verification/Cpu_Words.thy ===== *)
theory Cpu_Words
  imports Arch_Frame
begin

text \<open>
  Consecutive 64-bit words in memory, as the entry and exit code of both architectures writes and reads them:
  stored upwards by an AArch64 store sequence, or pushed downwards on an x86-64 stack.
\<close>

fun words_at :: "mem \<Rightarrow> u64 \<Rightarrow> u64 list \<Rightarrow> bool" where
  "words_at m p [] \<longleftrightarrow> True"
| "words_at m p (w # ws) \<longleftrightarrow> load64 m p = w \<and> words_at m (p + 8) ws"

fun store_words :: "u64 \<Rightarrow> u64 list \<Rightarrow> mem \<Rightarrow> mem" where
  "store_words p [] m = m"
| "store_words p (w # ws) m = store_words (p + 8) ws (store64 m p w)"

fun push_stack :: "u64 list \<Rightarrow> u64 \<times> mem \<Rightarrow> u64 \<times> mem" where
  "push_stack [] (sp, m) = (sp, m)"
| "push_stack (w # ws) (sp, m) = push_stack ws (sp - 8, store64 m (sp - 8) w)"

lemma words_at_append:
  "words_at m p (us @ ws) \<longleftrightarrow> words_at m p us \<and> words_at m (p + 8 * of_nat (length us)) ws"
  by (induction us arbitrary: p) (auto simp: algebra_simps)

lemma words_at_nth: "words_at m p ws \<Longrightarrow> i < length ws \<Longrightarrow> load64 m (p + 8 * of_nat i) = ws ! i"
proof (induction ws arbitrary: p i)
  case (Cons w ws)
  show ?case
  proof (cases i)
    case (Suc j)
    then show ?thesis using Cons.IH [of "p + 8" j] Cons.prems by (simp add: algebra_simps)
  qed (use Cons.prems in simp)
qed simp

lemma words_at_agree:
  assumes "words_at m p ws" "8 * length ws < 2 ^ 64" "\<And>x. x \<in> extent p (8 * length ws) \<Longrightarrow> m' x = m x"
  shows "words_at m' p ws"
  using assms
proof (induction ws arbitrary: p)
  case (Cons w ws)
  have "extent p (8 * length (w # ws)) = extent p 8 \<union> extent (p + 8) (8 * length ws)"
    using extent_split [of 8 "8 * length ws" p] Cons.prems(2) by simp
  moreover from this have "load64 m' p = load64 m p" using Cons.prems(3) by (intro load64_agree) auto
  ultimately show ?case using Cons by auto
qed simp

lemma store_words_append: "store_words p (us @ ws) m = store_words (p + 8 * of_nat (length us)) ws (store_words p us m)"
  by (induction us arbitrary: p m) (simp_all add: algebra_simps)

lemma store_words_out: "8 * length ws < 2 ^ 64 \<Longrightarrow> x \<notin> extent p (8 * length ws) \<Longrightarrow> store_words p ws m x = m x"
proof (induction ws arbitrary: p m)
  case (Cons w ws)
  have "extent p (8 * length (w # ws)) = extent p 8 \<union> extent (p + 8) (8 * length ws)"
    using extent_split [of 8 "8 * length ws" p] Cons.prems(1) by simp
  then show ?case using Cons by (auto simp: store64_out)
qed simp

lemma words_at_store_words: "8 * length ws < 2 ^ 64 \<Longrightarrow> words_at (store_words p ws m) p ws"
proof (induction ws arbitrary: p m)
  case (Cons w ws)
  have "extent p 8 \<inter> extent (p + 8) (8 * length ws) = {}" using extent_disj [of 8 "8 * length ws" p] Cons.prems by simp
  then have "load64 (store_words (p + 8) ws (store64 m p w)) p = load64 (store64 m p w) p"
    using Cons.prems by (intro load64_agree store_words_out) auto
  then show ?case using Cons by simp
qed simp

lemma push_stack_words:
  assumes "push_stack ws (sp, m) = (sp', m')" "8 * length ws < 2 ^ 64"
  shows "sp' = sp - 8 * of_nat (length ws) \<and> words_at m' sp' (rev ws) \<and> (\<forall>x. x \<notin> extent sp' (8 * length ws) \<longrightarrow> m' x = m x)"
  using assms
proof (induction ws arbitrary: sp m)
  case (Cons w ws)
  have ih: "sp' = sp - 8 - 8 * of_nat (length ws)" "words_at m' sp' (rev ws)"
    "\<forall>x. x \<notin> extent sp' (8 * length ws) \<longrightarrow> m' x = store64 m (sp - 8) w x"
    using Cons.IH [of "sp - 8" "store64 m (sp - 8) w"] Cons.prems by auto
  have top: "sp' + of_nat (8 * length ws) = sp - 8" using ih(1) by simp
  have ext: "extent sp' (8 * length (w # ws)) = extent sp' (8 * length ws) \<union> extent (sp - 8) 8"
    using extent_split [of "8 * length ws" 8 sp'] Cons.prems(2) top by (simp add: add.commute)
  have "extent sp' (8 * length ws) \<inter> extent (sp - 8) 8 = {}"
    using extent_disj [of "8 * length ws" 8 sp'] Cons.prems(2) top by simp
  then have "load64 m' (sp - 8) = load64 (store64 m (sp - 8) w) (sp - 8)" using ih(3) by (intro load64_agree) auto
  then have "words_at m' sp' (rev (w # ws))" using ih(2) top by (simp add: words_at_append)
  then show ?case using ih(1,3) ext by (auto simp: store64_out)
qed simp

lemma push_stack_append: "push_stack (us @ ws) st = push_stack ws (push_stack us st)"
  by (induction us st rule: push_stack.induct) simp_all

lemma apart_extent:
  assumes "apart a n b k" "0 < n" "n \<le> 2 ^ 64"
  shows "extent a n \<inter> extent b k = {}"
proof -
  have "x \<notin> extent a n" if "x \<in> extent b k" for x
    using apart_cell [OF assms(1), of "unat (x - b)"] that assms(2,3) by (simp add: extent_def)
  then show ?thesis by blast
qed

lemma words_at_iff: "words_at m p ws \<longleftrightarrow> (\<forall>i < length ws. load64 m (p + 8 * of_nat i) = ws ! i)"
proof (induction ws arbitrary: p)
  case (Cons w ws)
  have "(\<forall>i < length (w # ws). load64 m (p + 8 * of_nat i) = (w # ws) ! i) \<longleftrightarrow>
      load64 m p = w \<and> (\<forall>i < length ws. load64 m (p + 8 + 8 * of_nat i) = ws ! i)"
    by (auto simp: All_less_Suc2 algebra_simps)
  then show ?case using Cons by simp
qed simp

lemma words_at_store:
  assumes "words_at m p ws" "i < length ws" "length ws < 512"
  shows "words_at (store64 m (p + 8 * of_nat i) v) p (ws[i := v])"
  using assms entries_disj [of i _ p] by (auto simp: words_at_iff nth_list_update load64_store64_disj)

end
