(* ===== verification/X86_Context.thy ===== *)
theory X86_Context
  imports Cpu_Words
begin

text \<open>
  The assembly of x86-64, on a processor of sixteen registers, the registers a trap saves, the two GS bases and
  memory: the context switch and \<^verbatim>\<open>arch_trap_return\<close> of \<^verbatim>\<open>switch.S\<close>, the interrupt stubs, the common entry
  and the exit of \<^verbatim>\<open>isr.S\<close>, and \<^verbatim>\<open>syscall_entry.S\<close>. Each entry ends where it calls the handler. What the
  processor does by itself on an interrupt and on \<^verbatim>\<open>syscall\<close> is \<open>x86_interrupt\<close> and \<open>x86_syscall\<close>.
\<close>

section \<open>The processor\<close>

datatype x86_reg = RAX | RBX | RCX | RDX | RSI | RDI | RBP | RSP | R8 | R9 | R10 | R11 | R12 | R13 | R14 | R15

record x86_cpu =
  x_reg :: "x86_reg \<Rightarrow> u64"
  x_rip :: u64
  x_cs :: u64
  x_rflags :: u64
  x_ss :: u64
  x_gs :: u64
  x_kernel_gs :: u64
  x_mem :: mem

definition movq :: "x86_reg \<Rightarrow> u64 \<Rightarrow> x86_cpu \<Rightarrow> x86_cpu" where
  "movq r v c = c\<lparr>x_reg := (x_reg c)(r := v)\<rparr>"

definition pushq :: "u64 \<Rightarrow> x86_cpu \<Rightarrow> x86_cpu" where
  "pushq v c = (let sp = x_reg c RSP - 8 in (movq RSP sp c)\<lparr>x_mem := store64 (x_mem c) sp v\<rparr>)"

definition push_reg :: "x86_reg \<Rightarrow> x86_cpu \<Rightarrow> x86_cpu" where
  "push_reg r c = pushq (x_reg c r) c"

definition pop_reg :: "x86_reg \<Rightarrow> x86_cpu \<Rightarrow> x86_cpu" where
  "pop_reg r c = (let sp = x_reg c RSP in movq r (load64 (x_mem c) sp) (movq RSP (sp + 8) c))"

definition swapgs :: "x86_cpu \<Rightarrow> x86_cpu" where
  "swapgs c = c\<lparr>x_gs := x_kernel_gs c, x_kernel_gs := x_gs c\<rparr>"

definition x86_ret :: "x86_cpu \<Rightarrow> x86_cpu" where
  "x86_ret c = (movq RSP (x_reg c RSP + 8) c)\<lparr>x_rip := load64 (x_mem c) (x_reg c RSP)\<rparr>"

definition iretq :: "x86_cpu \<Rightarrow> x86_cpu" where
  "iretq c = (let at = (\<lambda>off. load64 (x_mem c) (x_reg c RSP + off))
     in (movq RSP (at 24) c)\<lparr>x_rip := at 0, x_cs := at 8, x_rflags := at 16, x_ss := at 32\<rparr>)"

text \<open>On an interrupt the processor pushes on the stack it chose, whose pointer is \<open>stack\<close>, and for ten of the
  exceptions an error code.\<close>

definition x86_error_code :: "nat \<Rightarrow> bool" where
  "x86_error_code vector \<longleftrightarrow> vector \<in> {8, 10, 11, 12, 13, 14, 17, 21, 29, 30}"

definition x86_interrupt :: "nat \<Rightarrow> u64 \<Rightarrow> u64 \<Rightarrow> x86_cpu \<Rightarrow> x86_cpu" where
  "x86_interrupt vector error_code stack c =
     (let c' = fold pushq [x_ss c, x_reg c RSP, x_rflags c, x_cs c, x_rip c] (movq RSP stack c)
      in if x86_error_code vector then pushq error_code c' else c')"

text \<open>\<^verbatim>\<open>syscall\<close> saves where to return and the flags in registers, and switches no stack.\<close>

definition x86_syscall :: "x86_cpu \<Rightarrow> x86_cpu" where
  "x86_syscall c = (movq RCX (x_rip c) (movq R11 (x_rflags c) c))"

section \<open>switch.S\<close>

definition x86_64_switch_to :: "x86_cpu \<Rightarrow> x86_cpu" where
  "x86_64_switch_to c =
     (let c = fold push_reg [RBX, RBP, R12, R13, R14, R15] c;
          c = c\<lparr>x_mem := store64 (x_mem c) (x_reg c RDI) (x_reg c RSP)\<rparr>;
          c = movq RSP (x_reg c RSI) c;
          c = fold pop_reg [R15, R14, R13, R12, RBP, RBX] c
      in x86_ret c)"

section \<open>isr.S and syscall\_entry.S\<close>

definition isr_has_error_code :: "nat \<Rightarrow> bool" where
  "isr_has_error_code num \<longleftrightarrow> num \<in> {8, 10, 11, 12, 13, 14, 17, 30}"

definition isr_stub :: "nat \<Rightarrow> x86_cpu \<Rightarrow> x86_cpu" where
  "isr_stub num c = pushq (of_nat num) (if isr_has_error_code num then c else pushq 0 c)"

definition push_gprs :: "x86_cpu \<Rightarrow> x86_cpu" where
  "push_gprs = fold push_reg [RAX, RBX, RCX, RDX, RSI, RDI, RBP, R8, R9, R10, R11, R12, R13, R14, R15]"

definition isr_common_stub :: "x86_cpu \<Rightarrow> x86_cpu" where
  "isr_common_stub c =
     (let c = (if load64 (x_mem c) (x_reg c RSP + 24) = 0x3b then swapgs c else c);
          c = push_gprs c
      in movq RDI (x_reg c RSP) c)"

definition x86_64_trap_return :: "x86_cpu \<Rightarrow> x86_cpu" where
  "x86_64_trap_return c =
     (let c = fold pop_reg [R15, R14, R13, R12, R11, R10, R9, R8, RBP, RDI, RSI, RDX, RCX, RBX, RAX] c;
          c = movq RSP (x_reg c RSP + 16) c;
          c = (if load64 (x_mem c) (x_reg c RSP + 8) = 0x3b then swapgs c else c)
      in iretq c)"

definition x86_64_arch_trap_return :: "x86_cpu \<Rightarrow> x86_cpu" where
  "x86_64_arch_trap_return c = x86_64_trap_return (movq RSP (x_reg c RDI) c)"

definition syscall_entry :: "x86_cpu \<Rightarrow> x86_cpu" where
  "syscall_entry c =
     (let c = swapgs c;
          c = c\<lparr>x_mem := store64 (x_mem c) (x_gs c + 8) (x_reg c RSP)\<rparr>;
          c = movq RSP (load64 (x_mem c) (x_gs c)) c;
          c = pushq 0x33 c;
          c = pushq (load64 (x_mem c) (x_gs c + 8)) c;
          c = push_reg R11 c;
          c = pushq 0x3b c;
          c = push_reg RCX c;
          c = pushq 0 c;
          c = pushq 0x80 c;
          c = push_gprs c
      in movq RDI (x_reg c RSP) c)"

section \<open>Pushing and popping\<close>

lemma movq_simps [simp]:
  "x_reg (movq r v c) = (x_reg c)(r := v)" "x_mem (movq r v c) = x_mem c" "x_rip (movq r v c) = x_rip c"
  "x_cs (movq r v c) = x_cs c" "x_rflags (movq r v c) = x_rflags c" "x_ss (movq r v c) = x_ss c"
  "x_gs (movq r v c) = x_gs c" "x_kernel_gs (movq r v c) = x_kernel_gs c"
  by (simp_all add: movq_def)

lemma pushq_state: "pushq v c = c\<lparr>x_reg := (x_reg c)(RSP := x_reg c RSP - 8), x_mem := store64 (x_mem c) (x_reg c RSP - 8) v\<rparr>"
  by (simp add: pushq_def movq_def Let_def)

lemma fold_pushq:
  "fold pushq vs c = (case push_stack vs (x_reg c RSP, x_mem c) of (sp, m) \<Rightarrow> c\<lparr>x_reg := (x_reg c)(RSP := sp), x_mem := m\<rparr>)"
  by (induction vs arbitrary: c) (simp_all add: pushq_state split: prod.split)

lemma fold_push_reg: "RSP \<notin> set rs \<Longrightarrow> fold push_reg rs c = fold pushq (map (x_reg c) rs) c"
proof (induction rs arbitrary: c)
  case (Cons r rs)
  then have "map (x_reg (push_reg r c)) rs = map (x_reg c) rs" by (auto simp: push_reg_def pushq_state)
  then show ?case using Cons.IH [of "push_reg r c"] Cons.prems by (simp add: push_reg_def [of r c] del: map_eq_conv)
qed simp

lemma fold_pop_reg:
  assumes "RSP \<notin> set rs" "words_at (x_mem c) (x_reg c RSP) (map f rs)"
  shows "fold pop_reg rs c =
    c\<lparr>x_reg := (\<lambda>r. if r \<in> set rs then f r else if r = RSP then x_reg c RSP + 8 * of_nat (length rs) else x_reg c r)\<rparr>"
  using assms
proof (induction rs arbitrary: c)
  case Nil
  have "(\<lambda>r. if r = RSP then x_reg c RSP + 8 * of_nat (length ([] :: x86_reg list)) else x_reg c r) = x_reg c" by auto
  then show ?case by simp
next
  case (Cons r rs)
  let ?c = "c\<lparr>x_reg := (x_reg c)(RSP := x_reg c RSP + 8, r := f r)\<rparr>"
  have "pop_reg r c = ?c" using Cons.prems by (simp add: pop_reg_def movq_def Let_def)
  moreover have "fold pop_reg rs ?c = ?c\<lparr>x_reg := (\<lambda>q. if q \<in> set rs then f q
      else if q = RSP then x_reg ?c RSP + 8 * of_nat (length rs) else x_reg ?c q)\<rparr>"
    using Cons.prems by (intro Cons.IH) auto
  ultimately show ?case using Cons.prems(1) by (auto simp: fun_eq_iff algebra_simps)
qed

lemma pop_reg_mem [simp]: "x_mem (pop_reg r c) = x_mem c" "x_mem (fold pop_reg rs c) = x_mem c"
proof -
  show one: "x_mem (pop_reg r c) = x_mem c" for r c by (simp add: pop_reg_def Let_def)
  show "x_mem (fold pop_reg rs c) = x_mem c" by (induction rs arbitrary: c) (simp_all add: one)
qed

section \<open>A switched task resumes\<close>

text \<open>The first half of the switch, up to the change of stacks: the frame is what \<^verbatim>\<open>struct switch_frame\<close> says, below
  the return address.\<close>

definition x86_switch_save :: "x86_cpu \<Rightarrow> x86_cpu" where
  "x86_switch_save c =
     (let c = fold push_reg [RBX, RBP, R12, R13, R14, R15] c
      in c\<lparr>x_mem := store64 (x_mem c) (x_reg c RDI) (x_reg c RSP)\<rparr>)"

lemma switch_to_split:
  "x86_64_switch_to c = x86_ret (fold pop_reg [R15, R14, R13, R12, RBP, RBX]
     (movq RSP (x_reg (x86_switch_save c) RSI) (x86_switch_save c)))"
  by (simp only: x86_64_switch_to_def x86_switch_save_def Let_def)

lemma switch_to_mem: "x_mem (x86_64_switch_to c) = x_mem (x86_switch_save c)"
  by (simp add: switch_to_split x86_ret_def del: fold.simps)

lemma x86_switch_save_state:
  fixes c :: x86_cpu
  defines "f \<equiv> x_reg c RSP - 48"
  obtains m where "x86_switch_save c = c\<lparr>x_reg := (x_reg c)(RSP := f), x_mem := store64 m (x_reg c RDI) f\<rparr>"
    "words_at m f [x_reg c R15, x_reg c R14, x_reg c R13, x_reg c R12, x_reg c RBP, x_reg c RBX]"
    "\<And>x. x \<notin> extent f 48 \<Longrightarrow> m x = x_mem c x"
proof -
  obtain sp m where p: "push_stack (map (x_reg c) [RBX, RBP, R12, R13, R14, R15]) (x_reg c RSP, x_mem c) = (sp, m)" by fastforce
  have l: "length (map (x_reg c) [RBX, RBP, R12, R13, R14, R15]) = 6" by simp
  have n: "8 * 6 < (2 :: nat) ^ 64" "8 * 6 = (48 :: nat)" by simp_all
  note pw = push_stack_words [OF p, unfolded l, OF n(1), unfolded n(2)]
  have sp: "sp = f" using conjunct1 [OF pw] by (simp add: f_def)
  have w: "words_at m f (rev (map (x_reg c) [RBX, RBP, R12, R13, R14, R15]))" "\<And>x. x \<notin> extent f 48 \<Longrightarrow> m x = x_mem c x"
    using pw unfolding sp by blast+
  have "x86_switch_save c = c\<lparr>x_reg := (x_reg c)(RSP := f), x_mem := store64 m (x_reg c RDI) f\<rparr>"
    unfolding x86_switch_save_def Let_def by (subst (1 2 3 4) fold_push_reg) (simp_all only: fold_pushq p sp, simp_all)
  moreover have "words_at m f [x_reg c R15, x_reg c R14, x_reg c R13, x_reg c R12, x_reg c RBP, x_reg c RBX]"
    using w(1) by (simp only: list.map rev.simps append.simps)
  ultimately show thesis using that w(2) by blast
qed

lemma x86_parked_frame:
  fixes c :: x86_cpu
  defines "f \<equiv> x_reg c RSP - 48"
  assumes slot: "extent (x_reg c RDI) 8 \<inter> extent f 56 = {}"
  shows "words_at (x_mem (x86_64_switch_to c)) f
      [x_reg c R15, x_reg c R14, x_reg c R13, x_reg c R12, x_reg c RBP, x_reg c RBX, load64 (x_mem c) (x_reg c RSP)]"
    and "load64 (x_mem (x86_64_switch_to c)) (x_reg c RDI) = f"
proof -
  obtain m where m: "x86_switch_save c = c\<lparr>x_reg := (x_reg c)(RSP := f), x_mem := store64 m (x_reg c RDI) f\<rparr>"
    "words_at m f [x_reg c R15, x_reg c R14, x_reg c R13, x_reg c R12, x_reg c RBP, x_reg c RBX]"
    "\<And>x. x \<notin> extent f 48 \<Longrightarrow> m x = x_mem c x"
    using x86_switch_save_state [of c] unfolding f_def by blast
  show "load64 (x_mem (x86_64_switch_to c)) (x_reg c RDI) = f" by (simp add: switch_to_mem m(1))
  have top: "f + of_nat 48 = x_reg c RSP" by (simp add: f_def)
  have "extent f 48 \<inter> extent (x_reg c RSP) 8 = {}" using extent_disj [of 48 8 f] top by simp
  then have "load64 m (x_reg c RSP) = load64 (x_mem c) (x_reg c RSP)" using m(3) by (intro load64_agree) auto
  then have "words_at m f ([x_reg c R15, x_reg c R14, x_reg c R13, x_reg c R12, x_reg c RBP, x_reg c RBX] @ [load64 (x_mem c) (x_reg c RSP)])"
    using m(2) top unfolding words_at_append by simp
  then have w: "words_at m f [x_reg c R15, x_reg c R14, x_reg c R13, x_reg c R12, x_reg c RBP, x_reg c RBX, load64 (x_mem c) (x_reg c RSP)]"
    by (simp only: append.simps)
  have "x_mem (x86_64_switch_to c) x = m x" if "x \<in> extent f 56" for x
  proof -
    have "x \<notin> extent (x_reg c RDI) 8" using that slot by blast
    then show ?thesis by (simp add: switch_to_mem m(1) store64_out)
  qed
  then show "words_at (x_mem (x86_64_switch_to c)) f
      [x_reg c R15, x_reg c R14, x_reg c R13, x_reg c R12, x_reg c RBP, x_reg c RBX, load64 (x_mem c) (x_reg c RSP)]"
    by (intro words_at_agree [OF w]) simp_all
qed

text \<open>What the second half loads.\<close>

lemma x86_switch_load:
  assumes w: "words_at (x_mem (x86_switch_save c)) (x_reg c RSI) [r15, r14, r13, r12, rbp, rbx, ret]"
  defines "c' \<equiv> x86_64_switch_to c"
  shows "x_rip c' = ret" "x_reg c' RSP = x_reg c RSI + 56" "map (x_reg c') [R15, R14, R13, R12, RBP, RBX] = [r15, r14, r13, r12, rbp, rbx]"
proof -
  let ?s = "movq RSP (x_reg (x86_switch_save c) RSI) (x86_switch_save c)"
  obtain m where "x86_switch_save c = c\<lparr>x_reg := (x_reg c)(RSP := x_reg c RSP - 48), x_mem := store64 m (x_reg c RDI) (x_reg c RSP - 48)\<rparr>"
    using x86_switch_save_state [of c] by blast
  then have rsi: "x_reg (x86_switch_save c) RSI = x_reg c RSI" by simp
  define f where "f r = (case r of R15 \<Rightarrow> r15 | R14 \<Rightarrow> r14 | R13 \<Rightarrow> r13 | R12 \<Rightarrow> r12 | RBP \<Rightarrow> rbp | _ \<Rightarrow> rbx)" for r
  have "words_at (x_mem ?s) (x_reg ?s RSP) (map f [R15, R14, R13, R12, RBP, RBX])"
    using w rsi by (simp add: f_def)
  from fold_pop_reg [OF _ this] have p: "fold pop_reg [R15, R14, R13, R12, RBP, RBX] ?s =
      ?s\<lparr>x_reg := (\<lambda>r. if r \<in> set [R15, R14, R13, R12, RBP, RBX] then f r
        else if r = RSP then x_reg ?s RSP + 8 * of_nat (length [R15, R14, R13, R12, RBP, RBX]) else x_reg ?s r)\<rparr>" by simp
  have "x_mem (fold pop_reg [R15, R14, R13, R12, RBP, RBX] ?s) = x_mem (x86_switch_save c)" by (simp del: fold.simps)
  moreover have sp: "x_reg (fold pop_reg [R15, R14, R13, R12, RBP, RBX] ?s) RSP = x_reg c RSI + 48" unfolding p by (simp add: rsi)
  ultimately have "x_rip c' = load64 (x_mem (x86_switch_save c)) (x_reg c RSI + 48)"
    unfolding c'_def switch_to_split by (simp add: x86_ret_def del: fold.simps)
  then show "x_rip c' = ret" using w by (simp add: add.commute)
  show "x_reg c' RSP = x_reg c RSI + 56" unfolding c'_def switch_to_split by (simp add: x86_ret_def sp del: fold.simps)
  show "map (x_reg c') [R15, R14, R13, R12, RBP, RBX] = [r15, r14, r13, r12, rbp, rbx]"
    unfolding c'_def switch_to_split p by (simp add: x86_ret_def f_def)
qed

text \<open>C9. A task that switches away on x86-64 comes back as if its call of \<^verbatim>\<open>arch_task_switch_to\<close> had returned. Let
  \<open>c\<close> be the processor at the call; when later any switch, from any task, is given the bookmark that was parked in
  \<open>*old\<close>, and the 56 bytes of the frame were not written in between and are not written by that switch itself,
  then execution goes on at the return address of the call, with the stack pointer the call had and all six
  registers the caller may rely on.\<close>

theorem x86_64_switch_resumes:
  fixes c c' :: x86_cpu
  defines "f \<equiv> x_reg c RSP - 48"
  assumes "extent (x_reg c RDI) 8 \<inter> extent f 56 = {}"
    "x_reg c' RSI = load64 (x_mem (x86_64_switch_to c)) (x_reg c RDI)"
    "\<And>x. x \<in> extent f 56 \<Longrightarrow> x_mem c' x = x_mem (x86_64_switch_to c) x"
    "extent (x_reg c' RSP - 48) 48 \<inter> extent f 56 = {}" "extent (x_reg c' RDI) 8 \<inter> extent f 56 = {}"
  shows "x_rip (x86_64_switch_to c') = load64 (x_mem c) (x_reg c RSP) \<and> x_reg (x86_64_switch_to c') RSP = x_reg c RSP + 8 \<and>
    map (x_reg (x86_64_switch_to c')) [RBX, RBP, R12, R13, R14, R15] = map (x_reg c) [RBX, RBP, R12, R13, R14, R15]"
proof -
  note fr = x86_parked_frame [of c, folded f_def, OF assms(2)]
  have rsi: "x_reg c' RSI = f" using assms(3) fr(2) by simp
  obtain m where m: "x86_switch_save c' = c'\<lparr>x_reg := (x_reg c')(RSP := x_reg c' RSP - 48), x_mem := store64 m (x_reg c' RDI) (x_reg c' RSP - 48)\<rparr>"
    "\<And>x. x \<notin> extent (x_reg c' RSP - 48) 48 \<Longrightarrow> m x = x_mem c' x"
    using x86_switch_save_state [of c'] by blast
  have "x_mem (x86_switch_save c') x = x_mem (x86_64_switch_to c) x" if x: "x \<in> extent f 56" for x
  proof -
    have "x \<notin> extent (x_reg c' RDI) 8" "x \<notin> extent (x_reg c' RSP - 48) 48" using x assms(5,6) by blast+
    then show ?thesis using m(2) assms(4) [OF x] by (simp add: m(1) store64_out)
  qed
  then have "words_at (x_mem (x86_switch_save c')) (x_reg c' RSI)
      [x_reg c R15, x_reg c R14, x_reg c R13, x_reg c R12, x_reg c RBP, x_reg c RBX, load64 (x_mem c) (x_reg c RSP)]"
    unfolding rsi by (intro words_at_agree [OF fr(1)]) simp_all
  from x86_switch_load [OF this] show ?thesis by (simp add: rsi f_def)
qed

definition switch_out :: x86_cpu where
  "switch_out = \<lparr>x_reg = (\<lambda>_. 7)(RSP := 0x1000, RDI := 0x100, RSI := 0x2000), x_rip = 0, x_cs = 8, x_rflags = 2, x_ss = 0,
     x_gs = 0, x_kernel_gs = 0, x_mem = (\<lambda>_. 0)\<rparr>"

definition switch_back :: x86_cpu where
  "switch_back = (x86_64_switch_to switch_out)\<lparr>x_reg := (\<lambda>_. 9)(RSP := 0x3000, RDI := 0x108, RSI := 0xFD0)\<rparr>"

theorem x86_64_switch_resumes_witness:
  "x_rip (x86_64_switch_to switch_back) = 0 \<and> x_reg (x86_64_switch_to switch_back) RSP = 0x1008 \<and>
   map (x_reg (x86_64_switch_to switch_back)) [RBX, RBP, R12, R13, R14, R15] = [7, 7, 7, 7, 7, 7]"
proof -
  have d: "extent (x_reg switch_out RDI) 8 \<inter> extent (x_reg switch_out RSP - 48) 56 = {}"
    "extent (x_reg switch_back RSP - 48) 48 \<inter> extent (x_reg switch_out RSP - 48) 56 = {}"
    "extent (x_reg switch_back RDI) 8 \<inter> extent (x_reg switch_out RSP - 48) 56 = {}"
    by (rule apart_extent; simp add: apart_def switch_out_def switch_back_def)+
  have "x_reg switch_back RSI = load64 (x_mem (x86_64_switch_to switch_out)) (x_reg switch_out RDI)"
    using x86_parked_frame(2) [OF d(1)] by (simp add: switch_back_def switch_out_def)
  moreover have "x_mem switch_back x = x_mem (x86_64_switch_to switch_out) x" for x by (simp add: switch_back_def)
  moreover have "load64 (x_mem switch_out) (x_reg switch_out RSP) = 0" by (rule load64_zero) (simp add: switch_out_def)
  ultimately show ?thesis using x86_64_switch_resumes [OF d(1) _ _ d(2,3)] by (simp add: switch_out_def)
qed

end
