(* ===== verification/Devices.thy ===== *)
theory Devices
  imports Elf
begin

text \<open>
  The device drivers of both architectures. On x86-64: the interrupt controllers \<^verbatim>\<open>pic.c\<close> and \<^verbatim>\<open>lapic.c\<close>, the
  interval timer of \<^verbatim>\<open>arch.c\<close>, the serial port \<^verbatim>\<open>serial.c\<close> and the descriptor tables of \<^verbatim>\<open>idt.c\<close>. On AArch64: \<^verbatim>\<open>gic.c\<close>,
  \<^verbatim>\<open>timer.c\<close> and \<^verbatim>\<open>serial.c\<close>. A device is what a read of its registers returns and the log of the writes to it;
  what the hardware makes of a write is not modelled.
\<close>

section \<open>Ports\<close>

record ports =
  port_reg :: "u16 \<Rightarrow> u8"
  port_log :: "(u16 \<times> u8) list"

definition inb :: "u16 \<Rightarrow> ports \<Rightarrow> u8" where
  "inb p io = port_reg io p"

definition outb :: "u16 \<Rightarrow> u8 \<Rightarrow> ports \<Rightarrow> ports" where
  "outb p v io = io\<lparr>port_reg := (port_reg io)(p := v), port_log := port_log io @ [(p, v)]\<rparr>"

section \<open>The interrupt controller pair\<close>

definition PIC_MASTER_CMD :: u16 where "PIC_MASTER_CMD = 0x20"
definition PIC_MASTER_DATA :: u16 where "PIC_MASTER_DATA = 0x21"
definition PIC_SLAVE_CMD :: u16 where "PIC_SLAVE_CMD = 0xA0"
definition PIC_SLAVE_DATA :: u16 where "PIC_SLAVE_DATA = 0xA1"
definition PIC_ICW1_INIT :: u8 where "PIC_ICW1_INIT = 0x10"
definition PIC_ICW1_ICW4 :: u8 where "PIC_ICW1_ICW4 = 0x01"
definition PIC_ICW4_8086 :: u8 where "PIC_ICW4_8086 = 0x01"
definition PIC_EOI :: u8 where "PIC_EOI = 0x20"
definition PIC_VECTOR_BASE :: u8 where "PIC_VECTOR_BASE = 0x20"
definition PIC_IRQS_PER_CHIP :: u8 where "PIC_IRQS_PER_CHIP = 8"
definition PIC_IRQ_COUNT :: u8 where "PIC_IRQ_COUNT = 16"
definition PIC_CASCADE_IRQ :: u8 where "PIC_CASCADE_IRQ = 2"
definition PIC_MASK_BLOCK_ALL :: u8 where "PIC_MASK_BLOCK_ALL = 0xFF"

definition pic_init :: "ports \<Rightarrow> ports" where
  "pic_init io = fold (\<lambda>(p, v). outb p v)
     [(PIC_MASTER_CMD, PIC_ICW1_INIT OR PIC_ICW1_ICW4),
      (PIC_SLAVE_CMD, PIC_ICW1_INIT OR PIC_ICW1_ICW4),
      (PIC_MASTER_DATA, PIC_VECTOR_BASE),
      (PIC_SLAVE_DATA, PIC_VECTOR_BASE + PIC_IRQS_PER_CHIP),
      (PIC_MASTER_DATA, push_bit (unat PIC_CASCADE_IRQ) 1),
      (PIC_SLAVE_DATA, PIC_CASCADE_IRQ),
      (PIC_MASTER_DATA, PIC_ICW4_8086),
      (PIC_SLAVE_DATA, PIC_ICW4_8086),
      (PIC_MASTER_DATA, PIC_MASK_BLOCK_ALL),
      (PIC_SLAVE_DATA, PIC_MASK_BLOCK_ALL)] io"

definition pic_write_mask_bit :: "u16 \<Rightarrow> u8 \<Rightarrow> bool \<Rightarrow> ports \<Rightarrow> ports" where
  "pic_write_mask_bit data_port n enabled io =
     (let line = push_bit (unat n) 1; mask = inb data_port io
      in outb data_port (if enabled then mask AND NOT line else mask OR line) io)"

definition pic_set_irq_mask :: "u8 \<Rightarrow> bool \<Rightarrow> ports \<Rightarrow> ports" where
  "pic_set_irq_mask irq enabled io =
     (if irq \<ge> PIC_IRQ_COUNT then io
      else if irq < PIC_IRQS_PER_CHIP then pic_write_mask_bit PIC_MASTER_DATA irq enabled io
      else let io = pic_write_mask_bit PIC_SLAVE_DATA (irq - PIC_IRQS_PER_CHIP) enabled io;
               any_slave_enabled = (inb PIC_SLAVE_DATA io \<noteq> PIC_MASK_BLOCK_ALL)
           in pic_write_mask_bit PIC_MASTER_DATA PIC_CASCADE_IRQ any_slave_enabled io)"

text \<open>The end of an interrupt, at the end of \<^verbatim>\<open>x86_64_dispatch\<close>.\<close>

definition pic_end :: "u64 \<Rightarrow> ports \<Rightarrow> ports" where
  "pic_end irq_no io =
     outb PIC_MASTER_CMD PIC_EOI
       (if irq_no \<ge> ucast PIC_IRQS_PER_CHIP then outb PIC_SLAVE_CMD PIC_EOI io else io)"

text \<open>A mask port reads back what was written last, so one line is changed and the others are kept; the line of
  the cascade follows the slave.\<close>

lemma pic_set_irq_mask_bits:
  assumes "unat irq < 8"
  shows "bit (inb PIC_MASTER_DATA (pic_set_irq_mask irq enabled io)) n \<longleftrightarrow>
    (if n = unat irq then \<not> enabled else bit (inb PIC_MASTER_DATA io) n)"
proof -
  have i: "irq < PIC_IRQS_PER_CHIP" "\<not> irq \<ge> PIC_IRQ_COUNT"
    using assms by (simp_all add: word_less_nat_alt word_le_nat_alt PIC_IRQS_PER_CHIP_def PIC_IRQ_COUNT_def)
  show ?thesis
  proof (cases "n < 8")
    case True
    then show ?thesis using i assms
      by (auto simp: pic_set_irq_mask_def pic_write_mask_bit_def inb_def outb_def Let_def bit_simps)
  next
    case False
    then have "\<not> bit w n" for w :: u8 using bit_imp_le_length [of w n] by auto
    then show ?thesis using False assms by simp
  qed
qed

section \<open>The local APIC\<close>

definition LAPIC_BASE_ENABLE :: u64 where "LAPIC_BASE_ENABLE = push_bit 11 1"
definition LAPIC_BASE_ADDR_MASK :: u64 where "LAPIC_BASE_ADDR_MASK = 0xFFFFFFFFFFFFF000"
definition LAPIC_REG_SPIV :: u64 where "LAPIC_REG_SPIV = 0x0F0"
definition LAPIC_REG_LVT0 :: u64 where "LAPIC_REG_LVT0 = 0x350"
definition LAPIC_SPIV_ENABLE :: u32 where "LAPIC_SPIV_ENABLE = push_bit 8 1"
definition LAPIC_LVT_VIRTUAL_WIRE :: u32 where "LAPIC_LVT_VIRTUAL_WIRE = push_bit 8 7"

definition store32 :: "mem \<Rightarrow> u64 \<Rightarrow> u32 \<Rightarrow> mem" where
  "store32 m a v = store_bytes m a (le_bytes 4 (ucast v))"

definition lapic_read :: "mem \<Rightarrow> u64 \<Rightarrow> u64 \<Rightarrow> u32" where
  "lapic_read m lapic_regs reg = load32 m (lapic_regs + 4 * (reg div 4))"

definition lapic_write :: "u64 \<Rightarrow> u64 \<Rightarrow> u32 \<Rightarrow> mem \<Rightarrow> mem" where
  "lapic_write lapic_regs reg v m = store32 m (lapic_regs + 4 * (reg div 4)) v"

text \<open>\<open>apic_base\<close> is the value of the model-specific register.\<close>

definition lapic_init :: "u64 \<Rightarrow> 'a vmm_state_scheme \<Rightarrow> 'a vmm_state_scheme option" where
  "lapic_init apic_base s =
     (if apic_base AND LAPIC_BASE_ENABLE = 0 then None
      else do {
        let phys_addr = apic_base AND LAPIC_BASE_ADDR_MASK;
        let virt_addr = hhdm_offset s + phys_addr;
        (r, s) \<leftarrow> vmm_map_page X86_64 (vmm_kernel_context s) virt_addr phys_addr (VMM_WRITABLE OR VMM_CACHE_DISABLE) s;
        if r \<noteq> 0 then None
        else if lapic_read (kmem s) virt_addr LAPIC_REG_SPIV AND LAPIC_SPIV_ENABLE = 0 then None
        else Some (s\<lparr>kmem := lapic_write virt_addr LAPIC_REG_LVT0 LAPIC_LVT_VIRTUAL_WIRE (kmem s)\<rparr>)
      })"

section \<open>The interval timer and the serial port\<close>

definition PIT_CMD_PORT :: u16 where "PIT_CMD_PORT = 0x43"
definition PIT_DATA_PORT :: u16 where "PIT_DATA_PORT = 0x40"
definition PIT_INPUT_HZ :: u32 where "PIT_INPUT_HZ = 1193182"
definition PIT_MAX_DIVISOR :: u32 where "PIT_MAX_DIVISOR = 0xFFFF"

definition x86_64_timer_init :: "u32 \<Rightarrow> u64 \<Rightarrow> ports \<Rightarrow> 'a vmm_state_scheme \<Rightarrow> (ports \<times> 'a vmm_state_scheme) option" where
  "x86_64_timer_init hz apic_base io s =
     (if hz = 0 then None
      else let divisor = PIT_INPUT_HZ div hz
           in if divisor = 0 \<or> divisor > PIT_MAX_DIVISOR then None
              else let io = outb PIT_CMD_PORT 0x36 io;
                       io = outb PIT_DATA_PORT (ucast (divisor AND 0xFF)) io;
                       io = outb PIT_DATA_PORT (ucast (drop_bit 8 divisor)) io;
                       io = pic_set_irq_mask 0 True io
                   in map_option (\<lambda>s. (io, s)) (lapic_init apic_base s))"

definition COM1 :: u16 where "COM1 = 0x3F8"

definition x86_64_serial_init_put :: "ports \<Rightarrow> ports" where
  "x86_64_serial_init_put io = fold (\<lambda>(p, v). outb p v)
     [(COM1 + 3, 0x80), (COM1 + 0, 0x03), (COM1 + 1, 0x00), (COM1 + 3, 0x03), (COM1 + 2, 0xC7), (COM1 + 4, 0x0B)] io"

definition x86_64_serial_init_get :: "ports \<Rightarrow> ports" where
  "x86_64_serial_init_get io = pic_set_irq_mask 4 True (outb (COM1 + 1) (inb (COM1 + 1) io OR 0x01) io)"

definition x86_64_serial_rx_ready :: "ports \<Rightarrow> bool" where
  "x86_64_serial_rx_ready io \<longleftrightarrow> inb (COM1 + 5) io AND 0x01 \<noteq> 0"

definition x86_64_serial_getc :: "ports \<Rightarrow> u8" where
  "x86_64_serial_getc io = inb COM1 io"

section \<open>Descriptor tables\<close>

record gdt_entry =
  limit_low :: u16
  base_low :: u16
  base_middle :: u8
  access :: u8
  granularity :: u8
  base_high :: u8

record tss_gdt_entry =
  tss_low :: gdt_entry
  base_upper :: u32
  tss_reserved :: u32

record gdt =
  null_entry :: gdt_entry
  kernel_code :: gdt_entry
  kernel_data :: gdt_entry
  tss_entry :: tss_gdt_entry
  user_reserved :: gdt_entry
  user_data :: gdt_entry
  user_code :: gdt_entry

definition mk_gdt_entry :: "u16 \<Rightarrow> u16 \<Rightarrow> u8 \<Rightarrow> u8 \<Rightarrow> u8 \<Rightarrow> u8 \<Rightarrow> gdt_entry" where
  "mk_gdt_entry l b bm a g bh =
     \<lparr>limit_low = l, base_low = b, base_middle = bm, access = a, granularity = g, base_high = bh\<rparr>"

record table_ptr =
  tab_limit :: u16
  tab_base :: u64

text \<open>The reserved words of the task state segment are never read.\<close>

record tss64 =
  tss_rsp0 :: u64
  tss_rsp1 :: u64
  tss_rsp2 :: u64
  tss_ist :: "u64 list"
  iomap_base :: u16

definition idt_tss_set_rsp0 :: "u64 \<Rightarrow> tss64 \<Rightarrow> tss64" where
  "idt_tss_set_rsp0 rsp0 tss = tss\<lparr>tss_rsp0 := rsp0\<rparr>"

text \<open>\<^verbatim>\<open>sizeof(struct tss64)\<close> is 104 and \<^verbatim>\<open>sizeof(gdt)\<close> is 64; the arguments are the addresses of the two and of the
  stack of the double fault.\<close>

definition tss_init :: "u64 \<Rightarrow> u64 \<Rightarrow> u64 \<Rightarrow> gdt \<times> table_ptr \<times> tss64" where
  "tss_init gdt_base tss_base exception_stack =
     (let tss_limit = 104 - 1 :: u32
      in (\<lparr>null_entry = mk_gdt_entry 0 0 0 0 0 0,
           kernel_code = mk_gdt_entry 0xFFFF 0 0 0x9A 0xAF 0,
           kernel_data = mk_gdt_entry 0xFFFF 0 0 0x92 0xCF 0,
           tss_entry = \<lparr>tss_low = mk_gdt_entry (ucast (tss_limit AND 0xFFFF)) (ucast (tss_base AND 0xFFFF))
               (ucast (drop_bit 16 tss_base AND 0xFF)) 0x89 (ucast (drop_bit 16 tss_limit AND 0x0F))
               (ucast (drop_bit 24 tss_base AND 0xFF)),
             base_upper = ucast (drop_bit 32 tss_base), tss_reserved = 0\<rparr>,
           user_reserved = mk_gdt_entry 0 0 0 0 0 0,
           user_data = mk_gdt_entry 0xFFFF 0 0 0xF2 0xCF 0,
           user_code = mk_gdt_entry 0xFFFF 0 0 0xFA 0xAF 0\<rparr>,
          \<lparr>tab_limit = 64 - 1, tab_base = gdt_base\<rparr>,
          \<lparr>tss_rsp0 = 0, tss_rsp1 = 0, tss_rsp2 = 0, tss_ist = (replicate 7 0)[0 := exception_stack + 16384],
           iomap_base = 0\<rparr>))"

text \<open>The processor puts the base of the segment together again.\<close>

lemma tss_base_bits:
  fixes b :: u64
  shows "ucast (ucast (take_bit 16 b) :: u16) OR push_bit 16 (ucast (ucast (take_bit 8 (drop_bit 16 b)) :: u8)) OR
    push_bit 24 (ucast (ucast (take_bit 8 (drop_bit 24 b)) :: u8)) OR push_bit 32 (ucast (ucast (drop_bit 32 b) :: u32)) = b"
proof (rule bit_word_eqI)
  fix n :: nat assume "n < LENGTH(64)"
  then have "n < 16 \<or> n = 16 + (n - 16) \<and> n - 16 < 8 \<or> n = 24 + (n - 24) \<and> n - 24 < 8 \<or> n = 32 + (n - 32) \<and> n - 32 < 32"
    by simp linarith
  then consider "n < 16" | k where "n = 16 + k" "k < 8" | k where "n = 24 + k" "k < 8" | k where "n = 32 + k" "k < 32" by blast
  then show "bit (ucast (ucast (take_bit 16 b) :: u16) OR push_bit 16 (ucast (ucast (take_bit 8 (drop_bit 16 b)) :: u8)) OR
    push_bit 24 (ucast (ucast (take_bit 8 (drop_bit 24 b)) :: u8)) OR push_bit 32 (ucast (ucast (drop_bit 32 b) :: u32)) :: u64) n = bit b n"
    by cases (auto simp: bit_simps)
qed

lemma tss_base_split:
  fixes gdt_base tss_base stack :: u64
  defines "e \<equiv> tss_entry (fst (tss_init gdt_base tss_base stack))"
  shows "ucast (base_low (tss_low e)) OR push_bit 16 (ucast (base_middle (tss_low e))) OR
    push_bit 24 (ucast (base_high (tss_low e))) OR push_bit 32 (ucast (base_upper e)) = tss_base"
proof -
  have m: "x AND 0xFFFF = take_bit 16 x" "x AND 0xFF = take_bit 8 x" for x :: u64
    by (simp_all add: take_bit_eq_mask mask_eq_exp_minus_1)
  show ?thesis using tss_base_bits [of tss_base] by (simp add: e_def tss_init_def mk_gdt_entry_def Let_def m)
qed

record idt_entry =
  offset_low :: u16
  selector :: u16
  idt_ist :: u8
  attributes :: u8
  offset_mid :: u16
  offset_high :: u32
  idt_zero :: u32

definition IDT_STUB_COUNT :: nat where "IDT_STUB_COUNT = 48"

definition idt_set_gate :: "nat \<Rightarrow> u64 \<Rightarrow> u16 \<Rightarrow> u8 \<Rightarrow> u8 \<Rightarrow> (nat \<Rightarrow> idt_entry) \<Rightarrow> (nat \<Rightarrow> idt_entry)" where
  "idt_set_gate num base sel flags ist idt = idt(num :=
     \<lparr>offset_low = ucast (base AND 0xFFFF), selector = sel, idt_ist = ist AND 0x07, attributes = flags,
      offset_mid = ucast (drop_bit 16 base AND 0xFFFF), offset_high = ucast (drop_bit 32 base AND 0xFFFFFFFF), idt_zero = 0\<rparr>)"

definition idt_init :: "u64 \<Rightarrow> (nat \<Rightarrow> u64) \<Rightarrow> (nat \<Rightarrow> idt_entry) \<Rightarrow> table_ptr \<times> (nat \<Rightarrow> idt_entry)" where
  "idt_init idt_base isr_stub_table idt =
     (\<lparr>tab_limit = 16 * 256 - 1, tab_base = idt_base\<rparr>,
      fold (\<lambda>i. idt_set_gate i (isr_stub_table i) 0x08 0x8E (if i = 8 then 1 else 0)) [0..<IDT_STUB_COUNT] idt)"

section \<open>The system-call registers of x86-64\<close>

definition MSR_IA32_APIC_BASE :: u32 where "MSR_IA32_APIC_BASE = 0x1B"
definition MSR_IA32_EFER :: u32 where "MSR_IA32_EFER = 0xC0000080"
definition MSR_IA32_STAR :: u32 where "MSR_IA32_STAR = 0xC0000081"
definition MSR_IA32_LSTAR :: u32 where "MSR_IA32_LSTAR = 0xC0000082"
definition MSR_IA32_FMASK :: u32 where "MSR_IA32_FMASK = 0xC0000084"
definition MSR_IA32_GS_BASE :: u32 where "MSR_IA32_GS_BASE = 0xC0000101"
definition MSR_IA32_KERNEL_GS_BASE :: u32 where "MSR_IA32_KERNEL_GS_BASE = 0xC0000102"
definition IA32_EFER_SCE :: u64 where "IA32_EFER_SCE = push_bit 0 1"
definition X86_64_STAR_USER_BASE :: u64 where "X86_64_STAR_USER_BASE = 0x28"

text \<open>The registers are a function; the arguments are the addresses of \<^verbatim>\<open>syscall_entry\<close> and \<^verbatim>\<open>x86_64_percpu0\<close>.\<close>

definition syscall_init :: "u64 \<Rightarrow> u64 \<Rightarrow> (u32 \<Rightarrow> u64) \<Rightarrow> (u32 \<Rightarrow> u64) option" where
  "syscall_init syscall_entry percpu0 msr =
     (if msr MSR_IA32_EFER AND IA32_EFER_SCE \<noteq> 0 then None
      else Some (msr(MSR_IA32_EFER := msr MSR_IA32_EFER OR IA32_EFER_SCE,
                     MSR_IA32_STAR := push_bit 48 X86_64_STAR_USER_BASE OR push_bit 32 X86_64_SELECTOR_KERNEL_CODE,
                     MSR_IA32_LSTAR := syscall_entry,
                     MSR_IA32_FMASK := X86_64_RFLAGS_IF,
                     MSR_IA32_GS_BASE := percpu0,
                     MSR_IA32_KERNEL_GS_BASE := 0)))"

text \<open>The processor takes the selectors of the user from the upper bits of \<^verbatim>\<open>STAR\<close>: they are those of the frames
  the kernel builds, so that a task resumed by \<^verbatim>\<open>sysret\<close> and one resumed by \<^verbatim>\<open>iretq\<close> run in the same segments.\<close>

lemma syscall_init_selectors:
  assumes "syscall_init e g msr = Some msr'"
  shows "drop_bit 48 (msr' MSR_IA32_STAR) + 16 OR 3 = X86_64_SELECTOR_USER_CODE"
    and "drop_bit 48 (msr' MSR_IA32_STAR) + 8 OR 3 = X86_64_SELECTOR_USER_DATA"
    and "take_bit 16 (drop_bit 32 (msr' MSR_IA32_STAR)) = X86_64_SELECTOR_KERNEL_CODE"
proof -
  have "msr' MSR_IA32_STAR = push_bit 48 X86_64_STAR_USER_BASE OR push_bit 32 X86_64_SELECTOR_KERNEL_CODE"
    using assms by (auto simp: syscall_init_def MSR_IA32_STAR_def MSR_IA32_EFER_def MSR_IA32_LSTAR_def MSR_IA32_FMASK_def
        MSR_IA32_GS_BASE_def MSR_IA32_KERNEL_GS_BASE_def split: if_splits)
  then have star: "msr' MSR_IA32_STAR = 0x0028000800000000"
    by (simp add: X86_64_STAR_USER_BASE_def X86_64_SELECTOR_KERNEL_CODE_def)
  show "drop_bit 48 (msr' MSR_IA32_STAR) + 16 OR 3 = X86_64_SELECTOR_USER_CODE"
    "drop_bit 48 (msr' MSR_IA32_STAR) + 8 OR 3 = X86_64_SELECTOR_USER_DATA"
    "take_bit 16 (drop_bit 32 (msr' MSR_IA32_STAR)) = X86_64_SELECTOR_KERNEL_CODE"
    by (simp_all add: star X86_64_SELECTOR_USER_CODE_def X86_64_SELECTOR_USER_DATA_def X86_64_SELECTOR_KERNEL_CODE_def)
qed

section \<open>The system registers of AArch64\<close>

record sysregs =
  cpacr_el1 :: u64
  mair_el1 :: u64
  tcr_el1 :: u64
  vbar_el1 :: u64

definition aarch64_init :: "u64 \<Rightarrow> sysregs \<Rightarrow> sysregs" where
  "aarch64_init vector_table r =
     r\<lparr>cpacr_el1 := cpacr_el1 r OR push_bit 20 3,
       mair_el1 := push_bit 0 0xFF OR push_bit 8 0,
       tcr_el1 := (tcr_el1 r AND NOT (push_bit 7 1)) OR push_bit 12 3 OR push_bit 10 1 OR push_bit 8 1,
       vbar_el1 := vector_table\<rparr>"

section \<open>The interrupt controller of AArch64\<close>

text \<open>Reading the acknowledge register takes an interrupt: its value is a parameter of whoever handles it.\<close>

record mmio =
  mmio_reg :: "u64 \<Rightarrow> u32"
  mmio_log :: "(u64 \<times> u32) list"

definition mmio_write :: "u64 \<Rightarrow> u32 \<Rightarrow> mmio \<Rightarrow> mmio" where
  "mmio_write a v d = d\<lparr>mmio_log := mmio_log d @ [(a, v)]\<rparr>"

definition GIC_DIST_PHYS_BASE :: u64 where "GIC_DIST_PHYS_BASE = 0x08000000"
definition GIC_CPU_PHYS_BASE :: u64 where "GIC_CPU_PHYS_BASE = 0x08010000"
definition GICD_CTLR :: u64 where "GICD_CTLR = 0x000"
definition GICD_TYPER :: u64 where "GICD_TYPER = 0x004"
definition GICD_ISENABLER0 :: u64 where "GICD_ISENABLER0 = 0x100"
definition GICC_CTLR :: u64 where "GICC_CTLR = 0x000"
definition GICC_PMR :: u64 where "GICC_PMR = 0x004"
definition GICC_IAR :: u64 where "GICC_IAR = 0x00C"
definition GICC_EOIR :: u64 where "GICC_EOIR = 0x010"
definition GICD_CTLR_ENABLE :: u32 where "GICD_CTLR_ENABLE = push_bit 0 1"
definition GICC_CTLR_ENABLE :: u32 where "GICC_CTLR_ENABLE = push_bit 0 1"
definition GICC_PMR_ALLOW_ALL :: u32 where "GICC_PMR_ALLOW_ALL = 0xF0"
definition GIC_INTID_VIRT_TIMER :: u32 where "GIC_INTID_VIRT_TIMER = 27"
definition GIC_INTID_SPURIOUS :: u32 where "GIC_INTID_SPURIOUS = 1023"
definition GIC_INTID_PL011 :: u32 where "GIC_INTID_PL011 = 33"

definition gic_reg :: "'a pmm_state_scheme \<Rightarrow> u64 \<Rightarrow> u64 \<Rightarrow> u64" where
  "gic_reg s phys_base offset = pmm_phys_to_virt s phys_base + offset"

definition gic_read :: "'a pmm_state_scheme \<Rightarrow> u64 \<Rightarrow> u64 \<Rightarrow> mmio \<Rightarrow> u32" where
  "gic_read s phys_base offset d = mmio_reg d (gic_reg s phys_base offset)"

definition gic_write :: "'a pmm_state_scheme \<Rightarrow> u64 \<Rightarrow> u64 \<Rightarrow> u32 \<Rightarrow> mmio \<Rightarrow> mmio" where
  "gic_write s phys_base offset v d = mmio_write (gic_reg s phys_base offset) v d"

definition gic_enable_irq :: "'a pmm_state_scheme \<Rightarrow> u32 \<Rightarrow> mmio \<Rightarrow> mmio" where
  "gic_enable_irq s intid d =
     (let reg_offset = GICD_ISENABLER0 + ucast (intid div 32) * 4
      in gic_write s GIC_DIST_PHYS_BASE reg_offset (push_bit (unat (intid mod 32)) 1) d)"

text \<open>The number of lines is only printed.\<close>

definition gic_init :: "'a pmm_state_scheme \<Rightarrow> mmio \<Rightarrow> mmio" where
  "gic_init s d =
     (let d = gic_write s GIC_CPU_PHYS_BASE GICC_PMR GICC_PMR_ALLOW_ALL d;
          d = gic_enable_irq s GIC_INTID_VIRT_TIMER d;
          d = gic_write s GIC_DIST_PHYS_BASE GICD_CTLR GICD_CTLR_ENABLE d
      in gic_write s GIC_CPU_PHYS_BASE GICC_CTLR GICC_CTLR_ENABLE d)"

definition gic_acknowledge :: "'a pmm_state_scheme \<Rightarrow> mmio \<Rightarrow> u32" where
  "gic_acknowledge s d = gic_read s GIC_CPU_PHYS_BASE GICC_IAR d"

definition gic_eoi :: "'a pmm_state_scheme \<Rightarrow> u32 \<Rightarrow> mmio \<Rightarrow> mmio" where
  "gic_eoi s intid d = gic_write s GIC_CPU_PHYS_BASE GICC_EOIR intid d"

section \<open>Timer and serial port of AArch64\<close>

definition ARM64_CNTV_CTL_ENABLE :: u64 where "ARM64_CNTV_CTL_ENABLE = push_bit 0 1"

text \<open>The results are the interval and the values written to the timer and its control register.\<close>

definition arm_timer_rearm :: "u32 \<Rightarrow> u64" where
  "arm_timer_rearm arm_timer_interval = ucast arm_timer_interval"

definition arm_timer_init :: "u32 \<Rightarrow> u64 \<Rightarrow> (u32 \<times> u64 \<times> u64) option" where
  "arm_timer_init hz cntfrq =
     (if hz = 0 then None
      else let interval = cntfrq div ucast hz
           in if interval = 0 \<or> interval > 0x7FFFFFFF then None
              else let arm_timer_interval = ucast interval
                   in Some (arm_timer_interval, arm_timer_rearm arm_timer_interval, ARM64_CNTV_CTL_ENABLE))"

definition PL011_UART_BASE_PHYS :: u64 where "PL011_UART_BASE_PHYS = 0x09000000"
definition UARTDR :: u64 where "UARTDR = 0x00"
definition UARTFR :: u64 where "UARTFR = 0x18"
definition UARTIMSC :: u64 where "UARTIMSC = 0x38"
definition UARTICR :: u64 where "UARTICR = 0x44"

text \<open>\<open>hhdm\<close> is the answer of the boot loader, if any.\<close>

definition serial_reg :: "u64 option \<Rightarrow> u64 \<Rightarrow> u64" where
  "serial_reg hhdm offset = PL011_UART_BASE_PHYS + offset + (case hhdm of None \<Rightarrow> 0 | Some h \<Rightarrow> h)"

definition aarch64_serial_init_get :: "u64 option \<Rightarrow> 'a pmm_state_scheme \<Rightarrow> mmio \<Rightarrow> mmio" where
  "aarch64_serial_init_get hhdm s d =
     (let r = serial_reg hhdm UARTIMSC
      in gic_enable_irq s GIC_INTID_PL011 (mmio_write r (mmio_reg d r OR push_bit 4 1) d))"

definition aarch64_serial_putc :: "u64 option \<Rightarrow> u8 \<Rightarrow> mmio \<Rightarrow> mmio" where
  "aarch64_serial_putc hhdm c d = mmio_write (serial_reg hhdm UARTDR) (ucast c) d"

definition aarch64_serial_rx_ready :: "u64 option \<Rightarrow> mmio \<Rightarrow> bool" where
  "aarch64_serial_rx_ready hhdm d \<longleftrightarrow> mmio_reg d (serial_reg hhdm UARTFR) AND push_bit 4 1 = 0"

definition aarch64_serial_getc :: "u64 option \<Rightarrow> mmio \<Rightarrow> u8 \<times> mmio" where
  "aarch64_serial_getc hhdm d =
     (ucast (mmio_reg d (serial_reg hhdm UARTDR) AND 0xFF), mmio_write (serial_reg hhdm UARTICR) (push_bit 4 1) d)"

text \<open>The early mapping of the serial port, in the page tables the boot loader left: \<open>exe\<close> are the virtual and
  physical base of the kernel, \<open>l2\<close> is the address of the static table.\<close>

definition aarch64_serial_init_put :: "u64 option \<Rightarrow> (u64 \<times> u64) option \<Rightarrow> u64 \<Rightarrow> u64 \<Rightarrow> mem \<Rightarrow> mem" where
  "aarch64_serial_init_put hhdm exe ttbr1 l2 m =
     (case (hhdm, exe) of
        (Some h, Some (virt_base, phys_base)) \<Rightarrow>
          let l0_table = ttbr1 + h; l0_entry = load64 m l0_table
          in if l0_entry AND 1 \<noteq> 0
             then let l1_table = (l0_entry AND 0x0000fffffffff000) + h
                  in if load64 m l1_table AND 1 = 0
                     then let l2_phys = l2 - virt_base + phys_base;
                              m = store64 m l1_table (l2_phys OR 3);
                              l2_idx = drop_bit 21 PL011_UART_BASE_PHYS;
                              block_phys = PL011_UART_BASE_PHYS AND NOT 0x1FFFFF
                          in store64 m (l2 + 8 * l2_idx)
                               (block_phys OR 1 OR push_bit 2 1 OR push_bit 10 1 OR push_bit 8 3 OR push_bit 54 1)
                     else m
             else m
      | _ \<Rightarrow> m)"

end
