(* ===== verification/Trap.thy ===== *)
theory Trap
  imports Syscall Devices
begin

text \<open>
  What happens on a trap: \<^verbatim>\<open>x86_64_dispatch\<close>, \<^verbatim>\<open>x86_64_exception_handler\<close> and \<^verbatim>\<open>x86_64_syscall_handler\<close> of
  \<^verbatim>\<open>kernel/src/arch/x86_64/idt.c\<close>, and \<^verbatim>\<open>aarch64_dispatch\<close> and \<^verbatim>\<open>aarch64_exception_handler\<close> of
  \<^verbatim>\<open>kernel/src/arch/aarch64/exceptions.c\<close>, on the frame the entry code saved. The fault address register, the
  bytes waiting at the serial port and the number of an acknowledged interrupt are parameters. \<open>None\<close> is
  the panic after an unhandled exception. A system call that sleeps leaves the handler at the switch; the
  rest of the handler is a definition of its own.
\<close>

section \<open>Common parts\<close>

datatype 's trap = Trap_exit bool 's | Trap_sleep bool 's

fun serial_drain :: "u8 list \<Rightarrow> 'a kernel_state_scheme \<Rightarrow> 'a kernel_state_scheme option" where
  "serial_drain [] s = Some s"
| "serial_drain (b # bs) s = Option.bind (console_dev_feed b s) (serial_drain bs)"

definition trap_exit :: "arch \<Rightarrow> u64 \<Rightarrow> u64 \<Rightarrow> 'a kernel_state_scheme \<Rightarrow> 'a kernel_state_scheme trap option" where
  "trap_exit a frame sp s = map_option (\<lambda>(switched, s). Trap_exit switched s) (sched_on_trap_exit a frame sp s)"

section \<open>x86-64\<close>

definition tf_rdi :: u64 where "tf_rdi = 72"
definition tf_rsi :: u64 where "tf_rsi = 80"
definition tf_rdx :: u64 where "tf_rdx = 88"
definition tf_rax :: u64 where "tf_rax = 112"
definition tf_error_code :: u64 where "tf_error_code = 128"

definition IDT_INT_IS_IRQ :: "u64 \<Rightarrow> bool" where
  "IDT_INT_IS_IRQ int_no \<longleftrightarrow> int_no \<ge> ucast PIC_VECTOR_BASE \<and> int_no < ucast PIC_VECTOR_BASE + ucast PIC_IRQ_COUNT"

definition IDT_INT_TO_IRQ :: "u64 \<Rightarrow> u64" where
  "IDT_INT_TO_IRQ int_no = int_no - ucast PIC_VECTOR_BASE"

definition x86_64_irq :: "u8 list \<Rightarrow> u64 \<Rightarrow> ports \<Rightarrow> 'a kernel_state_scheme \<Rightarrow> (ports \<times> 'a kernel_state_scheme) option" where
  "x86_64_irq rx irq_no io s =
     map_option (\<lambda>s. (pic_end irq_no io, s))
       (if irq_no = 0 then Some (timer_tick s) else if irq_no = 4 then serial_drain rx s else Some s)"

definition x86_64_dispatch ::
  "u64 \<Rightarrow> u8 list \<Rightarrow> u64 \<Rightarrow> ports \<Rightarrow> 'a kernel_state_scheme \<Rightarrow> (ports \<times> 'a kernel_state_scheme) option" where
  "x86_64_dispatch cr2 rx frame io s = do {
     let int_no = load64 (kmem s) (frame + tf_int_no);
     (resolved, s) \<leftarrow> (if int_no = 14 then vmm_handle_page_fault X86_64 cr2 (load64 (kmem s) (frame + tf_error_code)) s
                       else Some (False, s));
     if resolved then Some (io, s)
     else if IDT_INT_IS_IRQ int_no then x86_64_irq rx (IDT_INT_TO_IRQ int_no) io s
     else None
   }"

definition x86_64_exception_handler ::
  "u64 \<Rightarrow> u8 list \<Rightarrow> u64 \<Rightarrow> u64 \<Rightarrow> ports \<Rightarrow> 'a kernel_state_scheme \<Rightarrow> (ports \<times> 'a kernel_state_scheme trap) option" where
  "x86_64_exception_handler cr2 rx frame sp io s = do {
     (io, s) \<leftarrow> x86_64_dispatch cr2 rx frame io s;
     map_option (Pair io) (trap_exit X86_64 frame sp s)
   }"

text \<open>The value goes to the caller in \<^verbatim>\<open>rax\<close>. This is also where a call that slept ends.\<close>

definition x86_64_syscall_return :: "u64 \<Rightarrow> u64 \<Rightarrow> int \<Rightarrow> 'a kernel_state_scheme \<Rightarrow> 'a kernel_state_scheme trap option" where
  "x86_64_syscall_return frame sp ret s =
     trap_exit X86_64 frame sp (s\<lparr>irq_on := False, kmem := store64 (kmem s) (frame + tf_rax) (of_int ret)\<rparr>)"

definition x86_64_syscall_handler :: "u64 \<Rightarrow> u64 \<Rightarrow> u64 \<Rightarrow> 'a kernel_state_scheme \<Rightarrow> 'a kernel_state_scheme trap option" where
  "x86_64_syscall_handler chunk frame sp s = do {
     let reg = (\<lambda>off. load64 (kmem s) (frame + off));
     r \<leftarrow> syscall_dispatch X86_64 chunk sp (reg tf_rax) (reg tf_rdi) (reg tf_rsi) (reg tf_rdx) 0 0 0 (s\<lparr>irq_on := True\<rparr>);
     case r of
       Io_done ret s \<Rightarrow> x86_64_syscall_return frame sp ret s
     | Io_sleep flags s \<Rightarrow> Some (Trap_sleep flags s)
   }"

section \<open>AArch64\<close>

definition TRAP_FRAME_OFF_ESR :: u64 where "TRAP_FRAME_OFF_ESR = 272"
definition TRAP_FRAME_OFF_FAR :: u64 where "TRAP_FRAME_OFF_FAR = 280"

definition esr_ec :: "u64 \<Rightarrow> u64" where
  "esr_ec esr = drop_bit 26 esr AND 0x3F"

text \<open>The rearming writes the interval to the timer.\<close>

definition aarch64_irq :: "u32 \<Rightarrow> u8 list \<Rightarrow> mmio \<Rightarrow> 'a kernel_state_scheme \<Rightarrow> (mmio \<times> 'a kernel_state_scheme) option" where
  "aarch64_irq intid rx d s =
     (if intid = GIC_INTID_SPURIOUS then Some (d, s)
      else map_option (\<lambda>s'. (gic_eoi s intid d, s'))
        (if intid = GIC_INTID_VIRT_TIMER then Some (timer_tick s)
         else if intid = GIC_INTID_PL011 then serial_drain rx s else Some s))"

definition aarch64_svc_return :: "u64 \<Rightarrow> int \<Rightarrow> 'a kernel_state_scheme \<Rightarrow> 'a kernel_state_scheme" where
  "aarch64_svc_return frame ret s =
     s\<lparr>irq_on := False, kmem := store64 (kmem s) (frame + TRAP_FRAME_OFF_X 0) (of_int ret)\<rparr>"

definition aarch64_svc :: "u64 \<Rightarrow> u64 \<Rightarrow> u64 \<Rightarrow> 'a kernel_state_scheme \<Rightarrow> 'a kernel_state_scheme io option" where
  "aarch64_svc chunk frame sp s = do {
     let x = (\<lambda>n. load64 (kmem s) (frame + TRAP_FRAME_OFF_X n));
     r \<leftarrow> syscall_dispatch AArch64 chunk sp (x 8) (x 0) (x 1) (x 2) (x 3) (x 4) (x 5) (s\<lparr>irq_on := True\<rparr>);
     case r of
       Io_done ret s \<Rightarrow> Some (Io_done ret (aarch64_svc_return frame ret s))
     | Io_sleep flags s \<Rightarrow> Some (Io_sleep flags s)
   }"

definition aarch64_dispatch ::
  "u32 \<Rightarrow> u8 list \<Rightarrow> u64 \<Rightarrow> u64 \<Rightarrow> u64 \<Rightarrow> mmio \<Rightarrow> 'a kernel_state_scheme \<Rightarrow> (mmio \<times> 'a kernel_state_scheme io) option" where
  "aarch64_dispatch intid rx chunk frame sp d s = do {
     let vector_type = load64 (kmem s) (frame + TRAP_FRAME_OFF_VECTOR_TYPE);
     let esr = load64 (kmem s) (frame + TRAP_FRAME_OFF_ESR);
     if vector_type < 4 \<or> vector_type > 11 then None
     else if vector_type = 5 \<or> vector_type = 9 then map_option (\<lambda>(d, s). (d, Io_done 0 s)) (aarch64_irq intid rx d s)
     else if vector_type = 8 \<and> esr_ec esr = 0x15 then map_option (Pair d) (aarch64_svc chunk frame sp s)
     else if esr_ec esr = 0x20 \<or> esr_ec esr = 0x21 \<or> esr_ec esr = 0x24 \<or> esr_ec esr = 0x25 then do {
       (resolved, s) \<leftarrow> vmm_handle_page_fault AArch64 (load64 (kmem s) (frame + TRAP_FRAME_OFF_FAR)) esr s;
       if resolved then Some (d, Io_done 0 s) else None
     }
     else None
   }"

definition aarch64_exception_handler ::
  "u32 \<Rightarrow> u8 list \<Rightarrow> u64 \<Rightarrow> u64 \<Rightarrow> u64 \<Rightarrow> mmio \<Rightarrow> 'a kernel_state_scheme \<Rightarrow> (mmio \<times> 'a kernel_state_scheme trap) option" where
  "aarch64_exception_handler intid rx chunk frame sp d s = do {
     (d, r) \<leftarrow> aarch64_dispatch intid rx chunk frame sp d s;
     case r of
       Io_done _ s \<Rightarrow> map_option (Pair d) (trap_exit AArch64 frame sp s)
     | Io_sleep flags s \<Rightarrow> Some (d, Trap_sleep flags s)
   }"

end
