(* ===== verification/X86_Trap_Entry.thy ===== *)
theory X86_Trap_Entry
  imports X86_Context Trap
begin

text \<open>
  Every trap of x86-64 leaves a \<^verbatim>\<open>struct trap_frame\<close> and the exit restores from one: what is interrupted goes on
  unchanged, and a system call changes only the registers it is allowed to.
\<close>

section \<open>The frame\<close>

definition gprs :: "x86_reg list" where
  "gprs = [R15, R14, R13, R12, R11, R10, R9, R8, RBP, RDI, RSI, RDX, RCX, RBX, RAX]"

definition trap_words :: "(x86_reg \<Rightarrow> u64) \<Rightarrow> u64 \<Rightarrow> u64 \<Rightarrow> u64 \<Rightarrow> u64 \<Rightarrow> u64 \<Rightarrow> u64 \<Rightarrow> u64 \<Rightarrow> u64 list" where
  "trap_words g int_no error_code rip cs rflags rsp ss = map g gprs @ [int_no, error_code, rip, cs, rflags, rsp, ss]"

lemma gprs_simps: "RSP \<notin> set gprs" "length gprs = 15" "r \<noteq> RSP \<Longrightarrow> r \<in> set gprs"
  by (cases r; simp add: gprs_def)+

lemma length_trap_words: "length (trap_words g n e rip cs fl sp ss) = 22"
  by (simp add: trap_words_def gprs_simps)

lemma trap_words_high:
  assumes "words_at m f (trap_words g n e rip cs fl sp ss)"
  shows "words_at m f (map g gprs)" "words_at m (f + 120) [n, e, rip, cs, fl, sp, ss]"
  using assms unfolding trap_words_def words_at_append length_map gprs_simps(2) by simp_all

lemma push_gprs_eq: "push_gprs c = fold pushq (rev (map (x_reg c) gprs)) c"
  unfolding push_gprs_def by (subst fold_push_reg) (simp_all add: gprs_def)

section \<open>The exit\<close>

lemma x86_64_trap_return_words:
  assumes "words_at (x_mem c) (x_reg c RSP) (trap_words g n e rip cs fl sp ss)"
  shows "x86_64_trap_return c = c\<lparr>x_reg := g(RSP := sp), x_rip := rip, x_cs := cs, x_rflags := fl, x_ss := ss,
    x_gs := if cs = 0x3b then x_kernel_gs c else x_gs c, x_kernel_gs := if cs = 0x3b then x_gs c else x_kernel_gs c\<rparr>"
proof -
  note w = trap_words_high [OF assms]
  have hi: "load64 (x_mem c) (x_reg c RSP + 136) = rip" "load64 (x_mem c) (x_reg c RSP + 144) = cs" "load64 (x_mem c) (x_reg c RSP + 152) = fl"
    "load64 (x_mem c) (x_reg c RSP + 160) = sp" "load64 (x_mem c) (x_reg c RSP + 168) = ss"
    using w(2) by (simp_all add: add.assoc)
  have "fold pop_reg gprs c = c\<lparr>x_reg := (\<lambda>r. if r \<in> set gprs then g r else if r = RSP then x_reg c RSP + 8 * of_nat (length gprs) else x_reg c r)\<rparr>"
    by (rule fold_pop_reg [OF gprs_simps(1) w(1)])
  also have "\<dots> = c\<lparr>x_reg := g(RSP := x_reg c RSP + 120)\<rparr>"
    using gprs_simps by (auto intro!: arg_cong [of _ _ "\<lambda>r. c\<lparr>x_reg := r\<rparr>"] simp: fun_eq_iff)
  finally have p: "fold pop_reg gprs c = c\<lparr>x_reg := g(RSP := x_reg c RSP + 120)\<rparr>" .
  show ?thesis
    unfolding x86_64_trap_return_def Let_def gprs_def [symmetric] p
    by (simp add: iretq_def swapgs_def movq_def Let_def add.assoc hi)
qed

text \<open>Whatever frame the exit is given, one fabricated for a new task included, decides where execution goes on.\<close>

lemma x86_64_trap_return_loads:
  fixes c :: x86_cpu
  defines "at \<equiv> \<lambda>off. load64 (x_mem c) (x_reg c RSP + off)"
  shows "x_rip (x86_64_trap_return c) = at tf_rip" "x_reg (x86_64_trap_return c) RSP = at tf_rsp"
    "x_cs (x86_64_trap_return c) = at tf_cs" "x_rflags (x86_64_trap_return c) = at tf_rflags" "x_ss (x86_64_trap_return c) = at tf_ss"
proof -
  define g where "g r = (case r of R15 \<Rightarrow> at 0 | R14 \<Rightarrow> at 8 | R13 \<Rightarrow> at 16 | R12 \<Rightarrow> at 24 | R11 \<Rightarrow> at 32 | R10 \<Rightarrow> at 40 | R9 \<Rightarrow> at 48
    | R8 \<Rightarrow> at 56 | RBP \<Rightarrow> at 64 | RDI \<Rightarrow> at 72 | RSI \<Rightarrow> at 80 | RDX \<Rightarrow> at 88 | RCX \<Rightarrow> at 96 | RBX \<Rightarrow> at 104 | RAX \<Rightarrow> at 112 | RSP \<Rightarrow> 0)" for r
  have "words_at (x_mem c) (x_reg c RSP) (trap_words g (at 120) (at 128) (at 136) (at 144) (at 152) (at 160) (at 168))"
    unfolding trap_words_def gprs_def g_def at_def by (simp add: add.assoc)
  note ret = x86_64_trap_return_words [OF this]
  show "x_rip (x86_64_trap_return c) = at tf_rip" "x_reg (x86_64_trap_return c) RSP = at tf_rsp"
    "x_cs (x86_64_trap_return c) = at tf_cs" "x_rflags (x86_64_trap_return c) = at tf_rflags" "x_ss (x86_64_trap_return c) = at tf_ss"
    unfolding ret by (simp_all add: tf_rip_def tf_rsp_def tf_cs_def tf_rflags_def tf_ss_def)
qed

section \<open>The entry of an interrupt\<close>

text \<open>An interrupt with vector \<open>num\<close> and, for the vectors that have one, error code \<open>e\<close>, up to the call of the handler.\<close>

definition isr_entry :: "nat \<Rightarrow> u64 \<Rightarrow> u64 \<Rightarrow> x86_cpu \<Rightarrow> x86_cpu" where
  "isr_entry num e stack c = isr_common_stub (isr_stub num (x86_interrupt num e stack c))"

definition isr_error_code :: "nat \<Rightarrow> u64 \<Rightarrow> u64" where
  "isr_error_code num e = (if x86_error_code num then e else 0)"

text \<open>For two vectors, those of control protection and of virtualisation, the stubs push a dummy although the
  processor has pushed an error code.\<close>

lemma isr_stub_error_code: "num \<notin> {21, 29} \<Longrightarrow> isr_has_error_code num = x86_error_code num"
  by (auto simp: isr_has_error_code_def x86_error_code_def)

lemma isr_stub_pushes:
  "num \<notin> {21, 29} \<Longrightarrow> isr_stub num (x86_interrupt num e stack c) =
     fold pushq [x_ss c, x_reg c RSP, x_rflags c, x_cs c, x_rip c, isr_error_code num e, of_nat num] (movq RSP stack c)"
  by (simp add: isr_stub_def x86_interrupt_def isr_error_code_def isr_stub_error_code Let_def)

lemma isr_entry_words:
  fixes c :: x86_cpu
  defines "user \<equiv> x_cs c = 0x3b"
  assumes num: "num \<notin> {21, 29}"
  obtains m where "isr_entry num e stack c = c\<lparr>x_reg := (x_reg c)(RSP := stack - 176, RDI := stack - 176), x_mem := m,
      x_gs := if user then x_kernel_gs c else x_gs c, x_kernel_gs := if user then x_gs c else x_kernel_gs c\<rparr>"
    "words_at m (stack - 176)
      (trap_words (x_reg c) (of_nat num) (isr_error_code num e) (x_rip c) (x_cs c) (x_rflags c) (x_reg c RSP) (x_ss c))"
    "\<And>x. x \<notin> extent (stack - 176) 176 \<Longrightarrow> m x = x_mem c x"
proof -
  define hw where "hw = [x_ss c, x_reg c RSP, x_rflags c, x_cs c, x_rip c, isr_error_code num e, of_nat num]"
  obtain sp1 m1 where p1: "push_stack hw (stack, x_mem c) = (sp1, m1)" by fastforce
  obtain sp m where p2: "push_stack (rev (map (x_reg c) gprs)) (sp1, m1) = (sp, m)" by fastforce
  have "8 * length hw < 2 ^ 64" by (simp add: hw_def)
  then have w1: "words_at m1 sp1 (rev hw)" using push_stack_words [OF p1] by blast
  have cs: "load64 m1 (sp1 + 24) = x_cs c" using words_at_nth [OF w1, of 3] by (simp add: hw_def)
  define c1 where "c1 = c\<lparr>x_reg := (x_reg c)(RSP := sp1), x_mem := m1, x_gs := if user then x_kernel_gs c else x_gs c,
    x_kernel_gs := if user then x_gs c else x_kernel_gs c\<rparr>"
  have stub: "isr_stub num (x86_interrupt num e stack c) = c\<lparr>x_reg := (x_reg c)(RSP := sp1), x_mem := m1\<rparr>"
    unfolding isr_stub_pushes [OF num] hw_def [symmetric] fold_pushq by (simp add: p1 movq_def)
  have "isr_entry num e stack c = movq RDI (x_reg (push_gprs c1) RSP) (push_gprs c1)"
    unfolding isr_entry_def stub isr_common_stub_def Let_def by (simp add: cs c1_def user_def swapgs_def)
  moreover have "map (x_reg c1) gprs = map (x_reg c) gprs" using gprs_simps(1) by (auto simp: c1_def)
  then have "push_gprs c1 = c1\<lparr>x_reg := (x_reg c1)(RSP := sp), x_mem := m\<rparr>"
    unfolding push_gprs_eq fold_pushq by (simp add: c1_def p2 del: map_eq_conv)
  ultimately have entry: "isr_entry num e stack c = c\<lparr>x_reg := (x_reg c)(RSP := sp, RDI := sp), x_mem := m,
      x_gs := if user then x_kernel_gs c else x_gs c, x_kernel_gs := if user then x_gs c else x_kernel_gs c\<rparr>"
    by (simp add: c1_def movq_def)
  have all: "push_stack (hw @ rev (map (x_reg c) gprs)) (stack, x_mem c) = (sp, m)" by (simp add: push_stack_append p1 p2)
  have l: "length (hw @ rev (map (x_reg c) gprs)) = 22" by (simp add: hw_def gprs_simps)
  have n: "8 * 22 < (2 :: nat) ^ 64" "8 * 22 = (176 :: nat)" by simp_all
  note pw = push_stack_words [OF all, unfolded l, OF n(1), unfolded n(2)]
  have sp: "sp = stack - 176" using conjunct1 [OF pw] by simp
  have tw: "rev (hw @ rev (map (x_reg c) gprs)) =
      trap_words (x_reg c) (of_nat num) (isr_error_code num e) (x_rip c) (x_cs c) (x_rflags c) (x_reg c RSP) (x_ss c)"
    by (simp add: trap_words_def hw_def)
  show thesis using that [OF entry [unfolded sp]] pw unfolding sp tw by blast
qed


definition trap_user :: x86_cpu where
  "trap_user = \<lparr>x_reg = (\<lambda>_. 7)(RSP := 0x7000), x_rip = 0x400000, x_cs = 0x3b, x_rflags = 0x202, x_ss = 0x33,
     x_gs = 5, x_kernel_gs = 0x9000, x_mem = (\<lambda>_. 0)\<rparr>"

definition trap_done :: x86_cpu where
  "trap_done = (isr_entry 32 0 0x3000 trap_user)\<lparr>x_reg := (\<lambda>_. 0)(RSP := 0x2F50)\<rparr>"


section \<open>The entry of a system call\<close>

text \<open>The per-processor block holds the kernel stack pointer and a slot for the user's.\<close>

lemma syscall_entry_words:
  fixes c :: x86_cpu
  defines "k \<equiv> load64 (x_mem c) (x_kernel_gs c)"
  assumes pc: "extent (x_kernel_gs c) 16 \<inter> extent (k - 176) 176 = {}"
  obtains m where "syscall_entry c = c\<lparr>x_reg := (x_reg c)(RSP := k - 176, RDI := k - 176), x_mem := m,
      x_gs := x_kernel_gs c, x_kernel_gs := x_gs c\<rparr>"
    "words_at m (k - 176) (trap_words (x_reg c) 0x80 0 (x_reg c RCX) 0x3b (x_reg c R11) (x_reg c RSP) 0x33)"
proof -
  let ?g = "x_kernel_gs c"
  define m0 where "m0 = store64 (x_mem c) (?g + 8) (x_reg c RSP)"
  define hw where "hw = [0x33, x_reg c RSP, x_reg c R11, 0x3b, x_reg c RCX, 0, 0x80]"
  obtain sp m where all: "push_stack (hw @ rev (map (x_reg c) gprs)) (k, m0) = (sp, m)" by fastforce
  have l: "length (hw @ rev (map (x_reg c) gprs)) = 22" by (simp add: hw_def gprs_simps)
  have n: "8 * 22 < (2 :: nat) ^ 64" "8 * 22 = (176 :: nat)" by simp_all
  note pw = push_stack_words [OF all, unfolded l, OF n(1), unfolded n(2)]
  have sp: "sp = k - 176" using conjunct1 [OF pw] by simp
  have k: "load64 m0 ?g = k"
    using load64_store64_disj [of "?g + 8" ?g] extent_disj [of 8 8 ?g] by (simp add: m0_def k_def Int_commute)
  have "extent (k - 8) 8 \<subseteq> extent (k - 176) 176" using extent_sub [of 168 8 176 "k - 176"] by simp
  moreover have "extent (?g + 8) 8 \<subseteq> extent ?g 16" using extent_sub [of 8 8 16 ?g] by simp
  ultimately have slot: "load64 (store64 m0 (k - 8) 0x33) (?g + 8) = x_reg c RSP"
    using pc by (subst load64_store64_disj) (auto simp: m0_def)
  define c0 where "c0 = c\<lparr>x_reg := (x_reg c)(RSP := k), x_mem := m0, x_gs := ?g, x_kernel_gs := x_gs c\<rparr>"
  have "syscall_entry c = (let c = push_gprs (fold pushq hw c0) in movq RDI (x_reg c RSP) c)"
    unfolding syscall_entry_def swapgs_def Let_def hw_def c0_def
    by (simp add: pushq_state push_reg_def movq_def k slot m0_def [symmetric])
  moreover have "map (x_reg (fold pushq hw c0)) gprs = map (x_reg c) gprs"
    using gprs_simps(1) by (auto simp: fold_pushq c0_def split: prod.split)
  then have "push_gprs (fold pushq hw c0) = fold pushq (hw @ rev (map (x_reg c) gprs)) c0"
    unfolding push_gprs_eq by (simp del: map_eq_conv)
  ultimately have entry: "syscall_entry c = c\<lparr>x_reg := (x_reg c)(RSP := sp, RDI := sp), x_mem := m, x_gs := ?g, x_kernel_gs := x_gs c\<rparr>"
    unfolding Let_def fold_pushq by (simp add: c0_def all movq_def del: fold_append)
  have tw: "rev (hw @ rev (map (x_reg c) gprs)) = trap_words (x_reg c) 0x80 0 (x_reg c RCX) 0x3b (x_reg c R11) (x_reg c RSP) 0x33"
    by (simp add: trap_words_def hw_def)
  show thesis using that [OF entry [unfolded sp]] pw unfolding sp tw by blast
qed

text \<open>A system call returns to the instruction after it, on the user's stack, with the value the handler left in the
  frame; of the registers only the one with the value and the two the processor itself overwrites change.\<close>

lemma syscall_returns:
  fixes c c' :: x86_cpu
  defines "k \<equiv> load64 (x_mem c) (x_kernel_gs c)" and "entry \<equiv> syscall_entry (x86_syscall c)"
  assumes pc: "extent (x_kernel_gs c) 16 \<inter> extent (k - 176) 176 = {}"
    and c': "x_reg c' RSP = k - 176" "x_gs c' = x_gs entry" "x_kernel_gs c' = x_kernel_gs entry"
      "\<And>x. x \<in> extent (k - 176) 176 \<Longrightarrow> x_mem c' x = store64 (x_mem entry) (k - 176 + tf_rax) v x"
  shows "x86_64_trap_return c' = c'\<lparr>x_reg := (x_reg c)(RAX := v, RCX := x_rip c, R11 := x_rflags c), x_rip := x_rip c,
    x_cs := 0x3b, x_rflags := x_rflags c, x_ss := 0x33, x_gs := x_gs c, x_kernel_gs := x_kernel_gs c\<rparr>"
proof -
  let ?c = "x86_syscall c"
  have s: "x_mem ?c = x_mem c" "x_kernel_gs ?c = x_kernel_gs c" "x_gs ?c = x_gs c" "x_reg ?c RSP = x_reg c RSP"
    "x_reg ?c RCX = x_rip c" "x_reg ?c R11 = x_rflags c" by (simp_all add: x86_syscall_def)
  let ?tw = "\<lambda>g. trap_words g 0x80 0 (x_rip c) 0x3b (x_rflags c) (x_reg c RSP) 0x33"
  obtain m where en: "entry = ?c\<lparr>x_reg := (x_reg ?c)(RSP := k - 176, RDI := k - 176), x_mem := m, x_gs := x_kernel_gs c, x_kernel_gs := x_gs c\<rparr>"
    and w: "words_at m (k - 176) (?tw (x_reg ?c))"
    using syscall_entry_words [of ?c] pc unfolding k_def entry_def s by blast
  have upd: "(?tw (x_reg ?c))[14 := v] = ?tw ((x_reg ?c)(RAX := v))" by (simp add: trap_words_def gprs_def)
  have "words_at (store64 m (k - 176 + tf_rax) v) (k - 176) (?tw ((x_reg ?c)(RAX := v)))"
    using words_at_store [OF w, of 14 v] by (simp add: length_trap_words upd tf_rax_def)
  then have "words_at (x_mem c') (x_reg c' RSP) (?tw ((x_reg ?c)(RAX := v)))"
    unfolding c'(1) using c'(4) by (elim words_at_agree) (simp_all add: length_trap_words en)
  note ret = x86_64_trap_return_words [OF this]
  have "((x_reg ?c)(RAX := v))(RSP := x_reg c RSP) = (x_reg c)(RAX := v, RCX := x_rip c, R11 := x_rflags c)"
    by (auto simp: x86_syscall_def fun_eq_iff)
  then show ?thesis unfolding ret using c'(2,3) by (simp add: en)
qed

end
