(* ===== verification/Aarch64_Context.thy ===== *)
theory Aarch64_Context
  imports Cpu_Words Trap
begin

text \<open>
  The assembly of AArch64: the context switch of \<^verbatim>\<open>switch.S\<close>, and the entry and the exit of \<^verbatim>\<open>vectors.S\<close>, on a
  processor of the general registers, both stack pointers, the system registers of an exception, and memory.
  The entry ends where it calls the handler. What the processor does by itself on an exception is
  \<open>arm_exception\<close>.
\<close>

section \<open>The processor\<close>

record arm_cpu =
  a_x :: "nat \<Rightarrow> u64"
  a_sp :: u64
  a_sp_el0 :: u64
  a_pc :: u64
  a_pstate :: u64
  a_elr :: u64
  a_spsr :: u64
  a_esr :: u64
  a_far :: u64
  a_mem :: mem

definition setx :: "nat \<Rightarrow> u64 \<Rightarrow> arm_cpu \<Rightarrow> arm_cpu" where
  "setx i v c = c\<lparr>a_x := (a_x c)(i := v)\<rparr>"

definition str_sp :: "u64 \<Rightarrow> u64 \<Rightarrow> arm_cpu \<Rightarrow> arm_cpu" where
  "str_sp v off c = c\<lparr>a_mem := store64 (a_mem c) (a_sp c + off) v\<rparr>"

definition stp :: "nat \<Rightarrow> u64 \<Rightarrow> arm_cpu \<Rightarrow> arm_cpu" where
  "stp i off c = str_sp (a_x c (Suc i)) (off + 8) (str_sp (a_x c i) off c)"

definition ldr_sp :: "nat \<Rightarrow> u64 \<Rightarrow> arm_cpu \<Rightarrow> arm_cpu" where
  "ldr_sp i off c = setx i (load64 (a_mem c) (a_sp c + off)) c"

definition ldp :: "nat \<Rightarrow> u64 \<Rightarrow> arm_cpu \<Rightarrow> arm_cpu" where
  "ldp i off c = ldr_sp (Suc i) (off + 8) (ldr_sp i off c)"

definition eret :: "arm_cpu \<Rightarrow> arm_cpu" where
  "eret c = c\<lparr>a_pc := a_elr c, a_pstate := a_spsr c\<rparr>"

definition arm_exception :: "u64 \<Rightarrow> u64 \<Rightarrow> arm_cpu \<Rightarrow> arm_cpu" where
  "arm_exception esr far c = c\<lparr>a_elr := a_pc c, a_spsr := a_pstate c, a_esr := esr, a_far := far\<rparr>"

section \<open>switch.S\<close>

definition SWITCH_FRAME_OFF_X :: "nat \<Rightarrow> u64" where
  "SWITCH_FRAME_OFF_X n = (of_nat n - 19) * 8"

definition aarch64_switch_save :: "arm_cpu \<Rightarrow> arm_cpu" where
  "aarch64_switch_save c =
     (let c = c\<lparr>a_sp := a_sp c - SWITCH_FRAME_SIZE AArch64\<rparr>;
          c = fold (\<lambda>i. stp i (SWITCH_FRAME_OFF_X i)) [19, 21, 23, 25, 27, 29] c;
          c = setx 2 (a_sp c) c
      in c\<lparr>a_mem := store64 (a_mem c) (a_x c 0) (a_x c 2)\<rparr>)"

definition aarch64_switch_to :: "arm_cpu \<Rightarrow> arm_cpu" where
  "aarch64_switch_to c =
     (let c = aarch64_switch_save c;
          c = c\<lparr>a_sp := a_x c 1\<rparr>;
          c = fold (\<lambda>i. ldp i (SWITCH_FRAME_OFF_X i)) [19, 21, 23, 25, 27, 29] c;
          c = c\<lparr>a_sp := a_sp c + SWITCH_FRAME_SIZE AArch64\<rparr>
      in c\<lparr>a_pc := a_x c 30\<rparr>)"

section \<open>vectors.S\<close>

definition vector_entry :: "nat \<Rightarrow> arm_cpu \<Rightarrow> arm_cpu" where
  "vector_entry num c =
     (let c = c\<lparr>a_sp := a_sp c - TRAP_FRAME_SIZE\<rparr>;
          c = stp 0 0 c;
          c = setx 0 (of_nat num) c
      in setx 1 (if num \<ge> 4 \<and> num \<le> 7 then a_sp c + TRAP_FRAME_SIZE
                 else if num \<ge> 8 \<and> num \<le> 11 then a_sp_el0 c else 0) c)"

definition vector_common_stub :: "arm_cpu \<Rightarrow> arm_cpu" where
  "vector_common_stub c =
     (let c = fold (\<lambda>i. stp i (TRAP_FRAME_OFF_X (of_nat i))) [2, 4, 6, 8, 10, 12, 14, 16, 18, 20, 22, 24, 26, 28] c;
          c = str_sp (a_x c 30) (TRAP_FRAME_OFF_X 30) c;
          c = str_sp (a_x c 1) TRAP_FRAME_OFF_SP c;
          c = setx 3 (a_spsr c) (setx 2 (a_elr c) c);
          c = str_sp (a_x c 2) TRAP_FRAME_OFF_ELR c;
          c = str_sp (a_x c 3) TRAP_FRAME_OFF_SPSR c;
          c = setx 3 (a_far c) (setx 2 (a_esr c) c);
          c = str_sp (a_x c 2) TRAP_FRAME_OFF_ESR c;
          c = str_sp (a_x c 3) TRAP_FRAME_OFF_FAR c;
          c = str_sp (a_x c 0) TRAP_FRAME_OFF_VECTOR_TYPE c
      in setx 0 (a_sp c) c)"

definition restore_gprs :: "arm_cpu \<Rightarrow> arm_cpu" where
  "restore_gprs c =
     (let c = fold (\<lambda>i. ldp i (TRAP_FRAME_OFF_X (of_nat i))) [2, 4, 6, 8, 10, 12, 14, 16, 18, 20, 22, 24, 26, 28] c;
          c = ldr_sp 30 (TRAP_FRAME_OFF_X 30) c;
          c = ldp 0 0 c;
          c = c\<lparr>a_sp := a_sp c + TRAP_FRAME_SIZE\<rparr>
      in eret c)"

definition aarch64_trap_return :: "arm_cpu \<Rightarrow> arm_cpu" where
  "aarch64_trap_return c =
     (let c = c\<lparr>a_sp := a_x c 0\<rparr>;
          c = ldr_sp 2 TRAP_FRAME_OFF_ELR (ldr_sp 3 TRAP_FRAME_OFF_SPSR c);
          c = c\<lparr>a_spsr := a_x c 3, a_elr := a_x c 2\<rparr>;
          c = ldr_sp 2 TRAP_FRAME_OFF_VECTOR_TYPE c
      in if a_x c 2 < 8 then restore_gprs c
         else let c = ldr_sp 2 TRAP_FRAME_OFF_SP c in restore_gprs (c\<lparr>a_sp_el0 := a_x c 2\<rparr>))"

section \<open>Sequences of loads and stores\<close>

lemma fold_ldp:
  "fold (\<lambda>i. ldp i (8 * of_nat i + b)) ns c =
     c\<lparr>a_x := (\<lambda>r. if r \<in> set ns \<union> Suc ` set ns then load64 (a_mem c) (a_sp c + (8 * of_nat r + b)) else a_x c r)\<rparr>"
proof (induction ns arbitrary: c)
  case (Cons i ns)
  have "ldp i (8 * of_nat i + b) c = c\<lparr>a_x := (a_x c)(i := load64 (a_mem c) (a_sp c + (8 * of_nat i + b)),
      Suc i := load64 (a_mem c) (a_sp c + (8 * of_nat (Suc i) + b)))\<rparr>"
    by (simp add: ldp_def ldr_sp_def setx_def algebra_simps)
  then show ?case using Cons by (auto simp: fun_eq_iff intro!: arm_cpu.equality)
qed simp

lemma switch_offset: "SWITCH_FRAME_OFF_X i = 8 * of_nat i + (- 152)"
  by (simp add: SWITCH_FRAME_OFF_X_def algebra_simps)

lemma trap_offset: "TRAP_FRAME_OFF_X (of_nat i) = 8 * of_nat i + 0"
  by (simp add: TRAP_FRAME_OFF_X_def)

section \<open>A switched task resumes\<close>

abbreviation callee_saved :: "nat list" where
  "callee_saved \<equiv> [19, 20, 21, 22, 23, 24, 25, 26, 27, 28, 29, 30]"

lemma aarch64_switch_save_state:
  "aarch64_switch_save c = c\<lparr>a_x := (a_x c)(2 := a_sp c - 96), a_sp := a_sp c - 96,
     a_mem := store64 (store_words (a_sp c - 96) (map (a_x c) callee_saved) (a_mem c)) (a_x c 0) (a_sp c - 96)\<rparr>"
  by (simp add: aarch64_switch_save_def SWITCH_FRAME_SIZE_def stp_def str_sp_def setx_def SWITCH_FRAME_OFF_X_def)

lemma aarch64_switch_mem: "a_mem (aarch64_switch_to c) = a_mem (aarch64_switch_save c)"
  unfolding aarch64_switch_to_def Let_def switch_offset fold_ldp by simp

lemma aarch64_parked_frame:
  assumes slot: "extent (a_x c 0) 8 \<inter> extent (a_sp c - 96) 96 = {}"
  shows "words_at (a_mem (aarch64_switch_to c)) (a_sp c - 96) (map (a_x c) callee_saved)"
    and "load64 (a_mem (aarch64_switch_to c)) (a_x c 0) = a_sp c - 96"
proof -
  let ?f = "a_sp c - 96"
  have m: "a_mem (aarch64_switch_to c) = store64 (store_words ?f (map (a_x c) callee_saved) (a_mem c)) (a_x c 0) ?f"
    unfolding aarch64_switch_mem aarch64_switch_save_state by simp
  show "load64 (a_mem (aarch64_switch_to c)) (a_x c 0) = ?f" by (simp add: m del: store_words.simps)
  have l: "8 * length (map (a_x c) callee_saved) = 96" by simp
  have "store64 m' (a_x c 0) v x = m' x" if "x \<in> extent ?f 96" for x v m'
    using that slot by (intro store64_out) blast
  then show "words_at (a_mem (aarch64_switch_to c)) ?f (map (a_x c) callee_saved)"
    unfolding m by (intro words_at_agree [OF words_at_store_words]) (simp_all only: l, simp_all del: store_words.simps)
qed

lemma aarch64_switch_load:
  assumes "words_at (a_mem (aarch64_switch_save c)) (a_x c 1) (map g callee_saved)" "r \<in> set callee_saved"
  shows "a_x (aarch64_switch_to c) r = g r" "a_pc (aarch64_switch_to c) = g 30" "a_sp (aarch64_switch_to c) = a_x c 1 + 96"
proof -
  let ?s = "aarch64_switch_save c"
  have x1: "a_x ?s 1 = a_x c 1" by (simp add: aarch64_switch_save_state)
  have ld: "load64 (a_mem ?s) (a_x c 1 + (8 * of_nat q + (- 152))) = g q" if "q \<in> set callee_saved" for q
    using that assms(1) by (auto simp: add.assoc)
  show "a_sp (aarch64_switch_to c) = a_x c 1 + 96"
    unfolding aarch64_switch_to_def Let_def switch_offset fold_ldp by (simp add: x1 SWITCH_FRAME_SIZE_def del: One_nat_def)
  show "a_x (aarch64_switch_to c) r = g r" "a_pc (aarch64_switch_to c) = g 30"
    unfolding aarch64_switch_to_def Let_def switch_offset fold_ldp using assms(2) ld [of r] ld [of 30] by (auto simp: x1 simp del: One_nat_def)
qed

text \<open>C10. A task that switches away on AArch64 comes back as if its call of \<^verbatim>\<open>arch_task_switch_to\<close> had returned. Let
  \<open>c\<close> be the processor at the call; when later any switch is given the bookmark that was parked in \<open>*old\<close>, and
  the 96 bytes of the frame were not written in between and are not written by that switch itself, then
  execution goes on at the return address of the call, with the stack pointer the call had and all the registers
  from \<^verbatim>\<open>x19\<close> to \<^verbatim>\<open>x30\<close>.\<close>

theorem aarch64_switch_resumes:
  fixes c c' :: arm_cpu
  defines "f \<equiv> a_sp c - 96"
  assumes "extent (a_x c 0) 8 \<inter> extent f 96 = {}" "a_x c' 1 = load64 (a_mem (aarch64_switch_to c)) (a_x c 0)"
    "\<And>x. x \<in> extent f 96 \<Longrightarrow> a_mem c' x = a_mem (aarch64_switch_to c) x"
    "extent (a_sp c' - 96) 96 \<inter> extent f 96 = {}" "extent (a_x c' 0) 8 \<inter> extent f 96 = {}"
  shows "a_pc (aarch64_switch_to c') = a_x c 30 \<and> a_sp (aarch64_switch_to c') = a_sp c \<and>
    map (a_x (aarch64_switch_to c')) [19..<31] = map (a_x c) [19..<31]"
proof -
  note fr = aarch64_parked_frame [of c, folded f_def, OF assms(2)]
  have x1: "a_x c' 1 = f" using assms(3) fr(2) by simp
  have l: "8 * length (map (a_x q) callee_saved) = 96" for q by simp
  have "a_mem (aarch64_switch_save c') x = a_mem (aarch64_switch_to c) x" if x: "x \<in> extent f 96" for x
  proof -
    have "x \<notin> extent (a_x c' 0) 8" "x \<notin> extent (a_sp c' - 96) 96" using x assms(5,6) by blast+
    then have "a_mem (aarch64_switch_save c') x = a_mem c' x"
      unfolding aarch64_switch_save_state
      by (simp add: store64_out store_words_out [where ws = "map (a_x c') callee_saved", unfolded l] del: store_words.simps list.map)
    then show ?thesis using assms(4) [OF x] by simp
  qed
  then have "words_at (a_mem (aarch64_switch_save c')) (a_x c' 1) (map (a_x c) callee_saved)"
    unfolding x1 by (intro words_at_agree [OF fr(1)]) (simp_all only: l, simp_all)
  note ld = aarch64_switch_load [OF this]
  have "set [19..<31] = set callee_saved" by (auto simp: upt_rec)
  then have "map (a_x (aarch64_switch_to c')) [19..<31] = map (a_x c) [19..<31]"
    using ld(1) by (intro map_cong) blast+
  moreover have "a_pc (aarch64_switch_to c') = a_x c 30" "a_sp (aarch64_switch_to c') = a_sp c" using ld(2,3) [of 30] x1 by (simp_all add: f_def)
  ultimately show ?thesis by blast
qed

definition arm_out :: arm_cpu where
  "arm_out = \<lparr>a_x = (\<lambda>i. of_nat i + 0x500)(0 := 0x100, 1 := 0x2000), a_sp = 0x1000, a_sp_el0 = 0, a_pc = 0, a_pstate = 5,
     a_elr = 0, a_spsr = 0, a_esr = 0, a_far = 0, a_mem = (\<lambda>_. 0)\<rparr>"

definition arm_back :: arm_cpu where
  "arm_back = (aarch64_switch_to arm_out)\<lparr>a_x := (\<lambda>_. 9)(0 := 0x108, 1 := 0xFA0), a_sp := 0x3000\<rparr>"

theorem aarch64_switch_resumes_witness:
  "a_pc (aarch64_switch_to arm_back) = 0x51E \<and> a_sp (aarch64_switch_to arm_back) = 0x1000 \<and> a_x (aarch64_switch_to arm_back) 19 = 0x513"
proof -
  have d: "extent (a_x arm_out 0) 8 \<inter> extent (a_sp arm_out - 96) 96 = {}" "extent (a_sp arm_back - 96) 96 \<inter> extent (a_sp arm_out - 96) 96 = {}"
    "extent (a_x arm_back 0) 8 \<inter> extent (a_sp arm_out - 96) 96 = {}"
    by (rule apart_extent; simp add: apart_def arm_out_def arm_back_def)+
  have "a_x arm_back 1 = load64 (a_mem (aarch64_switch_to arm_out)) (a_x arm_out 0)"
    using aarch64_parked_frame(2) [OF d(1)] by (simp add: arm_back_def arm_out_def)
  moreover have "a_mem arm_back x = a_mem (aarch64_switch_to arm_out) x" for x by (simp add: arm_back_def)
  ultimately have r: "a_pc (aarch64_switch_to arm_back) = a_x arm_out 30 \<and> a_sp (aarch64_switch_to arm_back) = a_sp arm_out \<and>
    map (a_x (aarch64_switch_to arm_back)) [19..<31] = map (a_x arm_out) [19..<31]"
    by (rule aarch64_switch_resumes [OF d(1) _ _ d(2,3)])
  then have "a_x (aarch64_switch_to arm_back) 19 = a_x arm_out 19" by (simp add: upt_rec)
  then show ?thesis using r by (simp add: arm_out_def)
qed

end
