(* ===== verification/Aarch64_Trap_Entry.thy ===== *)
theory Aarch64_Trap_Entry
  imports Aarch64_Context
begin

text \<open>
  Every exception of AArch64 leaves a \<^verbatim>\<open>struct trap_frame\<close>, and the exit restores from one.
\<close>

section \<open>The entry\<close>

definition arm_entry :: "nat \<Rightarrow> u64 \<Rightarrow> u64 \<Rightarrow> arm_cpu \<Rightarrow> arm_cpu" where
  "arm_entry num esr far c = vector_common_stub (vector_entry num (arm_exception esr far c))"

definition interrupted_sp :: "nat \<Rightarrow> arm_cpu \<Rightarrow> u64" where
  "interrupted_sp num c = (if num \<ge> 4 \<and> num \<le> 7 then a_sp c else if num \<ge> 8 \<and> num \<le> 11 then a_sp_el0 c else 0)"

definition arm_words :: "(nat \<Rightarrow> u64) \<Rightarrow> u64 \<Rightarrow> u64 \<Rightarrow> u64 \<Rightarrow> u64 \<Rightarrow> u64 \<Rightarrow> u64 \<Rightarrow> u64 list" where
  "arm_words g sp elr spsr esr far vector_type =
     map g [0, 1, 2, 3, 4, 5, 6, 7, 8, 9, 10, 11, 12, 13, 14, 15, 16, 17, 18, 19, 20, 21, 22, 23, 24, 25, 26, 27, 28, 29, 30]
     @ [sp, elr, spsr, esr, far, vector_type]"

lemma length_arm_words: "length (arm_words g sp elr spsr esr far vt) = 37"
  by (simp add: arm_words_def)

lemmas trap_frame_offsets = TRAP_FRAME_OFF_X_def TRAP_FRAME_OFF_SP_def TRAP_FRAME_OFF_ELR_def TRAP_FRAME_OFF_SPSR_def
  TRAP_FRAME_OFF_ESR_def TRAP_FRAME_OFF_FAR_def TRAP_FRAME_OFF_VECTOR_TYPE_def TRAP_FRAME_SIZE_def

lemma vector_entry_state:
  "vector_entry num (arm_exception esr far c) = c\<lparr>a_x := (a_x c)(0 := of_nat num, 1 := interrupted_sp num c), a_sp := a_sp c - 304,
     a_elr := a_pc c, a_spsr := a_pstate c, a_esr := esr, a_far := far, a_mem := store_words (a_sp c - 304) [a_x c 0, a_x c 1] (a_mem c)\<rparr>"
  by (simp add: vector_entry_def arm_exception_def interrupted_sp_def stp_def str_sp_def setx_def TRAP_FRAME_SIZE_def Let_def)

lemma fold_stp:
  "fold (\<lambda>i. stp i (TRAP_FRAME_OFF_X (of_nat i))) [2, 4, 6, 8, 10, 12, 14, 16, 18, 20, 22, 24, 26, 28] c =
     c\<lparr>a_mem := store_words (a_sp c + 16)
       (map (a_x c) [2, 3, 4, 5, 6, 7, 8, 9, 10, 11, 12, 13, 14, 15, 16, 17, 18, 19, 20, 21, 22, 23, 24, 25, 26, 27, 28, 29]) (a_mem c)\<rparr>"
  by (simp add: stp_def str_sp_def TRAP_FRAME_OFF_X_def add.assoc)

lemma vector_common_stub_state:
  "a_x (vector_common_stub c) 0 = a_sp c \<and> a_mem (vector_common_stub c) =
     store_words (a_sp c + 240) [a_x c 30, a_x c 1, a_elr c, a_spsr c, a_esr c, a_far c, a_x c 0]
       (store_words (a_sp c + 16)
         (map (a_x c) [2, 3, 4, 5, 6, 7, 8, 9, 10, 11, 12, 13, 14, 15, 16, 17, 18, 19, 20, 21, 22, 23, 24, 25, 26, 27, 28, 29]) (a_mem c))"
proof -
  define m where "m = store_words (a_sp c + 16)
         (map (a_x c) [2, 3, 4, 5, 6, 7, 8, 9, 10, 11, 12, 13, 14, 15, 16, 17, 18, 19, 20, 21, 22, 23, 24, 25, 26, 27, 28, 29]) (a_mem c)"
  show ?thesis unfolding vector_common_stub_def fold_stp m_def [symmetric]
    by (simp add: str_sp_def setx_def trap_frame_offsets Let_def add.assoc)
qed

lemma arm_words_split: "arm_words g sp elr spsr esr far vt = [g 0, g 1] @
  map g [2, 3, 4, 5, 6, 7, 8, 9, 10, 11, 12, 13, 14, 15, 16, 17, 18, 19, 20, 21, 22, 23, 24, 25, 26, 27, 28, 29] @
  [g 30, sp, elr, spsr, esr, far, vt]"
  by (simp add: arm_words_def)

lemma arm_entry_state:
  "a_x (arm_entry num esr far c) 0 = a_sp c - 304 \<and> a_mem (arm_entry num esr far c) =
     store_words (a_sp c - 304) (arm_words (a_x c) (interrupted_sp num c) (a_pc c) (a_pstate c) esr far (of_nat num)) (a_mem c)"
proof -
  let ?f = "a_sp c - 304" and ?mid = "[2, 3, 4, 5, 6, 7, 8, 9, 10, 11, 12, 13, 14, 15, 16, 17, 18, 19, 20, 21, 22, 23, 24, 25, 26, 27, 28, 29] :: nat list"
  have e: "a_x (arm_entry num esr far c) 0 = ?f" "a_mem (arm_entry num esr far c) =
     store_words (?f + 240) [a_x c 30, interrupted_sp num c, a_pc c, a_pstate c, esr, far, of_nat num]
       (store_words (?f + 16) (map (a_x c) ?mid) (store_words ?f [a_x c 0, a_x c 1] (a_mem c)))"
    unfolding arm_entry_def vector_entry_state using vector_common_stub_state by (simp_all del: store_words.simps)
  have "8 * of_nat (length [a_x c 0, a_x c 1]) = (16 :: u64)" "8 * of_nat (length (map (a_x c) ?mid)) = (224 :: u64)" by simp_all
  then show ?thesis unfolding arm_words_split store_words_append using e by (simp add: add.assoc del: store_words.simps list.map)
qed

section \<open>The exit\<close>

lemma arm_words_nth:
  assumes "words_at m f (arm_words g sp elr spsr esr far vt)"
  shows "i < 31 \<Longrightarrow> load64 m (f + 8 * of_nat i) = g i" "load64 m (f + 248) = sp" "load64 m (f + 256) = elr" "load64 m (f + 264) = spsr"
    "load64 m (f + 272) = esr" "load64 m (f + 280) = far" "load64 m (f + 288) = vt"
proof -
  note n = words_at_nth [OF assms, unfolded length_arm_words]
  have "[0, 1, 2, 3, 4, 5, 6, 7, 8, 9, 10, 11, 12, 13, 14, 15, 16, 17, 18, 19, 20, 21, 22, 23, 24, 25, 26, 27, 28, 29, 30] = [0..<31]"
    by code_simp
  then have a: "arm_words g sp elr spsr esr far vt = map g [0..<31] @ [sp, elr, spsr, esr, far, vt]" by (simp only: arm_words_def)
  show "i < 31 \<Longrightarrow> load64 m (f + 8 * of_nat i) = g i" using n [of i] by (simp add: a nth_append)
  show "load64 m (f + 248) = sp" "load64 m (f + 256) = elr" "load64 m (f + 264) = spsr"
    "load64 m (f + 272) = esr" "load64 m (f + 280) = far" "load64 m (f + 288) = vt"
    using n [of 31] n [of 32] n [of 33] n [of 34] n [of 35] n [of 36] by (simp_all add: a nth_append)
qed

lemma aarch64_trap_return_words:
  assumes "words_at (a_mem c) (a_x c 0) (arm_words g sp elr spsr esr far vt)"
  defines "c' \<equiv> aarch64_trap_return c"
  shows "i < 31 \<Longrightarrow> a_x c' i = g i" "a_sp c' = a_x c 0 + 304" "a_pc c' = elr" "a_pstate c' = spsr"
    "a_sp_el0 c' = (if vt < 8 then a_sp_el0 c else sp)" "a_mem c' = a_mem c"
proof -
  let ?f = "a_x c 0"
  note n = arm_words_nth [OF assms(1)]
  define c1 where "c1 = c\<lparr>a_sp := ?f, a_spsr := spsr, a_elr := elr, a_x := (a_x c)(3 := spsr, 2 := if vt < 8 then vt else sp),
    a_sp_el0 := if vt < 8 then a_sp_el0 c else sp\<rparr>"
  have r: "c' = restore_gprs c1"
    unfolding c'_def aarch64_trap_return_def c1_def by (simp add: ldr_sp_def setx_def n trap_frame_offsets Let_def)
  define x where "x = (\<lambda>r. if r \<in> {2..<30} then load64 (a_mem c) (?f + 8 * of_nat r) else a_x c1 r)"
  have "set [2, 4, 6, 8, 10, 12, 14, 16, 18, 20, 22, 24, 26, 28] \<union> Suc ` set [2, 4, 6, 8, 10, 12, 14, 16, 18, 20, 22, 24, 26, 28] = set [2..<30]"
    by code_simp
  then have ns: "set [2, 4, 6, 8, 10, 12, 14, 16, 18, 20, 22, 24, 26, 28] \<union> Suc ` set [2, 4, 6, 8, 10, 12, 14, 16, 18, 20, 22, 24, 26, 28] = {2..<30}"
    by (simp only: atLeastLessThan_upt)
  have cm: "a_mem c1 = a_mem c" "a_sp c1 = ?f" by (simp_all add: c1_def)
  have f: "fold (\<lambda>i. ldp i (TRAP_FRAME_OFF_X (of_nat i))) [2, 4, 6, 8, 10, 12, 14, 16, 18, 20, 22, 24, 26, 28] c1 = c1\<lparr>a_x := x\<rparr>"
    unfolding trap_offset fold_ldp ns x_def cm by (simp only: add_0_right)
  have c': "c' = c1\<lparr>a_x := x(30 := g 30, 0 := g 0, 1 := g 1), a_sp := ?f + 304, a_pc := elr, a_pstate := spsr\<rparr>"
    unfolding r restore_gprs_def f using n(1) [of 30] n(1) [of 0] n(1) [of 1]
    by (simp add: ldr_sp_def ldp_def setx_def eret_def c1_def TRAP_FRAME_OFF_X_def TRAP_FRAME_SIZE_def Let_def)
  show "a_x c' i = g i" if lt: "i < 31"
  proof -
    have "i = 0 \<or> i = 1 \<or> i = 30 \<or> (2 \<le> i \<and> i < 30)" using lt by linarith
    then show ?thesis using n(1) [OF lt] by (elim disjE) (simp_all add: c' x_def)
  qed
  show "a_sp c' = ?f + 304" "a_pc c' = elr" "a_pstate c' = spsr" "a_sp_el0 c' = (if vt < 8 then a_sp_el0 c else sp)" "a_mem c' = a_mem c"
    by (simp_all add: c' c1_def)
qed


definition arm_user :: arm_cpu where
  "arm_user = \<lparr>a_x = (\<lambda>i. of_nat i + 0x500), a_sp = 0x3000, a_sp_el0 = 0x7000, a_pc = 0x400000, a_pstate = 0,
     a_elr = 0, a_spsr = 0, a_esr = 0, a_far = 0, a_mem = (\<lambda>_. 0)\<rparr>"

definition arm_done :: arm_cpu where
  "arm_done = (arm_entry 9 1 2 arm_user)\<lparr>a_x := (\<lambda>_. 0)(0 := 0x2ED0), a_sp_el0 := 0\<rparr>"


end
