(* ===== verification/Boot.thy ===== *)
theory Boot
  imports Trap Elf_Stack Tar
begin

text \<open>
  The start of the kernel: \<^verbatim>\<open>kernel/src/core/main.c\<close>, from the answers of the boot loader to the first round of the
  scheduler. Printing is left out. \<open>None\<close> is a panic or a halt.
\<close>

section \<open>The command line\<close>

text \<open>Strings are given by their address, 0 being \<^verbatim>\<open>NULL\<close>; the results are the value returned and what \<^verbatim>\<open>*out\<close>
  becomes.\<close>

definition cmdline_parse_bool :: "mem \<Rightarrow> u64 \<Rightarrow> u64 \<Rightarrow> bool \<Rightarrow> (bool \<times> bool) option" where
  "cmdline_parse_bool m cmdline param def =
     (if cmdline = 0 \<or> param = 0 then Some (False, def)
      else map_option (\<lambda>p. if p = 0 then (False, def) else (True, True)) (strstr m cmdline param))"

text \<open>\<^verbatim>\<open>snprintf\<close> with the format \<^verbatim>\<open>"%s"\<close> into a buffer of \<open>count\<close> bytes.\<close>

definition snprintf_to :: "u64 \<Rightarrow> u64 \<Rightarrow> cstring \<Rightarrow> mem \<Rightarrow> mem" where
  "snprintf_to out count str m = (if count = 0 then m else store_bytes m out (snprintf_s (unat count) str @ [0]))"

function cmdline_copy :: "u64 \<Rightarrow> u64 \<Rightarrow> u64 \<Rightarrow> u64 \<Rightarrow> mem \<Rightarrow> mem" where
  "cmdline_copy out val count i m =
     (if i < count - 1 \<and> m (val + i) \<noteq> 32 \<and> m (val + i) \<noteq> 0
      then cmdline_copy out val count (i + 1) (m(out + i := m (val + i)))
      else m(out + i := 0))"
  by pat_completeness auto
termination
proof (relation "measure (\<lambda>(out, val, count, i, m). unat (count - 1) - unat i)", goal_cases)
  case (2 out val count i m)
  then have "unat i < unat (count - 1)" by (simp add: word_less_nat_alt)
  moreover from this have "unat (i + 1) = Suc (unat i)" using unat_lt_u64 [of "count - 1"] by (simp add: unat_add_u64)
  ultimately show ?case by simp
qed simp

declare cmdline_copy.simps [simp del]

definition cmdline_default :: "u64 \<Rightarrow> u64 \<Rightarrow> u64 \<Rightarrow> mem \<Rightarrow> (bool \<times> mem) option" where
  "cmdline_default def count out m =
     (if out = 0 then Some (False, m)
      else map_option (\<lambda>d. (False, snprintf_to out count d m)) (c_string m def))"

definition cmdline_parse_string :: "u64 \<Rightarrow> u64 \<Rightarrow> u64 \<Rightarrow> u64 \<Rightarrow> u64 \<Rightarrow> mem \<Rightarrow> (bool \<times> mem) option" where
  "cmdline_parse_string cmdline param def count out m =
     (if cmdline = 0 \<or> param = 0 \<or> count = 0 then cmdline_default def count out m
      else do {
        cmd \<leftarrow> strstr m cmdline param;
        if cmd = 0 then cmdline_default def count out m
        else do {
          cmdlen \<leftarrow> strlen m cmd;
          plen \<leftarrow> strlen m param;
          if cmdlen < plen + 2 \<or> m (cmd + plen) \<noteq> 61 then cmdline_default def count out m
          else Some (True, if out = 0 then m else cmdline_copy out (cmd + plen + 1) count 0 m)
        }
      })"

text \<open>What \<^verbatim>\<open>printf\<close> sends to the console, character by character.\<close>

definition k_putchar :: "u8 \<Rightarrow> console \<times> mem \<Rightarrow> console \<times> mem" where
  "k_putchar c st = console_putc c (if c = 10 then console_putc 13 st else st)"

section \<open>Booting\<close>

definition TIMER_HZ :: u32 where "TIMER_HZ = 100"
definition USER_STACK_TOP :: u64 where "USER_STACK_TOP = 0x0000000040800000"

text \<open>The answers of the boot loader and the registers that are read, and the addresses the linker chose: of
  string literals, of the local buffers of \<^verbatim>\<open>_start\<close> and \<^verbatim>\<open>elf_load\<close>, and of the trampoline.\<close>

record boot_info =
  base_revision_supported :: bool
  hhdm_response :: "u64 option"
  memmap_response :: "limine_memmap_entry list option"
  memmap_usable :: u64
  paging_mode :: "u64 option"
  framebuffer_response :: "limine_framebuffer option"
  module_response :: "(u64 \<times> u64) option"
  cmdline_response :: u64
  boot_sp :: u64
  executable_address :: "(u64 \<times> u64) option"
  cntfrq :: u64
  ttbr1 :: u64
  early_l2_table :: u64
  lit_tests :: u64
  lit_init :: u64
  lit_init_default :: u64
  buf_init_path :: u64
  buf_ehdr :: u64
  buf_phdr :: u64
  trampoline :: u64
  addr_syscall_entry :: u64
  addr_percpu0 :: u64
  addr_vector_table :: u64

definition boot_params :: "boot_info \<Rightarrow> 'a proc_state_scheme \<Rightarrow> (bool \<times> 'a proc_state_scheme) option" where
  "boot_params b s = do {
     (_, tests_enabled) \<leftarrow> cmdline_parse_bool (kmem s) (cmdline_response b) (lit_tests b) False;
     (_, m) \<leftarrow> cmdline_parse_string (cmdline_response b) (lit_init b) (lit_init_default b) (of_nat VFS_NAME_SIZE) (buf_init_path b) (kmem s);
     Some (tests_enabled, s\<lparr>kmem := m\<rparr>)
   }"

definition boot_memory :: "arch \<Rightarrow> boot_info \<Rightarrow> 'a proc_state_scheme \<Rightarrow> 'a proc_state_scheme option" where
  "boot_memory a b s = do {
     s \<leftarrow> pmm_init (memmap_response b) s;
     entries \<leftarrow> memmap_response b;
     (s, pages) \<leftarrow> pmm_claim entries (memmap_usable b) s;
     s \<leftarrow> heap_init s;
     s \<leftarrow> vmm_init a (paging_mode b) 0 s;
     Some (case framebuffer_response b of
         None \<Rightarrow> s
       | Some fb \<Rightarrow> (case fb_init fb (kmem s) of (f, m) \<Rightarrow> s\<lparr>k_console := (k_console s)\<lparr>con_fb := f\<rparr>, kmem := m\<rparr>))
   }"

definition boot_files :: "boot_info \<Rightarrow> 'a proc_state_scheme \<Rightarrow> 'a proc_state_scheme option" where
  "boot_files b s = do {
     let (ramfs, fs) = ramfs_create_root (k_fs s);
     if ramfs = None then None
     else do {
       let (r, fs) = vfs_mount (Some [47]) ramfs fs;
       let s = s\<lparr>k_fs := fs\<rparr>;
       if r \<noteq> 0 then None
       else do {
         (r, s) \<leftarrow> (case module_response b of None \<Rightarrow> Some (0, s) | Some (addr, sz) \<Rightarrow> tar_load addr sz s);
         if r \<noteq> 0 then None
         else do {
           (console_dev, s) \<leftarrow> console_dev_create s;
           if console_dev = None then None
           else do {
             let (r, fs) = vfs_mount (Some DEV_CONSOLE) console_dev (k_fs s);
             if r \<noteq> 0 then None else Some (s\<lparr>k_fs := fs\<rparr>)
           }
         }
       }
     }
   }"

definition boot_tasks :: "arch \<Rightarrow> boot_info \<Rightarrow> 'a proc_state_scheme \<Rightarrow> 'a proc_state_scheme option" where
  "boot_tasks a b s = do {
     (boot_task, s) \<leftarrow> task_init_boot a (boot_sp b) s;
     if boot_task = 0 then None
     else do {
       let s = sched_init boot_task s;
       (init_ctx, s) \<leftarrow> vmm_create_context a s;
       if init_ctx = 0 then None
       else do {
         (r, entry, s) \<leftarrow> elf_load a (buf_ehdr b) (buf_phdr b) (buf_init_path b) init_ctx s;
         if r \<noteq> 0 then None
         else do {
           (sp, s) \<leftarrow> elf_build_user_stack a init_ctx USER_STACK_TOP 0 0 0 s;
           if sp = 0 then None
           else do {
             (init, s) \<leftarrow> task_create_user a (trampoline b) init_ctx entry sp s;
             if init = 0 then None else sched_add_task init s
           }
         }
       }
     }
   }"

text \<open>The devices: ports and model-specific registers of x86-64, memory-mapped and system registers of AArch64.\<close>

record devices =
  dev_ports :: ports
  dev_msr :: "u32 \<Rightarrow> u64"
  dev_mmio :: mmio
  dev_sysregs :: sysregs

text \<open>The descriptor tables of x86-64 do not depend on the state, and are in theory \<^verbatim>\<open>Devices\<close>.\<close>

definition arch_init :: "arch \<Rightarrow> boot_info \<Rightarrow> devices \<Rightarrow> devices option" where
  "arch_init a b d = (case a of
       X86_64 \<Rightarrow> map_option (\<lambda>msr. d\<lparr>dev_msr := msr, dev_ports := pic_init (dev_ports d)\<rparr>)
         (syscall_init (addr_syscall_entry b) (addr_percpu0 b) (dev_msr d))
     | AArch64 \<Rightarrow> Some (d\<lparr>dev_sysregs := aarch64_init (addr_vector_table b) (dev_sysregs d)\<rparr>))"

definition serial_init_put :: "arch \<Rightarrow> boot_info \<Rightarrow> devices \<Rightarrow> 'a proc_state_scheme \<Rightarrow> devices \<times> 'a proc_state_scheme" where
  "serial_init_put a b d s = (case a of
       X86_64 \<Rightarrow> (d\<lparr>dev_ports := x86_64_serial_init_put (dev_ports d)\<rparr>, s)
     | AArch64 \<Rightarrow> (d, s\<lparr>kmem := aarch64_serial_init_put (hhdm_response b) (executable_address b) (ttbr1 b) (early_l2_table b) (kmem s)\<rparr>))"

definition arch_timer_init :: "arch \<Rightarrow> boot_info \<Rightarrow> u32 \<Rightarrow> devices \<Rightarrow> 'a proc_state_scheme \<Rightarrow> (devices \<times> 'a proc_state_scheme) option" where
  "arch_timer_init a b hz d s = (case a of
       X86_64 \<Rightarrow> map_option (\<lambda>(io, s). (d\<lparr>dev_ports := io\<rparr>, s)) (x86_64_timer_init hz (dev_msr d MSR_IA32_APIC_BASE) (dev_ports d) s)
     | AArch64 \<Rightarrow> map_option (\<lambda>_. (d\<lparr>dev_mmio := gic_init s (dev_mmio d)\<rparr>, s)) (arm_timer_init hz (cntfrq b)))"

definition serial_init_get :: "arch \<Rightarrow> boot_info \<Rightarrow> devices \<Rightarrow> 'a proc_state_scheme \<Rightarrow> devices" where
  "serial_init_get a b d s = (case a of
       X86_64 \<Rightarrow> d\<lparr>dev_ports := x86_64_serial_init_get (dev_ports d)\<rparr>
     | AArch64 \<Rightarrow> d\<lparr>dev_mmio := aarch64_serial_init_get (hhdm_response b) s (dev_mmio d)\<rparr>)"

text \<open>The result is the state in which \<^verbatim>\<open>scheduler\<close> is called; the flag tells whether the tests were to be run.\<close>

definition start :: "arch \<Rightarrow> boot_info \<Rightarrow> devices \<Rightarrow> 'a proc_state_scheme \<Rightarrow> (bool \<times> devices \<times> 'a proc_state_scheme) option" where
  "start a b d s =
     (if \<not> base_revision_supported b then None
      else do {
        let s = hhdm_init (hhdm_response b) s;
        d \<leftarrow> arch_init a b d;
        let (d, s) = serial_init_put a b d s;
        let (k, m) = console_init (k_console s, kmem s);
        (tests_enabled, s) \<leftarrow> boot_params b (s\<lparr>k_console := k, kmem := m\<rparr>);
        s \<leftarrow> boot_memory a b s;
        s \<leftarrow> boot_files b s;
        s \<leftarrow> boot_tasks a b s;
        (d, s) \<leftarrow> arch_timer_init a b TIMER_HZ d s;
        Some (tests_enabled, serial_init_get a b d s, s)
      })"

section \<open>What booting establishes\<close>

text \<open>A value copied from the command line is terminated within the buffer, and the rest of memory is untouched.\<close>

lemma cmdline_copy_frame:
  assumes "i < count" "a \<notin> (\<lambda>k. out + k) ` {i..<count}"
  shows "cmdline_copy out val count i m a = m a"
  using assms
proof (induction out val count i m rule: cmdline_copy.induct)
  case (1 out val count i m)
  have ne: "a \<noteq> out + i" using 1(2,3) by auto
  show ?case
  proof (cases "i < count - 1 \<and> m (val + i) \<noteq> 32 \<and> m (val + i) \<noteq> 0")
    case True
    have lt: "i + 1 < count" "i < i + 1" using True 1(2) by (unat_arith; force)+
    have "{i + 1..<count} \<subseteq> {i..<count}" using lt(2) by auto
    then have "a \<notin> (\<lambda>k. out + k) ` {i + 1..<count}" using 1(3) by blast
    from 1(1) [OF True lt(1) this] show ?thesis using ne True by (simp add: cmdline_copy.simps [of out val count i m] fun_upd_def)
  next
    case False
    then show ?thesis using ne by (subst cmdline_copy.simps) auto
  qed
qed

text \<open>The frequency is one the interval timer of x86-64 can count down to.\<close>

lemma timer_hz_x86_64:
  "x86_64_timer_init TIMER_HZ apic io s = None \<longleftrightarrow> lapic_init apic s = None"
  by (simp add: x86_64_timer_init_def TIMER_HZ_def PIT_INPUT_HZ_def PIT_MAX_DIVISOR_def Let_def)

text \<open>Once the file systems are up, the console device is the mount found first.\<close>

lemma boot_files_mounts:
  assumes "boot_files b s = Some s'"
  shows "\<exists>dev rest. vfs_mount_list (k_fs s') = (DEV_CONSOLE, dev) # rest"
  using assms
  by (auto simp: boot_files_def vfs_mount_def Let_def snprintf_s_def DEV_CONSOLE_def VFS_NAME_SIZE_def
      split: prod.splits if_splits option.splits bind_splits)

end
