(* ===== verification/User.thy ===== *)
theory User
  imports Syscall Elf
begin

text \<open>
  The user programs: the system-call wrappers of \<^verbatim>\<open>user/include/syscall.h\<close>, the string helpers of
  \<^verbatim>\<open>user/include/string.h\<close>, \<^verbatim>\<open>init.c\<close> and the shell \<^verbatim>\<open>psh.c\<close>. A program runs on its memory and on the rest of the
  system \<open>'w\<close>, which it reaches only by the trap instruction: \<open>trap_call\<close> maps the number, the argument
  registers, the memory and the system to the value returned and what memory and system have become, or
  to \<open>None\<close> for a call that does not return. The addresses the compiler chose are parameters too.
\<close>

section \<open>The environment of a program\<close>

record 'w user_env =
  u_arch :: arch
  trap_call :: "u64 \<Rightarrow> u64 list \<Rightarrow> mem \<times> 'w \<Rightarrow> (u64 \<times> mem \<times> 'w) option"
  literal :: "cstring \<Rightarrow> u64"
  user_buf :: u64
  user_line :: u64

section \<open>System calls\<close>

definition by_arch :: "arch \<Rightarrow> u64 \<Rightarrow> u64 \<Rightarrow> u64" where
  "by_arch a x y = (case a of X86_64 \<Rightarrow> x | AArch64 \<Rightarrow> y)"

type_synonym 'w user_call = "mem \<times> 'w \<Rightarrow> (u64 \<times> mem \<times> 'w) option"

definition user_sys_read :: "'w user_env \<Rightarrow> u64 \<Rightarrow> u64 \<Rightarrow> u64 \<Rightarrow> 'w user_call" where
  "user_sys_read e fd buf len = trap_call e (by_arch (u_arch e) 0 63) [fd, buf, len]"

definition user_sys_write :: "'w user_env \<Rightarrow> u64 \<Rightarrow> u64 \<Rightarrow> u64 \<Rightarrow> 'w user_call" where
  "user_sys_write e fd buf len = trap_call e (by_arch (u_arch e) 1 64) [fd, buf, len]"

definition user_sys_open :: "'w user_env \<Rightarrow> u64 \<Rightarrow> u64 \<Rightarrow> 'w user_call" where
  "user_sys_open e path flags = trap_call e (by_arch (u_arch e) 2 511) [path, flags]"

definition user_sys_openat :: "'w user_env \<Rightarrow> u64 \<Rightarrow> u64 \<Rightarrow> u64 \<Rightarrow> u64 \<Rightarrow> 'w user_call" where
  "user_sys_openat e dirfd path flags mode = trap_call e (by_arch (u_arch e) 257 56) [dirfd, path, flags, mode]"

definition user_sys_close :: "'w user_env \<Rightarrow> u64 \<Rightarrow> 'w user_call" where
  "user_sys_close e fd = trap_call e (by_arch (u_arch e) 3 57) [fd]"

definition user_sys_getpid :: "'w user_env \<Rightarrow> 'w user_call" where
  "user_sys_getpid e = trap_call e (by_arch (u_arch e) 39 172) []"

definition user_sys_getdents64 :: "'w user_env \<Rightarrow> u64 \<Rightarrow> u64 \<Rightarrow> u64 \<Rightarrow> 'w user_call" where
  "user_sys_getdents64 e fd dirp count = trap_call e (by_arch (u_arch e) 217 61) [fd, dirp, count]"

definition user_sys_exit :: "'w user_env \<Rightarrow> u64 \<Rightarrow> 'w user_call" where
  "user_sys_exit e status = trap_call e (by_arch (u_arch e) 60 93) [status]"

definition user_sys_fork :: "'w user_env \<Rightarrow> 'w user_call" where
  "user_sys_fork e = trap_call e (by_arch (u_arch e) 57 510) []"

definition user_sys_wait4 :: "'w user_env \<Rightarrow> u64 \<Rightarrow> u64 \<Rightarrow> u64 \<Rightarrow> u64 \<Rightarrow> 'w user_call" where
  "user_sys_wait4 e pid status options rusage = trap_call e (by_arch (u_arch e) 61 260) [pid, status, options, rusage]"

text \<open>The numbers written into the wrappers are those of the kernel's table, so every wrapper reaches the call it
  is named after.\<close>

lemma user_nr:
  "user_sys_read e fd buf len = trap_call e (of_nat (syscall_nr (u_arch e) Sys_read)) [fd, buf, len]"
  "user_sys_write e fd buf len = trap_call e (of_nat (syscall_nr (u_arch e) Sys_write)) [fd, buf, len]"
  "user_sys_open e path flags = trap_call e (of_nat (syscall_nr (u_arch e) Sys_open)) [path, flags]"
  "user_sys_openat e dirfd path flags mode = trap_call e (of_nat (syscall_nr (u_arch e) Sys_openat)) [dirfd, path, flags, mode]"
  "user_sys_close e fd = trap_call e (of_nat (syscall_nr (u_arch e) Sys_close)) [fd]"
  "user_sys_getpid e = trap_call e (of_nat (syscall_nr (u_arch e) Sys_getpid)) []"
  "user_sys_getdents64 e fd dirp count = trap_call e (of_nat (syscall_nr (u_arch e) Sys_getdents64)) [fd, dirp, count]"
  "user_sys_exit e status = trap_call e (of_nat (syscall_nr (u_arch e) Sys_exit)) [status]"
  "user_sys_fork e = trap_call e (of_nat (syscall_nr (u_arch e) Sys_fork)) []"
  "user_sys_wait4 e pid status options rusage =
     trap_call e (of_nat (syscall_nr (u_arch e) Sys_wait4)) [pid, status, options, rusage]"
  by (cases "u_arch e"; simp add: user_sys_read_def user_sys_write_def user_sys_open_def user_sys_openat_def
      user_sys_close_def user_sys_getpid_def user_sys_getdents64_def user_sys_exit_def user_sys_fork_def
      user_sys_wait4_def by_arch_def syscall_nr_def)+

section \<open>Strings and output\<close>

function user_strnlen_loop :: "mem \<Rightarrow> u64 \<Rightarrow> u64 \<Rightarrow> u64 \<Rightarrow> u64" where
  "user_strnlen_loop m s n len = (if n \<noteq> 0 \<and> m (s + len) \<noteq> 0 then user_strnlen_loop m s (n - 1) (len + 1) else len)"
  by pat_completeness auto
termination
  by (relation "measure (\<lambda>(m, s, n, len). unat n)") (auto simp: unat_dec unat_gt_0)

declare user_strnlen_loop.simps [simp del]

definition user_strnlen :: "mem \<Rightarrow> u64 \<Rightarrow> u64 \<Rightarrow> u64" where
  "user_strnlen m s n = user_strnlen_loop m s n 0"

text \<open>The text of \<^verbatim>\<open>strncmp\<close>, \<^verbatim>\<open>is_delim\<close> and \<^verbatim>\<open>strtokr\<close> is that of the kernel.\<close>

definition user_strncmp :: "mem \<Rightarrow> u64 \<Rightarrow> u64 \<Rightarrow> u64 \<Rightarrow> int" where
  "user_strncmp = strncmp"

definition user_strtokr :: "mem \<Rightarrow> u64 \<Rightarrow> u64 \<Rightarrow> u64 \<Rightarrow> (u64 \<times> u64 \<times> mem) option" where
  "user_strtokr = strtokr"

definition STDIN :: u64 where "STDIN = 0"
definition STDOUT :: u64 where "STDOUT = 1"
definition STDERR :: u64 where "STDERR = 2"

text \<open>\<^verbatim>\<open>PUTS_OUT\<close> and \<^verbatim>\<open>PUTS_ERR\<close> drop the value returned, as the calls below do.\<close>

definition puts_lit :: "'w user_env \<Rightarrow> u64 \<Rightarrow> cstring \<Rightarrow> mem \<times> 'w \<Rightarrow> (mem \<times> 'w) option" where
  "puts_lit e fd s w = map_option snd (user_sys_write e fd (literal e s) (of_nat (length s)) w)"

definition BUF_EQ_S :: "'w user_env \<Rightarrow> mem \<Rightarrow> u64 \<Rightarrow> cstring \<Rightarrow> bool" where
  "BUF_EQ_S e m buf s \<longleftrightarrow> user_strncmp m buf (literal e s) (of_nat (length s) + 1) = 0"

definition ascii :: "string \<Rightarrow> cstring" where
  "ascii = map of_char"

section \<open>init.c\<close>

definition init_echo :: "'w user_env \<Rightarrow> u64 \<Rightarrow> u64 \<Rightarrow> u64 \<Rightarrow> cstring \<Rightarrow> mem \<times> 'w \<Rightarrow> (mem \<times> 'w) option" where
  "init_echo e fd buf len prefix w = do {
     (n, w) \<leftarrow> user_sys_read e fd buf len w;
     if sint n > 0 then do {
       w \<leftarrow> (if prefix = [] then Some w else puts_lit e STDERR prefix w);
       (_, w) \<leftarrow> user_sys_write e STDOUT buf n w;
       Some w
     } else Some w
   }"

definition init_start :: "'w user_env \<Rightarrow> mem \<times> 'w \<Rightarrow> (mem \<times> 'w) option" where
  "init_start e w = do {
     w \<leftarrow> puts_lit e STDERR (ascii ''init start'' @ [10]) w;
     (r, w) \<leftarrow> user_sys_open e (literal e (ascii ''/root/hello.txt'')) 0 w;
     let fd = reg_int r;
     w \<leftarrow> (if fd \<ge> 0 then do {
         w \<leftarrow> init_echo e (of_int fd) (user_buf e) 512 [] w;
         (_, w) \<leftarrow> user_sys_close e (of_int fd) w;
         Some w
       } else Some w);
     w \<leftarrow> puts_lit e STDERR (ascii ''type here: '') w;
     w \<leftarrow> init_echo e STDIN (user_line e) 128 (ascii ''you typed: '') w;
     w \<leftarrow> puts_lit e STDERR (ascii ''init exit'' @ [10]) w;
     map_option snd (user_sys_exit e 0 w)
   }"

end
