(* ===== verification/Psh.thy ===== *)
theory Psh
  imports User
begin

text \<open>
  The shell \<^verbatim>\<open>user/src/psh/psh.c\<close>: one definition per built-in command and per loop, on the environment of theory
  \<^verbatim>\<open>User\<close>. The array \<^verbatim>\<open>argv\<close> is the list of its entries; the property below is that it never holds more
  than its size. The property shows what the shell makes of a line.
\<close>

section \<open>Splitting a line\<close>

definition PSH_BUF_MAX :: u64 where "PSH_BUF_MAX = 512"
definition PSH_ARGV_MAX :: u64 where "PSH_ARGV_MAX = PSH_BUF_MAX div 2 + 1"

partial_function (option) psh_split :: "mem \<Rightarrow> u64 \<Rightarrow> u64 \<Rightarrow> u64 \<Rightarrow> u64 list \<Rightarrow> (u64 list \<times> mem) option" where
  [code]: "psh_split m delim token saveptr argv =
     (if token \<noteq> 0 then do {
        (token', saveptr', m') \<leftarrow> user_strtokr m 0 delim saveptr;
        psh_split m' delim token' saveptr' (argv @ [token])
      } else Some (argv, m))"

definition psh_argv :: "mem \<Rightarrow> u64 \<Rightarrow> u64 \<Rightarrow> (u64 list \<times> mem) option" where
  "psh_argv m delim buf = do {
     (token, saveptr, m) \<leftarrow> user_strtokr m buf delim 0;
     psh_split m delim token saveptr []
   }"

section \<open>The commands\<close>

definition psh_write_arg :: "'w user_env \<Rightarrow> u64 \<Rightarrow> u64 \<Rightarrow> mem \<times> 'w \<Rightarrow> (mem \<times> 'w) option" where
  "psh_write_arg e fd arg w = map_option snd (user_sys_write e fd arg (user_strnlen (fst w) arg PSH_BUF_MAX) w)"

definition psh_complain :: "'w user_env \<Rightarrow> cstring \<Rightarrow> u64 \<Rightarrow> cstring \<Rightarrow> mem \<times> 'w \<Rightarrow> (mem \<times> 'w) option" where
  "psh_complain e before arg after w = do {
     w \<leftarrow> puts_lit e STDERR before w;
     w \<leftarrow> psh_write_arg e STDERR arg w;
     puts_lit e STDERR after w
   }"

fun psh_puts :: "'w user_env \<Rightarrow> cstring list \<Rightarrow> mem \<times> 'w \<Rightarrow> (mem \<times> 'w) option" where
  "psh_puts e [] w = Some w"
| "psh_puts e (s # ss) w = Option.bind (puts_lit e STDERR s w) (psh_puts e ss)"

definition psh_help :: "'w user_env \<Rightarrow> mem \<times> 'w \<Rightarrow> (mem \<times> 'w) option" where
  "psh_help e = psh_puts e
     [ascii ''Commands:'' @ [10], 9 # ascii ''help: print this help'' @ [10], 9 # ascii ''echo arg: print arg'' @ [10],
      9 # ascii ''cat arg: open arg and print its content'' @ [10], 9 # ascii ''ls arg: open arg and list its content'' @ [10],
      9 # ascii ''exit: exit psh'' @ [10]]"

fun psh_echo :: "'w user_env \<Rightarrow> u64 list \<Rightarrow> mem \<times> 'w \<Rightarrow> (mem \<times> 'w) option" where
  "psh_echo e [] w = puts_lit e STDOUT [10] w"
| "psh_echo e (arg # args) w = do {
     w \<leftarrow> psh_write_arg e STDOUT arg w;
     w \<leftarrow> puts_lit e STDOUT [32] w;
     psh_echo e args w
   }"

partial_function (option) psh_cat_loop :: "'w user_env \<Rightarrow> u64 \<Rightarrow> u64 \<Rightarrow> mem \<times> 'w \<Rightarrow> (mem \<times> 'w) option" where
  [code]: "psh_cat_loop e fd len w =
     (if sint len > 0 then do {
        (_, w) \<leftarrow> user_sys_write e STDOUT (user_line e) len w;
        (len, w) \<leftarrow> user_sys_read e fd (user_line e) 512 w;
        psh_cat_loop e fd len w
      } else Some w)"

text \<open>What \<^verbatim>\<open>cat\<close> and \<^verbatim>\<open>ls\<close> share: the file is opened, its content handled unless the first read fails, and closed.\<close>

definition psh_with_file ::
  "'w user_env \<Rightarrow> (u64 \<Rightarrow> 'w user_call) \<Rightarrow> (u64 \<Rightarrow> u64 \<Rightarrow> mem \<times> 'w \<Rightarrow> (mem \<times> 'w) option) \<Rightarrow> u64 \<Rightarrow> mem \<times> 'w \<Rightarrow> (mem \<times> 'w) option" where
  "psh_with_file e first body arg w = do {
     (r, w) \<leftarrow> user_sys_open e arg 0 w;
     let fd = reg_int r;
     if fd < 0 then psh_complain e (ascii ''Cannot open '' @ [39]) arg [39, 10] w
     else do {
       (len, w) \<leftarrow> first (of_int fd) w;
       w \<leftarrow> (if sint len \<ge> 0 then body (of_int fd) len w
             else psh_complain e (ascii ''Cannot read '' @ [39]) arg [39, 10] w);
       map_option snd (user_sys_close e (of_int fd) w)
     }
   }"

fun psh_cat :: "'w user_env \<Rightarrow> u64 list \<Rightarrow> mem \<times> 'w \<Rightarrow> (mem \<times> 'w) option" where
  "psh_cat e [] w = Some w"
| "psh_cat e (arg # args) w =
     Option.bind (psh_with_file e (\<lambda>fd. user_sys_read e fd (user_line e) 512) (psh_cat_loop e) arg w) (psh_cat e args)"

text \<open>The fields of \<^verbatim>\<open>struct linux_dirent64\<close>: \<^verbatim>\<open>d_reclen\<close> at 16, \<^verbatim>\<open>d_type\<close> at 18, \<^verbatim>\<open>d_name\<close> from 19 on.\<close>

partial_function (option) psh_ls_entries :: "'w user_env \<Rightarrow> u64 \<Rightarrow> u64 \<Rightarrow> mem \<times> 'w \<Rightarrow> (mem \<times> 'w) option" where
  [code]: "psh_ls_entries e len dirpi w =
     (if sint dirpi < sint len then do {
        let dirent = user_line e + dirpi;
        (_, w) \<leftarrow> user_sys_write e STDOUT (dirent + 19)
          (user_strnlen (fst w) (dirent + 19) (of_int (uint (load16 (fst w) (dirent + 16)) - 19))) w;
        w \<leftarrow> (if fst w (dirent + 18) = 4 then puts_lit e STDOUT [47] w else Some w);
        w \<leftarrow> puts_lit e STDOUT [10] w;
        if load16 (fst w) (dirent + 16) = 0 then Some w
        else psh_ls_entries e len (dirpi + ucast (load16 (fst w) (dirent + 16))) w
      } else Some w)"

partial_function (option) psh_ls_loop :: "'w user_env \<Rightarrow> u64 \<Rightarrow> u64 \<Rightarrow> mem \<times> 'w \<Rightarrow> (mem \<times> 'w) option" where
  [code]: "psh_ls_loop e fd len w =
     (if sint len > 0 then do {
        w \<leftarrow> psh_ls_entries e len 0 w;
        (len, w) \<leftarrow> user_sys_getdents64 e fd (user_line e) 512 w;
        psh_ls_loop e fd len w
      } else Some w)"

fun psh_ls :: "'w user_env \<Rightarrow> bool \<Rightarrow> u64 list \<Rightarrow> mem \<times> 'w \<Rightarrow> (mem \<times> 'w) option" where
  "psh_ls e many [] w = Some w"
| "psh_ls e many (arg # args) w =
     Option.bind (psh_with_file e (\<lambda>fd. user_sys_getdents64 e fd (user_line e) 512)
         (\<lambda>fd len w. do {
            w \<leftarrow> (if many then Option.bind (psh_write_arg e STDOUT arg w) (puts_lit e STDOUT [58, 10]) else Some w);
            psh_ls_loop e fd len w
          }) arg w)
       (psh_ls e many args)"

section \<open>The shell\<close>

text \<open>The flag tells whether the shell goes on.\<close>

definition psh_command :: "'w user_env \<Rightarrow> u64 list \<Rightarrow> mem \<times> 'w \<Rightarrow> (bool \<times> mem \<times> 'w) option" where
  "psh_command e argv w = (case argv of
       [] \<Rightarrow> Some (True, w)
     | cmd # args \<Rightarrow>
         if BUF_EQ_S e (fst w) cmd (ascii ''help'') then map_option (Pair True) (psh_help e w)
         else if BUF_EQ_S e (fst w) cmd (ascii ''echo'') then map_option (Pair True) (psh_echo e args w)
         else if BUF_EQ_S e (fst w) cmd (ascii ''cat'') then map_option (Pair True) (psh_cat e args w)
         else if BUF_EQ_S e (fst w) cmd (ascii ''ls'')
           then let args = (if args = [] then [literal e [47]] else args)
                in map_option (Pair True) (psh_ls e (length args + 1 > 2) args w)
         else if BUF_EQ_S e (fst w) cmd (ascii ''exit'') then Some (False, w)
         else map_option (Pair True) (psh_complain e (ascii ''Command '' @ [39]) cmd (39 # ascii '' not found'' @ [10]) w))"

definition psh_round :: "'w user_env \<Rightarrow> mem \<times> 'w \<Rightarrow> (bool \<times> mem \<times> 'w) option" where
  "psh_round e w = do {
     w \<leftarrow> puts_lit e STDOUT (ascii ''# '') w;
     (n, m, sys) \<leftarrow> user_sys_read e STDIN (user_buf e) PSH_BUF_MAX w;
     if sint n \<le> 0 then Some (True, m, sys)
     else do {
       (argv, m) \<leftarrow> psh_argv (m(user_buf e + (n - 1) := 0)) (literal e [32]) (user_buf e);
       psh_command e argv (m, sys)
     }
   }"

partial_function (option) psh_loop :: "'w user_env \<Rightarrow> mem \<times> 'w \<Rightarrow> (mem \<times> 'w) option" where
  [code]: "psh_loop e w = do {
     (more, w) \<leftarrow> psh_round e w;
     if more then psh_loop e w else Some w
   }"

definition psh_start :: "'w user_env \<Rightarrow> mem \<times> 'w \<Rightarrow> (mem \<times> 'w) option" where
  "psh_start e w = do {
     w \<leftarrow> puts_lit e STDOUT (ascii ''PjErOS shell'' @ [10]) w;
     w \<leftarrow> psh_loop e w;
     map_option snd (user_sys_exit e 0 w)
   }"

section \<open>What a line becomes\<close>

text \<open>One call of \<open>strtokr\<close>, by positions: the token starts after the leading delimiters and ends before the
  next delimiter, which is the only byte changed.\<close>

lemma strtokr_at:
  assumes n: "n = (if str \<noteq> 0 then str else saveptr)" "n \<noteq> 0" and s: "cstr m n s" and d: "cstr m d [c]"
    and ne: "dropWhile (\<lambda>x. x = c) s \<noteq> []"
  defines "k \<equiv> length (takeWhile (\<lambda>x. x = c) s)" and "t \<equiv> dropWhile (\<lambda>x. x = c) s"
  defines "tok \<equiv> takeWhile (\<lambda>x. x \<noteq> c) t" and "rest \<equiv> dropWhile (\<lambda>x. x \<noteq> c) t"
  defines "e \<equiv> n + of_nat k + of_nat (length tok)"
  shows "strtokr m str d saveptr =
    Some (n + of_nat k, if rest = [] then e else e + 1, if rest = [] then m else m(e := 0))"
proof -
  have t: "cstr m (n + of_nat k) t" using cstr_dropWhile [OF s, of "\<lambda>x. x = c"] by (simp add: k_def t_def)
  have skip: "skip_delims m d n = Some (n + of_nat k)" using skip_delims_cstr [OF d s] by (simp add: k_def)
  have te: "token_end m d (n + of_nat k) = Some e" using token_end_cstr [OF d t] by (simp add: e_def tok_def)
  have sn: "m n \<noteq> 0" using ne s by (cases s) auto
  have tz: "m (n + of_nat k) \<noteq> 0" using ne t by (cases t) (auto simp: t_def)
  have split: "t = tok @ rest" by (simp add: tok_def rest_def)
  have "m e = 0 \<longleftrightarrow> rest = []"
  proof (cases rest)
    case Nil
    then show ?thesis using cstr_end [of m "n + of_nat k" tok] t split by (simp add: e_def)
  next
    case (Cons x xs)
    then show ?thesis using t split by (auto simp: e_def cstr_append)
  qed
  then show ?thesis using n sn tz skip te by (auto simp: strtokr_def Let_def)
qed

lemma strtokr_none:
  assumes "n = (if str \<noteq> 0 then str else saveptr)" "n \<noteq> 0" "cstr m n s" "cstr m d [c]" "dropWhile (\<lambda>x. x = c) s = []"
  shows "\<exists>sp. strtokr m str d saveptr = Some (0, sp, m)"
proof (cases "m n = 0")
  case False
  have "skip_delims m d n = Some (n + of_nat (length (takeWhile (\<lambda>x. x = c) s)))" using skip_delims_cstr [OF assms(4,3)] by simp
  moreover have "m (n + of_nat (length (takeWhile (\<lambda>x. x = c) s))) = 0"
    using cstr_dropWhile [OF assms(3), of "\<lambda>x. x = c"] assms(5) by simp
  ultimately show ?thesis using assms(1,2) False by (simp add: strtokr_def Let_def)
qed (use assms(1,2) in \<open>simp add: strtokr_def Let_def\<close>)

lemma tokens_l_step:
  "tokens_l [c] s = (let t = dropWhile (\<lambda>x. x = c) s in
     if t = [] then [] else takeWhile (\<lambda>x. x \<noteq> c) t # tokens_l [c] (tl (dropWhile (\<lambda>x. x \<noteq> c) t)))"
  by (subst tokens_l.simps) (auto simp: strtokr_l_def Let_def)

text \<open>Two tokens are separated by a byte.\<close>

lemma tokens_l_count: "2 * length (tokens_l [c] s) \<le> length s + 1"
proof (induction s rule: length_induct)
  case (1 s)
  define t where "t = dropWhile (\<lambda>x. x = c) s"
  define r where "r = dropWhile (\<lambda>x. x \<noteq> c) t"
  show ?case
  proof (cases "t = []")
    case True
    then show ?thesis by (subst tokens_l_step) (simp add: t_def)
  next
    case False
    then have "hd t \<noteq> c" using hd_dropWhile [of "\<lambda>x. x = c" s] by (simp add: t_def)
    then have rt: "length r < length t" using False length_dropWhile_le [of "\<lambda>x. x \<noteq> c" "tl t"] by (cases t) (auto simp: r_def)
    moreover have ts: "length t \<le> length s" by (simp add: t_def length_dropWhile_le)
    ultimately have "length (tl r) < length s" by simp
    then have "2 * length (tokens_l [c] (tl r)) \<le> length (tl r) + 1" using 1 by blast
    moreover have "tokens_l [c] s = takeWhile (\<lambda>x. x \<noteq> c) t # tokens_l [c] (tl r)"
      using False by (subst tokens_l_step) (simp add: t_def r_def Let_def)
    moreover have "length r < length s" "0 < length s" using rt ts by linarith+
    ultimately show ?thesis by (cases r; cases s) auto
  qed
qed

lemma strtokr_step:
  assumes n: "n = (if str \<noteq> 0 then str else saveptr)" "n \<noteq> 0" and s: "cstr m n s" and d: "cstr m d [c]"
    and ne: "dropWhile (\<lambda>x. x = c) s \<noteq> []"
  obtains k j t r m' where "strtokr m str d saveptr = Some (n + of_nat k, n + of_nat j, m')"
    "tokens_l [c] s = t # tokens_l [c] r" "cstr m' (n + of_nat k) t" "cstr m' (n + of_nat j) r"
    "k + length t \<le> j" "j + length r = length s" "t \<noteq> []"
    "\<And>x. m' x \<noteq> m x \<Longrightarrow> m x \<noteq> 0 \<and> (\<exists>i < length s. x = n + of_nat i)"
proof -
  define k where "k = length (takeWhile (\<lambda>x. x = c) s)"
  define t where "t = dropWhile (\<lambda>x. x = c) s"
  define tok where "tok = takeWhile (\<lambda>x. x \<noteq> c) t"
  define rest where "rest = dropWhile (\<lambda>x. x \<noteq> c) t"
  have tc: "cstr m (n + of_nat k) t" using cstr_dropWhile [OF s, of "\<lambda>x. x = c"] by (simp add: k_def t_def)
  have split: "t = tok @ rest" by (simp add: tok_def rest_def)
  have tne: "t \<noteq> []" using ne by (simp add: t_def)
  then have tokne: "tok \<noteq> []" using hd_dropWhile [of "\<lambda>x. x = c" s] by (cases t) (auto simp: t_def tok_def)
  have len: "k + length tok + length rest = length s"
    using split arg_cong [OF takeWhile_dropWhile_id [of "\<lambda>x. x = c" s], of length] by (simp add: k_def t_def)
  have toks: "tokens_l [c] s = tok # tokens_l [c] (tl rest)"
    using tne by (subst tokens_l_step) (simp add: t_def tok_def rest_def Let_def)
  note at = strtokr_at [OF n s d ne, folded k_def t_def, folded tok_def rest_def]
  show thesis
  proof (cases rest)
    case Nil
    have "cstr m (n + of_nat (k + length tok)) []" using cstr_end [OF tc] split Nil by (simp add: add.assoc)
    then show thesis using that [of k "k + length tok" m tok "[]"] at toks tc split Nil tokne len by (simp add: add.assoc)
  next
    case (Cons x r)
    let ?e = "n + of_nat k + of_nat (length tok)"
    have cut: "cstr (m(?e := 0)) (n + of_nat k) tok" "cstr (m(?e := 0)) (?e + 1) r"
      using cstr_cut [of m "n + of_nat k" tok x r] tc split Cons by auto
    have e: "m ?e \<noteq> 0" using tc split Cons by (auto simp: cstr_append)
    have "\<exists>i < length s. ?e = n + of_nat i" using len Cons by (intro exI [of _ "k + length tok"]) (simp add: add.assoc)
    then have fr: "m x \<noteq> 0 \<and> (\<exists>i < length s. x = n + of_nat i)" if "(m(?e := 0)) x \<noteq> m x" for x
      using that e by (auto split: if_splits)
    have j: "n + of_nat (k + length tok + 1) = ?e + 1" by simp
    show thesis
    proof (rule that [OF _ _ cut(1) _ _ _ tokne fr])
      show "strtokr m str d saveptr = Some (n + of_nat k, n + of_nat (k + length tok + 1), m(?e := 0))"
        unfolding j using at Cons by simp
      show "cstr (m(?e := 0)) (n + of_nat (k + length tok + 1)) r" unfolding j by (rule cut(2))
    qed (use toks Cons len in simp_all)
  qed
qed

text \<open>What later calls leave alone: they change bytes from their position on, and only those that are not yet NUL.\<close>

lemma cstr_keep:
  assumes "cstr m p t" "unat p + length t \<le> unat n" "\<And>x. m' x \<noteq> m x \<Longrightarrow> m x \<noteq> 0 \<and> n \<le> x"
  shows "cstr m' p t"
  using assms(1,2)
proof (induction t arbitrary: p)
  case Nil
  then show ?case using assms(3) [of p] by auto
next
  case (Cons c t)
  have "m' p = m p" using assms(3) [of p] Cons.prems(2) by (auto simp: word_le_nat_alt)
  moreover have "unat (p + 1) = unat p + 1" using Cons.prems(2) unat_lt_u64 [of n] by (simp add: unat_add_u64)
  ultimately show ?case using Cons by simp
qed

lemma psh_split_tokens:
  assumes "cstr m saveptr s" "saveptr \<noteq> 0" "unat saveptr + length s < 2 ^ 64" "cstr m d [32]"
    "\<And>i. i < length s \<Longrightarrow> d \<noteq> saveptr + of_nat i"
    "list_all2 (\<lambda>p t. cstr m p t \<and> unat p + length t \<le> unat saveptr) argv ts"
  shows "\<exists>args m'. Option.bind (user_strtokr m 0 d saveptr) (\<lambda>(token, sp, m). psh_split m d token sp argv) = Some (args, m') \<and>
    list_all2 (cstr m') args (ts @ tokens_l [32] s) \<and>
    (\<forall>x. m' x \<noteq> m x \<longrightarrow> (\<exists>i < length s. x = saveptr + of_nat i))"
  using assms
proof (induction "length s" arbitrary: m saveptr s argv ts rule: less_induct)
  case less
  let ?t = "dropWhile (\<lambda>x. x = 32) s"
  show ?case
  proof (cases "?t = []")
    case True
    obtain sp where "strtokr m 0 d saveptr = Some (0, sp, m)"
      using strtokr_none [of saveptr 0 saveptr m s d 32] less.prems(1,2,4) True by auto
    then have "Option.bind (user_strtokr m 0 d saveptr) (\<lambda>(token, sp, m). psh_split m d token sp argv) = Some (argv, m)"
      by (simp add: psh_split.simps [of m d 0] user_strtokr_def)
    moreover have "tokens_l [32] s = []" using True by (subst tokens_l_step) simp
    ultimately show ?thesis using less.prems(6) by (auto elim: list_all2_mono)
  next
    case False
    obtain k j t r m' where st: "strtokr m 0 d saveptr = Some (saveptr + of_nat k, saveptr + of_nat j, m')"
      "tokens_l [32] s = t # tokens_l [32] r" "cstr m' (saveptr + of_nat k) t" "cstr m' (saveptr + of_nat j) r"
      "k + length t \<le> j" "j + length r = length s" "t \<noteq> []"
      and fr: "\<And>x. m' x \<noteq> m x \<Longrightarrow> m x \<noteq> 0 \<and> (\<exists>i < length s. x = saveptr + of_nat i)"
      by (rule strtokr_step [of saveptr 0 saveptr m s d 32, OF _ less.prems(2,1,4) False]) auto
    have pos: "unat (saveptr + of_nat i) = unat saveptr + i" if "i \<le> length s" for i
      using that less.prems(3) by (simp add: unat_add_u64 unat_of_nat_small)
    have nz: "saveptr + of_nat i \<noteq> 0" if "i \<le> length s" for i
      using pos [OF that] less.prems(2) by (metis add_is_0 unat_0 unat_eq_0)
    have ge: "m x \<noteq> 0 \<and> saveptr \<le> x" if "m' x \<noteq> m x" for x
      using fr [OF that] pos by (force simp: word_le_nat_alt)
    have dm: "cstr m' d [32]" using less.prems(4,5) fr [of d] fr [of "d + 1"] by auto
    have old: "list_all2 (\<lambda>p t. cstr m' p t \<and> unat p + length t \<le> unat (saveptr + of_nat j)) argv ts"
      using less.prems(6) st(6) pos [of j] by (auto elim!: list_all2_mono intro: cstr_keep [OF _ _ ge])
    have all: "list_all2 (\<lambda>p t. cstr m' p t \<and> unat p + length t \<le> unat (saveptr + of_nat j))
        (argv @ [saveptr + of_nat k]) (ts @ [t])"
      using old st(3,5,6) pos [of j] pos [of k] by (intro list_all2_appendI) auto
    have dn: "d \<noteq> saveptr + of_nat j + of_nat i" if "i < length r" for i
      using less.prems(5) [of "j + i"] that st(6) by (simp add: add.assoc)
    have shorter: "length r < length s" using st(5,6,7) by (cases t) auto
    obtain args m'' where ih: "Option.bind (user_strtokr m' 0 d (saveptr + of_nat j))
        (\<lambda>(token, sp, m). psh_split m d token sp (argv @ [saveptr + of_nat k])) = Some (args, m'')"
      "list_all2 (cstr m'') args ((ts @ [t]) @ tokens_l [32] r)"
      "\<forall>x. m'' x \<noteq> m' x \<longrightarrow> (\<exists>i < length r. x = saveptr + of_nat j + of_nat i)"
      using less.hyps [OF shorter st(4) nz _ dm dn all] st(5,6) pos [of j] less.prems(3) by auto
    have "saveptr + of_nat k \<noteq> 0" using nz [of k] st(5,6) by simp
    then have "Option.bind (user_strtokr m 0 d saveptr) (\<lambda>(token, sp, m). psh_split m d token sp argv) = Some (args, m'')"
      using st(1) ih(1) by (simp add: psh_split.simps [of m'] user_strtokr_def)
    moreover have "\<exists>i < length s. x = saveptr + of_nat i" if x: "m'' x \<noteq> m x" for x
    proof (cases "m'' x = m' x")
      case False
      then obtain i where "i < length r" "x = saveptr + of_nat (j + i)" using ih(3) by (auto simp: add.assoc)
      then show ?thesis using st(6) by (intro exI [of _ "j + i"]) simp
    qed (use fr [of x] x in auto)
    ultimately show ?thesis using ih(2) st(2) by auto
  qed
qed

text \<open>C22. Whatever line is typed, the shell splits it safely and exactly: the loop over \<^verbatim>\<open>strtokr\<close> ends, the arguments
  it collects are the words of the line between blanks, each a terminated string where \<^verbatim>\<open>argv\<close> points, there
  are fewer of them than the array \<^verbatim>\<open>argv\<close> has entries, and only bytes of the line have changed.\<close>

theorem psh_argv_words:
  assumes "cstr m buf s" "buf \<noteq> 0" "unat buf + length s < 2 ^ 64" "length s < unat PSH_BUF_MAX" "cstr m d [32]"
    "\<And>i. i < length s \<Longrightarrow> d \<noteq> buf + of_nat i"
  shows "\<exists>argv m'. psh_argv m d buf = Some (argv, m') \<and> list_all2 (cstr m') argv (tokens_l [32] s) \<and>
    length argv < unat PSH_ARGV_MAX \<and> (\<forall>x. m' x \<noteq> m x \<longrightarrow> (\<exists>i < length s. x = buf + of_nat i))"
proof -
  have "length (tokens_l [32] s) < unat PSH_ARGV_MAX"
    using tokens_l_count [of 32 s] assms(4) by (simp add: PSH_ARGV_MAX_def PSH_BUF_MAX_def)
  moreover have "strtokr m buf d 0 = strtokr m 0 d buf" using assms(2) by (simp add: strtokr_def)
  then have "psh_argv m d buf = Option.bind (user_strtokr m 0 d buf) (\<lambda>(token, sp, m). psh_split m d token sp [])"
    by (simp add: psh_argv_def user_strtokr_def)
  then obtain argv m' where "psh_argv m d buf = Some (argv, m')" "list_all2 (cstr m') argv (tokens_l [32] s)"
    "\<forall>x. m' x \<noteq> m x \<longrightarrow> (\<exists>i < length s. x = buf + of_nat i)"
    using psh_split_tokens [OF assms(1-3,5,6), of "[]" "[]"] by auto
  ultimately show ?thesis using list_all2_lengthD by fastforce
qed

definition psh_mem :: mem where
  "psh_mem = store_bytes (store_bytes (\<lambda>_. 0) 16 [108, 115, 32, 47, 97]) 32 [32]"

theorem psh_argv_words_witness:
  "\<exists>argv m'. psh_argv psh_mem 32 16 = Some (argv, m') \<and> list_all2 (cstr m') argv [[108, 115], [47, 97]] \<and>
    length argv < unat PSH_ARGV_MAX"
proof -
  have "cstr psh_mem 16 [108, 115, 32, 47, 97]" "cstr psh_mem 32 [32]" by (simp_all add: psh_mem_def)
  moreover have "tokens_l [32] [108, 115, 32, 47, 97] = [[108, 115], [47, 97]]"
    by (simp add: tokens_l_step [of 32 "[108, 115, 32, 47, 97]"] tokens_l_step [of 32 "[47, 97]"] Let_def)
  moreover have "(32 :: u64) \<noteq> 16 + of_nat i" if "i < length [108, 115, 32, 47, 97 :: u8]" for i
    using that by (auto simp: less_Suc_eq)
  ultimately show ?thesis
    using psh_argv_words [of psh_mem 16 "[108, 115, 32, 47, 97]" 32] by (auto simp: PSH_BUF_MAX_def)
qed

end
