(* ===== verification/Spec2Isabelle.thy ===== *)
theory Spec2Isabelle
  imports Ring_Buffer Kmemory_Correct Ldisc Kheap_Client Vmm_Destroy Vmm_Fault Uaccess Vfs_Correct Sched_Fair
    Fb_Correct File_Write Fd_Refs Tar_Correct Elf_Stack Syscall X86_Trap_Entry Aarch64_Trap_Entry Boot Psh
begin

text \<open>
  \<^bold>\<open>PrOS.\<close> A verification of PrOS, a small preemptive 64-bit kernel for x86-64 and AArch64 that is started by the Limine
  boot loader, and of its two user programs. All paths below are relative to \<^verbatim>\<open>src/\<close>.

  \<^bold>\<open>The program.\<close> \<^verbatim>\<open>kernel/src/core/main.c\<close> brings up the parts in turn. The physical page allocator (\<^verbatim>\<open>mm/pmm.c\<close>) takes the
  usable memory; the heap (\<^verbatim>\<open>mm/heap.c\<close>) takes pages from it; the virtual memory manager (\<^verbatim>\<open>mm/vmm.c\<close> on the page-table
  primitives of \<^verbatim>\<open>arch/*/arch.c\<close>) builds address spaces out of both and answers page faults. File systems (\<^verbatim>\<open>fs/vfs\<close>,
  \<^verbatim>\<open>fs/ramfs\<close>) live in the heap; \<^verbatim>\<open>fs/tar\<close> fills them from the initial archive. Tasks (\<^verbatim>\<open>proc/task.c\<close>) own a kernel stack
  (\<^verbatim>\<open>proc/kstack.c\<close>), an address space and open files (\<^verbatim>\<open>fs/vfs/file.c\<close>); the scheduler (\<^verbatim>\<open>proc/sched.c\<close>) runs them in
  a ring, through the assembly of \<^verbatim>\<open>switch.S\<close>. Traps enter through \<^verbatim>\<open>isr.S\<close>, \<^verbatim>\<open>syscall_entry.S\<close> and \<^verbatim>\<open>vectors.S\<close>, reach
  the handlers of \<^verbatim>\<open>idt.c\<close> and \<^verbatim>\<open>exceptions.c\<close>, and there the timer, the serial port, the page-fault handler or the
  table of system calls (\<^verbatim>\<open>syscall/syscall.c\<close>). The console (\<^verbatim>\<open>drivers/console_dev.c\<close>) joins the serial port, the line
  discipline (\<^verbatim>\<open>core/ldisc.c\<close>) and the framebuffer terminal (\<^verbatim>\<open>core/fb.c\<close>). \<^verbatim>\<open>proc/elf.c\<close> loads the first program, which
  calls the kernel through \<^verbatim>\<open>user/include/syscall.h\<close>; \<^verbatim>\<open>user/src/psh\<close> is a shell.

  \<^bold>\<open>How code becomes definitions.\<close> Memory is a function from 64-bit addresses to bytes, and integers have the width of the
  source. Structures the code lays over memory itself (heap blocks, free pages, page tables, frames, ELF and tar
  headers, strings) are read and written there byte by byte; structures only reached through pointers of their own
  (tasks, open files, file-system nodes) are records in a store. The state grows with the parts: \<open>pmm_state\<close>,
  \<open>heap_state\<close>, \<open>vmm_state\<close>, \<open>sched_state\<close>, \<open>kernel_state\<close> and \<open>proc_state\<close> extend each other, so that an operation of
  one part applies unchanged inside the others. A panic, a halt and a pointer that leads nowhere are \<open>None\<close>; error
  codes are the integers the code returns. A function that is left by a context switch is split at the switch into
  two definitions. What depends on the architecture takes an argument of type \<open>arch\<close>.

  \<^bold>\<open>Theories, and what their lemmas show.\<close>
  \<^item> \<^verbatim>\<open>Prelude\<close>, \<^verbatim>\<open>CMem\<close>: words, the byte memory, little-endian loads and stores, and when they do not interfere.
  \<^item> \<^verbatim>\<open>Kmemory\<close>, \<^verbatim>\<open>Kmemory_Correct\<close> (\<^verbatim>\<open>core/memory.c\<close>): every routine equals its counterpart on lists; \<open>memmove\<close> copies
    overlapping ranges, \<open>strtokr\<close> tokenises.
  \<^item> \<^verbatim>\<open>Ring_Buffer\<close>, \<^verbatim>\<open>Ldisc\<close> (\<^verbatim>\<open>core/ring_buffer.c\<close>, \<^verbatim>\<open>core/ldisc.c\<close>): interfaces \<open>bounded_fifo\<close> and \<open>line_discipline\<close>; order
    is kept, the newest bytes are dropped, the echo agrees with the edited line.
  \<^item> \<^verbatim>\<open>Pmm\<close> (\<^verbatim>\<open>mm/pmm.c\<close>, \<^verbatim>\<open>core/hhdm.c\<close>): interface \<open>page_allocator\<close>; blocks in use never overlap each other or the free
    list, however calls interleave.
  \<^item> \<^verbatim>\<open>Kheap\<close>, \<^verbatim>\<open>Kheap_Alloc\<close>, \<^verbatim>\<open>Kheap_Client\<close> (\<^verbatim>\<open>mm/heap.c\<close>): interface \<open>kernel_heap\<close>; the block list stays a partition,
    live blocks are disjoint and keep their contents, every call returns.
  \<^item> \<^verbatim>\<open>Arch_Pte\<close>, \<^verbatim>\<open>Vmm\<close>, \<^verbatim>\<open>Vmm_Space\<close>, \<^verbatim>\<open>Vmm_Ops\<close>, \<^verbatim>\<open>Vmm_Client\<close>, \<^verbatim>\<open>Vmm_Fault\<close>, \<^verbatim>\<open>Vmm_Destroy\<close> (\<^verbatim>\<open>mm/vmm.c\<close>, \<^verbatim>\<open>arch/*/arch.c\<close>):
    interfaces \<open>pte_codec\<close> and \<open>address_spaces\<close>; page tables implement maps from pages to frames, faults are answered
    only within the demand range, destruction gives back exactly the pages of the context.
  \<^item> \<^verbatim>\<open>Uaccess\<close> (\<^verbatim>\<open>mm/uaccess.c\<close>, \<^verbatim>\<open>proc/kstack.c\<close>): copies stay in the user half; kernel stacks keep their guard.
  \<^item> \<^verbatim>\<open>Ramfs\<close>, \<^verbatim>\<open>Ramfs_Data\<close>, \<^verbatim>\<open>Ramfs_File\<close>, \<^verbatim>\<open>Ramfs_Tree\<close> (\<^verbatim>\<open>fs/ramfs/ramfs.c\<close>): interface \<open>byte_file\<close>; the three-level page
    table of a file implements the list of its bytes.
  \<^item> \<^verbatim>\<open>Vfs\<close>, \<^verbatim>\<open>Vfs_Path\<close>, \<^verbatim>\<open>Vfs_Walk\<close>, \<^verbatim>\<open>Vfs_Correct\<close> (\<^verbatim>\<open>fs/vfs/vfs.c\<close>): what is created is found, nothing else moves; two of
    the properties state where the code does less than it means to.
  \<^item> \<^verbatim>\<open>Arch_Frame\<close>, \<^verbatim>\<open>Task_Frame\<close>, \<^verbatim>\<open>Sched\<close>, \<^verbatim>\<open>Sched_Ring\<close>, \<^verbatim>\<open>Sched_System\<close>, \<^verbatim>\<open>Sched_Fair\<close> (\<^verbatim>\<open>proc/sched.c\<close>, the frames of
    \<^verbatim>\<open>arch.c\<close>, \<^verbatim>\<open>core/spinlock.c\<close>, \<^verbatim>\<open>core/timer.c\<close>): one task runs at a time, a ready task is reached within one round,
    a sleeping task runs only after its wakeup.
  \<^item> \<^verbatim>\<open>Fb_Font\<close>, \<^verbatim>\<open>Fb\<close>, \<^verbatim>\<open>Fb_Correct\<close> (\<^verbatim>\<open>core/fb.c\<close>, \<^verbatim>\<open>core/console.c\<close>): the terminal writes only to the screen.
  \<^item> \<^verbatim>\<open>Kernel_State\<close>, \<^verbatim>\<open>Files\<close>, \<^verbatim>\<open>File_Io\<close>, \<^verbatim>\<open>File_Write\<close> (\<^verbatim>\<open>drivers/console_dev.c\<close>, \<^verbatim>\<open>fs/vfs/file.c\<close>): what is written is what
    is read, through the bounce buffer and the page tables of the caller.
  \<^item> \<^verbatim>\<open>Task\<close>, \<^verbatim>\<open>Fd_Refs\<close> (\<^verbatim>\<open>proc/task.c\<close>, \<^verbatim>\<open>arch/*/fpu_state.c\<close>): the counts of open files are exact under every operation.
  \<^item> \<^verbatim>\<open>Tar\<close>, \<^verbatim>\<open>Tar_Correct\<close> (\<^verbatim>\<open>fs/tar/tar.c\<close>): a file of the archive is found at its path with its bytes.
  \<^item> \<^verbatim>\<open>Elf\<close>, \<^verbatim>\<open>Elf_Stack\<close> (\<^verbatim>\<open>proc/elf.c\<close>): the first stack has the layout of the System V ABI.
  \<^item> \<^verbatim>\<open>Syscall\<close> (\<^verbatim>\<open>syscall/syscall.c\<close>, \<^verbatim>\<open>asm/unistd.h\<close>): every number reaches its handler, every other number is refused.
  \<^item> \<^verbatim>\<open>Devices\<close>, \<^verbatim>\<open>Trap\<close> (\<^verbatim>\<open>pic.c\<close>, \<^verbatim>\<open>lapic.c\<close>, \<^verbatim>\<open>serial.c\<close>, \<^verbatim>\<open>idt.c\<close>, \<^verbatim>\<open>gic.c\<close>, \<^verbatim>\<open>timer.c\<close>, \<^verbatim>\<open>exceptions.c\<close>): the drivers as reads and
    logged writes of registers, and the handlers of both architectures; masks change one line, the descriptor of the
    task state segment names its address, the system-call registers name the segments of the frames.
  \<^item> \<^verbatim>\<open>Cpu_Words\<close>, \<^verbatim>\<open>X86_Context\<close>, \<^verbatim>\<open>X86_Trap_Entry\<close>, \<^verbatim>\<open>Aarch64_Context\<close>, \<^verbatim>\<open>Aarch64_Trap_Entry\<close> (the assembly): a switched task
    resumes where it called, a trap is transparent, a system call changes only the registers it may.
  \<^item> \<^verbatim>\<open>Boot\<close> (\<^verbatim>\<open>core/main.c\<close>): the start as a composition of the parts above, and the command line.
  \<^item> \<^verbatim>\<open>User\<close>, \<^verbatim>\<open>Psh\<close> (\<^verbatim>\<open>user/\<close>): the wrappers use the numbers of the kernel's table; the shell splits a line into its
    words within the bounds of its array.

  \<^bold>\<open>Loops and bounds.\<close> A counted loop is a recursive function with a measure. A loop over a list in memory, a string or a
  run queue may not end in a corrupt memory, and is a partial function into \<open>option\<close>; the properties then state that
  it returns whenever the invariant holds. There is no fuel. Sizes and widths are those of the source: 64-bit sums
  wrap, and a property that needs a sum not to wrap says so in a hypothesis.

  \<^bold>\<open>Parameters.\<close> The answers of Limine, the addresses chosen by the linker, the content of device registers, the number
  of an acknowledged interrupt and, for user programs, the effect of the trap instruction are arguments. The
  \<^verbatim>\<open>printf\<close> of the kernel is third-party code: messages are left out, and the two uses of \<^verbatim>\<open>snprintf\<close> that copy a
  string are modelled as the copy they are.

  \<^bold>\<open>Not modelled.\<close> Single privileged instructions without an effect on memory (TLB maintenance, halting, powering off,
  loading descriptor tables), the move of the AArch64 kernel from one stack pointer to the other at start-up,
  what the devices make of their registers, messages and dumps, the self-tests in \<^verbatim>\<open>core/test\<close>, the declarations
  of requests in \<^verbatim>\<open>core/boot.c\<close>, and the build files. There is one processor, as in the code: interleaving is that of
  traps, switches and calls.
\<close>

end
